(* ===== verification/Go_Prelude.thy ===== *)
theory Go_Prelude
  imports Main "HOL-Library.Word" "HOL-Library.Multiset"
begin

text \<open>
  Shared vocabulary of the development: the Go run-time behaviour the component theories rely on,
  the theorem collections their proofs are driven by, and generic lemmas on ring indices, lists
  and multisets.

  \<^item> A Go pointer is an address (\<open>addr\<close>), a possibly nil pointer an \<open>addr option\<close>.
  \<^item> A value of type \<open>'a go\<close> is the result of Go code that may panic (nil dereference, index out
    of range, failed type assertion, explicit \<^verbatim>\<open>panic\<close>): \<open>None\<close> is the panic, \<open>Some\<close> the result.
  \<^item> A Go \<^verbatim>\<open>error\<close> value is an \<open>error option\<close>; \<open>None\<close> is \<^verbatim>\<open>nil\<close>.  A value of type \<open>error\<close> is the chain
    of errors that \<^verbatim>\<open>errors.Is\<close> and \<^verbatim>\<open>errors.As\<close> unwrap, outermost first.
\<close>

section \<open>Go values\<close>

type_synonym addr = nat
type_synonym 'a go = "'a option"

text \<open>The error values of the repository and the ones it tests for with \<^verbatim>\<open>errors.Is\<close> / \<^verbatim>\<open>errors.As\<close>.\<close>

text \<open>The type ids of a thrift transport exception, by name.\<close>

datatype transport_type =
    UNKNOWN_TRANSPORT_EXCEPTION | NOT_OPEN | ALREADY_OPEN | TIMED_OUT | END_OF_FILE | OTHER_TRANSPORT int

datatype errkind =
    ErrPoolWaitQueueFull
  | ErrPoolWaitTimeout
  | ErrPoolClosed
  | ErrNoValidRPCServer
  | ContextCanceled
  | ContextDeadlineExceeded
  | TTransportException transport_type
  | TProtocolException int
  | IoEOF
  | IoErrUnexpectedEOF
  | NetErrClosed
  | ECONNRESET
  | ECONNABORTED
  | EPIPE
  | ENOTCONN
  | NetError bool
  | ErrorText string

type_synonym error = "errkind list"

text \<open>\<^verbatim>\<open>errors.Is(err, target)\<close> for the comparable sentinel values above.\<close>

definition errors_Is :: "error \<Rightarrow> errkind \<Rightarrow> bool" where
  "errors_Is err target = (target \<in> set err)"

text \<open>\<^verbatim>\<open>errors.As\<close> with a target type: the first error of the chain that has the type.\<close>

fun errors_As :: "(errkind \<Rightarrow> 'a option) \<Rightarrow> error \<Rightarrow> 'a option" where
  "errors_As sel [] = None"
| "errors_As sel (e # es) = (case sel e of Some x \<Rightarrow> Some x | None \<Rightarrow> errors_As sel es)"

fun as_TTransportException :: "errkind \<Rightarrow> transport_type option" where
  "as_TTransportException (TTransportException t) = Some t"
| "as_TTransportException _ = None"

fun as_TProtocolException :: "errkind \<Rightarrow> int option" where
  "as_TProtocolException (TProtocolException t) = Some t"
| "as_TProtocolException _ = None"

fun as_NetError :: "errkind \<Rightarrow> bool option" where
  "as_NetError (NetError tmo) = Some tmo"
| "as_NetError _ = None"

text \<open>\<^verbatim>\<open>errors.Join(a, b)\<close>: nil arguments are dropped, and nil is returned when nothing is left.\<close>

fun errors_Join :: "error option \<Rightarrow> error option \<Rightarrow> error option" where
  "errors_Join None b = b"
| "errors_Join (Some a) None = Some a"
| "errors_Join (Some a) (Some b) = Some (a @ b)"

section \<open>Theorem collections\<close>

named_theorems ring_simps \<open>facts about the idle ring, stated over its list abstraction\<close>
named_theorems pool_defs \<open>definitions of the critical sections of the connection pool\<close>
named_theorems pool_intros \<open>preservation facts of the connection pool invariant\<close>

section \<open>Ring indices\<close>

lemma mod_add_Suc_ring:
  fixes h s n :: nat
  assumes "h < n" "s < n"
  shows "(if Suc ((h + s) mod n) = n then 0 else Suc ((h + s) mod n)) = (h + Suc s) mod n"
  using assms mod_Suc [of "h + s" n] by (simp split: if_splits)

lemma ring_index_inj:
  fixes h i j n :: nat
  assumes "i < n" "j < n" "(h + i) mod n = (h + j) mod n"
  shows "i = j"
proof -
  have aux: "a = b" if "a < n" "b < n" "a \<le> b" "(h + a) mod n = (h + b) mod n" for a b
  proof -
    from that(3,4) have "n dvd (h + b) - (h + a)"
      by (metis add_le_cancel_left mod_eq_dvd_iff_nat)
    then have "n dvd b - a" by simp
    with that(2) have "b - a = 0"
      by (meson dvd_imp_le leD less_imp_diff_less zero_less_iff_neq_zero)
    with that(3) show ?thesis by simp
  qed
  show ?thesis
    using aux [OF assms(1,2)] aux [OF assms(2,1)] assms(3) by (cases "i \<le> j") auto
qed

lemma ring_index_pred:
  fixes h s n :: nat
  assumes "h < n" "0 < s" "s \<le> n"
  shows "(if (h + s) mod n = 0 then n else (h + s) mod n) - 1 = (h + (s - 1)) mod n"
  using assms mod_Suc [of "h + (s - 1)" n] by (cases s) (auto split: if_splits)

section \<open>Lists and multisets\<close>

text \<open>Multisets without repetition.\<close>

definition once :: "'a multiset \<Rightarrow> bool" where
  "once M \<longleftrightarrow> (\<forall>a. count M a \<le> 1)"

lemma once_empty [simp]: "once {#}"
  by (simp add: once_def)

lemma once_add_mset [simp]: "once (add_mset a M) \<longleftrightarrow> a \<notin># M \<and> once M"
proof
  assume "once (add_mset a M)"
  then have *: "count (add_mset a M) b \<le> 1" for b by (simp add: once_def)
  have "count M b \<le> 1" for b using * [of b] by (simp split: if_splits)
  with * [of a] show "a \<notin># M \<and> once M" by (simp add: once_def count_eq_zero_iff)
next
  assume "a \<notin># M \<and> once M"
  then show "once (add_mset a M)" by (auto simp: once_def not_in_iff)
qed

lemma once_mset [simp]: "once (mset xs) \<longleftrightarrow> distinct xs"
  by (induction xs) auto

lemma once_union1: "once (A + B) \<Longrightarrow> once B"
  by (induction A) auto

lemma once_disjoint: "once (A + B) \<Longrightarrow> a \<in># A \<Longrightarrow> a \<notin># B"
proof
  assume "once (A + B)" "a \<in># A" "a \<in># B"
  then have "count A a + count B a \<le> 1" "1 \<le> count A a" "1 \<le> count B a" by (simp_all add: once_def Suc_le_eq)
  then show False by simp
qed

lemma last_map_upt: "0 < n \<Longrightarrow> last (map f [0..<n]) = f (n - 1)"
  by (cases n) auto

lemma butlast_map_upt: "butlast (map f [0..<n]) = map f [0..<n - 1]"
  by (cases n) auto

lemma tl_map_upt: "tl (map f [0..<n]) = map (\<lambda>i. f (Suc i)) [0..<n - 1]"
  by (induction n) (auto simp: map_Suc_upt [symmetric] upt_conv_Cons simp del: upt_Suc)

end
