(* ===== verification/IdleQueue.thy ===== *)
theory IdleQueue
  imports Go_Prelude
begin

text \<open>
  The fixed-capacity ring of idle connections (\<^verbatim>\<open>gpool/idle_queue.go\<close>).  The ring is modelled with its
  slice, both cursors and its size; a slice index out of range is a panic.  The ring is shown to
  refine a bounded double-ended queue: the locale \<open>bounded_deque\<close> is the contract the pool relies on,
  and the ring is an interpretation of it.
\<close>

section \<open>The ring\<close>

record 'c idleQueue =
  iq_items :: "'c option list"
  iq_head :: nat
  iq_tail :: nat
  iq_size :: nat

definition newIdleQueue :: "int \<Rightarrow> 'c idleQueue" where
  "newIdleQueue capacity =
     (let capacity = (if capacity < 0 then 0 else capacity)
      in \<lparr>iq_items = replicate (nat capacity) None, iq_head = 0, iq_tail = 0, iq_size = 0\<rparr>)"

definition idleQueue_Len :: "'c idleQueue \<Rightarrow> nat" where
  "idleQueue_Len q = iq_size q"

definition idleQueue_Cap :: "'c idleQueue \<Rightarrow> nat" where
  "idleQueue_Cap q = length (iq_items q)"

definition idleQueue_Push :: "'c idleQueue \<Rightarrow> 'c option \<Rightarrow> (bool \<times> 'c idleQueue) go" where
  "idleQueue_Push q pc =
     (if pc = None \<or> iq_size q = length (iq_items q) then Some (False, q)
      else if \<not> iq_tail q < length (iq_items q) then None
      else
        let q = q\<lparr>iq_items := (iq_items q)[iq_tail q := pc]\<rparr>;
            q = q\<lparr>iq_tail := Suc (iq_tail q)\<rparr>;
            q = (if iq_tail q = length (iq_items q) then q\<lparr>iq_tail := 0\<rparr> else q);
            q = q\<lparr>iq_size := Suc (iq_size q)\<rparr>
        in Some (True, q))"

definition idleQueue_Pop :: "'c idleQueue \<Rightarrow> ('c option \<times> 'c idleQueue) go" where
  "idleQueue_Pop q =
     (if iq_size q = 0 then Some (None, q)
      else if \<not> iq_head q < length (iq_items q) then None
      else
        let pc = iq_items q ! iq_head q;
            q = q\<lparr>iq_items := (iq_items q)[iq_head q := None]\<rparr>;
            q = q\<lparr>iq_head := Suc (iq_head q)\<rparr>;
            q = (if iq_head q = length (iq_items q) then q\<lparr>iq_head := 0\<rparr> else q);
            q = q\<lparr>iq_size := iq_size q - 1\<rparr>
        in Some (pc, q))"

definition idleQueue_PopNewest :: "'c idleQueue \<Rightarrow> ('c option \<times> 'c idleQueue) go" where
  "idleQueue_PopNewest q =
     (if iq_size q = 0 then Some (None, q)
      else
        let q = (if iq_tail q = 0 then q\<lparr>iq_tail := length (iq_items q)\<rparr> else q) in
        if iq_tail q = 0 \<or> \<not> iq_tail q - 1 < length (iq_items q) then None
        else
          let q = q\<lparr>iq_tail := iq_tail q - 1\<rparr>;
              pc = iq_items q ! iq_tail q;
              q = q\<lparr>iq_items := (iq_items q)[iq_tail q := None]\<rparr>;
              q = q\<lparr>iq_size := iq_size q - 1\<rparr>
          in Some (pc, q))"

section \<open>Abstraction and invariant\<close>

text \<open>The connections of the ring, oldest first.\<close>

definition iq_slot :: "'c idleQueue \<Rightarrow> nat \<Rightarrow> nat" where
  "iq_slot q i = (iq_head q + i) mod length (iq_items q)"

definition iq_list :: "'c idleQueue \<Rightarrow> 'c list" where
  "iq_list q = map (\<lambda>i. the (iq_items q ! iq_slot q i)) [0..<iq_size q]"

text \<open>
  Well-formed rings: the cursors are in range and \<open>size\<close> apart, the slots between them hold a
  connection and all others have been reset to nil, so the ring keeps no reference to a connection
  it has given away.
\<close>

definition iq_inv :: "'c idleQueue \<Rightarrow> bool" where
  "iq_inv q \<longleftrightarrow>
     iq_size q \<le> length (iq_items q) \<and>
     (iq_items q = [] \<longrightarrow> iq_head q = 0 \<and> iq_tail q = 0) \<and>
     (iq_items q \<noteq> [] \<longrightarrow> iq_head q < length (iq_items q) \<and> iq_tail q = iq_slot q (iq_size q)) \<and>
     (\<forall>i < length (iq_items q). iq_items q ! iq_slot q i = None \<longleftrightarrow> iq_size q \<le> i)"

lemma iq_slot_less [simp]: "iq_items q \<noteq> [] \<Longrightarrow> iq_slot q i < length (iq_items q)"
  by (simp add: iq_slot_def)

lemma iq_slot_inj:
  "i < length (iq_items q) \<Longrightarrow> j < length (iq_items q) \<Longrightarrow> iq_slot q i = iq_slot q j \<longleftrightarrow> i = j"
  by (auto simp: iq_slot_def dest: ring_index_inj)

lemma length_iq_list [simp]: "length (iq_list q) = iq_size q"
  by (simp add: iq_list_def)

lemma iq_invI:
  assumes "iq_items q \<noteq> []" "iq_size q \<le> length (iq_items q)" "iq_head q < length (iq_items q)"
    "iq_tail q = iq_slot q (iq_size q)"
    "\<And>i. i < length (iq_items q) \<Longrightarrow> iq_items q ! iq_slot q i = None \<longleftrightarrow> iq_size q \<le> i"
  shows "iq_inv q"
  using assms by (simp add: iq_inv_def)

lemma iq_inv_tail_less: "iq_inv q \<Longrightarrow> iq_items q \<noteq> [] \<Longrightarrow> iq_tail q < length (iq_items q)"
  by (simp add: iq_inv_def)

section \<open>Every operation keeps the invariant and acts on the list\<close>

lemma iq_new_inv: "iq_inv (newIdleQueue n)"
  by (auto simp: iq_inv_def newIdleQueue_def iq_slot_def Let_def)

lemma iq_new_list: "iq_list (newIdleQueue n) = []"
  by (simp add: iq_list_def newIdleQueue_def Let_def)

lemma iq_new_cap: "idleQueue_Cap (newIdleQueue n) = nat n"
  by (simp add: idleQueue_Cap_def newIdleQueue_def Let_def)

lemma iq_push_full:
  "iq_inv q \<Longrightarrow> length (iq_list q) = idleQueue_Cap q \<Longrightarrow> idleQueue_Push q pc = Some (False, q)"
  by (simp add: idleQueue_Push_def idleQueue_Cap_def)

lemma iq_push_nil: "idleQueue_Push q None = Some (False, q)"
  by (simp add: idleQueue_Push_def)

lemma iq_push_ok:
  assumes inv: "iq_inv q" and room: "length (iq_list q) < idleQueue_Cap q"
  obtains q' where "idleQueue_Push q (Some c) = Some (True, q')" "iq_inv q'"
    "iq_list q' = iq_list q @ [c]" "idleQueue_Cap q' = idleQueue_Cap q"
proof -
  let ?n = "length (iq_items q)" and ?s = "iq_size q" and ?h = "iq_head q"
  have s: "?s < ?n" and ne: "iq_items q \<noteq> []"
    using room by (auto simp: idleQueue_Cap_def)
  have h: "?h < ?n" and t: "iq_tail q = iq_slot q ?s"
    using inv ne by (auto simp: iq_inv_def)
  define q' where "q' = q\<lparr>iq_items := (iq_items q)[iq_slot q ?s := Some c],
      iq_tail := (?h + Suc ?s) mod ?n, iq_size := Suc ?s\<rparr>"
  have push: "idleQueue_Push q (Some c) = Some (True, q')"
    using s h ne t mod_add_Suc_ring [OF h s]
    by (auto simp: idleQueue_Push_def q'_def iq_slot_def Let_def split: if_splits)
  have slot: "iq_slot q' i = iq_slot q i" for i
    by (simp add: iq_slot_def q'_def)
  have item: "iq_items q' ! iq_slot q i = (if i = ?s then Some c else iq_items q ! iq_slot q i)"
    if "i < ?n" for i
    using that s ne by (simp add: q'_def nth_list_update iq_slot_inj)
  have sizes: "length (iq_items q') = ?n" "iq_size q' = Suc ?s" "iq_head q' = ?h"
    by (simp_all add: q'_def)
  have "iq_inv q'"
  proof (rule iq_invI)
    show "iq_tail q' = iq_slot q' (iq_size q')"
      by (simp add: slot sizes) (simp add: q'_def iq_slot_def)
    show "iq_items q' ! iq_slot q' i = None \<longleftrightarrow> iq_size q' \<le> i" if "i < length (iq_items q')" for i
      using that inv s by (auto simp: slot item sizes iq_inv_def)
  qed (use s h ne sizes in auto)
  moreover have "iq_list q' = iq_list q @ [c]"
  proof -
    show ?thesis
      using s by (auto simp: iq_list_def slot item sizes)
  qed
  ultimately show thesis
    using that push by (simp add: idleQueue_Cap_def q'_def)
qed

lemma iq_pop_empty: "iq_list q = [] \<Longrightarrow> idleQueue_Pop q = Some (None, q)"
  by (simp add: idleQueue_Pop_def iq_list_def)

lemma iq_pop_newest_empty: "iq_list q = [] \<Longrightarrow> idleQueue_PopNewest q = Some (None, q)"
  by (simp add: idleQueue_PopNewest_def iq_list_def)

lemma iq_pop_ok:
  assumes inv: "iq_inv q" and ne: "iq_list q \<noteq> []"
  obtains q' where "idleQueue_Pop q = Some (Some (hd (iq_list q)), q')" "iq_inv q'"
    "iq_list q' = tl (iq_list q)" "idleQueue_Cap q' = idleQueue_Cap q"
proof -
  let ?n = "length (iq_items q)" and ?s = "iq_size q" and ?h = "iq_head q"
  have s0: "0 < ?s" using ne by (simp add: iq_list_def)
  have s: "?s \<le> ?n" using inv by (simp add: iq_inv_def)
  then have items: "iq_items q \<noteq> []" using s0 by auto
  have h: "?h < ?n" and t: "iq_tail q = iq_slot q ?s"
    using inv items by (auto simp: iq_inv_def)
  have sl0: "iq_slot q 0 = ?h" using h by (simp add: iq_slot_def)
  obtain c where c: "iq_items q ! ?h = Some c"
    using inv s0 s sl0 items by (metis iq_inv_def length_greater_0_conv not_le option.exhaust)
  have hd: "hd (iq_list q) = c"
    using s0 c sl0 by (simp add: iq_list_def upt_conv_Cons)
  define q' where "q' = q\<lparr>iq_items := (iq_items q)[?h := None],
      iq_head := (?h + 1) mod ?n, iq_size := ?s - 1\<rparr>"
  have pop: "idleQueue_Pop q = Some (Some c, q')"
    using s0 h c mod_add_Suc_ring [OF h, of 0] h
    by (auto simp: idleQueue_Pop_def q'_def Let_def split: if_splits)
  have slot: "iq_slot q' i = iq_slot q (Suc i)" for i
    by (simp add: iq_slot_def q'_def mod_add_left_eq)
  have item: "iq_items q' ! iq_slot q j = (if j = 0 then None else iq_items q ! iq_slot q j)"
    if "j < ?n" for j
    using that items h sl0 iq_slot_inj [of j q 0] by (auto simp: q'_def nth_list_update)
  have last: "iq_slot q ?n = ?h" using h by (simp add: iq_slot_def)
  have "iq_items q' ! iq_slot q' i = None \<longleftrightarrow> ?s - 1 \<le> i" if i: "i < ?n" for i
  proof (cases "Suc i < ?n")
    case True
    then show ?thesis using inv item [of "Suc i"] by (auto simp: slot iq_inv_def)
  next
    case False
    with i have "Suc i = ?n" by simp
    then have "iq_slot q' i = ?h" using last slot by metis
    with h False s show ?thesis by (auto simp: q'_def)
  qed
  then have "iq_inv q'"
    using h s s0 items t slot [of "?s - 1"] by (auto simp: iq_inv_def q'_def)
  moreover have "iq_list q' = tl (iq_list q)"
  proof -
    have "iq_size q' = ?s - 1" by (simp add: q'_def)
    then show ?thesis
      using s s0 by (auto simp: iq_list_def tl_map_upt slot item)
  qed
  ultimately show thesis
    using that [of q'] pop hd by (simp add: idleQueue_Cap_def q'_def)
qed

lemma iq_pop_newest_ok:
  assumes inv: "iq_inv q" and ne: "iq_list q \<noteq> []"
  obtains q' where "idleQueue_PopNewest q = Some (Some (last (iq_list q)), q')" "iq_inv q'"
    "iq_list q' = butlast (iq_list q)" "idleQueue_Cap q' = idleQueue_Cap q"
proof -
  let ?n = "length (iq_items q)" and ?s = "iq_size q" and ?h = "iq_head q"
  have s0: "0 < ?s" using ne by (simp add: iq_list_def)
  have s: "?s \<le> ?n" using inv by (simp add: iq_inv_def)
  then have items: "iq_items q \<noteq> []" using s0 by auto
  have h: "?h < ?n" and t: "iq_tail q = iq_slot q ?s"
    using inv items by (auto simp: iq_inv_def)
  let ?p = "iq_slot q (?s - 1)"
  have p: "(if iq_tail q = 0 then ?n else iq_tail q) - 1 = ?p"
    unfolding t iq_slot_def by (rule ring_index_pred [OF h s0 s])
  obtain c where c: "iq_items q ! ?p = Some c"
    using inv s0 s unfolding iq_inv_def
    by (metis One_nat_def Suc_pred lessI less_le_trans not_le option.exhaust)
  have lst: "last (iq_list q) = c"
    using s0 c by (simp add: iq_list_def last_map_upt)
  define q' where "q' = q\<lparr>iq_items := (iq_items q)[?p := None], iq_tail := ?p, iq_size := ?s - 1\<rparr>"
  have pn: "?p < ?n" using items by simp
  have pop: "idleQueue_PopNewest q = Some (Some c, q')"
    using s0 p pn c items by (auto simp: idleQueue_PopNewest_def q'_def Let_def split: if_splits)
  have slot: "iq_slot q' i = iq_slot q i" for i
    by (simp add: iq_slot_def q'_def)
  have item: "iq_items q' ! iq_slot q j = (if j = ?s - 1 then None else iq_items q ! iq_slot q j)"
    if "j < ?n" for j
  proof -
    have "?s - 1 < ?n" using s s0 by simp
    then show ?thesis
      using that items iq_slot_inj [of j q "?s - 1"] by (auto simp: q'_def nth_list_update)
  qed
  have sizes: "length (iq_items q') = ?n" "iq_size q' = ?s - 1" "iq_head q' = ?h" "iq_tail q' = ?p"
    by (simp_all add: q'_def)
  have "iq_inv q'"
  proof (rule iq_invI)
    show "iq_items q' ! iq_slot q' i = None \<longleftrightarrow> iq_size q' \<le> i" if "i < length (iq_items q')" for i
      using that inv s s0 by (auto simp: slot item sizes iq_inv_def)
  qed (use s h items sizes slot in auto)
  moreover have "iq_list q' = butlast (iq_list q)"
  proof -
    have "iq_size q' = ?s - 1" by (simp add: q'_def)
    then show ?thesis
      using s s0 by (auto simp: iq_list_def butlast_map_upt slot item)
  qed
  ultimately show thesis
    using that [of q'] pop lst by (simp add: idleQueue_Cap_def q'_def)
qed

section \<open>The contract of the idle store\<close>

text \<open>
  What the pool relies on: a bounded double-ended queue whose operations never panic.  The derived
  facts below are the ones the pool's critical sections use.
\<close>

locale bounded_deque =
  fixes new :: "int \<Rightarrow> 'q"
    and push :: "'q \<Rightarrow> 'c option \<Rightarrow> (bool \<times> 'q) go"
    and pop :: "'q \<Rightarrow> ('c option \<times> 'q) go"
    and pop_newest :: "'q \<Rightarrow> ('c option \<times> 'q) go"
    and cap :: "'q \<Rightarrow> nat"
    and list :: "'q \<Rightarrow> 'c list"
    and inv :: "'q \<Rightarrow> bool"
  assumes inv_new: "inv (new n)"
    and list_new: "list (new n) = []"
    and cap_new: "cap (new n) = nat n"
    and list_le_cap: "inv q \<Longrightarrow> length (list q) \<le> cap q"
    and push_nil: "push q None = Some (False, q)"
    and push_full: "inv q \<Longrightarrow> length (list q) = cap q \<Longrightarrow> push q pc = Some (False, q)"
    and push_room: "inv q \<Longrightarrow> length (list q) < cap q \<Longrightarrow>
      \<exists>q'. push q (Some c) = Some (True, q') \<and> inv q' \<and> list q' = list q @ [c] \<and> cap q' = cap q"
    and pop_empty: "list q = [] \<Longrightarrow> pop q = Some (None, q)"
    and pop_oldest: "inv q \<Longrightarrow> list q \<noteq> [] \<Longrightarrow>
      \<exists>q'. pop q = Some (Some (hd (list q)), q') \<and> inv q' \<and> list q' = tl (list q) \<and> cap q' = cap q"
    and pop_newest_empty: "list q = [] \<Longrightarrow> pop_newest q = Some (None, q)"
    and pop_newest_last: "inv q \<Longrightarrow> list q \<noteq> [] \<Longrightarrow>
      \<exists>q'. pop_newest q = Some (Some (last (list q)), q') \<and> inv q' \<and> list q' = butlast (list q) \<and> cap q' = cap q"
begin

lemma push_total:
  assumes "inv q"
  obtains b q' where "push q pc = Some (b, q')" "inv q'" "cap q' = cap q"
    "b \<longleftrightarrow> pc \<noteq> None \<and> length (list q) < cap q"
    "list q' = (if b then list q @ [the pc] else list q)"
proof (cases "pc = None \<or> length (list q) = cap q")
  case True
  then have "push q pc = Some (False, q)" using assms push_nil push_full by metis
  with True assms that [of False q] show thesis by auto
next
  case False
  with list_le_cap [OF assms] have "length (list q) < cap q" by simp
  moreover from False obtain c where c: "pc = Some c" by auto
  ultimately obtain q' where q': "push q (Some c) = Some (True, q')" "inv q'" "list q' = list q @ [c]"
      "cap q' = cap q"
    using push_room [OF assms] by blast
  show thesis by (rule that [of True q']) (use q' c \<open>length (list q) < cap q\<close> in auto)
qed

text \<open>Eviction: popping the oldest element of a full non-empty store makes room for one more.\<close>

lemma evict:
  assumes "inv q" "length (list q) = cap q" "cap q \<noteq> 0"
  obtains q1 q2 where "pop q = Some (Some (hd (list q)), q1)" "push q1 (Some c) = Some (True, q2)"
    "inv q2" "list q2 = tl (list q) @ [c]" "cap q2 = cap q"
proof -
  from assms have ne: "list q \<noteq> []" by auto
  then obtain q1 where q1: "pop q = Some (Some (hd (list q)), q1)" "inv q1" "list q1 = tl (list q)"
      "cap q1 = cap q"
    using pop_oldest [OF assms(1)] by blast
  with assms(2,3) have "length (list q1) < cap q1" by simp
  then obtain q2 where "push q1 (Some c) = Some (True, q2)" "inv q2" "list q2 = list q1 @ [c]"
      "cap q2 = cap q1"
    using push_room [OF q1(2)] by blast
  with that q1 show thesis by simp
qed

end

interpretation ring: bounded_deque newIdleQueue idleQueue_Push idleQueue_Pop idleQueue_PopNewest
  idleQueue_Cap iq_list iq_inv
proof (unfold_locales, goal_cases)
  case (4 q) then show ?case by (simp add: iq_inv_def idleQueue_Cap_def)
next
  case (7 q c) then show ?case by (metis iq_push_ok)
next
  case (9 q) then show ?case by (metis iq_pop_ok)
next
  case (11 q) then show ?case by (metis iq_pop_newest_ok)
qed (simp_all add: iq_new_inv iq_new_list iq_new_cap iq_push_nil iq_push_full iq_pop_empty iq_pop_newest_empty)

lemma idleQueue_Len_list: "idleQueue_Len q = length (iq_list q)"
  by (simp add: idleQueue_Len_def)

section \<open>The ring against the reference double-ended queue\<close>

datatype 'c ring_op = OpPush "'c option" | OpPop | OpPopNewest

datatype 'c ring_out = OutPush bool | OutPop "'c option"

fun ring_step :: "'c idleQueue \<Rightarrow> 'c ring_op \<Rightarrow> ('c ring_out \<times> 'c idleQueue) go" where
  "ring_step q (OpPush pc) = map_option (\<lambda>(b, q'). (OutPush b, q')) (idleQueue_Push q pc)"
| "ring_step q OpPop = map_option (\<lambda>(c, q'). (OutPop c, q')) (idleQueue_Pop q)"
| "ring_step q OpPopNewest = map_option (\<lambda>(c, q'). (OutPop c, q')) (idleQueue_PopNewest q)"

fun ring_run :: "'c idleQueue \<Rightarrow> 'c ring_op list \<Rightarrow> ('c ring_out list \<times> 'c idleQueue) go" where
  "ring_run q [] = Some ([], q)"
| "ring_run q (x # xs) =
     (case ring_step q x of
        None \<Rightarrow> None
      | Some (r, q') \<Rightarrow> map_option (\<lambda>(rs, q''). (r # rs, q'')) (ring_run q' xs))"

text \<open>The reference: a list of at most \<open>n\<close> connections, oldest first.\<close>

fun deque_step :: "nat \<Rightarrow> 'c list \<Rightarrow> 'c ring_op \<Rightarrow> 'c ring_out \<times> 'c list" where
  "deque_step n xs (OpPush None) = (OutPush False, xs)"
| "deque_step n xs (OpPush (Some c)) =
     (if length xs < n then (OutPush True, xs @ [c]) else (OutPush False, xs))"
| "deque_step n xs OpPop = (case xs of [] \<Rightarrow> (OutPop None, []) | x # ys \<Rightarrow> (OutPop (Some x), ys))"
| "deque_step n xs OpPopNewest =
     (if xs = [] then (OutPop None, []) else (OutPop (Some (last xs)), butlast xs))"

fun deque_run :: "nat \<Rightarrow> 'c list \<Rightarrow> 'c ring_op list \<Rightarrow> 'c ring_out list \<times> 'c list" where
  "deque_run n xs [] = ([], xs)"
| "deque_run n xs (op # ops) =
     (let (r, ys) = deque_step n xs op; (rs, zs) = deque_run n ys ops in (r # rs, zs))"

lemma ring_step_refines:
  assumes "iq_inv q"
  obtains q' where
    "ring_step q x = Some (fst (deque_step (idleQueue_Cap q) (iq_list q) x), q')" "iq_inv q'"
    "iq_list q' = snd (deque_step (idleQueue_Cap q) (iq_list q) x)" "idleQueue_Cap q' = idleQueue_Cap q"
proof (cases x)
  case (OpPush pc)
  obtain b q' where q': "idleQueue_Push q pc = Some (b, q')" "iq_inv q'" "idleQueue_Cap q' = idleQueue_Cap q"
      "b \<longleftrightarrow> pc \<noteq> None \<and> length (iq_list q) < idleQueue_Cap q"
      "iq_list q' = (if b then iq_list q @ [the pc] else iq_list q)"
    by (rule ring.push_total [OF assms])
  with OpPush that [of q'] show thesis by (cases pc) (auto split: if_splits)
next
  case OpPop
  show thesis
  proof (cases "iq_list q")
    case Nil
    with OpPop assms that [of q] show thesis by (simp add: ring.pop_empty)
  next
    case (Cons c cs)
    with ring.pop_oldest [OF assms] OpPop that show thesis by auto
  qed
next
  case OpPopNewest
  show thesis
  proof (cases "iq_list q = []")
    case True
    with OpPopNewest assms that [of q] show thesis by (simp add: ring.pop_newest_empty)
  next
    case False
    with ring.pop_newest_last [OF assms] OpPopNewest that show thesis by auto
  qed
qed

lemma ring_run_refines_from:
  assumes "iq_inv q"
  shows "\<exists>q'. ring_run q ops = Some (fst (deque_run (idleQueue_Cap q) (iq_list q) ops), q') \<and>
           iq_inv q' \<and> iq_list q' = snd (deque_run (idleQueue_Cap q) (iq_list q) ops)"
  using assms
proof (induction ops arbitrary: q)
  case Nil
  then show ?case by simp
next
  case (Cons x ops)
  obtain q' where q': "ring_step q x = Some (fst (deque_step (idleQueue_Cap q) (iq_list q) x), q')" "iq_inv q'"
      "iq_list q' = snd (deque_step (idleQueue_Cap q) (iq_list q) x)" "idleQueue_Cap q' = idleQueue_Cap q"
    by (rule ring_step_refines [OF Cons.prems])
  from Cons.IH [OF q'(2)] q' show ?case by (auto simp: case_prod_beta Let_def)
qed

text \<open>
  C24. Any sequence of pushes and pops on a freshly made ring of capacity \<open>n\<close> runs without an index
  panic, returns exactly what the reference list of at most \<open>n\<close> connections returns, and leaves a
  well-formed ring that holds the reference's connections, oldest first.
\<close>
theorem ring_refines_bounded_deque:
  "\<exists>q'. ring_run (newIdleQueue n) ops = Some (fst (deque_run (nat n) [] ops), q') \<and>
     iq_inv q' \<and> iq_list q' = snd (deque_run (nat n) [] ops)"
  using ring_run_refines_from [OF iq_new_inv, of n ops] by (simp add: iq_new_list iq_new_cap)

end
