(* ===== verification/WaiterQueue.thy ===== *)
theory WaiterQueue
  imports Go_Prelude
begin

text \<open>
  The intrusive FIFO queue of callers that wait for a connection (\<^verbatim>\<open>gpool/waiter_queue.go\<close>, the types
  and the methods of \<^verbatim>\<open>waiterQueue\<close>).  Waiters are heap objects linked through their \<^verbatim>\<open>prev\<close> and
  \<^verbatim>\<open>next\<close> fields; a nil dereference is a panic.  The pointer code is shown to implement a list from
  which any element can be removed, the contract of the locale \<open>intrusive_fifo\<close>.
\<close>

section \<open>Waiters and their queue\<close>

datatype waiterState = waiterQueued | waiterDelivered | waiterCanceled

datatype waitResultKind = waitResultConn | waitResultCreate

record waitResult =
  wr_kind :: waitResultKind
  wr_conn :: "addr option"
  wr_err :: "error option"

text \<open>\<open>w_result\<close> is the content of the waiter's result channel, which has room for one value.\<close>

record poolWaiter =
  w_prev :: "addr option"
  w_next :: "addr option"
  w_state :: waiterState
  w_result :: "waitResult option"

record waiterQueue =
  wq_head :: "addr option"
  wq_tail :: "addr option"
  wq_size :: int

type_synonym wheap = "addr \<Rightarrow> poolWaiter option"

definition emptyWaiterQueue :: waiterQueue where
  "emptyWaiterQueue = \<lparr>wq_head = None, wq_tail = None, wq_size = 0\<rparr>"

definition waiterQueue_Len :: "waiterQueue \<Rightarrow> int" where
  "waiterQueue_Len q = wq_size q"

definition waiterQueue_PushBack :: "wheap \<Rightarrow> waiterQueue \<Rightarrow> addr \<Rightarrow> (wheap \<times> waiterQueue) go" where
  "waiterQueue_PushBack h q waiter =
     (case h waiter of
        None \<Rightarrow> None
      | Some r \<Rightarrow>
          let h = h(waiter \<mapsto> r\<lparr>w_prev := wq_tail q, w_next := None\<rparr>) in
          (case wq_tail q of
             None \<Rightarrow>
               Some (h, q\<lparr>wq_head := Some waiter, wq_tail := Some waiter, wq_size := wq_size q + 1\<rparr>)
           | Some t \<Rightarrow>
               (case h t of
                  None \<Rightarrow> None
                | Some rt \<Rightarrow>
                    Some (h(t \<mapsto> rt\<lparr>w_next := Some waiter\<rparr>),
                      q\<lparr>wq_tail := Some waiter, wq_size := wq_size q + 1\<rparr>))))"

text \<open>The two halves of \<^verbatim>\<open>Remove\<close>: unlinking in the forward and in the backward direction.\<close>

definition unlink_prev :: "wheap \<Rightarrow> waiterQueue \<Rightarrow> addr \<Rightarrow> (wheap \<times> waiterQueue) go" where
  "unlink_prev h q waiter =
     (case h waiter of
        None \<Rightarrow> None
      | Some r \<Rightarrow>
          (case w_prev r of
             None \<Rightarrow> Some (h, q\<lparr>wq_head := w_next r\<rparr>)
           | Some p \<Rightarrow>
               (case h p of
                  None \<Rightarrow> None
                | Some rp \<Rightarrow> Some (h(p \<mapsto> rp\<lparr>w_next := w_next r\<rparr>), q))))"

definition unlink_next :: "wheap \<Rightarrow> waiterQueue \<Rightarrow> addr \<Rightarrow> (wheap \<times> waiterQueue) go" where
  "unlink_next h q waiter =
     (case h waiter of
        None \<Rightarrow> None
      | Some r \<Rightarrow>
          (case w_next r of
             None \<Rightarrow> Some (h, q\<lparr>wq_tail := w_prev r\<rparr>)
           | Some n \<Rightarrow>
               (case h n of
                  None \<Rightarrow> None
                | Some rn \<Rightarrow> Some (h(n \<mapsto> rn\<lparr>w_prev := w_prev r\<rparr>), q))))"

definition waiterQueue_Remove :: "wheap \<Rightarrow> waiterQueue \<Rightarrow> addr \<Rightarrow> (wheap \<times> waiterQueue) go" where
  "waiterQueue_Remove h q waiter =
     (case unlink_prev h q waiter of
        None \<Rightarrow> None
      | Some (h, q) \<Rightarrow>
          (case unlink_next h q waiter of
             None \<Rightarrow> None
           | Some (h, q) \<Rightarrow>
               (case h waiter of
                  None \<Rightarrow> None
                | Some r \<Rightarrow>
                    Some (h(waiter \<mapsto> r\<lparr>w_prev := None, w_next := None\<rparr>),
                      q\<lparr>wq_size := wq_size q - 1\<rparr>))))"

definition waiterQueue_PopFront ::
  "wheap \<Rightarrow> waiterQueue \<Rightarrow> (addr option \<times> wheap \<times> waiterQueue) go" where
  "waiterQueue_PopFront h q =
     (case wq_head q of
        None \<Rightarrow> Some (None, h, q)
      | Some waiter \<Rightarrow>
          (case waiterQueue_Remove h q waiter of
             None \<Rightarrow> None
           | Some (h, q) \<Rightarrow> Some (Some waiter, h, q)))"

section \<open>The list a queue represents\<close>

definition first_or :: "addr option \<Rightarrow> addr list \<Rightarrow> addr option" where
  "first_or n ws = (case ws of [] \<Rightarrow> n | w # _ \<Rightarrow> Some w)"

definition last_or :: "addr option \<Rightarrow> addr list \<Rightarrow> addr option" where
  "last_or p ws = (if ws = [] then p else Some (last ws))"

lemma first_or_simps [simp]:
  "first_or n [] = n" "first_or n (w # ws) = Some w"
  by (simp_all add: first_or_def)

lemma first_or_append [simp]: "first_or n (xs @ ys) = first_or (first_or n ys) xs"
  by (cases xs) simp_all

lemma last_or_simps [simp]:
  "last_or p [] = p" "last_or p (xs @ [w]) = Some w" "last_or p (w # ws) = last_or (Some w) ws"
  by (simp_all add: last_or_def)

lemma last_or_append [simp]: "last_or p (xs @ ys) = last_or (last_or p xs) ys"
  by (auto simp: last_or_def)

text \<open>\<open>dseg h p ws n\<close>: the waiters \<open>ws\<close> are linked in this order, between \<open>p\<close> and \<open>n\<close>.\<close>

fun dseg :: "wheap \<Rightarrow> addr option \<Rightarrow> addr list \<Rightarrow> addr option \<Rightarrow> bool" where
  "dseg h p [] n = True"
| "dseg h p (w # ws) n =
     ((\<exists>r. h w = Some r \<and> w_prev r = p \<and> w_next r = first_or n ws) \<and> dseg h (Some w) ws n)"

definition wq_rep :: "wheap \<Rightarrow> waiterQueue \<Rightarrow> addr list \<Rightarrow> bool" where
  "wq_rep h q ws \<longleftrightarrow>
     distinct ws \<and> dseg h None ws None \<and> wq_head q = first_or None ws \<and> wq_tail q = last_or None ws \<and>
     wq_size q = int (length ws)"

text \<open>What the queue operations leave alone: allocation, state and result channel of every waiter.\<close>

definition same_payload :: "wheap \<Rightarrow> wheap \<Rightarrow> bool" where
  "same_payload h h' \<longleftrightarrow>
     (\<forall>a. map_option (\<lambda>r. (w_state r, w_result r)) (h' a) = map_option (\<lambda>r. (w_state r, w_result r)) (h a))"

lemma same_payload_refl [simp]: "same_payload h h"
  by (simp add: same_payload_def)

lemma same_payload_trans: "same_payload h h' \<Longrightarrow> same_payload h' h'' \<Longrightarrow> same_payload h h''"
  unfolding same_payload_def by metis

lemma same_payload_upd:
  "h a = Some r \<Longrightarrow> w_state r' = w_state r \<Longrightarrow> w_result r' = w_result r \<Longrightarrow> same_payload h (h(a \<mapsto> r'))"
  by (simp add: same_payload_def)

lemma same_payloadD:
  assumes "same_payload h h'" "h a = Some r"
  obtains r' where "h' a = Some r'" "w_state r' = w_state r" "w_result r' = w_result r"
proof -
  from assms have "map_option (\<lambda>r. (w_state r, w_result r)) (h' a) = Some (w_state r, w_result r)"
    by (simp add: same_payload_def)
  with that show thesis by (cases "h' a") auto
qed

lemma same_payload_None: "same_payload h h' \<Longrightarrow> h' a = None \<longleftrightarrow> h a = None"
  unfolding same_payload_def by (cases "h a"; cases "h' a") (auto dest: spec [of _ a])

lemma dseg_append [simp]:
  "dseg h p (xs @ ys) n \<longleftrightarrow> dseg h p xs (first_or n ys) \<and> dseg h (last_or p xs) ys n"
  by (induction xs arbitrary: p) auto

lemma dseg_frame [simp]: "a \<notin> set ws \<Longrightarrow> dseg (h(a := v)) p ws n = dseg h p ws n"
  by (induction ws arbitrary: p) auto

lemma dseg_allocated: "dseg h p ws n \<Longrightarrow> w \<in> set ws \<Longrightarrow> \<exists>r. h w = Some r"
  by (induction ws arbitrary: p) auto

lemma last_or_Some_cases:
  assumes "last_or None ws = Some t"
  obtains us where "ws = us @ [t]"
proof -
  from assms have ne: "ws \<noteq> []" and t: "last ws = t"
    by (auto simp: last_or_def split: if_splits)
  have "ws = butlast ws @ [t]"
    using append_butlast_last_id [OF ne] t by simp
  then show thesis by (rule that)
qed

text \<open>Redirecting the forward link of the last element, or the backward link of the first.\<close>

lemma dseg_set_next:
  assumes "dseg h p (us @ [t]) n" "distinct (us @ [t])" "h t = Some r"
  shows "dseg (h(t \<mapsto> r\<lparr>w_next := n'\<rparr>)) p (us @ [t]) n'"
  using assms by simp

lemma dseg_set_prev:
  assumes "dseg h p (w # ws) n" "w \<notin> set ws" "h w = Some r"
  shows "dseg (h(w \<mapsto> r\<lparr>w_prev := p'\<rparr>)) p' (w # ws) n"
  using assms by simp

section \<open>The operations on the represented list\<close>

lemma wq_rep_empty: "wq_rep h emptyWaiterQueue []"
  by (simp add: wq_rep_def emptyWaiterQueue_def)

lemma wq_push:
  assumes rep: "wq_rep h q ws" and w: "w \<notin> set ws" "h w = Some r"
  shows "\<exists>h' q'. waiterQueue_PushBack h q w = Some (h', q') \<and> wq_rep h' q' (ws @ [w]) \<and> same_payload h h'"
proof (cases "wq_tail q")
  case None
  then have "ws = []" using rep by (auto simp: wq_rep_def last_or_def split: if_splits)
  with None rep w show ?thesis
    by (auto simp: waiterQueue_PushBack_def wq_rep_def intro: same_payload_upd)
next
  case (Some t)
  then obtain us where ws: "ws = us @ [t]"
    using rep last_or_Some_cases unfolding wq_rep_def by metis
  from rep ws have ds: "dseg h None (us @ [t]) None" and dist: "distinct (us @ [t])"
    by (auto simp: wq_rep_def)
  then obtain rt where rt: "h t = Some rt" by auto
  let ?h1 = "h(w \<mapsto> r\<lparr>w_prev := Some t, w_next := None\<rparr>)"
  let ?h2 = "?h1(t \<mapsto> rt\<lparr>w_next := Some w\<rparr>)"
  have tw: "t \<noteq> w" "w \<notin> set us" using w ws by auto
  have "dseg ?h1 None (us @ [t]) None"
    using ds tw by (auto simp: ws)
  then have "dseg ?h2 None (us @ [t]) (Some w)"
    using dist rt tw by (intro dseg_set_next) auto
  then have "dseg ?h2 None (ws @ [w]) None"
    using tw ws by auto
  moreover have "same_payload h ?h2"
    using rt w(2) tw(1) by (simp add: same_payload_def)
  ultimately show ?thesis
    using rep w rt tw ws Some
    by (auto simp: waiterQueue_PushBack_def wq_rep_def Let_def)
qed

lemma unlink_prev_seg:
  assumes seg: "dseg h None (xs @ w # ys) None" and dist: "distinct (xs @ w # ys)"
    and hd: "wq_head q = first_or None (xs @ w # ys)"
  obtains h1 q1 where "unlink_prev h q w = Some (h1, q1)" "dseg h1 None xs (first_or None ys)"
    "dseg h1 (last_or None xs) (w # ys) None" "wq_head q1 = first_or None (xs @ ys)"
    "wq_tail q1 = wq_tail q" "wq_size q1 = wq_size q" "same_payload h h1"
proof -
  from seg obtain r where r: "h w = Some r" "w_prev r = last_or None xs" "w_next r = first_or None ys"
    by auto
  show thesis
  proof (cases "w_prev r")
    case None
    then have xs: "xs = []" using r(2) by (simp add: last_or_def split: if_splits)
    show thesis
      by (rule that [of h "q\<lparr>wq_head := w_next r\<rparr>"]) (use None r xs seg in \<open>auto simp: unlink_prev_def\<close>)
  next
    case (Some p)
    then obtain us where xs: "xs = us @ [p]" using r(2) by (metis last_or_Some_cases)
    with seg obtain rp where rp: "h p = Some rp" by auto
    let ?h1 = "h(p \<mapsto> rp\<lparr>w_next := w_next r\<rparr>)"
    have "dseg ?h1 None (us @ [p]) (first_or None ys)"
      using seg xs dist rp unfolding r(3) [symmetric]
      by (intro dseg_set_next [where n = "Some w"]) auto
    moreover have "dseg ?h1 (last_or None xs) (w # ys) None"
      using seg xs dist by auto
    moreover have "same_payload h ?h1" using rp by (simp add: same_payload_def)
    ultimately show thesis
      using that [of ?h1 q] Some r rp xs hd by (auto simp: unlink_prev_def)
  qed
qed

lemma unlink_next_seg:
  assumes seg: "dseg h p0 (w # ys) None" and sx: "dseg h None xs (first_or None ys)"
    and dist: "distinct (xs @ w # ys)" and p0: "p0 = last_or None xs"
    and tl: "wq_tail q = last_or None (xs @ w # ys)"
  obtains h1 q1 where "unlink_next h q w = Some (h1, q1)" "dseg h1 None xs (first_or None ys)"
    "dseg h1 (last_or None xs) ys None" "wq_tail q1 = last_or None (xs @ ys)"
    "wq_head q1 = wq_head q" "wq_size q1 = wq_size q" "same_payload h h1" "h1 w \<noteq> None"
proof -
  from seg obtain r where r: "h w = Some r" "w_prev r = p0" "w_next r = first_or None ys"
    by auto
  show thesis
  proof (cases ys)
    case Nil
    show thesis
      by (rule that [of h "q\<lparr>wq_tail := w_prev r\<rparr>"]) (use Nil r sx p0 in \<open>auto simp: unlink_next_def\<close>)
  next
    case (Cons n zs)
    with seg obtain rn where rn: "h n = Some rn" by auto
    let ?h1 = "h(n \<mapsto> rn\<lparr>w_prev := w_prev r\<rparr>)"
    have "dseg h (Some w) (n # zs) None" using seg Cons by simp
    then have "dseg ?h1 p0 (n # zs) None"
      using dseg_set_prev [of h "Some w" n zs None rn "w_prev r"] dist Cons rn r by simp
    moreover have "dseg ?h1 None xs (first_or None ys)"
      using sx dist Cons by auto
    moreover have "same_payload h ?h1" using rn by (simp add: same_payload_def)
    moreover have "?h1 w \<noteq> None" using r by simp
    ultimately show thesis
      using that [of ?h1 q] r rn Cons tl p0 by (auto simp: unlink_next_def)
  qed
qed

lemma wq_remove:
  assumes rep: "wq_rep h q (xs @ w # ys)"
  shows "\<exists>h' q'. waiterQueue_Remove h q w = Some (h', q') \<and> wq_rep h' q' (xs @ ys) \<and> same_payload h h'"
proof -
  from rep have dist: "distinct (xs @ w # ys)" by (simp add: wq_rep_def)
  obtain h1 q1 where 1: "unlink_prev h q w = Some (h1, q1)" "dseg h1 None xs (first_or None ys)"
      "dseg h1 (last_or None xs) (w # ys) None" "wq_head q1 = first_or None (xs @ ys)"
      "wq_tail q1 = wq_tail q" "wq_size q1 = wq_size q" "same_payload h h1"
    by (rule unlink_prev_seg [of h xs w ys q]) (use rep in \<open>auto simp: wq_rep_def\<close>)
  obtain h2 q2 where 2: "unlink_next h1 q1 w = Some (h2, q2)" "dseg h2 None xs (first_or None ys)"
      "dseg h2 (last_or None xs) ys None" "wq_tail q2 = last_or None (xs @ ys)"
      "wq_head q2 = wq_head q1" "wq_size q2 = wq_size q1" "same_payload h1 h2" "h2 w \<noteq> None"
    by (rule unlink_next_seg [OF 1(3,2) dist refl, of q1]) (use 1 rep in \<open>auto simp: wq_rep_def\<close>)
  from 2(8) obtain r where r: "h2 w = Some r" by auto
  let ?h3 = "h2(w \<mapsto> r\<lparr>w_prev := None, w_next := None\<rparr>)"
  have "same_payload h2 ?h3" using r by (rule same_payload_upd) simp_all
  with 1(7) 2(7) have "same_payload h ?h3" by (blast intro: same_payload_trans)
  with 1 2 r dist rep show ?thesis
    by (auto simp: waiterQueue_Remove_def wq_rep_def)
qed

lemma wq_pop_empty: "wq_rep h q [] \<Longrightarrow> waiterQueue_PopFront h q = Some (None, h, q)"
  by (simp add: wq_rep_def waiterQueue_PopFront_def)

lemma wq_pop:
  assumes "wq_rep h q (w # ws)"
  shows "\<exists>h' q'. waiterQueue_PopFront h q = Some (Some w, h', q') \<and> wq_rep h' q' ws \<and> same_payload h h'"
  using wq_remove [of h q "[]" w ws] assms by (auto simp: waiterQueue_PopFront_def wq_rep_def)

lemma wq_len: "wq_rep h q ws \<Longrightarrow> waiterQueue_Len q = int (length ws)"
  by (simp add: wq_rep_def waiterQueue_Len_def)

lemma wq_rep_distinct: "wq_rep h q ws \<Longrightarrow> distinct ws"
  by (simp add: wq_rep_def)

lemma wq_rep_payload_upd:
  assumes "wq_rep h q ws" "h a = Some r" "w_prev r' = w_prev r" "w_next r' = w_next r"
  shows "wq_rep (h(a \<mapsto> r')) q ws"
proof -
  have "dseg h p ws n \<Longrightarrow> dseg (h(a \<mapsto> r')) p ws n" for p n
    using assms(2-4) by (induction ws arbitrary: p) auto
  with assms(1) show ?thesis by (simp add: wq_rep_def)
qed

lemma wq_rep_alloc: "wq_rep h q ws \<Longrightarrow> h a = None \<Longrightarrow> wq_rep (h(a \<mapsto> r)) q ws"
  unfolding wq_rep_def by (metis dseg_allocated dseg_frame option.distinct(1))

section \<open>The contract of the waiter queue\<close>

text \<open>
  What the pool relies on: a first-in first-out queue of heap objects that also supports removal of
  any queued element, never panics on queued elements, and changes neither the state nor the result
  channel of a waiter.
\<close>

locale intrusive_fifo =
  fixes push :: "'h \<Rightarrow> 'q \<Rightarrow> 'a \<Rightarrow> ('h \<times> 'q) go"
    and pop :: "'h \<Rightarrow> 'q \<Rightarrow> ('a option \<times> 'h \<times> 'q) go"
    and remove :: "'h \<Rightarrow> 'q \<Rightarrow> 'a \<Rightarrow> ('h \<times> 'q) go"
    and len :: "'q \<Rightarrow> int"
    and rep :: "'h \<Rightarrow> 'q \<Rightarrow> 'a list \<Rightarrow> bool"
    and alloc :: "'h \<Rightarrow> 'a \<Rightarrow> bool"
    and same :: "'h \<Rightarrow> 'h \<Rightarrow> bool"
  assumes distinct_rep: "rep h q ws \<Longrightarrow> distinct ws"
    and alloc_rep: "rep h q ws \<Longrightarrow> w \<in> set ws \<Longrightarrow> alloc h w"
    and len_rep: "rep h q ws \<Longrightarrow> len q = int (length ws)"
    and push_back: "rep h q ws \<Longrightarrow> alloc h w \<Longrightarrow> w \<notin> set ws \<Longrightarrow>
      \<exists>h' q'. push h q w = Some (h', q') \<and> rep h' q' (ws @ [w]) \<and> same h h'"
    and pop_none: "rep h q [] \<Longrightarrow> pop h q = Some (None, h, q)"
    and pop_front: "rep h q (w # ws) \<Longrightarrow>
      \<exists>h' q'. pop h q = Some (Some w, h', q') \<and> rep h' q' ws \<and> same h h'"
    and remove_mid: "rep h q (xs @ w # ys) \<Longrightarrow>
      \<exists>h' q'. remove h q w = Some (h', q') \<and> rep h' q' (xs @ ys) \<and> same h h'"
    and same_alloc: "same h h' \<Longrightarrow> alloc h' a = alloc h a"
begin

lemma remove_queued:
  assumes "rep h q ws" "w \<in> set ws"
  shows "\<exists>h' q'. remove h q w = Some (h', q') \<and> rep h' q' (remove1 w ws) \<and> same h h'"
proof -
  obtain xs ys where ws: "ws = xs @ w # ys" and "w \<notin> set xs"
    using assms(2) by (meson split_list_first)
  then have "remove1 w ws = xs @ ys" by (simp add: remove1_append)
  with remove_mid [of h q xs w ys] assms(1) ws show ?thesis by simp
qed

lemma len_pos_rep: "rep h q ws \<Longrightarrow> 0 < len q \<longleftrightarrow> ws \<noteq> []"
  by (simp add: len_rep)

end

interpretation wqf: intrusive_fifo waiterQueue_PushBack waiterQueue_PopFront waiterQueue_Remove
  waiterQueue_Len wq_rep "\<lambda>h a. h a \<noteq> None" same_payload
proof (unfold_locales, goal_cases)
  case (2 h q ws w) then show ?case unfolding wq_rep_def using dseg_allocated by fastforce
next
  case (4 h q ws w) then show ?case using wq_push by blast
qed (auto simp: wq_len wq_rep_distinct wq_pop_empty wq_pop wq_remove same_payload_None)

section \<open>The linked queue against a list\<close>

datatype wq_op = WPush addr | WPop | WCancel addr

text \<open>
  The uses the pool makes of its queue: a waiter is pushed when it is not queued, popped from the
  front, and removed only while it is queued.
\<close>

fun wq_run :: "wheap \<Rightarrow> waiterQueue \<Rightarrow> wq_op list \<Rightarrow> (addr option list \<times> wheap \<times> waiterQueue) go" where
  "wq_run h q [] = Some ([], h, q)"
| "wq_run h q (WPush w # ops) =
     (case waiterQueue_PushBack h q w of None \<Rightarrow> None | Some (h, q) \<Rightarrow> wq_run h q ops)"
| "wq_run h q (WPop # ops) =
     (case waiterQueue_PopFront h q of
        None \<Rightarrow> None
      | Some (w, h, q) \<Rightarrow> map_option (\<lambda>(outs, s). (w # outs, s)) (wq_run h q ops))"
| "wq_run h q (WCancel w # ops) =
     (case waiterQueue_Remove h q w of None \<Rightarrow> None | Some (h, q) \<Rightarrow> wq_run h q ops)"

fun list_run :: "addr list \<Rightarrow> wq_op list \<Rightarrow> addr option list \<times> addr list" where
  "list_run ws [] = ([], ws)"
| "list_run ws (WPush w # ops) = list_run (ws @ [w]) ops"
| "list_run ws (WPop # ops) =
     (let (outs, us) = list_run (tl ws) ops in ((if ws = [] then None else Some (hd ws)) # outs, us))"
| "list_run ws (WCancel w # ops) = list_run (remove1 w ws) ops"

fun wq_ops_ok :: "addr set \<Rightarrow> addr list \<Rightarrow> wq_op list \<Rightarrow> bool" where
  "wq_ops_ok A ws [] = True"
| "wq_ops_ok A ws (WPush w # ops) = (w \<in> A \<and> w \<notin> set ws \<and> wq_ops_ok A (ws @ [w]) ops)"
| "wq_ops_ok A ws (WPop # ops) = wq_ops_ok A (tl ws) ops"
| "wq_ops_ok A ws (WCancel w # ops) = (w \<in> set ws \<and> wq_ops_ok A (remove1 w ws) ops)"

lemma wq_run_refines_from:
  assumes "wq_rep h q ws" "wq_ops_ok (dom h) ws ops"
  shows "\<exists>h' q'. wq_run h q ops = Some (fst (list_run ws ops), h', q') \<and>
     wq_rep h' q' (snd (list_run ws ops)) \<and> same_payload h h'"
  using assms
proof (induction ops arbitrary: h q ws)
  case Nil
  then show ?case by simp
next
  case (Cons x ops)
  have step: "\<exists>h2 q2. wq_run h' q' ops = Some (fst (list_run ws' ops), h2, q2) \<and>
      wq_rep h2 q2 (snd (list_run ws' ops)) \<and> same_payload h h2"
    if "wq_rep h' q' ws'" "same_payload h h'" "wq_ops_ok (dom h) ws' ops" for h' q' ws'
  proof -
    have "dom h' = dom h" using that(2) by (auto simp: same_payload_None dom_def)
    with Cons.IH [OF that(1)] that(3) obtain h2 q2 where
      "wq_run h' q' ops = Some (fst (list_run ws' ops), h2, q2)"
      "wq_rep h2 q2 (snd (list_run ws' ops))" "same_payload h' h2" by auto
    with that(2) show ?thesis by (blast intro: same_payload_trans)
  qed
  show ?case
  proof (cases x)
    case (WPush w)
    with Cons.prems wqf.push_back [of h q ws w] step [of _ _ "ws @ [w]"] show ?thesis
      by (fastforce simp: dom_def)
  next
    case WPop
    show ?thesis
    proof (cases ws)
      case Nil
      with WPop Cons.prems wqf.pop_none [of h q] step [of h q "[]"] show ?thesis
        by (fastforce simp: case_prod_beta Let_def)
    next
      case (Cons w us)
      with WPop \<open>wq_ops_ok (dom h) ws (x # ops)\<close> \<open>wq_rep h q ws\<close> wqf.pop_front [of h q w us]
        step [of _ _ us] show ?thesis
        by (fastforce simp: case_prod_beta Let_def)
    qed
  next
    case (WCancel w)
    with Cons.prems wqf.remove_queued [of h q ws w] step [of _ _ "remove1 w ws"] show ?thesis
      by fastforce
  qed
qed

text \<open>
  C28. Started empty, the pointer-linked waiter queue executes any well-used sequence of
  \<^verbatim>\<open>PushBack\<close>, \<^verbatim>\<open>PopFront\<close> and \<^verbatim>\<open>Remove\<close> (cancellation of a queued waiter) without a nil
  dereference, pops waiters in the order of a list from which cancelled waiters are deleted, ends in
  a state whose links represent exactly that list, and never touches a waiter's state or result
  channel.
\<close>
theorem waiter_queue_refines_list:
  assumes "wq_ops_ok (dom h) [] ops"
  shows "\<exists>h' q'. wq_run h emptyWaiterQueue ops = Some (fst (list_run [] ops), h', q') \<and>
     wq_rep h' q' (snd (list_run [] ops)) \<and> same_payload h h'"
  using wq_run_refines_from [OF wq_rep_empty assms] by simp

definition wq_example_heap :: wheap where
  "wq_example_heap = (\<lambda>a. if a < 3
     then Some \<lparr>w_prev = None, w_next = None, w_state = waiterQueued, w_result = None\<rparr> else None)"

lemma waiter_queue_refines_list_witness:
  "\<exists>h' q'. wq_run wq_example_heap emptyWaiterQueue [WPush 0, WPush 1, WPush 2, WCancel 1, WPop, WPop, WPop] =
      Some ([Some 0, Some 2, None], h', q') \<and> wq_rep h' q' [] \<and> same_payload wq_example_heap h'"
proof -
  have "wq_ops_ok (dom wq_example_heap) [] [WPush 0, WPush 1, WPush 2, WCancel 1, WPop, WPop, WPop]"
    by (simp add: wq_example_heap_def dom_def)
  from waiter_queue_refines_list [OF this] show ?thesis by simp
qed

end
