(* ===== verification/Gpool.thy ===== *)
theory Gpool
  imports IdleQueue WaiterQueue "HOL-Library.Monad_Syntax"
begin

text \<open>
  The connection pool (\<^verbatim>\<open>gpool/gpool.go\<close> up to \<^verbatim>\<open>closeIdleConnections\<close>, and the pool methods of
  \<^verbatim>\<open>gpool/waiter_queue.go\<close>).

  Every method takes the pool mutex, but releases it around the connection factory and around the
  physical \<^verbatim>\<open>Close\<close> of a connection, so a method is a sequence of critical sections.  Each critical
  section is a function on the pool state (suffixes \<open>_enter\<close>, \<open>_begin\<close>, \<open>_end\<close> where a method
  has several); what happens outside the lock (the clock, \<^verbatim>\<open>IsOpen\<close>, the factory's result, the error of
  \<^verbatim>\<open>Close\<close>, which ready channel a \<^verbatim>\<open>select\<close> takes) is an argument.  \<open>None\<close> is a panic, or a send on a
  full result channel, which would block with the mutex held.

  Heap objects (\<^verbatim>\<open>PoolConn\<close>, \<^verbatim>\<open>poolWaiter\<close>) live in the heaps \<open>gp_conns\<close> and \<open>gp_wheap\<close>; \<open>gp_next\<close> is
  the next free address.  The theory \<open>Gpool_Steps\<close> interleaves the sections of any number of
  goroutines.
\<close>

section \<open>State\<close>

datatype poolConnState =
    poolConnIdle | poolConnBorrowed | poolConnReturning | poolConnClosing | poolConnClosed

record poolConn =
  pc_Gc :: nat
  pc_Ctime :: int
  pc_IdleTime :: int
  pc_state :: poolConnState

text \<open>\<open>gp_closeDone\<close>: \<open>None\<close> is the nil channel, \<open>Some b\<close> a channel that is closed iff \<open>b\<close>.\<close>

record gpool =
  gp_idle :: "addr idleQueue"
  gp_poolFIFO :: bool
  gp_MaxConns :: int
  gp_MaxIdleConns :: int
  gp_MaxConnLife :: int
  gp_MaxIdleConnLife :: int
  gp_RPCMaxRetries :: int
  gp_inUse :: int
  gp_creating :: int
  gp_closing :: int
  gp_TimeOut :: int
  gp_MaxWaiters :: int
  gp_Waits :: int
  gp_waiters :: waiterQueue
  gp_closed :: bool
  gp_closeDone :: "bool option"
  gp_closeEnded :: bool
  gp_closeErr :: "error option"
  gp_conns :: "addr \<Rightarrow> poolConn option"
  gp_wheap :: wheap
  gp_next :: addr

text \<open>The fields of \<^verbatim>\<open>GPoolConfig\<close> that the pool reads.\<close>

record gPoolConfig =
  cf_MaxConns :: int
  cf_MaxIdleConns :: int
  cf_MaxWaiters :: int
  cf_MaxConnLife :: int
  cf_MaxIdleConnLife :: int
  cf_RPCMaxRetries :: int
  cf_PoolFIFO :: bool

text \<open>The result of the connection factory: an error, or the creation time and the connection.\<close>

type_synonym create_result = "error + (int \<times> nat)"

section \<open>Locked helpers\<close>

definition capacityUsedLocked :: "gpool \<Rightarrow> int" where
  "capacityUsedLocked gp =
     int (idleQueue_Len (gp_idle gp)) + gp_inUse gp + gp_creating gp + gp_closing gp"

definition resetCloseState :: "gpool \<Rightarrow> gpool" where
  "resetCloseState gp =
     gp\<lparr>gp_closed := False, gp_closeDone := Some False, gp_closeEnded := False, gp_closeErr := None\<rparr>"

definition finishCloseLocked :: "gpool \<Rightarrow> gpool go" where
  "finishCloseLocked gp =
     (if \<not> gp_closed gp \<or> gp_closeEnded gp \<or> capacityUsedLocked gp \<noteq> 0 \<or>
         waiterQueue_Len (gp_waiters gp) \<noteq> 0
      then Some gp
      else case gp_closeDone gp of
        Some False \<Rightarrow> Some (gp\<lparr>gp_closeEnded := True, gp_closeDone := Some True\<rparr>)
      | _ \<Rightarrow> None)"

definition setState :: "gpool \<Rightarrow> addr \<Rightarrow> poolConnState \<Rightarrow> gpool go" where
  "setState gp pc st = do {
     c \<leftarrow> gp_conns gp pc;
     Some (gp\<lparr>gp_conns := (gp_conns gp)(pc \<mapsto> c\<lparr>pc_state := st\<rparr>)\<rparr>)
   }"

definition setIdleTime :: "gpool \<Rightarrow> addr \<Rightarrow> int \<Rightarrow> gpool go" where
  "setIdleTime gp pc now = do {
     c \<leftarrow> gp_conns gp pc;
     Some (gp\<lparr>gp_conns := (gp_conns gp)(pc \<mapsto> c\<lparr>pc_IdleTime := now\<rparr>)\<rparr>)
   }"

definition deliverWaiterLocked :: "gpool \<Rightarrow> addr \<Rightarrow> waitResult \<Rightarrow> gpool go" where
  "deliverWaiterLocked gp waiter result = do {
     r \<leftarrow> gp_wheap gp waiter;
     (if w_result r \<noteq> None then None
      else Some (gp\<lparr>
        gp_Waits := waiterQueue_Len (gp_waiters gp),
        gp_wheap := (gp_wheap gp)(waiter \<mapsto> r\<lparr>w_state := waiterDelivered, w_result := Some result\<rparr>)\<rparr>))
   }"

definition popWaiter :: "gpool \<Rightarrow> (addr \<times> gpool) go" where
  "popWaiter gp = do {
     (w, h, q) \<leftarrow> waiterQueue_PopFront (gp_wheap gp) (gp_waiters gp);
     waiter \<leftarrow> w;
     Some (waiter, gp\<lparr>gp_wheap := h, gp_waiters := q\<rparr>)
   }"

definition createGrant :: waitResult where
  "createGrant = \<lparr>wr_kind = waitResultCreate, wr_conn = None, wr_err = None\<rparr>"

definition connGrant :: "addr \<Rightarrow> waitResult" where
  "connGrant pc = \<lparr>wr_kind = waitResultConn, wr_conn = Some pc, wr_err = None\<rparr>"

text \<open>\<^verbatim>\<open>waitResult{err: ErrPoolClosed}\<close>: the other fields have their zero values.\<close>

definition closedResult :: waitResult where
  "closedResult = \<lparr>wr_kind = waitResultConn, wr_conn = None, wr_err = Some [ErrPoolClosed]\<rparr>"

definition dispatchOne :: "gpool \<Rightarrow> gpool go" where
  "dispatchOne gp = do {
     (waiter, gp) \<leftarrow> popWaiter gp;
     deliverWaiterLocked (gp\<lparr>gp_creating := gp_creating gp + 1\<rparr>) waiter createGrant
   }"

lemma wq_remove_size: "waiterQueue_Remove h q w = Some (h', q') \<Longrightarrow> wq_size q' = wq_size q - 1"
  by (auto simp: waiterQueue_Remove_def unlink_prev_def unlink_next_def split: option.splits)

lemma popWaiter_size:
  "popWaiter gp = Some (w, gp') \<Longrightarrow> wq_size (gp_waiters gp') = wq_size (gp_waiters gp) - 1"
  by (auto simp: popWaiter_def waiterQueue_PopFront_def Option.bind_eq_Some_conv
      split: option.splits dest: wq_remove_size)

lemma deliver_waiters: "deliverWaiterLocked gp w r = Some gp' \<Longrightarrow> gp_waiters gp' = gp_waiters gp"
  by (auto simp: deliverWaiterLocked_def Option.bind_eq_Some_conv split: if_splits)

lemma dispatchOne_size:
  "dispatchOne gp = Some gp' \<Longrightarrow> wq_size (gp_waiters gp') = wq_size (gp_waiters gp) - 1"
  by (auto simp: dispatchOne_def Option.bind_eq_Some_conv dest!: popWaiter_size deliver_waiters)

function dispatchCapacityWaitersLocked :: "gpool \<Rightarrow> gpool go" where
  "dispatchCapacityWaitersLocked gp =
     (if \<not> gp_closed gp \<and> waiterQueue_Len (gp_waiters gp) > 0 \<and>
         capacityUsedLocked gp < gp_MaxConns gp
      then case dispatchOne gp of
        None \<Rightarrow> None
      | Some gp' \<Rightarrow> dispatchCapacityWaitersLocked gp'
      else Some gp)"
  by pat_completeness auto
termination
  by (relation "measure (\<lambda>gp. nat (wq_size (gp_waiters gp)))")
    (auto simp: waiterQueue_Len_def dest: dispatchOne_size)

declare dispatchCapacityWaitersLocked.simps [simp del]

section \<open>Closing one connection\<close>

definition closeConnectionLocked_begin :: "gpool \<Rightarrow> addr \<Rightarrow> gpool go" where
  "closeConnectionLocked_begin gp pc = do {
     gp \<leftarrow> setState gp pc poolConnClosing;
     Some (gp\<lparr>gp_closing := gp_closing gp + 1\<rparr>)
   }"

definition closeConnectionLocked_end :: "gpool \<Rightarrow> addr \<Rightarrow> error option \<Rightarrow> gpool go" where
  "closeConnectionLocked_end gp pc err = do {
     gp \<leftarrow> setState gp pc poolConnClosed;
     let gp = gp\<lparr>gp_closing := gp_closing gp - 1\<rparr>;
     if gp_closed gp
     then finishCloseLocked (gp\<lparr>gp_closeErr := errors_Join (gp_closeErr gp) err\<rparr>)
     else dispatchCapacityWaitersLocked gp
   }"

section \<open>Obtaining a connection\<close>

text \<open>
  \<^verbatim>\<open>getConnFromNew\<close> runs without the lock; it allocates the \<^verbatim>\<open>PoolConn\<close> and calls the factory.  Its
  effect on the pool (one new heap object) is visible when the caller re-enters the lock.
\<close>

definition getConnFromNew :: "gpool \<Rightarrow> create_result \<Rightarrow> addr option \<times> error option \<times> gpool" where
  "getConnFromNew gp res =
     (case res of
        Inl e \<Rightarrow> (None, Some e, gp)
      | Inr (ctime, gc) \<Rightarrow>
          let pc = gp_next gp in
          (Some pc, None,
           gp\<lparr>gp_conns := (gp_conns gp)(pc \<mapsto>
                \<lparr>pc_Gc = gc, pc_Ctime = ctime, pc_IdleTime = 0, pc_state = poolConnIdle\<rparr>),
              gp_next := Suc pc\<rparr>))"

text \<open>What a caller does next: it is done with an error or a connection, or it leaves the lock to
  close a connection, to run the factory, or to wait.\<close>

datatype outcome =
    Failed error
  | Got addr
  | MustReopen addr
  | MustCreate
  | MustAbandon addr
  | MustWait addr

definition getConnFromNewForUse_begin :: "gpool \<Rightarrow> gpool" where
  "getConnFromNewForUse_begin gp = gp\<lparr>gp_creating := gp_creating gp + 1\<rparr>"

definition getConnFromNewForUse_end :: "gpool \<Rightarrow> create_result \<Rightarrow> (gpool \<times> outcome) go" where
  "getConnFromNewForUse_end gp res =
     (let (pc, err, gp) = getConnFromNew gp res;
          gp = gp\<lparr>gp_creating := gp_creating gp - 1\<rparr> in
      if gp_closed gp then
        (case pc of
           Some a \<Rightarrow> do { gp \<leftarrow> closeConnectionLocked_begin gp a; Some (gp, MustAbandon a) }
         | None \<Rightarrow> do { gp \<leftarrow> finishCloseLocked gp; Some (gp, Failed [ErrPoolClosed]) })
      else
        (case pc of
           Some a \<Rightarrow> do {
             gp \<leftarrow> setState gp a poolConnBorrowed;
             Some (gp\<lparr>gp_inUse := gp_inUse gp + 1\<rparr>, Got a)
           }
         | None \<Rightarrow> do {
             gp \<leftarrow> dispatchCapacityWaitersLocked gp;
             Some (gp, Failed (the err))
           }))"

definition connExpired :: "gpool \<Rightarrow> poolConn \<Rightarrow> int \<Rightarrow> bool \<Rightarrow> bool" where
  "connExpired gp c connNow isOpen \<longleftrightarrow>
     (let isMaxConnLife = (gp_MaxConnLife gp > 0 \<and> connNow - pc_Ctime c > gp_MaxConnLife gp);
          isMaxIdleConnLife = (gp_MaxIdleConnLife gp > 0 \<and> connNow - pc_IdleTime c > gp_MaxIdleConnLife gp)
      in \<not> isOpen \<or> isMaxConnLife \<or> isMaxIdleConnLife)"

definition getConnFromIdle :: "gpool \<Rightarrow> int \<Rightarrow> bool \<Rightarrow> (gpool \<times> outcome) go" where
  "getConnFromIdle gp connNow isOpen = do {
     (pc, q) \<leftarrow> (if gp_poolFIFO gp then idleQueue_Pop (gp_idle gp) else idleQueue_PopNewest (gp_idle gp));
     pc \<leftarrow> pc;
     gp \<leftarrow> setState (gp\<lparr>gp_idle := q\<rparr>) pc poolConnBorrowed;
     c \<leftarrow> gp_conns gp pc;
     (if connExpired gp c connNow isOpen
      then do { gp \<leftarrow> closeConnectionLocked_begin gp pc; Some (gp, MustReopen pc) }
      else Some (gp\<lparr>gp_inUse := gp_inUse gp + 1\<rparr>, Got pc))
   }"

definition waitForConnectionLocked_enter :: "gpool \<Rightarrow> (gpool \<times> outcome) go" where
  "waitForConnectionLocked_enter gp =
     (if gp_closed gp then Some (gp, Failed [ErrPoolClosed])
      else if waiterQueue_Len (gp_waiters gp) \<ge> gp_MaxWaiters gp then Some (gp, Failed [ErrPoolWaitQueueFull])
      else
        let waiter = gp_next gp;
            gp = gp\<lparr>gp_next := Suc waiter, gp_wheap := (gp_wheap gp)(waiter \<mapsto>
              \<lparr>w_prev = None, w_next = None, w_state = waiterQueued, w_result = None\<rparr>)\<rparr> in
        do {
          (h, q) \<leftarrow> waiterQueue_PushBack (gp_wheap gp) (gp_waiters gp) waiter;
          let gp = gp\<lparr>gp_wheap := h, gp_waiters := q, gp_Waits := waiterQueue_Len q\<rparr>;
          gp \<leftarrow> dispatchCapacityWaitersLocked gp;
          Some (gp, MustWait waiter)
        })"

definition Get_enter :: "gpool \<Rightarrow> int \<Rightarrow> bool \<Rightarrow> (gpool \<times> outcome) go" where
  "Get_enter gp connNow isOpen =
     (if gp_closed gp then Some (gp, Failed [ErrPoolClosed])
      else if waiterQueue_Len (gp_waiters gp) > 0 then waitForConnectionLocked_enter gp
      else if idleQueue_Len (gp_idle gp) > 0 then getConnFromIdle gp connNow isOpen
      else if capacityUsedLocked gp < gp_MaxConns gp
      then Some (getConnFromNewForUse_begin gp, MustCreate)
      else waitForConnectionLocked_enter gp)"

section \<open>Waiting\<close>

text \<open>Taking the value out of a waiter's result channel.\<close>

definition receiveResult :: "gpool \<Rightarrow> addr \<Rightarrow> (gpool \<times> waitResult) go" where
  "receiveResult gp waiter = do {
     r \<leftarrow> gp_wheap gp waiter;
     result \<leftarrow> w_result r;
     Some (gp\<lparr>gp_wheap := (gp_wheap gp)(waiter \<mapsto> r\<lparr>w_result := None\<rparr>)\<rparr>, result)
   }"

text \<open>\<^verbatim>\<open>cancelWaiter\<close>: \<open>Inl\<close> the cancellation error, or \<open>Inr\<close> the result that won the race.\<close>

definition cancelWaiter :: "gpool \<Rightarrow> addr \<Rightarrow> error \<Rightarrow> (gpool \<times> (error + waitResult)) go" where
  "cancelWaiter gp waiter cancelErr = do {
     r \<leftarrow> gp_wheap gp waiter;
     (if w_state r = waiterQueued then do {
        (h, q) \<leftarrow> waiterQueue_Remove (gp_wheap gp) (gp_waiters gp) waiter;
        r \<leftarrow> h waiter;
        let gp = gp\<lparr>gp_waiters := q, gp_wheap := h(waiter \<mapsto> r\<lparr>w_state := waiterCanceled\<rparr>),
                    gp_Waits := waiterQueue_Len q\<rparr>;
        gp \<leftarrow> dispatchCapacityWaitersLocked gp;
        Some (gp, Inl cancelErr)
      } else do {
        (gp, result) \<leftarrow> receiveResult gp waiter;
        Some (gp, Inr result)
      })
   }"

text \<open>
  \<^verbatim>\<open>handleWaitResult\<close>: what the received result means to the waiter (no pool access), the closed check
  of a create grant, and the section after the factory has run.
\<close>

datatype received = RecvErr error | RecvConn "addr option" | RecvCreate

definition handleWaitResult_recv :: "waitResult \<Rightarrow> received" where
  "handleWaitResult_recv result =
     (case wr_err result of
        Some e \<Rightarrow> RecvErr e
      | None \<Rightarrow> (case wr_kind result of
                    waitResultConn \<Rightarrow> RecvConn (wr_conn result)
                  | waitResultCreate \<Rightarrow> RecvCreate))"

definition handleWaitResult_check :: "gpool \<Rightarrow> (gpool \<times> outcome) go" where
  "handleWaitResult_check gp =
     (if gp_closed gp then do {
        gp \<leftarrow> finishCloseLocked (gp\<lparr>gp_creating := gp_creating gp - 1\<rparr>);
        Some (gp, Failed [ErrPoolClosed])
      } else Some (gp, MustCreate))"

definition handleWaitResult_end :: "gpool \<Rightarrow> create_result \<Rightarrow> (gpool \<times> outcome) go" where
  "handleWaitResult_end gp res =
     (let (pc, err, gp) = getConnFromNew gp res;
          gp = gp\<lparr>gp_creating := gp_creating gp - 1\<rparr> in
      if gp_closed gp then
        (case pc of
           Some a \<Rightarrow> do { gp \<leftarrow> closeConnectionLocked_begin gp a; Some (gp, MustAbandon a) }
         | None \<Rightarrow> do { gp \<leftarrow> finishCloseLocked gp; Some (gp, Failed [ErrPoolClosed]) })
      else
        (case pc of
           Some a \<Rightarrow> do {
             gp \<leftarrow> setState gp a poolConnBorrowed;
             Some (gp\<lparr>gp_inUse := gp_inUse gp + 1\<rparr>, Got a)
           }
         | None \<Rightarrow> do {
             gp \<leftarrow> dispatchCapacityWaitersLocked gp;
             Some (gp, Failed (the err))
           }))"

section \<open>Returning a connection\<close>

definition connectionReusableForHandoff :: "gpool \<Rightarrow> poolConn \<Rightarrow> int \<Rightarrow> bool \<Rightarrow> bool" where
  "connectionReusableForHandoff gp c now isOpen \<longleftrightarrow>
     (if \<not> isOpen then False
      else gp_MaxConnLife gp \<le> 0 \<or> now - pc_Ctime c \<le> gp_MaxConnLife gp)"

text \<open>\<^verbatim>\<open>put\<close> also returns the connection it leaves the lock to close, if there is one.\<close>

definition put_close :: "gpool \<Rightarrow> addr \<Rightarrow> (gpool \<times> addr option) go" where
  "put_close gp closeConn = do {
     gp \<leftarrow> closeConnectionLocked_begin gp closeConn;
     Some (gp, Some closeConn)
   }"

definition put_idle :: "gpool \<Rightarrow> addr \<Rightarrow> (gpool \<times> addr option) go" where
  "put_idle gp pc = do {
     (ok, q) \<leftarrow> idleQueue_Push (gp_idle gp) (Some pc);
     (if ok then Some (gp\<lparr>gp_idle := q\<rparr>, None)
      else if idleQueue_Cap (gp_idle gp) = 0 then put_close gp pc
      else do {
        (closeConn, q) \<leftarrow> idleQueue_Pop (gp_idle gp);
        (_, q) \<leftarrow> idleQueue_Push q (Some pc);
        let gp = gp\<lparr>gp_idle := q\<rparr>;
        (case closeConn of None \<Rightarrow> Some (gp, None) | Some old \<Rightarrow> put_close gp old)
      })
   }"

definition put :: "gpool \<Rightarrow> addr \<Rightarrow> int \<Rightarrow> bool \<Rightarrow> (gpool \<times> addr option) go" where
  "put gp pc now isOpen =
     (if gp_closed gp then do {
        gp \<leftarrow> setIdleTime (gp\<lparr>gp_inUse := gp_inUse gp - 1\<rparr>) pc now;
        put_close gp pc
      } else do {
        c \<leftarrow> gp_conns gp pc;
        (if waiterQueue_Len (gp_waiters gp) > 0 \<and> connectionReusableForHandoff gp c now isOpen then do {
           (waiter, gp) \<leftarrow> popWaiter gp;
           gp \<leftarrow> setState gp pc poolConnBorrowed;
           gp \<leftarrow> deliverWaiterLocked gp waiter (connGrant pc);
           Some (gp, None)
         } else do {
           gp \<leftarrow> setIdleTime (gp\<lparr>gp_inUse := gp_inUse gp - 1\<rparr>) pc now;
           gp \<leftarrow> setState gp pc poolConnIdle;
           (if waiterQueue_Len (gp_waiters gp) > 0 then put_close gp pc else put_idle gp pc)
         })
      })"

text \<open>
  \<^verbatim>\<open>PoolConn.Close\<close> and \<^verbatim>\<open>PoolConn.Discard\<close> start with the same compare-and-swap, which is not under
  the pool mutex; only the caller that wins it goes on to \<^verbatim>\<open>put\<close> or to the discarding section.
\<close>

definition PoolConn_Close_cas :: "gpool \<Rightarrow> addr \<Rightarrow> (gpool \<times> bool) go" where
  "PoolConn_Close_cas gp pc = do {
     c \<leftarrow> gp_conns gp pc;
     (if pc_state c = poolConnBorrowed
      then do { gp \<leftarrow> setState gp pc poolConnReturning; Some (gp, True) }
      else Some (gp, False))
   }"

definition PoolConn_Discard_locked :: "gpool \<Rightarrow> addr \<Rightarrow> gpool go" where
  "PoolConn_Discard_locked gp pc = closeConnectionLocked_begin (gp\<lparr>gp_inUse := gp_inUse gp - 1\<rparr>) pc"

section \<open>Shutdown\<close>

function close_waiters :: "gpool \<Rightarrow> gpool go" where
  "close_waiters gp =
     (if waiterQueue_Len (gp_waiters gp) > 0
      then case popWaiter gp of
        None \<Rightarrow> None
      | Some (waiter, gp') \<Rightarrow>
          (case deliverWaiterLocked gp' waiter closedResult of
             None \<Rightarrow> None
           | Some gp'' \<Rightarrow> close_waiters gp'')
      else Some gp)"
  by pat_completeness auto
termination
  by (relation "measure (\<lambda>gp. nat (wq_size (gp_waiters gp)))")
    (auto simp: waiterQueue_Len_def dest!: popWaiter_size deliver_waiters)

lemma idle_pop_size: "idleQueue_Pop q = Some (c, q') \<Longrightarrow> iq_size q' = iq_size q - 1"
  by (auto simp: idleQueue_Pop_def Let_def split: if_splits)

function close_idle :: "gpool \<Rightarrow> addr list \<Rightarrow> (gpool \<times> addr list) go" where
  "close_idle gp closeList =
     (if idleQueue_Len (gp_idle gp) > 0
      then case idleQueue_Pop (gp_idle gp) of
        Some (Some pc, q) \<Rightarrow>
          (case setState (gp\<lparr>gp_idle := q\<rparr>) pc poolConnClosing of
             None \<Rightarrow> None
           | Some gp' \<Rightarrow> close_idle (gp'\<lparr>gp_closing := gp_closing gp' + 1\<rparr>) (closeList @ [pc]))
      | _ \<Rightarrow> None
      else Some (gp, closeList))"
  by pat_completeness auto
termination
  by (relation "measure (\<lambda>(gp, _). iq_size (gp_idle gp))")
    (auto simp: idleQueue_Len_def setState_def Option.bind_eq_Some_conv dest!: idle_pop_size)

declare close_waiters.simps [simp del] close_idle.simps [simp del]

text \<open>The locked part of \<^verbatim>\<open>Gpool.Close\<close>; the list is handed to \<^verbatim>\<open>closeIdleConnections\<close>.\<close>

definition Close_enter :: "gpool \<Rightarrow> (gpool \<times> addr list) go" where
  "Close_enter gp =
     (let gp = (if gp_closeDone gp = None then gp\<lparr>gp_closeDone := Some False\<rparr> else gp) in
      if \<not> gp_closed gp then do {
        gp \<leftarrow> close_waiters (gp\<lparr>gp_closed := True\<rparr>);
        (gp, closeList) \<leftarrow> close_idle gp [];
        gp \<leftarrow> finishCloseLocked gp;
        Some (gp, closeList)
      } else Some (gp, []))"

text \<open>The section \<^verbatim>\<open>closeIdleConnections\<close> runs after each physical close.\<close>

definition closeIdleConnections_end :: "gpool \<Rightarrow> addr \<Rightarrow> error option \<Rightarrow> gpool go" where
  "closeIdleConnections_end gp pc err = do {
     gp \<leftarrow> setState gp pc poolConnClosed;
     finishCloseLocked (gp\<lparr>gp_closing := gp_closing gp - 1,
       gp_closeErr := errors_Join (gp_closeErr gp) err\<rparr>)
   }"

section \<open>Initialisation\<close>

text \<open>
  \<^verbatim>\<open>CreateIdleConn\<close> runs the factory \<^verbatim>\<open>MaxIdleConns\<close> times; \<open>results i\<close> is the result of the \<open>i\<close>-th run
  and \<open>nows i\<close> the time it is stored.  A connection the ring refuses is closed.
\<close>

definition CreateIdleConn_step :: "gpool \<Rightarrow> create_result \<Rightarrow> int \<Rightarrow> gpool go" where
  "CreateIdleConn_step gp res now =
     (case getConnFromNew gp res of
        (Some pc, _, gp) \<Rightarrow> do {
          gp \<leftarrow> setIdleTime gp pc now;
          gp \<leftarrow> setState gp pc poolConnIdle;
          (ok, q) \<leftarrow> idleQueue_Push (gp_idle gp) (Some pc);
          Some (gp\<lparr>gp_idle := q\<rparr>)
        }
      | (None, _, gp) \<Rightarrow> Some gp)"

primrec CreateIdleConn_loop :: "nat \<Rightarrow> nat \<Rightarrow> (nat \<Rightarrow> create_result) \<Rightarrow> (nat \<Rightarrow> int) \<Rightarrow> gpool \<Rightarrow> gpool go" where
  "CreateIdleConn_loop 0 i results nows gp = Some gp"
| "CreateIdleConn_loop (Suc n) i results nows gp = do {
     gp \<leftarrow> CreateIdleConn_step gp (results i) (nows i);
     CreateIdleConn_loop n (Suc i) results nows gp
   }"

definition CreateIdleConn :: "gpool \<Rightarrow> (nat \<Rightarrow> create_result) \<Rightarrow> (nat \<Rightarrow> int) \<Rightarrow> gpool go" where
  "CreateIdleConn gp results nows = CreateIdleConn_loop (nat (gp_MaxIdleConns gp)) 0 results nows gp"

definition GpoolInit ::
  "gpool \<Rightarrow> int \<Rightarrow> int \<Rightarrow> int \<Rightarrow> int \<Rightarrow> (nat \<Rightarrow> create_result) \<Rightarrow> (nat \<Rightarrow> int) \<Rightarrow> gpool go" where
  "GpoolInit gp timeout maxconns maxidleconns maxconnlife results nows =
     (let maxidleconns = (if maxidleconns > maxconns then maxconns else maxidleconns);
          gp = gp\<lparr>gp_inUse := 0, gp_creating := 0, gp_closing := 0,
                  gp_waiters := emptyWaiterQueue, gp_Waits := 0\<rparr>;
          gp = resetCloseState gp;
          gp = gp\<lparr>gp_MaxConns := maxconns, gp_MaxIdleConns := maxidleconns,
                  gp_idle := newIdleQueue maxidleconns, gp_poolFIFO := False,
                  gp_MaxConnLife := maxconnlife, gp_RPCMaxRetries := 0,
                  gp_TimeOut := timeout, gp_MaxWaiters := max 1 maxconns\<rparr>
      in CreateIdleConn gp results nows)"

definition GpoolInit2 ::
  "gpool \<Rightarrow> int \<Rightarrow> gPoolConfig \<Rightarrow> (nat \<Rightarrow> create_result) \<Rightarrow> (nat \<Rightarrow> int) \<Rightarrow> gpool go" where
  "GpoolInit2 gp timeout conf results nows =
     (let gp = gp\<lparr>gp_inUse := 0, gp_creating := 0, gp_closing := 0,
                  gp_waiters := emptyWaiterQueue, gp_Waits := 0\<rparr>;
          gp = resetCloseState gp;
          gp = gp\<lparr>gp_MaxConns := cf_MaxConns conf, gp_MaxIdleConns := cf_MaxIdleConns conf\<rparr>;
          gp = (if gp_MaxIdleConns gp > gp_MaxConns gp then gp\<lparr>gp_MaxIdleConns := gp_MaxConns gp\<rparr> else gp);
          gp = gp\<lparr>gp_idle := newIdleQueue (gp_MaxIdleConns gp), gp_poolFIFO := cf_PoolFIFO conf,
                  gp_MaxConnLife := cf_MaxConnLife conf, gp_MaxIdleConnLife := cf_MaxIdleConnLife conf,
                  gp_RPCMaxRetries := cf_RPCMaxRetries conf, gp_TimeOut := timeout,
                  gp_MaxWaiters := cf_MaxWaiters conf\<rparr>;
          gp = (if gp_MaxWaiters gp \<le> 0 then gp\<lparr>gp_MaxWaiters := max 1 (gp_MaxConns gp)\<rparr> else gp)
      in CreateIdleConn gp results nows)"

text \<open>\<^verbatim>\<open>IdleCount\<close>, \<^verbatim>\<open>InUseCount\<close> and \<^verbatim>\<open>WaiterCount\<close>.\<close>

definition IdleCount :: "gpool \<Rightarrow> nat" where
  "IdleCount gp = idleQueue_Len (gp_idle gp)"

definition InUseCount :: "gpool \<Rightarrow> int" where
  "InUseCount gp = gp_inUse gp"

definition WaiterCount :: "gpool \<Rightarrow> int" where
  "WaiterCount gp = waiterQueue_Len (gp_waiters gp)"

text \<open>The zero \<^verbatim>\<open>Gpool\<close> that \<^verbatim>\<open>&Gpool[T]{}\<close> allocates.\<close>

definition zeroGpool :: gpool where
  "zeroGpool = \<lparr>gp_idle = newIdleQueue 0, gp_poolFIFO = False, gp_MaxConns = 0, gp_MaxIdleConns = 0,
     gp_MaxConnLife = 0, gp_MaxIdleConnLife = 0, gp_RPCMaxRetries = 0, gp_inUse = 0, gp_creating = 0,
     gp_closing = 0, gp_TimeOut = 0, gp_MaxWaiters = 0, gp_Waits = 0, gp_waiters = emptyWaiterQueue,
     gp_closed = False, gp_closeDone = None, gp_closeEnded = False, gp_closeErr = None,
     gp_conns = (\<lambda>_. None), gp_wheap = (\<lambda>_. None), gp_next = 0\<rparr>"

end
