(* ===== verification/Gpool_Steps.thy ===== *)
theory Gpool_Steps
  imports Gpool
begin

text \<open>
  Any number of goroutines using one pool.  A goroutine that is inside a pool method (outside the
  mutex) or that holds a lease is a \<open>thread\<close>, its program point; the system state is the pool, the
  multiset of threads and a history flag that records whether \<^verbatim>\<open>Get\<close> ever met an idle connection it had
  to reopen.  \<open>pool_step\<close> has one rule per critical section; \<open>pool_reachable\<close> are the states of the
  runs from an initialised pool.

  The invariant \<open>pool_inv\<close> has four parts: the counters count the threads (\<open>count_ok\<close>), every live
  connection has exactly one owner and is in the matching state (\<open>own_ok\<close>), a waiting goroutine is
  queued or has its result (\<open>wait_ok\<close>), and the shutdown flags agree with the rest (\<open>flag_ok\<close>).
\<close>

section \<open>Threads and steps\<close>

datatype thread =
    InReopen addr          \<comment> \<open>\<^verbatim>\<open>getConnFromIdle\<close>: closing an unusable idle connection\<close>
  | InCreate               \<comment> \<open>\<^verbatim>\<open>getConnFromNewForUse\<close>: running the factory\<close>
  | InWait addr            \<comment> \<open>\<^verbatim>\<open>waitForConnectionLocked\<close>: in the select\<close>
  | InCreateWait           \<comment> \<open>\<^verbatim>\<open>handleWaitResult\<close>: before the closed check\<close>
  | InCreateGranted        \<comment> \<open>\<^verbatim>\<open>handleWaitResult\<close>: running the factory\<close>
  | InAbandon addr         \<comment> \<open>closing a connection created for a closed pool\<close>
  | Holding addr           \<comment> \<open>the caller owns the lease\<close>
  | Returning addr         \<comment> \<open>\<^verbatim>\<open>PoolConn.Close\<close>: after the compare-and-swap\<close>
  | Discarding addr        \<comment> \<open>\<^verbatim>\<open>PoolConn.Discard\<close>: after the compare-and-swap\<close>
  | InClose addr           \<comment> \<open>\<^verbatim>\<open>put\<close> or \<^verbatim>\<open>Discard\<close>: closing a connection\<close>
  | InShutdown "addr list" \<comment> \<open>\<^verbatim>\<open>closeIdleConnections\<close>: the connections left to close\<close>

fun after_get :: "outcome \<Rightarrow> thread multiset" where
  "after_get (Failed e) = {#}"
| "after_get (Got a) = {#Holding a#}"
| "after_get (MustReopen a) = {#InReopen a#}"
| "after_get MustCreate = {#InCreate#}"
| "after_get (MustAbandon a) = {#InAbandon a#}"
| "after_get (MustWait w) = {#InWait w#}"

fun after_recv :: "received \<Rightarrow> thread multiset" where
  "after_recv (RecvErr e) = {#}"
| "after_recv (RecvConn None) = {#}"
| "after_recv (RecvConn (Some a)) = {#Holding a#}"
| "after_recv RecvCreate = {#InCreateWait#}"

fun after_check :: "outcome \<Rightarrow> thread multiset" where
  "after_check MustCreate = {#InCreateGranted#}"
| "after_check _ = {#}"

fun after_put :: "addr option \<Rightarrow> thread multiset" where
  "after_put None = {#}"
| "after_put (Some a) = {#InClose a#}"

fun after_shutdown :: "addr list \<Rightarrow> thread multiset" where
  "after_shutdown [] = {#}"
| "after_shutdown (a # as) = {#InShutdown (a # as)#}"

fun is_reopen :: "outcome \<Rightarrow> bool" where
  "is_reopen (MustReopen a) = True"
| "is_reopen _ = False"

type_synonym psys = "gpool \<times> thread multiset \<times> bool"

inductive pool_step :: "psys \<Rightarrow> psys \<Rightarrow> bool" where
  get: "Get_enter gp now isOpen = Some (gp', out) \<Longrightarrow>
    pool_step (gp, T, ro) (gp', after_get out + T, ro \<or> is_reopen out)"
| reopen: "closeConnectionLocked_end gp a err = Some gp' \<Longrightarrow>
    pool_step (gp, add_mset (InReopen a) T, ro) (getConnFromNewForUse_begin gp', add_mset InCreate T, ro)"
| create: "getConnFromNewForUse_end gp res = Some (gp', out) \<Longrightarrow>
    pool_step (gp, add_mset InCreate T, ro) (gp', after_get out + T, ro)"
| recv: "receiveResult gp w = Some (gp', r) \<Longrightarrow>
    pool_step (gp, add_mset (InWait w) T, ro) (gp', after_recv (handleWaitResult_recv r) + T, ro)"
| cancel: "cancelWaiter gp w e = Some (gp', Inl e') \<Longrightarrow>
    pool_step (gp, add_mset (InWait w) T, ro) (gp', T, ro)"
| cancel_lost: "cancelWaiter gp w e = Some (gp', Inr r) \<Longrightarrow>
    pool_step (gp, add_mset (InWait w) T, ro) (gp', after_recv (handleWaitResult_recv r) + T, ro)"
| check: "handleWaitResult_check gp = Some (gp', out) \<Longrightarrow>
    pool_step (gp, add_mset InCreateWait T, ro) (gp', after_check out + T, ro)"
| granted: "handleWaitResult_end gp res = Some (gp', out) \<Longrightarrow>
    pool_step (gp, add_mset InCreateGranted T, ro) (gp', after_get out + T, ro)"
| abandoned: "closeConnectionLocked_end gp a err = Some gp' \<Longrightarrow>
    pool_step (gp, add_mset (InAbandon a) T, ro) (gp', T, ro)"
| close_cas: "PoolConn_Close_cas gp a = Some (gp', True) \<Longrightarrow>
    pool_step (gp, add_mset (Holding a) T, ro) (gp', add_mset (Returning a) T, ro)"
| discard_cas: "PoolConn_Close_cas gp a = Some (gp', True) \<Longrightarrow>
    pool_step (gp, add_mset (Holding a) T, ro) (gp', add_mset (Discarding a) T, ro)"
| put: "put gp a now isOpen = Some (gp', c) \<Longrightarrow>
    pool_step (gp, add_mset (Returning a) T, ro) (gp', after_put c + T, ro)"
| discard: "PoolConn_Discard_locked gp a = Some gp' \<Longrightarrow>
    pool_step (gp, add_mset (Discarding a) T, ro) (gp', add_mset (InClose a) T, ro)"
| closed: "closeConnectionLocked_end gp a err = Some gp' \<Longrightarrow>
    pool_step (gp, add_mset (InClose a) T, ro) (gp', T, ro)"
| shutdown: "Close_enter gp = Some (gp', cl) \<Longrightarrow>
    pool_step (gp, T, ro) (gp', after_shutdown cl + T, ro)"
| shutdown_one: "closeIdleConnections_end gp a err = Some gp' \<Longrightarrow>
    pool_step (gp, add_mset (InShutdown (a # as)) T, ro) (gp', after_shutdown as + T, ro)"

inductive pool_reachable :: "psys \<Rightarrow> bool" where
  init: "GpoolInit2 zeroGpool timeout conf results nows = Some gp \<Longrightarrow> pool_reachable (gp, {#}, False)"
| init_old: "GpoolInit zeroGpool timeout maxconns maxidle maxlife results nows = Some gp \<Longrightarrow>
    pool_reachable (gp, {#}, False)"
| step: "pool_reachable s \<Longrightarrow> pool_step s s' \<Longrightarrow> pool_reachable s'"

section \<open>What a thread owns and which counter it is in\<close>

type_synonym payload = "addr \<Rightarrow> (waiterState \<times> waitResult option) option"

definition pay :: "wheap \<Rightarrow> payload" where
  "pay h w = map_option (\<lambda>r. (w_state r, w_result r)) (h w)"

definition conn_st :: "(addr \<Rightarrow> poolConn option) \<Rightarrow> addr \<Rightarrow> poolConnState option" where
  "conn_st m a = map_option pc_state (m a)"

text \<open>The result waiting in a waiter's channel, as \<^verbatim>\<open>handleWaitResult\<close> will read it.\<close>

definition pending :: "payload \<Rightarrow> addr \<Rightarrow> received option" where
  "pending P w = (case P w of Some (_, Some r) \<Rightarrow> Some (handleWaitResult_recv r) | _ \<Rightarrow> None)"

fun owns :: "payload \<Rightarrow> thread \<Rightarrow> addr list" where
  "owns P (InReopen a) = [a]"
| "owns P InCreate = []"
| "owns P (InWait w) = (case pending P w of Some (RecvConn (Some a)) \<Rightarrow> [a] | _ \<Rightarrow> [])"
| "owns P InCreateWait = []"
| "owns P InCreateGranted = []"
| "owns P (InAbandon a) = [a]"
| "owns P (Holding a) = [a]"
| "owns P (Returning a) = [a]"
| "owns P (Discarding a) = [a]"
| "owns P (InClose a) = [a]"
| "owns P (InShutdown as) = as"

fun want :: "thread \<Rightarrow> poolConnState" where
  "want (InWait w) = poolConnBorrowed"
| "want (Holding a) = poolConnBorrowed"
| "want (Returning a) = poolConnReturning"
| "want (Discarding a) = poolConnReturning"
| "want _ = poolConnClosing"

fun uses :: "payload \<Rightarrow> thread \<Rightarrow> int" where
  "uses P (Holding a) = 1"
| "uses P (Returning a) = 1"
| "uses P (Discarding a) = 1"
| "uses P (InWait w) = (case pending P w of Some (RecvConn (Some a)) \<Rightarrow> 1 | _ \<Rightarrow> 0)"
| "uses P _ = 0"

fun creates :: "payload \<Rightarrow> thread \<Rightarrow> int" where
  "creates P InCreate = 1"
| "creates P InCreateWait = 1"
| "creates P InCreateGranted = 1"
| "creates P (InWait w) = (case pending P w of Some RecvCreate \<Rightarrow> 1 | _ \<Rightarrow> 0)"
| "creates P _ = 0"

fun closes :: "payload \<Rightarrow> thread \<Rightarrow> int" where
  "closes P (InReopen a) = 1"
| "closes P (InAbandon a) = 1"
| "closes P (InClose a) = 1"
| "closes P (InShutdown as) = int (length as)"
| "closes P _ = 0"

section \<open>The invariant\<close>

definition count_ok :: "payload \<Rightarrow> thread multiset \<Rightarrow> int \<Rightarrow> int \<Rightarrow> int \<Rightarrow> bool" where
  "count_ok P T u c k \<longleftrightarrow>
     u = (\<Sum>t\<in>#T. uses P t) \<and> c = (\<Sum>t\<in>#T. creates P t) \<and> k = (\<Sum>t\<in>#T. closes P t)"

definition owned :: "payload \<Rightarrow> thread multiset \<Rightarrow> addr multiset" where
  "owned P T = (\<Sum>t\<in>#T. mset (owns P t))"

definition own_ok ::
  "payload \<Rightarrow> thread multiset \<Rightarrow> (addr \<Rightarrow> poolConnState option) \<Rightarrow> addr list \<Rightarrow> bool" where
  "own_ok P T st idl \<longleftrightarrow>
     once (mset idl + owned P T) \<and>
     (\<forall>a \<in> set idl. st a = Some poolConnIdle) \<and>
     (\<forall>t \<in># T. \<forall>a \<in> set (owns P t). st a = Some (want t))"

definition good_result :: "waitResult \<Rightarrow> bool" where
  "good_result r \<longleftrightarrow> r = createGrant \<or> r = closedResult \<or> (\<exists>a. r = connGrant a)"

definition wait_ok :: "payload \<Rightarrow> thread multiset \<Rightarrow> addr list \<Rightarrow> bool" where
  "wait_ok P T ws \<longleftrightarrow>
     (\<forall>w \<in> set ws. InWait w \<in># T \<and> P w = Some (waiterQueued, None)) \<and>
     (\<forall>w. InWait w \<in># T \<longrightarrow> count T (InWait w) = 1 \<and>
        (w \<in> set ws \<or> (\<exists>r. P w = Some (waiterDelivered, Some r) \<and> good_result r)))"

definition flag_ok :: "gpool \<Rightarrow> addr list \<Rightarrow> thread multiset \<Rightarrow> bool \<Rightarrow> bool" where
  "flag_ok gp ws T ro \<longleftrightarrow>
     (gp_closed gp \<longrightarrow> ws = [] \<and> iq_list (gp_idle gp) = []) \<and>
     (ws \<noteq> [] \<longrightarrow> iq_list (gp_idle gp) = []) \<and>
     gp_closeDone gp = Some (gp_closeEnded gp) \<and>
     (gp_closeEnded gp \<longrightarrow> gp_closed gp \<and> gp_inUse gp = 0) \<and>
     (\<not> ro \<longrightarrow> capacityUsedLocked gp \<le> max 0 (gp_MaxConns gp)) \<and>
     (\<not> ro \<and> gp_closeEnded gp \<longrightarrow> capacityUsedLocked gp = 0) \<and>
     (\<not> ro \<longrightarrow> (\<forall>a. InReopen a \<notin># T)) \<and>
     (\<forall>cl. InShutdown cl \<in># T \<longrightarrow> gp_closed gp)"

definition struct_ok :: "gpool \<Rightarrow> addr list \<Rightarrow> bool" where
  "struct_ok gp ws \<longleftrightarrow>
     iq_inv (gp_idle gp) \<and> idleQueue_Cap (gp_idle gp) = nat (gp_MaxIdleConns gp) \<and>
     wq_rep (gp_wheap gp) (gp_waiters gp) ws \<and> gp_Waits gp = int (length ws) \<and>
     (\<forall>a. gp_conns gp a \<noteq> None \<longrightarrow> a < gp_next gp) \<and> (\<forall>w. pay (gp_wheap gp) w \<noteq> None \<longrightarrow> w < gp_next gp)"

text \<open>\<open>inv0\<close> holds inside the critical sections too, \<open>settled\<close> only when the mutex is free.\<close>

definition inv0 :: "gpool \<Rightarrow> addr list \<Rightarrow> thread multiset \<Rightarrow> bool \<Rightarrow> bool" where
  "inv0 gp ws T ro \<longleftrightarrow>
     struct_ok gp ws \<and>
     count_ok (pay (gp_wheap gp)) T (gp_inUse gp) (gp_creating gp) (gp_closing gp) \<and>
     own_ok (pay (gp_wheap gp)) T (conn_st (gp_conns gp)) (iq_list (gp_idle gp)) \<and>
     wait_ok (pay (gp_wheap gp)) T ws \<and> flag_ok gp ws T ro"

definition settled :: "gpool \<Rightarrow> addr list \<Rightarrow> bool" where
  "settled gp ws \<longleftrightarrow>
     (\<not> gp_closed gp \<and> ws \<noteq> [] \<longrightarrow> gp_MaxConns gp \<le> capacityUsedLocked gp) \<and>
     (gp_closed gp \<and> capacityUsedLocked gp = 0 \<longrightarrow> gp_closeEnded gp)"

definition pool_inv :: "psys \<Rightarrow> bool" where
  "pool_inv s \<longleftrightarrow> (case s of (gp, T, ro) \<Rightarrow> \<exists>ws. inv0 gp ws T ro \<and> settled gp ws)"

section \<open>Counting\<close>

lemma uses_nonneg: "0 \<le> uses P t" and creates_nonneg: "0 \<le> creates P t" and closes_nonneg: "0 \<le> closes P t"
  by (cases t; simp split: option.splits received.splits)+

lemma sum_mset_nonneg: "(\<And>t. (0::int) \<le> f t) \<Longrightarrow> 0 \<le> (\<Sum>t\<in>#T. f t)"
  by (induction T) auto

lemma count_ok_nonneg:
  assumes "count_ok P T u c k"
  shows "0 \<le> u" "0 \<le> c" "0 \<le> k"
  using assms unfolding count_ok_def
  by (simp_all add: sum_mset_nonneg uses_nonneg creates_nonneg closes_nonneg)

lemma count_ok_add [simp]:
  "count_ok P (add_mset t T) u c k \<longleftrightarrow> count_ok P T (u - uses P t) (c - creates P t) (k - closes P t)"
  by (auto simp: count_ok_def)

lemma pending_upd [simp]: "w' \<noteq> w \<Longrightarrow> pending (P(w := x)) w' = pending P w'"
  by (simp add: pending_def)

lemma owns_upd: "t \<noteq> InWait w \<Longrightarrow> owns (P(w := x)) t = owns P t"
  and uses_upd: "t \<noteq> InWait w \<Longrightarrow> uses (P(w := x)) t = uses P t"
  and creates_upd: "t \<noteq> InWait w \<Longrightarrow> creates (P(w := x)) t = creates P t"
  and closes_upd: "closes (P(w := x)) t = closes P t"
  by (cases t; auto)+

lemma sum_upd_cong:
  assumes "InWait w \<notin># T" "\<And>t. t \<noteq> InWait w \<Longrightarrow> f' t = f t"
  shows "(\<Sum>t\<in>#T. f' t) = (\<Sum>t\<in>#T. f t)"
proof -
  have "image_mset f' T = image_mset f T"
    using assms by (intro image_mset_cong) metis
  then show ?thesis by simp
qed

lemma count_ok_upd:
  assumes "InWait w \<notin># T"
  shows "count_ok (P(w := x)) T u c k = count_ok P T u c k"
proof -
  have "(\<Sum>t\<in>#T. uses (P(w := x)) t) = (\<Sum>t\<in>#T. uses P t)"
    "(\<Sum>t\<in>#T. creates (P(w := x)) t) = (\<Sum>t\<in>#T. creates P t)"
    "(\<Sum>t\<in>#T. closes (P(w := x)) t) = (\<Sum>t\<in>#T. closes P t)"
    by (rule sum_upd_cong [OF assms]; rule uses_upd creates_upd closes_upd; assumption)+
  then show ?thesis by (simp only: count_ok_def)
qed

section \<open>Ownership\<close>

lemma owned_add [simp]: "owned P (add_mset t T) = mset (owns P t) + owned P T"
  by (simp add: owned_def)

lemma owned_empty [simp]: "owned P {#} = {#}"
  by (simp add: owned_def)

lemma owned_upd: "InWait w \<notin># T \<Longrightarrow> owned (P(w := x)) T = owned P T"
  unfolding owned_def by (erule sum_upd_cong) (metis owns_upd)

lemma in_owned: "a \<in># owned P T \<longleftrightarrow> (\<exists>t \<in># T. a \<in> set (owns P t))"
  by (induction T) auto

lemma own_ok_upd:
  assumes "InWait w \<notin># T"
  shows "own_ok (P(w := x)) T st idl = own_ok P T st idl"
proof -
  have "owns (P(w := x)) t = owns P t" if "t \<in># T" for t
    using assms that by (intro owns_upd) auto
  then show ?thesis unfolding own_ok_def by (simp add: owned_upd [OF assms])
qed

lemma own_ok_none: "owns P t = [] \<Longrightarrow> own_ok P (add_mset t T) st idl = own_ok P T st idl"
  by (simp add: own_ok_def)

lemma own_ok_cong_st:
  assumes "own_ok P T st idl" "\<And>b. b \<in> set idl \<Longrightarrow> st' b = st b"
    "\<And>b. b \<in># owned P T \<Longrightarrow> st' b = st b"
  shows "own_ok P T st' idl"
  using assms unfolding own_ok_def in_owned by (metis (no_types, lifting))

text \<open>A connection with one owner is owned by nobody else.\<close>

lemma own_ok_owner_unique:
  assumes "own_ok P (add_mset t T) st idl" "owns P t = [a]"
  shows "a \<notin> set idl" "a \<notin># owned P T"
  using assms by (auto simp: own_ok_def)

lemma own_ok_drop:
  assumes "own_ok P (add_mset t T) st idl" "owns P t = [a]"
  shows "own_ok P T (st(a := x)) idl"
proof -
  note u = own_ok_owner_unique [OF assms]
  have "own_ok P T st idl" using assms by (auto simp: own_ok_def)
  then show ?thesis by (rule own_ok_cong_st) (use u in auto)
qed

text \<open>A connection leaves its owner, and may get a new one.\<close>

lemma own_ok_add:
  assumes "own_ok P T st idl" "owns P t = [a]" "a \<notin> set idl" "a \<notin># owned P T" "st a = Some (want t)"
  shows "own_ok P (add_mset t T) st idl"
  using assms by (auto simp: own_ok_def)

lemma own_ok_move:
  assumes "own_ok P (add_mset t T) st idl" "owns P t = [a]" "owns P t' = [a]"
  shows "own_ok P (add_mset t' T) (st(a \<mapsto> want t')) idl"
  by (rule own_ok_add [OF own_ok_drop [OF assms(1,2)]])
    (use own_ok_owner_unique [OF assms(1,2)] assms in auto)

lemma own_ok_fresh:
  assumes "own_ok P T st idl" "st a = None" "owns P t = [a]"
  shows "own_ok P (add_mset t T) (st(a \<mapsto> want t)) idl"
proof -
  have "a \<notin> set idl" using assms(1,2) by (auto simp: own_ok_def)
  moreover have "a \<notin># owned P T" using assms(1,2) by (auto simp: own_ok_def in_owned)
  ultimately show ?thesis
    by (intro own_ok_add [OF own_ok_cong_st [OF assms(1)]]) (use assms in auto)
qed

lemma own_ok_from_idle:
  assumes "own_ok P T st idl" "mset idl = add_mset a (mset idl')" "owns P t = [a]"
  shows "own_ok P (add_mset t T) (st(a \<mapsto> want t)) idl'"
proof -
  have set: "set idl = insert a (set idl')"
    using assms(2) by (metis set_mset_add_mset_insert set_mset_mset)
  have nin: "a \<notin> set idl'" "a \<notin># owned P T" and ok: "own_ok P T st idl'"
    using assms(1,2) set by (auto simp: own_ok_def)
  have "own_ok P T (st(a \<mapsto> want t)) idl'"
    using ok by (rule own_ok_cong_st) (use nin in auto)
  then show ?thesis
    by (rule own_ok_add) (use nin assms(3) in auto)
qed

lemma own_ok_to_idle:
  assumes "own_ok P (add_mset t T) st idl" "owns P t = [a]" "mset idl' = add_mset a (mset idl)"
  shows "own_ok P T (st(a \<mapsto> poolConnIdle)) idl'"
proof -
  have ok: "own_ok P T (st(a \<mapsto> poolConnIdle)) idl" by (rule own_ok_drop [OF assms(1,2)])
  have set: "set idl' = insert a (set idl)" using assms(3) by (metis set_mset_add_mset_insert set_mset_mset)
  from ok set own_ok_owner_unique [OF assms(1,2)] show ?thesis
    unfolding own_ok_def by (auto simp: assms(3))
qed

end
