(* ===== verification/Gpool_Inv.thy ===== *)
theory Gpool_Inv
  imports Gpool_Steps
begin

text \<open>
  Every critical section of the pool runs to its end (no panic, no blocking send) and keeps the
  invariant of \<open>Gpool_Steps\<close>.  Each lemma below computes the pool a section returns from the
  contracts of the idle ring and of the waiter queue.
\<close>

section \<open>Payloads of waiters\<close>

lemma pay_None: "pay h w = None \<longleftrightarrow> h w = None"
  by (simp add: pay_def)

lemma pay_same: "same_payload h h' \<longleftrightarrow> pay h' = pay h"
  by (auto simp: same_payload_def pay_def fun_eq_iff)

lemma pay_SomeD:
  assumes "pay h w = Some (s, r)"
  obtains x where "h w = Some x" "w_state x = s" "w_result x = r"
  using assms by (auto simp: pay_def)

lemma pay_upd [simp]: "pay (h(w \<mapsto> x)) = (pay h)(w \<mapsto> (w_state x, w_result x))"
  by (auto simp: pay_def fun_eq_iff)

lemma conn_st_upd [simp]:
  "conn_st (m(a \<mapsto> c)) = (conn_st m)(a \<mapsto> pc_state c)"
  by (auto simp: conn_st_def fun_eq_iff)

lemma handleWaitResult_recv_simps [simp]:
  "handleWaitResult_recv createGrant = RecvCreate"
  "handleWaitResult_recv closedResult = RecvErr [ErrPoolClosed]"
  "handleWaitResult_recv (connGrant a) = RecvConn (Some a)"
  by (simp_all add: handleWaitResult_recv_def createGrant_def closedResult_def connGrant_def)

lemma pending_simps [simp]:
  "P w = Some (s, None) \<Longrightarrow> pending P w = None"
  "P w = Some (s, Some r) \<Longrightarrow> pending P w = Some (handleWaitResult_recv r)"
  by (simp_all add: pending_def)

section \<open>Waiting threads\<close>

lemma wait_ok_queued:
  assumes "wait_ok P T ws" "w \<in> set ws"
  obtains T0 where "T = add_mset (InWait w) T0" "InWait w \<notin># T0" "P w = Some (waiterQueued, None)"
proof -
  from assms have "InWait w \<in># T" "count T (InWait w) = 1" and P: "P w = Some (waiterQueued, None)"
    by (auto simp: wait_ok_def)
  moreover obtain T0 where "T = add_mset (InWait w) T0"
    using \<open>InWait w \<in># T\<close> by (metis insert_DiffM)
  ultimately show thesis using that [of T0] P by (simp add: not_in_iff)
qed

lemma wait_ok_other:
  assumes "\<And>w. t \<noteq> InWait w"
  shows "wait_ok P (add_mset t T) ws \<longleftrightarrow> wait_ok P T ws"
proof -
  have "InWait w \<in># add_mset t T \<longleftrightarrow> InWait w \<in># T"
    "count (add_mset t T) (InWait w) = count T (InWait w)" for w
    using assms [of w] by auto
  then show ?thesis by (simp only: wait_ok_def)
qed

lemma wait_ok_new:
  assumes "wait_ok P T ws" "InWait w \<notin># T"
  shows "wait_ok (P(w \<mapsto> (waiterQueued, None))) (add_mset (InWait w) T) (ws @ [w])"
  using assms unfolding wait_ok_def by (auto simp: not_in_iff)

lemma wait_ok_deliver:
  assumes "wait_ok P T (w # ws)" "w \<notin> set ws" "good_result r"
  shows "wait_ok (P(w \<mapsto> (waiterDelivered, Some r))) T ws"
  using assms unfolding wait_ok_def by auto

lemma wait_ok_leave:
  assumes "wait_ok P (add_mset (InWait w) T) ws" "distinct ws"
  shows "wait_ok (P(w := x)) T (remove1 w ws)" "InWait w \<notin># T"
proof -
  have "count (add_mset (InWait w) T) (InWait w) = 1"
    using assms unfolding wait_ok_def by (metis union_single_eq_member)
  then show nin: "InWait w \<notin># T" by (simp add: not_in_iff)
  show "wait_ok (P(w := x)) T (remove1 w ws)"
    using assms nin unfolding wait_ok_def by auto
qed

section \<open>Handing a result to a queued waiter\<close>

lemma count_ok_grant:
  assumes "wait_ok P T ws" "w \<in> set ws" "count_ok P T u c k"
  shows "count_ok (P(w \<mapsto> (waiterDelivered, Some createGrant))) T u (c + 1) k"
    and "count_ok (P(w \<mapsto> (waiterDelivered, Some closedResult))) T u c k"
    and "count_ok (P(w \<mapsto> (waiterDelivered, Some (connGrant a)))) T (u + 1) c k"
proof -
  obtain T0 where T0: "T = add_mset (InWait w) T0" "InWait w \<notin># T0" "P w = Some (waiterQueued, None)"
    by (rule wait_ok_queued [OF assms(1,2)])
  then show "count_ok (P(w \<mapsto> (waiterDelivered, Some createGrant))) T u (c + 1) k"
    "count_ok (P(w \<mapsto> (waiterDelivered, Some closedResult))) T u c k"
    "count_ok (P(w \<mapsto> (waiterDelivered, Some (connGrant a)))) T (u + 1) c k"
    using assms(3) by (simp_all add: count_ok_upd)
qed

lemma own_ok_grant:
  assumes "wait_ok P T ws" "w \<in> set ws" "own_ok P T st idl" "r = createGrant \<or> r = closedResult"
  shows "own_ok (P(w \<mapsto> (waiterDelivered, Some r))) T st idl"
proof -
  obtain T0 where T0: "T = add_mset (InWait w) T0" "InWait w \<notin># T0" "P w = Some (waiterQueued, None)"
    by (rule wait_ok_queued [OF assms(1,2)])
  with assms(3,4) show ?thesis by (auto simp: own_ok_none own_ok_upd)
qed

lemma own_ok_handoff:
  assumes "wait_ok P T ws" "w \<in> set ws" "own_ok P (add_mset t T) st idl" "owns P t = [a]"
  shows "own_ok (P(w \<mapsto> (waiterDelivered, Some (connGrant a)))) T (st(a \<mapsto> poolConnBorrowed)) idl"
proof -
  obtain T0 where T0: "T = add_mset (InWait w) T0" "InWait w \<notin># T0" "P w = Some (waiterQueued, None)"
    by (rule wait_ok_queued [OF assms(1,2)])
  note u = own_ok_owner_unique [OF assms(3,4)]
  have "own_ok P T (st(a \<mapsto> poolConnBorrowed)) idl" by (rule own_ok_drop [OF assms(3,4)])
  then have "own_ok (P(w \<mapsto> (waiterDelivered, Some (connGrant a)))) T0 (st(a \<mapsto> poolConnBorrowed)) idl"
    using T0 by (simp add: own_ok_none own_ok_upd)
  then show ?thesis
    unfolding T0(1) by (rule own_ok_add) (use u T0 in \<open>auto simp: owned_upd\<close>)
qed

lemma popWaiter_ok:
  assumes "wq_rep (gp_wheap gp) (gp_waiters gp) (w # ws)"
  obtains h q where "popWaiter gp = Some (w, gp\<lparr>gp_wheap := h, gp_waiters := q\<rparr>)" "wq_rep h q ws"
    "pay h = pay (gp_wheap gp)"
  using wqf.pop_front [OF assms] by (auto simp: popWaiter_def pay_same)

lemma deliver_ok:
  assumes "wq_rep (gp_wheap gp) (gp_waiters gp) ws" "pay (gp_wheap gp) w = Some (s, None)"
  obtains h where "deliverWaiterLocked gp w r = Some (gp\<lparr>gp_Waits := int (length ws), gp_wheap := h\<rparr>)"
    "wq_rep h (gp_waiters gp) ws" "pay h = (pay (gp_wheap gp))(w \<mapsto> (waiterDelivered, Some r))"
proof -
  obtain x where x: "gp_wheap gp w = Some x" "w_result x = None"
    using assms(2) by (metis pay_SomeD)
  show thesis
    by (rule that [of "(gp_wheap gp)(w \<mapsto> x\<lparr>w_state := waiterDelivered, w_result := Some r\<rparr>)"])
      (use x assms(1) wqf.len_rep [OF assms(1)] in
        \<open>auto simp: deliverWaiterLocked_def intro: wq_rep_payload_upd\<close>)
qed

section \<open>Dispatching capacity\<close>

lemma capacity_pos_parts:
  assumes "inv0 gp ws T ro"
  shows "0 \<le> gp_inUse gp" "0 \<le> gp_creating gp" "0 \<le> gp_closing gp"
  using assms count_ok_nonneg by (auto simp: inv0_def)

lemma dispatchOne_ok:
  assumes inv: "inv0 gp (w # ws) T ro" and cap: "capacityUsedLocked gp < gp_MaxConns gp"
  obtains h q where
    "dispatchOne gp = Some (gp\<lparr>gp_waiters := q, gp_creating := gp_creating gp + 1, gp_Waits := int (length ws),
        gp_wheap := h\<rparr>)"
    "inv0 (gp\<lparr>gp_waiters := q, gp_creating := gp_creating gp + 1, gp_Waits := int (length ws),
        gp_wheap := h\<rparr>) ws T ro"
proof -
  let ?P = "pay (gp_wheap gp)"
  from inv have wo: "wait_ok ?P T (w # ws)" and rep: "wq_rep (gp_wheap gp) (gp_waiters gp) (w # ws)"
    and co: "count_ok ?P T (gp_inUse gp) (gp_creating gp) (gp_closing gp)"
    and oo: "own_ok ?P T (conn_st (gp_conns gp)) (iq_list (gp_idle gp))"
    by (auto simp: inv0_def struct_ok_def)
  obtain h q where pop: "popWaiter gp = Some (w, gp\<lparr>gp_wheap := h, gp_waiters := q\<rparr>)" "wq_rep h q ws"
      "pay h = ?P"
    by (rule popWaiter_ok [OF rep])
  let ?gp1 = "gp\<lparr>gp_wheap := h, gp_waiters := q, gp_creating := gp_creating gp + 1\<rparr>"
  have Pw: "?P w = Some (waiterQueued, None)" using wo by (simp add: wait_ok_def)
  then obtain h' where h': "deliverWaiterLocked ?gp1 w createGrant =
        Some (?gp1\<lparr>gp_Waits := int (length ws), gp_wheap := h'\<rparr>)"
      "wq_rep h' q ws" "pay h' = ?P(w \<mapsto> (waiterDelivered, Some createGrant))"
    using deliver_ok [of ?gp1 ws w waiterQueued createGrant] pop by auto
  have d: "w \<notin> set ws" using wqf.distinct_rep [OF rep] by simp
  have "wait_ok (pay h') T ws" unfolding h'(3) by (rule wait_ok_deliver [OF wo d]) (simp add: good_result_def)
  moreover have "count_ok (pay h') T (gp_inUse gp) (gp_creating gp + 1) (gp_closing gp)"
    unfolding h'(3) by (rule count_ok_grant [OF wo _ co]) simp
  moreover have "own_ok (pay h') T (conn_st (gp_conns gp)) (iq_list (gp_idle gp))"
    unfolding h'(3) by (rule own_ok_grant [OF wo _ oo]) simp_all
  ultimately have "inv0 (gp\<lparr>gp_waiters := q, gp_creating := gp_creating gp + 1, gp_Waits := int (length ws),
        gp_wheap := h'\<rparr>) ws T ro"
    using inv cap h' pop Pw
    by (auto simp: inv0_def struct_ok_def flag_ok_def capacityUsedLocked_def)
  with h' pop that [of h' q] show thesis by (simp add: dispatchOne_def)
qed

lemma dispatch_ok:
  assumes "inv0 gp ws T ro"
  shows "\<exists>h q c n ws'.
    dispatchCapacityWaitersLocked gp =
      Some (gp\<lparr>gp_waiters := q, gp_creating := c, gp_Waits := n, gp_wheap := h\<rparr>) \<and>
    inv0 (gp\<lparr>gp_waiters := q, gp_creating := c, gp_Waits := n, gp_wheap := h\<rparr>) ws' T ro \<and>
    (\<not> gp_closed gp \<and> ws' \<noteq> [] \<longrightarrow>
       gp_MaxConns gp \<le> capacityUsedLocked (gp\<lparr>gp_waiters := q, gp_creating := c, gp_Waits := n, gp_wheap := h\<rparr>))"
  using assms
proof (induction ws arbitrary: gp)
  case Nil
  then have "waiterQueue_Len (gp_waiters gp) = 0"
    by (auto simp: inv0_def struct_ok_def wqf.len_rep)
  then have "dispatchCapacityWaitersLocked gp = Some gp"
    by (simp add: dispatchCapacityWaitersLocked.simps)
  with Nil show ?case
    by (intro exI [of _ "gp_wheap gp"] exI [of _ "gp_waiters gp"] exI [of _ "gp_creating gp"]
        exI [of _ "gp_Waits gp"] exI [of _ "[]"]) simp
next
  case (Cons w ws)
  then have len: "waiterQueue_Len (gp_waiters gp) > 0"
    by (auto simp: inv0_def struct_ok_def wqf.len_rep)
  show ?case
  proof (cases "\<not> gp_closed gp \<and> capacityUsedLocked gp < gp_MaxConns gp")
    case True
    define f where "f h q = gp\<lparr>gp_waiters := q, gp_creating := gp_creating gp + 1, gp_Waits := int (length ws),
        gp_wheap := h\<rparr>" for h q
    obtain h q where one: "dispatchOne gp = Some (f h q)" "inv0 (f h q) ws T ro"
      using dispatchOne_ok [OF Cons.prems] True unfolding f_def by blast
    from len True one(1) have "dispatchCapacityWaitersLocked gp = dispatchCapacityWaitersLocked (f h q)"
      by (subst dispatchCapacityWaitersLocked.simps) simp
    with Cons.IH [OF one(2)] show ?thesis by (simp add: f_def)
  next
    case False
    then have "dispatchCapacityWaitersLocked gp = Some gp"
      by (auto simp: dispatchCapacityWaitersLocked.simps)
    with False Cons.prems show ?thesis
      by (intro exI [of _ "gp_wheap gp"] exI [of _ "gp_waiters gp"] exI [of _ "gp_creating gp"]
          exI [of _ "gp_Waits gp"] exI [of _ "w # ws"]) auto
  qed
qed

text \<open>The form the sections use: with an open pool, dispatching settles it.\<close>

lemma dispatch_settles:
  assumes "inv0 gp ws T ro" "\<not> gp_closed gp"
  obtains gp' ws' where "dispatchCapacityWaitersLocked gp = Some gp'" "inv0 gp' ws' T ro" "settled gp' ws'"
  using dispatch_ok [OF assms(1)] assms(2) by (fastforce simp: settled_def)

text \<open>With a closed pool, \<^verbatim>\<open>finishCloseLocked\<close> settles it.\<close>

lemma finish_settles:
  assumes inv: "inv0 gp ws T ro" and cl: "gp_closed gp"
  obtains gp' where "finishCloseLocked gp = Some gp'" "inv0 gp' ws T ro" "settled gp' ws" "gp_closed gp'"
    "gp_creating gp' = gp_creating gp" "gp_closing gp' = gp_closing gp"
proof (cases "gp_closeEnded gp \<or> capacityUsedLocked gp \<noteq> 0")
  case True
  then have "finishCloseLocked gp = Some gp" "settled gp ws"
    using cl by (auto simp: finishCloseLocked_def settled_def)
  with inv cl that show thesis by blast
next
  case False
  let ?gp' = "gp\<lparr>gp_closeEnded := True, gp_closeDone := Some True\<rparr>"
  from inv cl have ws: "ws = []" and dn: "gp_closeDone gp = Some (gp_closeEnded gp)"
    and rep: "wq_rep (gp_wheap gp) (gp_waiters gp) ws"
    by (auto simp: inv0_def flag_ok_def struct_ok_def)
  have zero: "gp_inUse gp = 0"
    using False capacity_pos_parts [OF inv] by (simp add: capacityUsedLocked_def)
  have "finishCloseLocked gp = Some ?gp'"
    using False cl dn wqf.len_rep [OF rep] ws by (simp add: finishCloseLocked_def)
  moreover have "inv0 ?gp' ws T ro"
    using inv zero False cl
    by (auto simp: inv0_def flag_ok_def struct_ok_def capacityUsedLocked_def)
  moreover have "settled ?gp' ws" using cl by (simp add: settled_def)
  ultimately show thesis using that [of ?gp'] cl by simp
qed

section \<open>Closing a connection\<close>

lemma inv0_mono: "inv0 gp ws T ro \<Longrightarrow> inv0 gp ws T (ro \<or> b)"
  by (auto simp: inv0_def flag_ok_def)

lemma pool_invI: "inv0 gp ws T ro \<Longrightarrow> settled gp ws \<Longrightarrow> pool_inv (gp, T, ro)"
  by (auto simp: pool_inv_def)

lemma settled_cong:
  assumes "settled gp ws" "capacityUsedLocked gp' = capacityUsedLocked gp" "gp_closed gp' = gp_closed gp"
    "gp_MaxConns gp' = gp_MaxConns gp" "gp_closeEnded gp' = gp_closeEnded gp"
  shows "settled gp' ws"
  using assms by (simp add: settled_def)

lemma inv0_parts:
  assumes "inv0 gp ws T ro"
  shows "count_ok (pay (gp_wheap gp)) T (gp_inUse gp) (gp_creating gp) (gp_closing gp)"
    and "own_ok (pay (gp_wheap gp)) T (conn_st (gp_conns gp)) (iq_list (gp_idle gp))"
    and "wait_ok (pay (gp_wheap gp)) T ws"
    and "wq_rep (gp_wheap gp) (gp_waiters gp) ws" and "iq_inv (gp_idle gp)"
  using assms by (auto simp: inv0_def struct_ok_def)

lemma inv0_struct: "inv0 gp ws T ro \<Longrightarrow> struct_ok gp ws"
  and inv0_flag: "inv0 gp ws T ro \<Longrightarrow> flag_ok gp ws T ro"
  by (simp_all add: inv0_def)

lemma owner_state:
  assumes "inv0 gp ws (add_mset t T) ro" "owns (pay (gp_wheap gp)) t = [a]"
  obtains c where "gp_conns gp a = Some c" "pc_state c = want t"
  using inv0_parts(2) [OF assms(1)] assms(2) by (auto simp: own_ok_def conn_st_def)

lemma setState_eq:
  "gp_conns gp a = Some c \<Longrightarrow>
   setState gp a s = Some (gp\<lparr>gp_conns := (gp_conns gp)(a \<mapsto> c\<lparr>pc_state := s\<rparr>)\<rparr>)"
  by (simp add: setState_def)

lemma setIdleTime_eq:
  "gp_conns gp a = Some c \<Longrightarrow>
   setIdleTime gp a now = Some (gp\<lparr>gp_conns := (gp_conns gp)(a \<mapsto> c\<lparr>pc_IdleTime := now\<rparr>)\<rparr>)"
  by (simp add: setIdleTime_def)

lemmas inv0_unfold = inv0_def struct_ok_def flag_ok_def capacityUsedLocked_def

text \<open>The threads that are closing one connection outside the lock.\<close>

definition closing_thread :: "thread \<Rightarrow> addr \<Rightarrow> bool" where
  "closing_thread t a \<longleftrightarrow> t = InReopen a \<or> t = InAbandon a \<or> t = InClose a"

lemma closing_thread_simps:
  assumes "closing_thread t a"
  shows "owns P t = [a]" "uses P t = 0" "creates P t = 0" "closes P t = 1" "want t = poolConnClosing"
    "t \<noteq> InWait w"
  using assms by (auto simp: closing_thread_def)

lemma closed_conn_inv0:
  assumes inv: "inv0 gp ws (add_mset t T) ro" and t: "closing_thread t a" and c: "gp_conns gp a = Some c"
  shows "inv0 (gp\<lparr>gp_conns := (gp_conns gp)(a \<mapsto> c\<lparr>pc_state := poolConnClosed\<rparr>), gp_closing := gp_closing gp - 1,
     gp_closeErr := e\<rparr>) ws T ro"
proof -
  note ts = closing_thread_simps [OF t]
  have co: "count_ok (pay (gp_wheap gp)) T (gp_inUse gp) (gp_creating gp) (gp_closing gp - 1)"
    using inv0_parts(1) [OF inv] by (simp add: ts)
  moreover have "own_ok (pay (gp_wheap gp)) T ((conn_st (gp_conns gp))(a \<mapsto> poolConnClosed)) (iq_list (gp_idle gp))"
    by (rule own_ok_drop [OF inv0_parts(2) [OF inv]]) (simp add: ts)
  moreover have "wait_ok (pay (gp_wheap gp)) T ws"
    using inv0_parts(3) [OF inv] wait_ok_other [of t] ts(6) by blast
  ultimately show ?thesis
    using inv c count_ok_nonneg [OF co] by (auto simp: inv0_unfold)
qed

lemma closeConnectionLocked_end_ok:
  assumes inv: "inv0 gp ws (add_mset t T) ro" and t: "closing_thread t a"
  obtains gp' where "closeConnectionLocked_end gp a err = Some gp'" "pool_inv (gp', T, ro)"
proof -
  obtain c where c: "gp_conns gp a = Some c"
    using owner_state [OF inv closing_thread_simps(1) [OF t]] by blast
  define f where "f e = gp\<lparr>gp_conns := (gp_conns gp)(a \<mapsto> c\<lparr>pc_state := poolConnClosed\<rparr>),
     gp_closing := gp_closing gp - 1, gp_closeErr := e\<rparr>" for e
  have f: "inv0 (f e) ws T ro" for e unfolding f_def by (rule closed_conn_inv0 [OF inv t c])
  have same: "f (gp_closeErr gp) =
      gp\<lparr>gp_conns := (gp_conns gp)(a \<mapsto> c\<lparr>pc_state := poolConnClosed\<rparr>), gp_closing := gp_closing gp - 1\<rparr>"
    by (simp add: f_def)
  show thesis
  proof (cases "gp_closed gp")
    case True
    then have "closeConnectionLocked_end gp a err = finishCloseLocked (f (errors_Join (gp_closeErr gp) err))"
      using c by (simp add: closeConnectionLocked_end_def setState_eq f_def)
    moreover obtain gp' where "finishCloseLocked (f (errors_Join (gp_closeErr gp) err)) = Some gp'"
        "inv0 gp' ws T ro" "settled gp' ws"
      by (rule finish_settles [OF f]) (use True in \<open>simp add: f_def\<close>)
    ultimately show thesis using that by (auto simp: pool_inv_def)
  next
    case False
    then have "closeConnectionLocked_end gp a err = dispatchCapacityWaitersLocked (f (gp_closeErr gp))"
      using c by (simp add: closeConnectionLocked_end_def setState_eq same)
    moreover obtain gp' ws' where "dispatchCapacityWaitersLocked (f (gp_closeErr gp)) = Some gp'"
        "inv0 gp' ws' T ro" "settled gp' ws'"
      by (rule dispatch_settles [OF f]) (use False in \<open>simp add: f_def\<close>)
    ultimately show thesis using that by (auto simp: pool_inv_def)
  qed
qed

text \<open>\<^verbatim>\<open>getConnFromIdle\<close> goes on to create a connection whatever the close left behind.\<close>

lemma reopen_ok:
  assumes "pool_inv (gp, T, True)"
  shows "pool_inv (getConnFromNewForUse_begin gp, add_mset InCreate T, True)"
proof -
  obtain ws where inv: "inv0 gp ws T True" and st: "settled gp ws"
    using assms by (auto simp: pool_inv_def)
  have "inv0 (getConnFromNewForUse_begin gp) ws (add_mset InCreate T) True"
    using inv by (auto simp: inv0_unfold getConnFromNewForUse_begin_def own_ok_none wait_ok_other)
  moreover have "settled (getConnFromNewForUse_begin gp) ws"
    using st capacity_pos_parts [OF inv]
    by (auto simp: settled_def getConnFromNewForUse_begin_def capacityUsedLocked_def)
  ultimately show ?thesis by (auto simp: pool_inv_def)
qed

text \<open>A connection starts to be closed: it leaves the thread \<open>t\<close>, which held it as in use or not at all.\<close>

lemma begin_close_inv0:
  assumes inv: "inv0 gp ws (add_mset t T) ro" and c: "gp_conns gp a = Some c"
    and t: "owns (pay (gp_wheap gp)) t = [a]" "\<And>w. t \<noteq> InWait w" "uses (pay (gp_wheap gp)) t = 1"
      "creates (pay (gp_wheap gp)) t = 0" "closes (pay (gp_wheap gp)) t = 0"
    and t': "closing_thread t' a" "t' \<noteq> InReopen a"
  shows "inv0 (gp\<lparr>gp_inUse := gp_inUse gp - 1, gp_conns := (gp_conns gp)(a \<mapsto> c\<lparr>pc_IdleTime := i, pc_state := poolConnClosing\<rparr>),
     gp_closing := gp_closing gp + 1\<rparr>) ws (add_mset t' T) ro"
proof -
  note ts = closing_thread_simps [OF t'(1)]
  have co: "count_ok (pay (gp_wheap gp)) T (gp_inUse gp - 1) (gp_creating gp) (gp_closing gp)"
    using inv0_parts(1) [OF inv] t by simp
  moreover have "own_ok (pay (gp_wheap gp)) (add_mset t' T) ((conn_st (gp_conns gp))(a \<mapsto> poolConnClosing)) (iq_list (gp_idle gp))"
    using own_ok_move [OF inv0_parts(2) [OF inv], of a t'] t ts by simp
  moreover have "wait_ok (pay (gp_wheap gp)) (add_mset t' T) ws"
    using inv0_parts(3) [OF inv] wait_ok_other [of t] wait_ok_other [of t'] ts(6) t(2) by blast
  ultimately show ?thesis
    using inv c count_ok_nonneg [OF co] t' by (auto simp: inv0_unfold ts closing_thread_def)
qed

end
