(* ===== verification/Gpool_Get.thy ===== *)
theory Gpool_Get
  imports Gpool_Inv
begin

text \<open>
  The sections of \<^verbatim>\<open>Get\<close>: popping an idle connection, running the factory, queueing as a waiter and
  receiving, cancelling or using a grant.  Each runs to its end and keeps the pool invariant.
\<close>

section \<open>After the factory\<close>

lemma handleWaitResult_end_eq: "handleWaitResult_end = getConnFromNewForUse_end"
  unfolding handleWaitResult_end_def [abs_def] getConnFromNewForUse_end_def [abs_def] by (rule refl)

definition creating_thread :: "thread \<Rightarrow> bool" where
  "creating_thread t \<longleftrightarrow> t = InCreate \<or> t = InCreateWait \<or> t = InCreateGranted"

lemma creating_thread_simps:
  assumes "creating_thread t"
  shows "owns P t = []" "uses P t = 0" "creates P t = 1" "closes P t = 0" "t \<noteq> InWait w" "t \<noteq> InReopen a"
  using assms by (auto simp: creating_thread_def)

lemma end_create_inv0:
  assumes inv: "inv0 gp ws (add_mset t T) ro" and t: "creating_thread t"
  shows "inv0 (gp\<lparr>gp_creating := gp_creating gp - 1\<rparr>) ws T ro"
proof -
  note ts = creating_thread_simps [OF t]
  have co: "count_ok (pay (gp_wheap gp)) T (gp_inUse gp) (gp_creating gp - 1) (gp_closing gp)"
    using inv0_parts(1) [OF inv] by (simp add: ts)
  moreover have "own_ok (pay (gp_wheap gp)) T (conn_st (gp_conns gp)) (iq_list (gp_idle gp))"
    using inv0_parts(2) [OF inv] by (simp add: own_ok_none ts)
  moreover have "wait_ok (pay (gp_wheap gp)) T ws"
    using inv0_parts(3) [OF inv] wait_ok_other [of t] ts(5) by blast
  moreover have "struct_ok (gp\<lparr>gp_creating := gp_creating gp - 1\<rparr>) ws"
    using inv0_struct [OF inv] by (simp add: struct_ok_def)
  moreover have "flag_ok (gp\<lparr>gp_creating := gp_creating gp - 1\<rparr>) ws T ro"
    using inv0_flag [OF inv] count_ok_nonneg [OF co] by (auto simp: flag_ok_def capacityUsedLocked_def)
  ultimately show ?thesis by (simp add: inv0_def)
qed

lemma fresh_conn: "inv0 gp ws T ro \<Longrightarrow> gp_conns gp (gp_next gp) = None"
  by (metis inv0_struct less_irrefl struct_ok_def)

text \<open>The factory delivered: the new connection is borrowed, or closed again if the pool is closed.\<close>

lemma created_inv0:
  assumes inv: "inv0 gp ws (add_mset t T) ro" and t: "creating_thread t"
    and d: "(t', st, u, k) = (if gp_closed gp then (InAbandon (gp_next gp), poolConnClosing, 0, 1)
              else (Holding (gp_next gp), poolConnBorrowed, 1, 0))"
    and c: "pc_state c = st"
  shows "inv0 (gp\<lparr>gp_next := Suc (gp_next gp), gp_creating := gp_creating gp - 1,
     gp_conns := (gp_conns gp)(gp_next gp \<mapsto> c), gp_inUse := gp_inUse gp + u, gp_closing := gp_closing gp + k\<rparr>)
     ws (add_mset t' T) ro"
proof -
  let ?P = "pay (gp_wheap gp)"
  define f where "f u k = gp\<lparr>gp_next := Suc (gp_next gp), gp_creating := gp_creating gp - 1,
     gp_conns := (gp_conns gp)(gp_next gp \<mapsto> c), gp_inUse := gp_inUse gp + u, gp_closing := gp_closing gp + k\<rparr>" for u k
  note inv1 = end_create_inv0 [OF inv t]
  have t': "owns ?P t' = [gp_next gp]" "want t' = st" "uses ?P t' = u" "creates ?P t' = 0" "closes ?P t' = k"
    "\<And>w. t' \<noteq> InWait w" "\<And>a. t' \<noteq> InReopen a" "u + k = 1" "gp_closed gp \<longrightarrow> u = 0" "\<And>cl. t' \<noteq> InShutdown cl"
    using d by (auto split: if_splits)
  have fresh: "conn_st (gp_conns gp) (gp_next gp) = None"
    using fresh_conn [OF inv] by (simp add: conn_st_def)
  have "own_ok ?P (add_mset t' T) ((conn_st (gp_conns gp))(gp_next gp \<mapsto> st)) (iq_list (gp_idle gp))"
    using own_ok_fresh [OF inv0_parts(2) [OF inv1, simplified] fresh t'(1)] t'(2) by simp
  moreover have "count_ok ?P (add_mset t' T) (gp_inUse gp + u) (gp_creating gp - 1) (gp_closing gp + k)"
    using inv0_parts(1) [OF inv1] t' by simp
  moreover have "wait_ok ?P (add_mset t' T) ws"
    using inv0_parts(3) [OF inv1] wait_ok_other [of t'] t'(6) by simp
  moreover have fs: "capacityUsedLocked (f u k) = capacityUsedLocked gp" "gp_closed (f u k) = gp_closed gp"
      "gp_idle (f u k) = gp_idle gp" "gp_closeDone (f u k) = gp_closeDone gp" "gp_MaxConns (f u k) = gp_MaxConns gp"
      "gp_closeEnded (f u k) = gp_closeEnded gp" "gp_inUse (f u k) = gp_inUse gp + u"
    using t'(8) by (simp_all add: f_def capacityUsedLocked_def)
  moreover have "struct_ok (f u k) ws"
    using inv0_struct [OF inv] by (auto simp: struct_ok_def f_def less_Suc_eq)
  moreover have "flag_ok (f u k) ws (add_mset t' T) ro"
    using inv0_flag [OF inv] t'(7,9,10) unfolding flag_ok_def fs by auto
  ultimately show ?thesis unfolding f_def [symmetric] by (simp add: inv0_def c) (simp add: f_def c)
qed

lemma getConnFromNewForUse_end_ok:
  assumes inv: "inv0 gp ws (add_mset t T) ro" and st: "settled gp ws" and t: "creating_thread t"
  shows "\<exists>gp' out. getConnFromNewForUse_end gp res = Some (gp', out) \<and> pool_inv (gp', after_get out + T, ro)"
proof (cases res)
  case (Inl e)
  let ?gp1 = "gp\<lparr>gp_creating := gp_creating gp - 1\<rparr>"
  note inv1 = end_create_inv0 [OF inv t]
  show ?thesis
  proof (cases "gp_closed gp")
    case True
    then obtain gp' where "finishCloseLocked ?gp1 = Some gp'" "inv0 gp' ws T ro" "settled gp' ws"
      using finish_settles [OF inv1] by auto
    with Inl True show ?thesis by (auto simp: getConnFromNewForUse_end_def getConnFromNew_def pool_inv_def)
  next
    case False
    then obtain gp' ws' where "dispatchCapacityWaitersLocked ?gp1 = Some gp'" "inv0 gp' ws' T ro" "settled gp' ws'"
      using dispatch_settles [OF inv1] by auto
    with Inl False show ?thesis by (auto simp: getConnFromNewForUse_end_def getConnFromNew_def pool_inv_def)
  qed
next
  case (Inr p)
  then obtain ct gc where p: "res = Inr (ct, gc)" by (cases p) auto
  define s where "s = (if gp_closed gp then poolConnClosing else poolConnBorrowed)"
  define c where "c = \<lparr>pc_Gc = gc, pc_Ctime = ct, pc_IdleTime = 0, pc_state = s\<rparr>"
  have pc: "pc_state c = s" by (simp add: c_def)
  define f where "f u k = gp\<lparr>gp_next := Suc (gp_next gp), gp_creating := gp_creating gp - 1,
     gp_conns := (gp_conns gp)(gp_next gp \<mapsto> c), gp_inUse := gp_inUse gp + u, gp_closing := gp_closing gp + k\<rparr>" for u k
  have set: "settled (f u k) ws" if "u + k = 1" for u k
    using st that unfolding settled_def by (auto simp: f_def capacityUsedLocked_def)
  show ?thesis
  proof (cases "gp_closed gp")
    case True
    then have "getConnFromNewForUse_end gp res = Some (f 0 1, MustAbandon (gp_next gp))"
      by (simp add: p f_def s_def c_def getConnFromNewForUse_end_def getConnFromNew_def
          closeConnectionLocked_begin_def setState_def Let_def)
    moreover have "inv0 (f 0 1) ws (add_mset (InAbandon (gp_next gp)) T) ro"
      unfolding f_def by (rule created_inv0 [OF inv t _ pc]) (simp add: True s_def)
    ultimately show ?thesis using pool_invI [OF _ set] by simp
  next
    case False
    then have "getConnFromNewForUse_end gp res = Some (f 1 0, Got (gp_next gp))"
      by (simp add: p f_def s_def c_def getConnFromNewForUse_end_def getConnFromNew_def
          setState_def Let_def)
    moreover have "inv0 (f 1 0) ws (add_mset (Holding (gp_next gp)) T) ro"
      unfolding f_def by (rule created_inv0 [OF inv t _ pc]) (simp add: False s_def)
    ultimately show ?thesis using pool_invI [OF _ set] by simp
  qed
qed

lemma handleWaitResult_check_ok:
  assumes inv: "inv0 gp ws (add_mset InCreateWait T) ro" and st: "settled gp ws"
  shows "\<exists>gp' out. handleWaitResult_check gp = Some (gp', out) \<and> pool_inv (gp', after_check out + T, ro)"
proof (cases "gp_closed gp")
  case True
  have "inv0 (gp\<lparr>gp_creating := gp_creating gp - 1\<rparr>) ws T ro"
    by (rule end_create_inv0 [OF inv]) (simp add: creating_thread_def)
  with True obtain gp' where "finishCloseLocked (gp\<lparr>gp_creating := gp_creating gp - 1\<rparr>) = Some gp'"
      "inv0 gp' ws T ro" "settled gp' ws"
    using finish_settles [of "gp\<lparr>gp_creating := gp_creating gp - 1\<rparr>" ws T ro] by auto
  with True show ?thesis by (auto simp: handleWaitResult_check_def pool_inv_def)
next
  case False
  have "inv0 gp ws (add_mset InCreateGranted T) ro"
    using inv by (auto simp: inv0_unfold own_ok_none wait_ok_other)
  with False st show ?thesis by (auto simp: handleWaitResult_check_def pool_inv_def)
qed

section \<open>Queueing as a waiter\<close>

lemma fresh_waiter: "inv0 gp ws T ro \<Longrightarrow> gp_wheap gp (gp_next gp) = None"
  by (metis inv0_struct less_irrefl struct_ok_def pay_None)

lemma wait_ok_known:
  assumes "wait_ok P T ws" "P w = None" shows "InWait w \<notin># T"
  using assms by (auto simp: wait_ok_def)

lemma enqueue_inv0:
  assumes inv: "inv0 gp ws T ro" and idle: "iq_list (gp_idle gp) = []" and op: "\<not> gp_closed gp"
    and rep: "wq_rep h q (ws @ [gp_next gp])"
    and pay: "pay h = (pay (gp_wheap gp))(gp_next gp \<mapsto> (waiterQueued, None))"
  shows "inv0 (gp\<lparr>gp_next := Suc (gp_next gp), gp_wheap := h, gp_waiters := q, gp_Waits := int (length ws + 1)\<rparr>)
     (ws @ [gp_next gp]) (add_mset (InWait (gp_next gp)) T) ro"
proof -
  let ?w = "gp_next gp" and ?P = "pay (gp_wheap gp)"
  let ?gp = "gp\<lparr>gp_next := Suc ?w, gp_wheap := h, gp_waiters := q, gp_Waits := int (length ws + 1)\<rparr>"
  have nin: "InWait ?w \<notin># T"
    by (rule wait_ok_known [OF inv0_parts(3) [OF inv]]) (simp add: pay_None fresh_waiter [OF inv])
  have "wait_ok (pay h) (add_mset (InWait ?w) T) (ws @ [?w])"
    unfolding pay by (rule wait_ok_new [OF inv0_parts(3) [OF inv] nin])
  moreover have "count_ok (pay h) (add_mset (InWait ?w) T) (gp_inUse gp) (gp_creating gp) (gp_closing gp)"
    using inv0_parts(1) [OF inv] by (simp add: pay count_ok_upd nin)
  moreover have "own_ok (pay h) (add_mset (InWait ?w) T) (conn_st (gp_conns gp)) (iq_list (gp_idle gp))"
    using inv0_parts(2) [OF inv] by (simp add: pay own_ok_none own_ok_upd nin)
  moreover have "struct_ok ?gp (ws @ [?w])"
    using inv0_struct [OF inv] rep by (auto simp: struct_ok_def pay less_Suc_eq)
  moreover have "flag_ok ?gp (ws @ [?w]) (add_mset (InWait ?w) T) ro"
    using inv0_flag [OF inv] idle op by (auto simp: flag_ok_def capacityUsedLocked_def)
  ultimately show ?thesis by (simp add: inv0_def)
qed

lemma waitForConnectionLocked_enter_ok:
  assumes inv: "inv0 gp ws T ro" and st: "settled gp ws" and idle: "iq_list (gp_idle gp) = []"
  shows "\<exists>gp' out. waitForConnectionLocked_enter gp = Some (gp', out) \<and>
    pool_inv (gp', after_get out + T, ro) \<and> \<not> is_reopen out"
proof (cases "gp_closed gp \<or> waiterQueue_Len (gp_waiters gp) \<ge> gp_MaxWaiters gp")
  case True
  then show ?thesis using pool_invI [OF inv st] by (auto simp: waitForConnectionLocked_enter_def)
next
  case False
  let ?w = "gp_next gp"
  let ?r = "\<lparr>w_prev = None, w_next = None, w_state = waiterQueued, w_result = None\<rparr>"
  let ?h0 = "(gp_wheap gp)(?w \<mapsto> ?r)"
  have rep0: "wq_rep ?h0 (gp_waiters gp) ws"
    by (rule wq_rep_alloc [OF inv0_parts(4) [OF inv] fresh_waiter [OF inv]])
  have "?w \<notin> set ws"
    using wqf.alloc_rep [OF inv0_parts(4) [OF inv]] fresh_waiter [OF inv] by blast
  then obtain h q where push: "waiterQueue_PushBack ?h0 (gp_waiters gp) ?w = Some (h, q)"
      and rep: "wq_rep h q (ws @ [?w])" and same: "pay h = pay ?h0"
    using wqf.push_back [OF rep0, of ?w] by (auto simp: pay_same)
  define gp1 where "gp1 = gp\<lparr>gp_next := Suc ?w, gp_wheap := h, gp_waiters := q, gp_Waits := int (length ws + 1)\<rparr>"
  have "inv0 gp1 (ws @ [?w]) (add_mset (InWait ?w) T) ro"
    unfolding gp1_def by (rule enqueue_inv0 [OF inv idle _ rep]) (use False same in auto)
  moreover have "\<not> gp_closed gp1" using False by (simp add: gp1_def)
  ultimately obtain gp' ws' where d: "dispatchCapacityWaitersLocked gp1 = Some gp'"
      "inv0 gp' ws' (add_mset (InWait ?w) T) ro" "settled gp' ws'"
    by (rule dispatch_settles)
  have "waitForConnectionLocked_enter gp = Some (gp', MustWait ?w)"
    using False push d(1) wqf.len_rep [OF rep]
    by (simp add: waitForConnectionLocked_enter_def Let_def gp1_def)
  with pool_invI [OF d(2,3)] show ?thesis by simp
qed

section \<open>Taking an idle connection\<close>

lemma pop_idle_any:
  assumes "iq_inv (gp_idle gp)" "iq_list (gp_idle gp) \<noteq> []"
  obtains pc q where
    "(if gp_poolFIFO gp then idleQueue_Pop (gp_idle gp) else idleQueue_PopNewest (gp_idle gp)) = Some (Some pc, q)"
    "iq_inv q" "idleQueue_Cap q = idleQueue_Cap (gp_idle gp)"
    "mset (iq_list (gp_idle gp)) = add_mset pc (mset (iq_list q))"
    "int (idleQueue_Len q) = int (idleQueue_Len (gp_idle gp)) - 1"
    "pc = (if gp_poolFIFO gp then hd (iq_list (gp_idle gp)) else last (iq_list (gp_idle gp)))"
proof (cases "gp_poolFIFO gp")
  case True
  obtain q where q: "idleQueue_Pop (gp_idle gp) = Some (Some (hd (iq_list (gp_idle gp))), q)" "iq_inv q"
      "iq_list q = tl (iq_list (gp_idle gp))" "idleQueue_Cap q = idleQueue_Cap (gp_idle gp)"
    using ring.pop_oldest [OF assms] by blast
  have "mset (iq_list (gp_idle gp)) = add_mset (hd (iq_list (gp_idle gp))) (mset (iq_list q))"
    unfolding q(3) using assms(2) by (metis list.exhaust_sel mset.simps(2))
  moreover have "int (idleQueue_Len q) = int (idleQueue_Len (gp_idle gp)) - 1"
    using arg_cong [OF q(3), of length] assms(2) [folded length_greater_0_conv]
    by (simp add: idleQueue_Len_def of_nat_diff)
  ultimately show thesis using that [of "hd (iq_list (gp_idle gp))" q] q True by simp
next
  case False
  obtain q where q: "idleQueue_PopNewest (gp_idle gp) = Some (Some (last (iq_list (gp_idle gp))), q)" "iq_inv q"
      "iq_list q = butlast (iq_list (gp_idle gp))" "idleQueue_Cap q = idleQueue_Cap (gp_idle gp)"
    using ring.pop_newest_last [OF assms] by blast
  have app: "iq_list (gp_idle gp) = iq_list q @ [last (iq_list (gp_idle gp))]"
    unfolding q(3) using assms(2) by simp
  have "mset (iq_list (gp_idle gp)) = add_mset (last (iq_list (gp_idle gp))) (mset (iq_list q))"
    by (subst app) simp
  moreover have "int (idleQueue_Len q) = int (idleQueue_Len (gp_idle gp)) - 1"
    using arg_cong [OF app, of length] by (simp add: idleQueue_Len_def)
  ultimately show thesis using that [of "last (iq_list (gp_idle gp))" q] q False by simp
qed

text \<open>The popped connection is borrowed, or closed because it is unusable.\<close>

lemma taken_inv0:
  assumes inv: "inv0 gp [] T ro" and op: "\<not> gp_closed gp"
    and q: "iq_inv q" "idleQueue_Cap q = idleQueue_Cap (gp_idle gp)"
      "mset (iq_list (gp_idle gp)) = add_mset pc (mset (iq_list q))"
      "int (idleQueue_Len q) = int (idleQueue_Len (gp_idle gp)) - 1"
    and c: "gp_conns gp pc = Some c0" "pc_state c = want t"
    and d: "(t, u, k) = (if reo then (InReopen pc, 0, 1) else (Holding pc, 1, 0))"
  shows "inv0 (gp\<lparr>gp_idle := q, gp_conns := (gp_conns gp)(pc \<mapsto> c), gp_inUse := gp_inUse gp + u,
     gp_closing := gp_closing gp + k\<rparr>) [] (add_mset t T) (ro \<or> reo)"
proof -
  let ?P = "pay (gp_wheap gp)"
  define f where "f u k = gp\<lparr>gp_idle := q, gp_conns := (gp_conns gp)(pc \<mapsto> c), gp_inUse := gp_inUse gp + u,
     gp_closing := gp_closing gp + k\<rparr>" for u k
  have t: "owns ?P t = [pc]" "uses ?P t = u" "creates ?P t = 0" "closes ?P t = k" "\<And>w. t \<noteq> InWait w" "u + k = 1"
    "\<not> reo \<Longrightarrow> t \<noteq> InReopen a" "t \<noteq> InShutdown cl" for a cl
    using d by (auto split: if_splits)
  have "own_ok ?P (add_mset t T) ((conn_st (gp_conns gp))(pc \<mapsto> want t)) (iq_list q)"
    by (rule own_ok_from_idle [OF inv0_parts(2) [OF inv] q(3) t(1)])
  moreover have "count_ok ?P (add_mset t T) (gp_inUse gp + u) (gp_creating gp) (gp_closing gp + k)"
    using inv0_parts(1) [OF inv] t by simp
  moreover have "wait_ok ?P (add_mset t T) []"
    using inv0_parts(3) [OF inv] wait_ok_other [of t] t(5) by simp
  moreover have "struct_ok (f u k) []"
    using inv0_struct [OF inv] q c by (auto simp: struct_ok_def f_def)
  moreover have fs: "capacityUsedLocked (f u k) = capacityUsedLocked gp" "gp_closed (f u k) = gp_closed gp"
      "gp_closeDone (f u k) = gp_closeDone gp" "gp_MaxConns (f u k) = gp_MaxConns gp"
      "gp_closeEnded (f u k) = gp_closeEnded gp"
    using t(6) q(4) by (simp_all add: f_def capacityUsedLocked_def)
  moreover have "flag_ok (f u k) [] (add_mset t T) (ro \<or> reo)"
    using inv0_flag [OF inv] op t(7,8) unfolding flag_ok_def fs by auto
  ultimately show ?thesis unfolding f_def [symmetric] by (simp add: inv0_def) (simp add: f_def c)
qed

lemma getConnFromIdle_ok:
  assumes inv: "inv0 gp [] T ro" and op: "\<not> gp_closed gp" and ne: "iq_list (gp_idle gp) \<noteq> []"
  shows "\<exists>gp' out. getConnFromIdle gp now isOpen = Some (gp', out) \<and> pool_inv (gp', after_get out + T, ro \<or> is_reopen out)"
proof -
  obtain pc q where pop: "(if gp_poolFIFO gp then idleQueue_Pop (gp_idle gp) else idleQueue_PopNewest (gp_idle gp)) =
        Some (Some pc, q)"
      and q: "iq_inv q" "idleQueue_Cap q = idleQueue_Cap (gp_idle gp)"
        "mset (iq_list (gp_idle gp)) = add_mset pc (mset (iq_list q))"
        "int (idleQueue_Len q) = int (idleQueue_Len (gp_idle gp)) - 1"
    using pop_idle_any [OF inv0_parts(5) [OF inv] ne] by metis
  have "pc \<in> set (iq_list (gp_idle gp))" using q(3) by (metis set_mset_mset union_single_eq_member)
  then obtain c where c: "gp_conns gp pc = Some c"
    using inv0_parts(2) [OF inv] by (auto simp: own_ok_def conn_st_def)
  define reo where "reo = connExpired (gp\<lparr>gp_idle := q, gp_conns := (gp_conns gp)(pc \<mapsto> c\<lparr>pc_state := poolConnBorrowed\<rparr>)\<rparr>)
     (c\<lparr>pc_state := poolConnBorrowed\<rparr>) now isOpen"
  define f where "f s u k = gp\<lparr>gp_idle := q, gp_conns := (gp_conns gp)(pc \<mapsto> c\<lparr>pc_state := s\<rparr>),
     gp_inUse := gp_inUse gp + u, gp_closing := gp_closing gp + k\<rparr>" for s u k
  have set: "settled (f s u k) []" for s u k using op by (simp add: settled_def f_def)
  show ?thesis
  proof (cases reo)
    case True
    then have "getConnFromIdle gp now isOpen = Some (f poolConnClosing 0 1, MustReopen pc)"
      using pop c by (simp add: getConnFromIdle_def reo_def f_def setState_def closeConnectionLocked_begin_def)
    moreover have "inv0 (f poolConnClosing 0 1) [] (add_mset (InReopen pc) T) (ro \<or> reo)"
      unfolding f_def by (rule taken_inv0 [OF inv op q c]) (simp_all add: True)
    ultimately show ?thesis using pool_invI [OF _ set] True by simp
  next
    case False
    then have "getConnFromIdle gp now isOpen = Some (f poolConnBorrowed 1 0, Got pc)"
      using pop c by (simp add: getConnFromIdle_def reo_def f_def setState_def)
    moreover have "inv0 (f poolConnBorrowed 1 0) [] (add_mset (Holding pc) T) (ro \<or> reo)"
      unfolding f_def by (rule taken_inv0 [OF inv op q c]) (simp_all add: False)
    ultimately show ?thesis using pool_invI [OF _ set] False by simp
  qed
qed

section \<open>The first section of \<^verbatim>\<open>Get\<close>\<close>

lemma begin_create_inv0:
  assumes inv: "inv0 gp ws T ro" and cap: "capacityUsedLocked gp < gp_MaxConns gp" and op: "\<not> gp_closed gp"
  shows "inv0 (getConnFromNewForUse_begin gp) ws (add_mset InCreate T) ro"
proof -
  have "flag_ok (getConnFromNewForUse_begin gp) ws (add_mset InCreate T) ro"
    using inv0_flag [OF inv] cap op by (auto simp: flag_ok_def getConnFromNewForUse_begin_def capacityUsedLocked_def)
  moreover have "struct_ok (getConnFromNewForUse_begin gp) ws"
    using inv0_struct [OF inv] by (simp add: struct_ok_def getConnFromNewForUse_begin_def)
  ultimately show ?thesis using inv
    by (simp add: inv0_def getConnFromNewForUse_begin_def own_ok_none wait_ok_other)
qed

lemma Get_enter_ok:
  assumes inv: "inv0 gp ws T ro" and st: "settled gp ws"
  shows "\<exists>gp' out. Get_enter gp now isOpen = Some (gp', out) \<and> pool_inv (gp', after_get out + T, ro \<or> is_reopen out)"
proof -
  have ws: "waiterQueue_Len (gp_waiters gp) > 0 \<longleftrightarrow> ws \<noteq> []"
    by (rule wqf.len_pos_rep [OF inv0_parts(4) [OF inv]])
  have il: "idleQueue_Len (gp_idle gp) > 0 \<longleftrightarrow> iq_list (gp_idle gp) \<noteq> []"
    unfolding idleQueue_Len_list by (rule length_greater_0_conv)
  have idle: "ws \<noteq> [] \<Longrightarrow> iq_list (gp_idle gp) = []" using inv0_flag [OF inv] by (simp add: flag_ok_def)
  note wait = waitForConnectionLocked_enter_ok [OF inv st]
  consider (closed) "gp_closed gp"
    | (waiters) "\<not> gp_closed gp" "ws \<noteq> []"
    | (idle) "\<not> gp_closed gp" "ws = []" "iq_list (gp_idle gp) \<noteq> []"
    | (create) "\<not> gp_closed gp" "ws = []" "iq_list (gp_idle gp) = []" "capacityUsedLocked gp < gp_MaxConns gp"
    | (full) "\<not> gp_closed gp" "ws = []" "iq_list (gp_idle gp) = []" "\<not> capacityUsedLocked gp < gp_MaxConns gp"
    by blast
  then show ?thesis
  proof cases
    case closed
    then show ?thesis using pool_invI [OF inv st] by (simp add: Get_enter_def)
  next
    case waiters
    then show ?thesis using wait [OF idle] ws by (auto simp: Get_enter_def)
  next
    case idle
    then have "Get_enter gp now isOpen = getConnFromIdle gp now isOpen"
      using ws il by (simp add: Get_enter_def)
    with getConnFromIdle_ok idle inv show ?thesis by simp
  next
    case create
    then have "Get_enter gp now isOpen = Some (getConnFromNewForUse_begin gp, MustCreate)"
      using ws il by (simp add: Get_enter_def)
    moreover have "settled (getConnFromNewForUse_begin gp) []"
      using create by (simp add: settled_def getConnFromNewForUse_begin_def)
    ultimately show ?thesis using begin_create_inv0 [OF inv] create pool_invI by auto
  next
    case full
    then have "Get_enter gp now isOpen = waitForConnectionLocked_enter gp"
      using ws il by (simp add: Get_enter_def)
    with wait full show ?thesis by auto
  qed
qed

section \<open>Receiving and cancelling\<close>

lemma good_result_cases:
  assumes "good_result r"
  obtains "r = createGrant" | "r = closedResult" | a where "r = connGrant a"
  using assms by (auto simp: good_result_def)

text \<open>The thread that takes over the content of the channel.\<close>

lemma received_thread:
  assumes co: "count_ok P (add_mset (InWait w) T) u c k" and oo: "own_ok P (add_mset (InWait w) T) st idl"
    and P: "P w = Some (waiterDelivered, Some r)" "good_result r"
  shows "count_ok P (after_recv (handleWaitResult_recv r) + T) u c k"
    and "own_ok P (after_recv (handleWaitResult_recv r) + T) st idl"
    and "InWait v \<notin># after_recv (handleWaitResult_recv r)" "InReopen b \<notin># after_recv (handleWaitResult_recv r)"
    "InShutdown cl \<notin># after_recv (handleWaitResult_recv r)"
proof -
  show "count_ok P (after_recv (handleWaitResult_recv r) + T) u c k"
    using P(2) co P(1) by (cases rule: good_result_cases) simp_all
  show "own_ok P (after_recv (handleWaitResult_recv r) + T) st idl"
    using P(2)
  proof (cases rule: good_result_cases)
    case (3 a)
    then have a: "owns P (InWait w) = [a]" using P by simp
    then have "st a = Some poolConnBorrowed" using oo by (simp add: own_ok_def)
    with own_ok_move [OF oo a, of "Holding a"] 3 show ?thesis by (simp add: fun_upd_idem)
  qed (use oo P in \<open>simp_all add: own_ok_none\<close>)
  show "InWait v \<notin># after_recv (handleWaitResult_recv r)" "InReopen b \<notin># after_recv (handleWaitResult_recv r)"
    "InShutdown cl \<notin># after_recv (handleWaitResult_recv r)"
    using P(2) by (cases rule: good_result_cases; simp)+
qed

lemma wait_ok_union:
  assumes "\<And>w. InWait w \<notin># S" shows "wait_ok P (S + T) ws = wait_ok P T ws"
proof -
  have "InWait w \<in># S + T \<longleftrightarrow> InWait w \<in># T" "count (S + T) (InWait w) = count T (InWait w)" for w
    using assms [of w] by (simp, simp add: not_in_iff)
  then show ?thesis by (simp only: wait_ok_def)
qed

lemma delivered_waiter:
  assumes inv: "inv0 gp ws (add_mset (InWait w) T) ro" and nq: "w \<notin> set ws"
  obtains x r where "gp_wheap gp w = Some x" "w_state x = waiterDelivered" "w_result x = Some r" "good_result r"
proof -
  obtain r where "pay (gp_wheap gp) w = Some (waiterDelivered, Some r)" "good_result r"
    using inv0_parts(3) [OF inv] nq unfolding wait_ok_def by (metis union_single_eq_member)
  then show thesis using that by (metis pay_SomeD)
qed

lemma queued_waiter:
  assumes inv: "inv0 gp ws (add_mset (InWait w) T) ro" and q: "w \<in> set ws"
  obtains x where "gp_wheap gp w = Some x" "w_state x = waiterQueued" "w_result x = None"
  using inv0_parts(3) [OF inv] q unfolding wait_ok_def by (metis pay_SomeD)

lemma receiveResult_ok:
  assumes inv: "inv0 gp ws (add_mset (InWait w) T) ro" and st: "settled gp ws" and nq: "w \<notin> set ws"
  shows "\<exists>gp' r. receiveResult gp w = Some (gp', r) \<and> good_result r \<and>
    pool_inv (gp', after_recv (handleWaitResult_recv r) + T, ro)"
proof -
  let ?P = "pay (gp_wheap gp)"
  obtain x r where x: "gp_wheap gp w = Some x" "w_state x = waiterDelivered" "w_result x = Some r" and r: "good_result r"
    by (rule delivered_waiter [OF inv nq])
  define h where "h = (gp_wheap gp)(w \<mapsto> x\<lparr>w_result := None\<rparr>)"
  have P: "?P w = Some (waiterDelivered, Some r)" and ph: "pay h = ?P(w \<mapsto> (waiterDelivered, None))"
    using x by (simp_all add: pay_def h_def fun_eq_iff)
  let ?S = "after_recv (handleWaitResult_recv r)"
  note rt = received_thread [OF inv0_parts(1,2) [OF inv] P r]
  have dist: "distinct ws" by (rule wqf.distinct_rep [OF inv0_parts(4) [OF inv]])
  have nin: "InWait w \<notin># ?S + T" using wait_ok_leave(2) [OF inv0_parts(3) [OF inv] dist] rt(3) by simp
  have "wait_ok (pay h) T ws"
    using wait_ok_leave(1) [OF inv0_parts(3) [OF inv] dist, of "Some (waiterDelivered, None)"] nq
    by (simp add: ph remove1_idem)
  then have "wait_ok (pay h) (?S + T) ws" using rt(3) by (simp add: wait_ok_union)
  moreover have "count_ok (pay h) (?S + T) (gp_inUse gp) (gp_creating gp) (gp_closing gp)"
    using rt(1) by (simp add: ph count_ok_upd [OF nin])
  moreover have "own_ok (pay h) (?S + T) (conn_st (gp_conns gp)) (iq_list (gp_idle gp))"
    using rt(2) by (simp add: ph own_ok_upd [OF nin])
  moreover have "struct_ok (gp\<lparr>gp_wheap := h\<rparr>) ws"
    using inv0_struct [OF inv] x P by (auto simp: struct_ok_def h_def intro: wq_rep_payload_upd)
  moreover have "flag_ok (gp\<lparr>gp_wheap := h\<rparr>) ws (?S + T) ro"
    using inv0_flag [OF inv] rt(4,5) by (auto simp: flag_ok_def capacityUsedLocked_def)
  ultimately have "inv0 (gp\<lparr>gp_wheap := h\<rparr>) ws (?S + T) ro" by (simp add: inv0_def)
  moreover have "settled (gp\<lparr>gp_wheap := h\<rparr>) ws" using st by (simp add: settled_def capacityUsedLocked_def)
  moreover have "receiveResult gp w = Some (gp\<lparr>gp_wheap := h\<rparr>, r)" using x by (simp add: receiveResult_def h_def)
  ultimately show ?thesis using r pool_invI by blast
qed

lemma receiveResult_blocks:
  assumes "inv0 gp ws (add_mset (InWait w) T) ro" "w \<in> set ws"
  shows "receiveResult gp w = None"
  by (rule queued_waiter [OF assms]) (simp add: receiveResult_def)

text \<open>Cancelling: a queued waiter leaves the queue, a delivered one takes its result.\<close>

lemma leave_queue_inv0:
  assumes inv: "inv0 gp ws (add_mset (InWait w) T) ro" and q: "w \<in> set ws"
    and rep: "wq_rep h q (remove1 w ws)" and ph: "pay h = (pay (gp_wheap gp))(w \<mapsto> (waiterCanceled, None))"
  shows "inv0 (gp\<lparr>gp_waiters := q, gp_wheap := h, gp_Waits := int (length (remove1 w ws))\<rparr>) (remove1 w ws) T ro"
proof -
  let ?gp = "gp\<lparr>gp_waiters := q, gp_wheap := h, gp_Waits := int (length (remove1 w ws))\<rparr>"
  note leave = wait_ok_leave [OF inv0_parts(3) [OF inv] wqf.distinct_rep [OF inv0_parts(4) [OF inv]]]
  obtain x where x: "gp_wheap gp w = Some x" "w_state x = waiterQueued" "w_result x = None"
    by (rule queued_waiter [OF inv q])
  then have P: "pay (gp_wheap gp) w = Some (waiterQueued, None)" by (simp add: pay_def)
  have "wait_ok (pay h) T (remove1 w ws)" unfolding ph by (rule leave)
  moreover have "count_ok (pay h) T (gp_inUse gp) (gp_creating gp) (gp_closing gp)"
    using inv0_parts(1) [OF inv] P by (simp add: ph count_ok_upd [OF leave(2)])
  moreover have "own_ok (pay h) T (conn_st (gp_conns gp)) (iq_list (gp_idle gp))"
    using inv0_parts(2) [OF inv] P by (simp add: ph own_ok_upd [OF leave(2)] own_ok_none)
  moreover have "struct_ok ?gp (remove1 w ws)"
    using inv0_struct [OF inv] rep P by (auto simp: struct_ok_def ph)
  moreover have "flag_ok ?gp (remove1 w ws) T ro"
    using inv0_flag [OF inv] q by (auto simp: flag_ok_def capacityUsedLocked_def)
  ultimately show ?thesis by (simp add: inv0_def)
qed

lemma cancelWaiter_queued_ok:
  assumes inv: "inv0 gp ws (add_mset (InWait w) T) ro" and q: "w \<in> set ws"
  shows "\<exists>gp'. cancelWaiter gp w e = Some (gp', Inl e) \<and> pool_inv (gp', T, ro)"
proof -
  obtain x where x: "gp_wheap gp w = Some x" "w_state x = waiterQueued" "w_result x = None"
    by (rule queued_waiter [OF inv q])
  obtain h1 q1 where rm: "waiterQueue_Remove (gp_wheap gp) (gp_waiters gp) w = Some (h1, q1)"
      and rep1: "wq_rep h1 q1 (remove1 w ws)" and same: "pay h1 = pay (gp_wheap gp)"
    using wqf.remove_queued [OF inv0_parts(4) [OF inv] q] by (auto simp: pay_same)
  have "pay h1 w = Some (waiterQueued, None)" using x by (simp add: same pay_def)
  then obtain y where y: "h1 w = Some y" "w_state y = waiterQueued" "w_result y = None"
    by (rule pay_SomeD)
  define h where "h = h1(w \<mapsto> y\<lparr>w_state := waiterCanceled\<rparr>)"
  define gp1 where "gp1 = gp\<lparr>gp_waiters := q1, gp_wheap := h, gp_Waits := int (length (remove1 w ws))\<rparr>"
  have rep: "wq_rep h q1 (remove1 w ws)"
    unfolding h_def by (rule wq_rep_payload_upd [OF rep1 y(1)]) simp_all
  have "inv0 gp1 (remove1 w ws) T ro"
    unfolding gp1_def by (rule leave_queue_inv0 [OF inv q rep]) (simp add: h_def y same)
  moreover have "\<not> gp_closed gp1"
    using inv0_flag [OF inv] q by (auto simp: gp1_def flag_ok_def)
  ultimately obtain gp' ws' where d: "dispatchCapacityWaitersLocked gp1 = Some gp'" "inv0 gp' ws' T ro" "settled gp' ws'"
    by (rule dispatch_settles)
  have "cancelWaiter gp w e = Some (gp', Inl e)"
    using x rm y(1) d(1) wqf.len_rep [OF rep] by (simp add: cancelWaiter_def gp1_def h_def)
  with pool_invI [OF d(2,3)] show ?thesis by blast
qed

lemma cancelWaiter_lost_ok:
  assumes inv: "inv0 gp ws (add_mset (InWait w) T) ro" and st: "settled gp ws" and nq: "w \<notin> set ws"
  shows "\<exists>gp' r. cancelWaiter gp w e = Some (gp', Inr r) \<and> good_result r \<and>
    pool_inv (gp', after_recv (handleWaitResult_recv r) + T, ro)"
proof -
  obtain x where "gp_wheap gp w = Some x" "w_state x = waiterDelivered"
    using delivered_waiter [OF inv nq] by blast
  with receiveResult_ok [OF assms] show ?thesis by (auto simp: cancelWaiter_def)
qed

end
