(* ===== verification/Gpool_Put.thy ===== *)
theory Gpool_Put
  imports Gpool_Get
begin

text \<open>
  The sections of \<^verbatim>\<open>PoolConn.Close\<close>, \<^verbatim>\<open>PoolConn.Discard\<close>, \<^verbatim>\<open>put\<close>, \<^verbatim>\<open>Gpool.Close\<close> and the initialisation:
  each runs to its end and keeps (or establishes) the pool invariant.
\<close>

section \<open>Giving up a lease\<close>

lemma lease_cas_ok:
  assumes inv: "inv0 gp ws (add_mset (Holding a) T) ro" and st: "settled gp ws"
    and t: "t = Returning a \<or> t = Discarding a"
  shows "\<exists>gp'. PoolConn_Close_cas gp a = Some (gp', True) \<and> pool_inv (gp', add_mset t T, ro)"
proof -
  let ?P = "pay (gp_wheap gp)"
  obtain c where c: "gp_conns gp a = Some c" "pc_state c = poolConnBorrowed"
    by (rule owner_state [OF inv]) simp_all
  define gp1 where "gp1 = gp\<lparr>gp_conns := (gp_conns gp)(a \<mapsto> c\<lparr>pc_state := poolConnReturning\<rparr>)\<rparr>"
  have "own_ok ?P (add_mset t T) ((conn_st (gp_conns gp))(a \<mapsto> want t)) (iq_list (gp_idle gp))"
    by (rule own_ok_move [OF inv0_parts(2) [OF inv]]) (use t in auto)
  then have "own_ok ?P (add_mset t T) (conn_st (gp_conns gp1)) (iq_list (gp_idle gp))"
    using t by (auto simp: gp1_def)
  moreover have "count_ok ?P (add_mset t T) (gp_inUse gp) (gp_creating gp) (gp_closing gp)"
    using inv0_parts(1) [OF inv] t by auto
  moreover have "wait_ok ?P (add_mset t T) ws"
    using inv0_parts(3) [OF inv] t by (auto simp: wait_ok_other)
  moreover have "struct_ok gp1 ws"
    using inv0_struct [OF inv] c by (auto simp: struct_ok_def gp1_def)
  moreover have "flag_ok gp1 ws (add_mset t T) ro"
    using inv0_flag [OF inv] t by (auto simp: flag_ok_def gp1_def capacityUsedLocked_def)
  ultimately have "inv0 gp1 ws (add_mset t T) ro" by (simp add: inv0_def gp1_def)
  moreover have "settled gp1 ws" using st by (simp add: settled_def gp1_def capacityUsedLocked_def)
  moreover have "PoolConn_Close_cas gp a = Some (gp1, True)"
    using c by (simp add: PoolConn_Close_cas_def setState_eq gp1_def)
  ultimately show ?thesis using pool_invI by blast
qed

lemma discard_ok:
  assumes inv: "inv0 gp ws (add_mset (Discarding a) T) ro" and st: "settled gp ws"
  shows "\<exists>gp'. PoolConn_Discard_locked gp a = Some gp' \<and> pool_inv (gp', add_mset (InClose a) T, ro)"
proof -
  obtain c where c: "gp_conns gp a = Some c"
    by (rule owner_state [OF inv]) simp_all
  define gp1 where "gp1 = gp\<lparr>gp_inUse := gp_inUse gp - 1,
      gp_conns := (gp_conns gp)(a \<mapsto> c\<lparr>pc_IdleTime := pc_IdleTime c, pc_state := poolConnClosing\<rparr>),
      gp_closing := gp_closing gp + 1\<rparr>"
  have "inv0 gp1 ws (add_mset (InClose a) T) ro"
    unfolding gp1_def by (rule begin_close_inv0 [OF inv c]) (simp_all add: closing_thread_def)
  moreover have "settled gp1 ws"
    by (rule settled_cong [OF st]) (simp_all add: gp1_def capacityUsedLocked_def)
  moreover have "PoolConn_Discard_locked gp a = Some gp1"
    using c by (simp add: PoolConn_Discard_locked_def closeConnectionLocked_begin_def setState_eq gp1_def)
  ultimately show ?thesis using pool_invI by blast
qed

text \<open>Closing the returned connection itself: the pool is closed, waiters queue, or the ring has no room.\<close>

lemma put_close_ok:
  assumes inv: "inv0 gp ws (add_mset (Returning a) T) ro" and st: "settled gp ws" and c: "gp_conns gp a = Some c"
  shows "\<exists>gp'. put_close (gp\<lparr>gp_inUse := gp_inUse gp - 1, gp_conns := (gp_conns gp)(a \<mapsto> c\<lparr>pc_IdleTime := i, pc_state := s\<rparr>)\<rparr>) a
    = Some (gp', Some a) \<and> pool_inv (gp', add_mset (InClose a) T, ro)"
proof -
  define gp1 where "gp1 = gp\<lparr>gp_inUse := gp_inUse gp - 1,
      gp_conns := (gp_conns gp)(a \<mapsto> c\<lparr>pc_IdleTime := i, pc_state := poolConnClosing\<rparr>),
      gp_closing := gp_closing gp + 1\<rparr>"
  have "inv0 gp1 ws (add_mset (InClose a) T) ro"
    unfolding gp1_def by (rule begin_close_inv0 [OF inv c]) (simp_all add: closing_thread_def)
  moreover have "settled gp1 ws"
    by (rule settled_cong [OF st]) (simp_all add: gp1_def capacityUsedLocked_def)
  ultimately show ?thesis using pool_invI [of gp1 ws]
    by (simp add: put_close_def closeConnectionLocked_begin_def setState_def gp1_def)
qed

text \<open>Handing the connection to the oldest waiter.\<close>

lemma put_handoff_ok:
  assumes inv: "inv0 gp (w # ws) (add_mset (Returning a) T) ro" and st: "settled gp (w # ws)"
    and c: "gp_conns gp a = Some c" and reuse: "connectionReusableForHandoff gp c now isOpen"
  shows "\<exists>gp'. put gp a now isOpen = Some (gp', None) \<and> pool_inv (gp', T, ro) \<and>
    pending (pay (gp_wheap gp')) w = Some (RecvConn (Some a))"
proof -
  let ?P = "pay (gp_wheap gp)"
  note parts = inv0_parts [OF inv]
  have wo: "wait_ok ?P T (w # ws)" using parts(3) by (simp add: wait_ok_other)
  have co: "count_ok ?P T (gp_inUse gp - 1) (gp_creating gp) (gp_closing gp)" using parts(1) by simp
  have op: "\<not> gp_closed gp" and idle: "iq_list (gp_idle gp) = []" using inv0_flag [OF inv] by (auto simp: flag_ok_def)
  have Pw: "?P w = Some (waiterQueued, None)" using wo by (simp add: wait_ok_def)
  obtain h q where pop: "popWaiter gp = Some (w, gp\<lparr>gp_wheap := h, gp_waiters := q\<rparr>)" "wq_rep h q ws" "pay h = ?P"
    by (rule popWaiter_ok [OF parts(4)])
  define gp1 where "gp1 = gp\<lparr>gp_wheap := h, gp_waiters := q, gp_conns := (gp_conns gp)(a \<mapsto> c\<lparr>pc_state := poolConnBorrowed\<rparr>)\<rparr>"
  obtain h' where d: "deliverWaiterLocked gp1 w (connGrant a) = Some (gp1\<lparr>gp_Waits := int (length ws), gp_wheap := h'\<rparr>)"
      "wq_rep h' q ws" "pay h' = ?P(w \<mapsto> (waiterDelivered, Some (connGrant a)))"
    using deliver_ok [of gp1 ws w waiterQueued "connGrant a"] pop Pw by (auto simp: gp1_def)
  define gp2 where "gp2 = gp1\<lparr>gp_Waits := int (length ws), gp_wheap := h'\<rparr>"
  have "wait_ok (pay h') T ws"
    unfolding d(3) by (rule wait_ok_deliver [OF wo]) (use wqf.distinct_rep [OF parts(4)] in \<open>auto simp: good_result_def\<close>)
  moreover have "count_ok (pay h') T (gp_inUse gp) (gp_creating gp) (gp_closing gp)"
    using count_ok_grant(3) [OF wo _ co] by (simp add: d(3))
  moreover have "own_ok (pay h') T ((conn_st (gp_conns gp))(a \<mapsto> poolConnBorrowed)) (iq_list (gp_idle gp))"
    unfolding d(3) by (rule own_ok_handoff [OF wo _ parts(2)]) simp_all
  moreover have "struct_ok gp2 ws"
    using inv0_struct [OF inv] d(2,3) c Pw by (auto simp: struct_ok_def gp2_def gp1_def)
  moreover have "flag_ok gp2 ws T ro"
    using inv0_flag [OF inv] op idle by (auto simp: flag_ok_def gp2_def gp1_def capacityUsedLocked_def)
  ultimately have "inv0 gp2 ws T ro" by (simp add: inv0_def gp2_def gp1_def)
  moreover have "settled gp2 ws"
    using st op by (simp add: settled_def gp2_def gp1_def capacityUsedLocked_def)
  moreover have "put gp a now isOpen = Some (gp2, None)"
    using op c reuse wqf.len_rep [OF parts(4)] pop(1) d(1)
    by (simp add: put_def setState_def gp2_def gp1_def)
  moreover have "pay (gp_wheap gp2) w = Some (waiterDelivered, Some (connGrant a))" by (simp add: gp2_def d(3))
  ultimately show ?thesis by (auto intro: pool_invI)
qed

text \<open>Keeping the connection idle, with or without evicting the oldest idle one.\<close>

lemma to_idle_inv0:
  assumes inv: "inv0 gp [] (add_mset (Returning a) T) ro" and op: "\<not> gp_closed gp" and c: "gp_conns gp a = Some c0"
      "pc_state c = poolConnIdle"
    and q: "iq_inv q" "idleQueue_Cap q = idleQueue_Cap (gp_idle gp)" "iq_list q = iq_list (gp_idle gp) @ [a]"
  shows "inv0 (gp\<lparr>gp_inUse := gp_inUse gp - 1, gp_conns := (gp_conns gp)(a \<mapsto> c), gp_idle := q\<rparr>) [] T ro"
proof -
  let ?P = "pay (gp_wheap gp)"
  define gp1 where "gp1 = gp\<lparr>gp_inUse := gp_inUse gp - 1, gp_conns := (gp_conns gp)(a \<mapsto> c), gp_idle := q\<rparr>"
  have len: "int (idleQueue_Len q) = int (idleQueue_Len (gp_idle gp)) + 1"
    using arg_cong [OF q(3), of length] by (simp add: idleQueue_Len_def)
  have "own_ok ?P T ((conn_st (gp_conns gp))(a \<mapsto> poolConnIdle)) (iq_list q)"
    by (rule own_ok_to_idle [OF inv0_parts(2) [OF inv]]) (simp_all add: q(3))
  moreover have "count_ok ?P T (gp_inUse gp - 1) (gp_creating gp) (gp_closing gp)"
    using inv0_parts(1) [OF inv] by simp
  moreover have "wait_ok ?P T []" using inv0_parts(3) [OF inv] by (simp add: wait_ok_other)
  moreover have "struct_ok gp1 []"
    using inv0_struct [OF inv] q c by (auto simp: struct_ok_def gp1_def)
  moreover have "flag_ok gp1 [] T ro"
    using inv0_flag [OF inv] op len by (auto simp: flag_ok_def gp1_def capacityUsedLocked_def)
  ultimately show ?thesis using c by (simp add: inv0_def gp1_def)
qed

lemma evict_inv0:
  assumes inv: "inv0 gp [] (add_mset (Returning a) T) ro" and op: "\<not> gp_closed gp" and c: "gp_conns gp a = Some c0"
      "pc_state c = poolConnIdle"
    and ne: "iq_list (gp_idle gp) \<noteq> []" and old: "old = hd (iq_list (gp_idle gp))" "gp_conns gp old = Some o0"
      "pc_state oc = poolConnClosing"
    and q: "iq_inv q" "idleQueue_Cap q = idleQueue_Cap (gp_idle gp)" "iq_list q = tl (iq_list (gp_idle gp)) @ [a]"
  shows "inv0 (gp\<lparr>gp_inUse := gp_inUse gp - 1, gp_idle := q, gp_conns := (gp_conns gp)(a \<mapsto> c, old \<mapsto> oc),
     gp_closing := gp_closing gp + 1\<rparr>) [] (add_mset (InClose old) T) ro"
proof -
  let ?P = "pay (gp_wheap gp)"
  define gp1 where "gp1 = gp\<lparr>gp_inUse := gp_inUse gp - 1, gp_idle := q, gp_conns := (gp_conns gp)(a \<mapsto> c, old \<mapsto> oc),
     gp_closing := gp_closing gp + 1\<rparr>"
  have idl: "iq_list (gp_idle gp) = old # tl (iq_list (gp_idle gp))" using ne old(1) by simp
  have len: "int (idleQueue_Len q) = int (idleQueue_Len (gp_idle gp))"
    using arg_cong [OF q(3), of length] arg_cong [OF idl, of length] by (simp add: idleQueue_Len_def)
  have "own_ok ?P T ((conn_st (gp_conns gp))(a \<mapsto> poolConnIdle)) (iq_list (gp_idle gp) @ [a])"
    by (rule own_ok_to_idle [OF inv0_parts(2) [OF inv]]) simp_all
  then have "own_ok ?P (add_mset (InClose old) T) ((conn_st (gp_conns gp))(a \<mapsto> poolConnIdle, old \<mapsto> want (InClose old))) (iq_list q)"
    by (rule own_ok_from_idle) (use q(3) idl in \<open>simp_all, metis mset.simps(2)\<close>)
  moreover have "count_ok ?P (add_mset (InClose old) T) (gp_inUse gp - 1) (gp_creating gp) (gp_closing gp + 1)"
    using inv0_parts(1) [OF inv] by simp
  moreover have "wait_ok ?P (add_mset (InClose old) T) []" using inv0_parts(3) [OF inv] by (simp add: wait_ok_other)
  moreover have "struct_ok gp1 []"
    using inv0_struct [OF inv] q c old(2) by (auto simp: struct_ok_def gp1_def)
  moreover have "flag_ok gp1 [] (add_mset (InClose old) T) ro"
    using inv0_flag [OF inv] op len by (auto simp: flag_ok_def gp1_def capacityUsedLocked_def)
  ultimately show ?thesis using c old(3) by (simp add: inv0_def gp1_def)
qed

lemma put_idle_ok:
  assumes inv: "inv0 gp [] (add_mset (Returning a) T) ro" and op: "\<not> gp_closed gp" and c: "gp_conns gp a = Some c"
    and gp1_def: "gp1 = gp\<lparr>gp_inUse := gp_inUse gp - 1, gp_conns := (gp_conns gp)(a \<mapsto> c\<lparr>pc_IdleTime := now, pc_state := poolConnIdle\<rparr>)\<rparr>"
  shows "\<exists>gp' out. put_idle gp1 a = Some (gp', out) \<and> pool_inv (gp', after_put out + T, ro)"
proof -
  let ?c = "c\<lparr>pc_IdleTime := now, pc_state := poolConnIdle\<rparr>" and ?idle = "gp_idle gp"
  note iq = inv0_parts(5) [OF inv]
  have idle1: "gp_idle gp1 = ?idle" by (simp add: gp1_def)
  consider (room) "length (iq_list ?idle) < idleQueue_Cap ?idle"
    | (none) "length (iq_list ?idle) = idleQueue_Cap ?idle" "idleQueue_Cap ?idle = 0"
    | (full) "length (iq_list ?idle) = idleQueue_Cap ?idle" "idleQueue_Cap ?idle \<noteq> 0"
    using ring.list_le_cap [OF iq] by linarith
  then show ?thesis
  proof cases
    case room
    then obtain q where q: "idleQueue_Push ?idle (Some a) = Some (True, q)" "iq_inv q" "iq_list q = iq_list ?idle @ [a]"
        "idleQueue_Cap q = idleQueue_Cap ?idle"
      using ring.push_room [OF iq] by blast
    have "put_idle gp1 a = Some (gp1\<lparr>gp_idle := q\<rparr>, None)" using q(1) by (simp add: put_idle_def idle1)
    moreover have "inv0 (gp1\<lparr>gp_idle := q\<rparr>) [] T ro"
      unfolding gp1_def by (rule to_idle_inv0 [OF inv op c _ q(2,4,3)]) simp
    moreover have "settled (gp1\<lparr>gp_idle := q\<rparr>) []" using op by (simp add: settled_def gp1_def)
    ultimately show ?thesis using pool_invI by auto
  next
    case none
    then have "put_idle gp1 a = put_close gp1 a"
      using ring.push_full [OF iq none(1)] by (simp add: put_idle_def idle1)
    moreover have "settled gp []" using op by (simp add: settled_def)
    ultimately show ?thesis using put_close_ok [OF inv _ c] unfolding gp1_def by fastforce
  next
    case full
    then have ne: "iq_list ?idle \<noteq> []" by (metis list.size(3))
    let ?old = "hd (iq_list ?idle)"
    obtain q1 q2 where q: "idleQueue_Pop ?idle = Some (Some ?old, q1)" "idleQueue_Push q1 (Some a) = Some (True, q2)"
        "iq_inv q2" "iq_list q2 = tl (iq_list ?idle) @ [a]" "idleQueue_Cap q2 = idleQueue_Cap ?idle"
      by (rule ring.evict [OF iq full])
    have "?old \<in> set (iq_list ?idle)" using ne by simp
    moreover have "a \<notin> set (iq_list ?idle)" using own_ok_owner_unique [OF inv0_parts(2) [OF inv], of a] by simp
    ultimately have na: "?old \<noteq> a" by auto
    obtain oc where oc: "gp_conns gp ?old = Some oc"
      using \<open>?old \<in> set (iq_list ?idle)\<close> inv0_parts(2) [OF inv] by (auto simp: own_ok_def conn_st_def)
    define gp2 where "gp2 = gp\<lparr>gp_inUse := gp_inUse gp - 1, gp_idle := q2,
      gp_conns := (gp_conns gp)(a \<mapsto> ?c, ?old \<mapsto> oc\<lparr>pc_state := poolConnClosing\<rparr>), gp_closing := gp_closing gp + 1\<rparr>"
    have "put_idle gp1 a = Some (gp2, Some ?old)"
      using ring.push_full [OF iq full(1)] full(2) q(1,2) na oc
      by (simp add: put_idle_def put_close_def idle1 closeConnectionLocked_begin_def setState_def gp2_def gp1_def)
    moreover have "inv0 gp2 [] (add_mset (InClose ?old) T) ro"
      unfolding gp2_def by (rule evict_inv0 [OF inv op c _ ne refl oc _ q(3,5,4)]) simp_all
    moreover have "settled gp2 []" using op by (simp add: settled_def gp2_def)
    ultimately show ?thesis using pool_invI by auto
  qed
qed

lemma put_ok:
  assumes inv: "inv0 gp ws (add_mset (Returning a) T) ro" and st: "settled gp ws"
  shows "\<exists>gp' out. put gp a now isOpen = Some (gp', out) \<and> pool_inv (gp', after_put out + T, ro)"
proof -
  obtain c where c: "gp_conns gp a = Some c" by (rule owner_state [OF inv]) simp_all
  have len: "waiterQueue_Len (gp_waiters gp) > 0 \<longleftrightarrow> ws \<noteq> []" by (rule wqf.len_pos_rep [OF inv0_parts(4) [OF inv]])
  let ?gp = "\<lambda>s. gp\<lparr>gp_inUse := gp_inUse gp - 1, gp_conns := (gp_conns gp)(a \<mapsto> c\<lparr>pc_IdleTime := now, pc_state := s\<rparr>)\<rparr>"
  note close = put_close_ok [OF inv st c, where i = now]
  consider (closed) "gp_closed gp"
    | (handoff) "\<not> gp_closed gp" "ws \<noteq> []" "connectionReusableForHandoff gp c now isOpen"
    | (broken) "\<not> gp_closed gp" "ws \<noteq> []" "\<not> connectionReusableForHandoff gp c now isOpen"
    | (idle) "\<not> gp_closed gp" "ws = []"
    by blast
  then show ?thesis
  proof cases
    case closed
    then have "put gp a now isOpen = put_close (?gp (pc_state c)) a"
      using c by (simp add: put_def setIdleTime_def)
    with close [where s = "pc_state c"] show ?thesis by fastforce
  next
    case handoff
    then obtain w ws' where "ws = w # ws'" by (auto simp: neq_Nil_conv)
    with put_handoff_ok [of gp w ws' a T ro c now isOpen] inv st c handoff show ?thesis by fastforce
  next
    case broken
    then have "put gp a now isOpen = put_close (?gp poolConnIdle) a"
      using c len by (simp add: put_def setIdleTime_def setState_def)
    with close [where s = poolConnIdle] show ?thesis by fastforce
  next
    case idle
    then have "put gp a now isOpen = put_idle (?gp poolConnIdle) a"
      using c len by (simp add: put_def setIdleTime_def setState_def)
    with put_idle_ok [OF _ idle(1) c refl] inv idle show ?thesis by simp
  qed
qed

section \<open>Shutdown\<close>

text \<open>The invariant without the shutdown flags, which do not hold between the two loops of \<^verbatim>\<open>Close\<close>.\<close>

definition core_ok :: "gpool \<Rightarrow> addr list \<Rightarrow> thread multiset \<Rightarrow> bool" where
  "core_ok gp ws T \<longleftrightarrow>
     struct_ok gp ws \<and>
     count_ok (pay (gp_wheap gp)) T (gp_inUse gp) (gp_creating gp) (gp_closing gp) \<and>
     own_ok (pay (gp_wheap gp)) T (conn_st (gp_conns gp)) (iq_list (gp_idle gp)) \<and>
     wait_ok (pay (gp_wheap gp)) T ws"

lemma inv0_core: "inv0 gp ws T ro \<longleftrightarrow> core_ok gp ws T \<and> flag_ok gp ws T ro"
  by (auto simp: inv0_def core_ok_def)

lemma core_closed: "core_ok (gp\<lparr>gp_closed := b\<rparr>) ws T = core_ok gp ws T"
  by (simp add: core_ok_def struct_ok_def)

lemma close_waiter_core:
  assumes core: "core_ok gp (w # ws) T"
  obtains h q h' where "popWaiter gp = Some (w, gp\<lparr>gp_wheap := h, gp_waiters := q\<rparr>)"
    and "deliverWaiterLocked (gp\<lparr>gp_wheap := h, gp_waiters := q\<rparr>) w closedResult =
      Some (gp\<lparr>gp_waiters := q, gp_Waits := int (length ws), gp_wheap := h'\<rparr>)"
    and "core_ok (gp\<lparr>gp_waiters := q, gp_Waits := int (length ws), gp_wheap := h'\<rparr>) ws T"
    and "pay h' = (pay (gp_wheap gp))(w \<mapsto> (waiterDelivered, Some closedResult))"
proof -
  let ?P = "pay (gp_wheap gp)"
  from core have wo: "wait_ok ?P T (w # ws)" and rep: "wq_rep (gp_wheap gp) (gp_waiters gp) (w # ws)"
    and co: "count_ok ?P T (gp_inUse gp) (gp_creating gp) (gp_closing gp)"
    and oo: "own_ok ?P T (conn_st (gp_conns gp)) (iq_list (gp_idle gp))" and so: "struct_ok gp (w # ws)"
    by (simp_all add: core_ok_def struct_ok_def)
  obtain h q where pop: "popWaiter gp = Some (w, gp\<lparr>gp_wheap := h, gp_waiters := q\<rparr>)" "wq_rep h q ws" "pay h = ?P"
    by (rule popWaiter_ok [OF rep])
  have Pw: "?P w = Some (waiterQueued, None)" using wo by (simp add: wait_ok_def)
  obtain h' where h': "deliverWaiterLocked (gp\<lparr>gp_wheap := h, gp_waiters := q\<rparr>) w closedResult =
        Some (gp\<lparr>gp_waiters := q, gp_Waits := int (length ws), gp_wheap := h'\<rparr>)"
      "wq_rep h' q ws" "pay h' = ?P(w \<mapsto> (waiterDelivered, Some closedResult))"
    using deliver_ok [of "gp\<lparr>gp_wheap := h, gp_waiters := q\<rparr>" ws w waiterQueued closedResult] pop Pw by auto
  have "wait_ok (pay h') T ws"
    unfolding h'(3) by (rule wait_ok_deliver [OF wo]) (use wqf.distinct_rep [OF rep] in \<open>auto simp: good_result_def\<close>)
  moreover have "count_ok (pay h') T (gp_inUse gp) (gp_creating gp) (gp_closing gp)"
    unfolding h'(3) by (rule count_ok_grant [OF wo _ co]) simp
  moreover have "own_ok (pay h') T (conn_st (gp_conns gp)) (iq_list (gp_idle gp))"
    unfolding h'(3) by (rule own_ok_grant [OF wo _ oo]) simp_all
  moreover have "struct_ok (gp\<lparr>gp_waiters := q, gp_Waits := int (length ws), gp_wheap := h'\<rparr>) ws"
    using so h' Pw by (auto simp: struct_ok_def)
  ultimately have "core_ok (gp\<lparr>gp_waiters := q, gp_Waits := int (length ws), gp_wheap := h'\<rparr>) ws T"
    by (simp add: core_ok_def)
  with that [OF pop(1) h'(1) _ h'(3)] show thesis .
qed

lemma close_waiters_ok:
  assumes "core_ok gp ws T"
  shows "\<exists>h q. close_waiters gp = Some (gp\<lparr>gp_waiters := q, gp_Waits := 0, gp_wheap := h\<rparr>) \<and>
    core_ok (gp\<lparr>gp_waiters := q, gp_Waits := 0, gp_wheap := h\<rparr>) [] T \<and>
    (\<forall>w \<in> set ws. pay h w = Some (waiterDelivered, Some closedResult)) \<and>
    (\<forall>w. w \<notin> set ws \<longrightarrow> pay h w = pay (gp_wheap gp) w)"
  using assms
proof (induction ws arbitrary: gp)
  case Nil
  then have "waiterQueue_Len (gp_waiters gp) = 0" "gp_Waits gp = 0"
    by (auto simp: core_ok_def struct_ok_def wqf.len_rep)
  then have "close_waiters gp = Some (gp\<lparr>gp_waiters := gp_waiters gp, gp_Waits := 0, gp_wheap := gp_wheap gp\<rparr>)"
    by (simp add: close_waiters.simps)
  moreover have "gp\<lparr>gp_waiters := gp_waiters gp, gp_Waits := 0, gp_wheap := gp_wheap gp\<rparr> = gp"
    using \<open>gp_Waits gp = 0\<close> by simp
  ultimately show ?case using Nil by (metis empty_iff list.set(1))
next
  case (Cons w ws)
  then have rep: "wq_rep (gp_wheap gp) (gp_waiters gp) (w # ws)" by (simp add: core_ok_def struct_ok_def)
  have len: "waiterQueue_Len (gp_waiters gp) > 0" and w: "w \<notin> set ws"
    using wqf.distinct_rep [OF rep] wqf.len_rep [OF rep] by auto
  obtain h q h' where pop: "popWaiter gp = Some (w, gp\<lparr>gp_wheap := h, gp_waiters := q\<rparr>)"
    and del: "deliverWaiterLocked (gp\<lparr>gp_wheap := h, gp_waiters := q\<rparr>) w closedResult =
      Some (gp\<lparr>gp_waiters := q, gp_Waits := int (length ws), gp_wheap := h'\<rparr>)"
    and core: "core_ok (gp\<lparr>gp_waiters := q, gp_Waits := int (length ws), gp_wheap := h'\<rparr>) ws T"
    and ph: "pay h' = (pay (gp_wheap gp))(w \<mapsto> (waiterDelivered, Some closedResult))"
    by (rule close_waiter_core [OF Cons.prems])
  have "close_waiters gp = close_waiters (gp\<lparr>gp_waiters := q, gp_Waits := int (length ws), gp_wheap := h'\<rparr>)"
    using len pop del by (subst close_waiters.simps) simp
  moreover obtain h2 q2 where IH:
      "close_waiters (gp\<lparr>gp_waiters := q, gp_Waits := int (length ws), gp_wheap := h'\<rparr>) =
        Some (gp\<lparr>gp_waiters := q2, gp_Waits := 0, gp_wheap := h2\<rparr>)"
      "core_ok (gp\<lparr>gp_waiters := q2, gp_Waits := 0, gp_wheap := h2\<rparr>) [] T"
      "\<forall>w \<in> set ws. pay h2 w = Some (waiterDelivered, Some closedResult)"
      "\<forall>w. w \<notin> set ws \<longrightarrow> pay h2 w = pay h' w"
    using Cons.IH [OF core] by auto
  moreover have "\<forall>v \<in> set (w # ws). pay h2 v = Some (waiterDelivered, Some closedResult)"
    "\<forall>v. v \<notin> set (w # ws) \<longrightarrow> pay h2 v = pay (gp_wheap gp) v"
    using IH(3,4) w ph by simp_all
  ultimately show ?case by (intro exI [of _ h2] exI [of _ q2]) simp
qed

lemma own_ok_shutdown:
  assumes "own_ok P (add_mset (InShutdown cl) T) st (a # idl)"
  shows "own_ok P (add_mset (InShutdown (cl @ [a])) T) (st(a \<mapsto> poolConnClosing)) idl"
proof -
  have nin: "a \<notin> set cl" "a \<notin> set idl" "a \<notin># owned P T" using assms by (auto simp: own_ok_def)
  then have "a \<notin> set (owns P t)" if "t \<in># T" for t using that by (auto simp: in_owned)
  with assms nin show ?thesis by (auto simp: own_ok_def)
qed

lemma close_idle_one:
  assumes core: "core_ok gp [] (add_mset (InShutdown cl) T)" and idl: "iq_list (gp_idle gp) = a # as"
  obtains q c where "idleQueue_Pop (gp_idle gp) = Some (Some a, q)" "iq_list q = as" "gp_conns gp a = Some c"
    "core_ok (gp\<lparr>gp_idle := q, gp_conns := (gp_conns gp)(a \<mapsto> c\<lparr>pc_state := poolConnClosing\<rparr>),
       gp_closing := gp_closing gp + 1\<rparr>) [] (add_mset (InShutdown (cl @ [a])) T)"
    "int (idleQueue_Len q) = int (idleQueue_Len (gp_idle gp)) - 1"
proof -
  let ?P = "pay (gp_wheap gp)"
  from core have iq: "iq_inv (gp_idle gp)" and wo: "wait_ok ?P (add_mset (InShutdown cl) T) []"
    and co: "count_ok ?P (add_mset (InShutdown cl) T) (gp_inUse gp) (gp_creating gp) (gp_closing gp)"
    and oo: "own_ok ?P (add_mset (InShutdown cl) T) (conn_st (gp_conns gp)) (a # as)" and so: "struct_ok gp []"
    by (simp_all add: core_ok_def struct_ok_def idl)
  obtain q where q: "idleQueue_Pop (gp_idle gp) = Some (Some a, q)" "iq_inv q" "iq_list q = as"
      "idleQueue_Cap q = idleQueue_Cap (gp_idle gp)"
    using ring.pop_oldest [OF iq] idl by fastforce
  obtain c where c: "gp_conns gp a = Some c" using oo by (auto simp: own_ok_def conn_st_def)
  let ?gp = "gp\<lparr>gp_idle := q, gp_conns := (gp_conns gp)(a \<mapsto> c\<lparr>pc_state := poolConnClosing\<rparr>),
       gp_closing := gp_closing gp + 1\<rparr>"
  have "struct_ok ?gp []" using so q c by (auto simp: struct_ok_def)
  moreover have "count_ok ?P (add_mset (InShutdown (cl @ [a])) T) (gp_inUse gp) (gp_creating gp) (gp_closing gp + 1)"
    using co by simp
  moreover have "wait_ok ?P (add_mset (InShutdown (cl @ [a])) T) []" using wo by (simp add: wait_ok_other)
  ultimately have "core_ok ?gp [] (add_mset (InShutdown (cl @ [a])) T)"
    using own_ok_shutdown [OF oo] q(3) by (simp add: core_ok_def)
  moreover have "int (idleQueue_Len q) = int (idleQueue_Len (gp_idle gp)) - 1"
    unfolding idleQueue_Len_list idl q(3) by simp
  ultimately show thesis using that q c by blast
qed

lemma close_idle_ok:
  assumes "core_ok gp [] (add_mset (InShutdown cl) T)" "iq_list (gp_idle gp) = as"
  shows "\<exists>q m k. close_idle gp cl = Some (gp\<lparr>gp_idle := q, gp_conns := m, gp_closing := k\<rparr>, cl @ as) \<and>
    core_ok (gp\<lparr>gp_idle := q, gp_conns := m, gp_closing := k\<rparr>) [] (add_mset (InShutdown (cl @ as)) T) \<and>
    iq_list q = [] \<and> int (idleQueue_Len q) + k = int (idleQueue_Len (gp_idle gp)) + gp_closing gp"
  using assms
proof (induction as arbitrary: gp cl)
  case Nil
  then have "idleQueue_Len (gp_idle gp) = 0" by (simp only: idleQueue_Len_list list.size)
  then have "close_idle gp cl = Some (gp, cl)" by (simp add: close_idle.simps)
  with Nil show ?case
    by (intro exI [of _ "gp_idle gp"] exI [of _ "gp_conns gp"] exI [of _ "gp_closing gp"]) simp
next
  case (Cons a as)
  obtain q c where q: "idleQueue_Pop (gp_idle gp) = Some (Some a, q)" "iq_list q = as" "gp_conns gp a = Some c"
    "core_ok (gp\<lparr>gp_idle := q, gp_conns := (gp_conns gp)(a \<mapsto> c\<lparr>pc_state := poolConnClosing\<rparr>),
       gp_closing := gp_closing gp + 1\<rparr>) [] (add_mset (InShutdown (cl @ [a])) T)"
    "int (idleQueue_Len q) = int (idleQueue_Len (gp_idle gp)) - 1"
    by (rule close_idle_one [OF Cons.prems])
  have "idleQueue_Len (gp_idle gp) > 0" unfolding idleQueue_Len_list Cons.prems by simp
  then have "close_idle gp cl = close_idle (gp\<lparr>gp_idle := q, gp_conns := (gp_conns gp)(a \<mapsto> c\<lparr>pc_state := poolConnClosing\<rparr>),
       gp_closing := gp_closing gp + 1\<rparr>) (cl @ [a])"
    using q(1,3) by (subst close_idle.simps) (simp add: setState_def)
  with Cons.IH [OF q(4)] q(2,5) show ?case by simp
qed

lemma shutdown_thread:
  assumes "core_ok gp ws (add_mset (InShutdown cl) T)"
  shows "core_ok gp ws (after_shutdown cl + T)"
  using assms by (cases cl) (auto simp: core_ok_def own_ok_none wait_ok_other)

lemma Close_enter_ok:
  assumes inv: "inv0 gp ws T ro" and st: "settled gp ws"
  shows "\<exists>gp' cl. Close_enter gp = Some (gp', cl) \<and> pool_inv (gp', after_shutdown cl + T, ro) \<and> gp_closed gp' \<and>
    (\<not> gp_closed gp \<longrightarrow> cl = iq_list (gp_idle gp) \<and>
       (\<forall>w \<in> set ws. pay (gp_wheap gp') w = Some (waiterDelivered, Some closedResult)))"
proof (cases "gp_closed gp")
  case True
  moreover have "gp_closeDone gp = Some (gp_closeEnded gp)" using inv0_flag [OF inv] by (auto simp: flag_ok_def)
  ultimately show ?thesis using pool_invI [OF inv st] by (simp add: Close_enter_def)
next
  case False
  have dn: "gp_closeDone gp = Some (gp_closeEnded gp)" and ne: "\<not> gp_closeEnded gp"
    using inv0_flag [OF inv] False by (auto simp: flag_ok_def)
  have "core_ok (gp\<lparr>gp_closed := True\<rparr>) ws T" using inv by (simp add: inv0_core core_closed)
  then obtain h q where cw: "close_waiters (gp\<lparr>gp_closed := True\<rparr>) =
        Some (gp\<lparr>gp_closed := True, gp_waiters := q, gp_Waits := 0, gp_wheap := h\<rparr>)"
      and core1: "core_ok (gp\<lparr>gp_closed := True, gp_waiters := q, gp_Waits := 0, gp_wheap := h\<rparr>) [] T"
      and ph: "\<forall>w \<in> set ws. pay h w = Some (waiterDelivered, Some closedResult)"
    using close_waiters_ok [of "gp\<lparr>gp_closed := True\<rparr>" ws T] by blast
  define gp1 where "gp1 = gp\<lparr>gp_closed := True, gp_waiters := q, gp_Waits := 0, gp_wheap := h\<rparr>"
  have "core_ok gp1 [] (add_mset (InShutdown []) T)"
    using core1 by (simp add: gp1_def core_ok_def own_ok_none wait_ok_other)
  then obtain q' m k where ci: "close_idle gp1 [] =
        Some (gp1\<lparr>gp_idle := q', gp_conns := m, gp_closing := k\<rparr>, iq_list (gp_idle gp))"
      and core2: "core_ok (gp1\<lparr>gp_idle := q', gp_conns := m, gp_closing := k\<rparr>) []
        (add_mset (InShutdown (iq_list (gp_idle gp))) T)"
      and q': "iq_list q' = []" "int (idleQueue_Len q') + k = int (idleQueue_Len (gp_idle gp)) + gp_closing gp"
    using close_idle_ok [of gp1 "[]" T "iq_list (gp_idle gp)"] by (auto simp: gp1_def)
  define gp2 where "gp2 = gp1\<lparr>gp_idle := q', gp_conns := m, gp_closing := k\<rparr>"
  let ?T = "after_shutdown (iq_list (gp_idle gp)) + T"
  have cap: "capacityUsedLocked gp2 = capacityUsedLocked gp"
    using q'(2) by (simp add: gp2_def gp1_def capacityUsedLocked_def)
  have "InReopen a \<notin># after_shutdown (iq_list (gp_idle gp))" for a by (cases "iq_list (gp_idle gp)") auto
  then have "flag_ok gp2 [] ?T ro"
    using inv0_flag [OF inv] dn ne q'(1) unfolding flag_ok_def cap by (auto simp: gp2_def gp1_def)
  moreover have "core_ok gp2 [] ?T"
    unfolding gp2_def by (rule shutdown_thread [OF core2])
  ultimately have inv2: "inv0 gp2 [] ?T ro" by (simp add: inv0_core)
  have "gp_closed gp2" by (simp add: gp2_def gp1_def)
  with finish_settles [OF inv2] obtain gp' where fin: "finishCloseLocked gp2 = Some gp'" "inv0 gp' [] ?T ro"
      "settled gp' []" "gp_closed gp'" by blast
  moreover have "gp_wheap gp' = h"
    using fin(1) by (auto simp: finishCloseLocked_def gp2_def gp1_def split: if_splits option.splits bool.splits)
  moreover have "Close_enter gp = Some (gp', iq_list (gp_idle gp))"
    using False dn cw ci fin(1) by (simp add: Close_enter_def gp1_def gp2_def)
  ultimately show ?thesis using ph pool_invI [OF fin(2,3)] by auto
qed

lemma closeIdleConnections_end_ok:
  assumes inv: "inv0 gp ws (add_mset (InShutdown (a # as)) T) ro" and cl: "gp_closed gp"
  shows "\<exists>gp'. closeIdleConnections_end gp a err = Some gp' \<and> pool_inv (gp', after_shutdown as + T, ro)"
proof -
  let ?P = "pay (gp_wheap gp)"
  obtain c where c: "gp_conns gp a = Some c"
    using inv0_parts(2) [OF inv] by (auto simp: own_ok_def conn_st_def)
  define gp1 where "gp1 = gp\<lparr>gp_conns := (gp_conns gp)(a \<mapsto> c\<lparr>pc_state := poolConnClosed\<rparr>),
      gp_closing := gp_closing gp - 1, gp_closeErr := errors_Join (gp_closeErr gp) err\<rparr>"
  have co: "count_ok ?P (add_mset (InShutdown as) T) (gp_inUse gp) (gp_creating gp) (gp_closing gp - 1)"
    using inv0_parts(1) [OF inv] by (simp add: algebra_simps)
  have "own_ok ?P (add_mset (InShutdown as) T) (conn_st (gp_conns gp1)) (iq_list (gp_idle gp))"
  proof -
    have "a \<notin> set as" "a \<notin> set (iq_list (gp_idle gp))" "a \<notin># owned ?P T"
      using inv0_parts(2) [OF inv] by (auto simp: own_ok_def)
    moreover have "own_ok ?P (add_mset (InShutdown as) T) (conn_st (gp_conns gp)) (iq_list (gp_idle gp))"
      using inv0_parts(2) [OF inv] by (auto simp: own_ok_def)
    ultimately show ?thesis by (elim own_ok_cong_st) (auto simp: gp1_def)
  qed
  moreover have "wait_ok ?P (add_mset (InShutdown as) T) ws"
    using inv0_parts(3) [OF inv] by (simp add: wait_ok_other)
  moreover have "struct_ok gp1 ws" using inv0_struct [OF inv] c by (auto simp: struct_ok_def gp1_def)
  ultimately have "core_ok gp1 ws (add_mset (InShutdown as) T)"
    using co by (simp add: core_ok_def gp1_def)
  then have "core_ok gp1 ws (after_shutdown as + T)" by (rule shutdown_thread)
  moreover have "flag_ok gp1 ws (after_shutdown as + T) ro"
  proof -
    have "InReopen b \<notin># after_shutdown as" for b by (cases as) auto
    then show ?thesis
      using inv0_flag [OF inv] count_ok_nonneg [OF co] by (auto simp: flag_ok_def gp1_def capacityUsedLocked_def)
  qed
  ultimately have "inv0 gp1 ws (after_shutdown as + T) ro" by (simp add: inv0_core)
  moreover have "gp_closed gp1" using cl by (simp add: gp1_def)
  ultimately obtain gp' where "finishCloseLocked gp1 = Some gp'" "inv0 gp' ws (after_shutdown as + T) ro" "settled gp' ws"
    by (rule finish_settles)
  then show ?thesis using c pool_invI by (auto simp: closeIdleConnections_end_def setState_def gp1_def)
qed

section \<open>Initialisation\<close>

text \<open>What holds while the idle connections are created.\<close>

definition init_ok :: "gpool \<Rightarrow> bool" where
  "init_ok gp \<longleftrightarrow> core_ok gp [] {#} \<and> \<not> gp_closed gp \<and> gp_closeDone gp = Some False \<and> \<not> gp_closeEnded gp \<and>
     gp_MaxIdleConns gp \<le> max 0 (gp_MaxConns gp) \<and> gp_inUse gp = 0 \<and> gp_creating gp = 0 \<and> gp_closing gp = 0"

lemma CreateIdleConn_step_ok:
  assumes "init_ok gp"
  shows "\<exists>gp'. CreateIdleConn_step gp res now = Some gp' \<and> init_ok gp' \<and> gp_MaxIdleConns gp' = gp_MaxIdleConns gp"
proof (cases res)
  case (Inl e)
  then show ?thesis using assms by (simp add: CreateIdleConn_step_def getConnFromNew_def)
next
  case (Inr p)
  then obtain ct gc where p: "res = Inr (ct, gc)" by (cases p) auto
  from assms have iq: "iq_inv (gp_idle gp)" and so: "struct_ok gp []"
    and oo: "own_ok (pay (gp_wheap gp)) {#} (conn_st (gp_conns gp)) (iq_list (gp_idle gp))"
    by (simp_all add: init_ok_def core_ok_def struct_ok_def)
  let ?a = "gp_next gp"
  obtain b q where q: "idleQueue_Push (gp_idle gp) (Some ?a) = Some (b, q)" "iq_inv q"
      "idleQueue_Cap q = idleQueue_Cap (gp_idle gp)"
      "iq_list q = (if b then iq_list (gp_idle gp) @ [?a] else iq_list (gp_idle gp))"
    by (rule ring.push_total [OF iq, of "Some ?a"]) auto
  define gp' where "gp' = gp\<lparr>gp_next := Suc ?a, gp_conns := (gp_conns gp)(?a \<mapsto>
     \<lparr>pc_Gc = gc, pc_Ctime = ct, pc_IdleTime = now, pc_state = poolConnIdle\<rparr>), gp_idle := q\<rparr>"
  have fresh: "?a \<notin> set (iq_list (gp_idle gp))"
    using so oo by (auto simp: own_ok_def struct_ok_def conn_st_def)
  have "struct_ok gp' []" using so q by (auto simp: struct_ok_def gp'_def less_Suc_eq)
  moreover have "own_ok (pay (gp_wheap gp)) {#} (conn_st (gp_conns gp')) (iq_list q)"
    using oo fresh q(4) by (auto simp: own_ok_def gp'_def)
  ultimately have "init_ok gp'" using assms by (simp add: init_ok_def core_ok_def count_ok_def gp'_def)
  moreover have "CreateIdleConn_step gp res now = Some gp'"
    using q(1) by (simp add: p CreateIdleConn_step_def getConnFromNew_def Let_def setIdleTime_def setState_def gp'_def)
  moreover have "gp_MaxIdleConns gp' = gp_MaxIdleConns gp" by (simp add: gp'_def)
  ultimately show ?thesis by blast
qed

lemma CreateIdleConn_ok:
  assumes "init_ok gp"
  shows "\<exists>gp'. CreateIdleConn gp results nows = Some gp' \<and> init_ok gp'"
proof -
  have "\<exists>gp'. CreateIdleConn_loop n i results nows gp = Some gp' \<and> init_ok gp'" if "init_ok gp" for n i gp
    using that
  proof (induction n arbitrary: i gp)
    case (Suc n)
    then show ?case using CreateIdleConn_step_ok [of gp "results i" "nows i"] by fastforce
  qed simp
  then show ?thesis using assms by (simp add: CreateIdleConn_def)
qed

lemma init_ok_inv:
  assumes "init_ok gp"
  shows "pool_inv (gp, {#}, False)"
proof -
  from assms have core: "core_ok gp [] {#}" by (simp add: init_ok_def)
  then have "iq_inv (gp_idle gp)" "idleQueue_Cap (gp_idle gp) = nat (gp_MaxIdleConns gp)"
    by (simp_all add: core_ok_def struct_ok_def)
  then have "idleQueue_Len (gp_idle gp) \<le> nat (gp_MaxIdleConns gp)"
    using ring.list_le_cap by (metis idleQueue_Len_list)
  then have "flag_ok gp [] {#} False"
    using assms by (auto simp: init_ok_def flag_ok_def capacityUsedLocked_def)
  with core have "inv0 gp [] {#} False" by (simp add: inv0_core)
  moreover have "settled gp []" using assms by (simp add: settled_def init_ok_def)
  ultimately show ?thesis by (rule pool_invI)
qed

lemma empty_core:
  assumes "iq_inv (gp_idle gp)" "idleQueue_Cap (gp_idle gp) = nat (gp_MaxIdleConns gp)" "iq_list (gp_idle gp) = []"
    "gp_waiters gp = emptyWaiterQueue" "gp_Waits gp = 0" "gp_inUse gp = 0" "gp_creating gp = 0" "gp_closing gp = 0"
    "gp_conns gp = (\<lambda>_. None)" "gp_wheap gp = (\<lambda>_. None)"
  shows "core_ok gp [] {#}"
  using assms by (simp add: core_ok_def struct_ok_def count_ok_def own_ok_def wait_ok_def pay_def
      wq_rep_def emptyWaiterQueue_def)

lemma GpoolInit2_ok:
  "\<exists>gp. GpoolInit2 zeroGpool timeout conf results nows = Some gp \<and> init_ok gp"
  unfolding GpoolInit2_def Let_def
  by (rule CreateIdleConn_ok)
    (auto simp: init_ok_def resetCloseState_def zeroGpool_def ring.inv_new ring.cap_new ring.list_new intro!: empty_core)

lemma GpoolInit_ok:
  "\<exists>gp. GpoolInit zeroGpool timeout maxconns maxidle maxlife results nows = Some gp \<and> init_ok gp"
  unfolding GpoolInit_def Let_def
  by (rule CreateIdleConn_ok)
    (auto simp: init_ok_def resetCloseState_def zeroGpool_def ring.inv_new ring.cap_new ring.list_new intro!: empty_core)

end
