(* ===== verification/Gpool_Safety.thy ===== *)
theory Gpool_Safety
  imports Gpool_Put
begin

text \<open>
  The properties of the pool over all interleavings: the invariant holds in every reachable state, no
  critical section panics or blocks, the counters are exact, leases are exclusive, a waiter is only
  left waiting while the pool is saturated, and the shutdown protocol ends.  \<open>pool_exec\<close> runs a
  schedule; it gives the schedules that break the bound on connections and the promise of \<^verbatim>\<open>Close\<close>.
\<close>

section \<open>The invariant is inductive\<close>

lemma pool_invE:
  assumes "pool_inv (gp, T, ro)"
  obtains ws where "inv0 gp ws T ro" "settled gp ws"
  using assms by (auto simp: pool_inv_def)

text \<open>A section that is known to end in a good state ends in a good state.\<close>

lemma section_result:
  assumes "\<exists>x y. f = Some (x, y) \<and> Q x y" "f = Some (a, b)"
  shows "Q a b"
  using assms by auto

lemma section_result1:
  assumes "\<exists>x. f = Some x \<and> Q x" "f = Some a"
  shows "Q a"
  using assms by auto

lemma reopen_flag: "inv0 gp ws (add_mset (InReopen a) T) ro \<Longrightarrow> ro"
  by (auto simp: inv0_def flag_ok_def)

lemma shutdown_closed: "inv0 gp ws (add_mset (InShutdown cl) T) ro \<Longrightarrow> gp_closed gp"
  by (auto simp: inv0_def flag_ok_def)

lemma recv_pending: "inv0 gp ws (add_mset (InWait w) T) ro \<Longrightarrow> receiveResult gp w \<noteq> None \<Longrightarrow> w \<notin> set ws"
  by (metis receiveResult_blocks)

lemma cancel_kind:
  assumes inv: "inv0 gp ws (add_mset (InWait w) T) ro" "settled gp ws"
  shows "cancelWaiter gp w e = Some (gp', Inl e') \<Longrightarrow> w \<in> set ws"
    and "cancelWaiter gp w e = Some (gp', Inr r) \<Longrightarrow> w \<notin> set ws"
  using cancelWaiter_queued_ok [OF inv(1), of e] cancelWaiter_lost_ok [OF inv, of e] by auto

lemma closing_end_inv:
  assumes "inv0 gp ws (add_mset t T) ro" "closing_thread t a" "closeConnectionLocked_end gp a err = Some gp'"
  shows "pool_inv (gp', T, ro)"
  using closeConnectionLocked_end_ok [OF assms(1,2), of err] assms(3) by (metis option.inject)

lemma pool_step_inv:
  assumes "pool_step s s'" "pool_inv s"
  shows "pool_inv s'"
  using assms
proof (induction rule: pool_step.induct)
  case (get gp now isOpen gp' out T ro)
  then show ?case by (auto elim!: pool_invE intro: section_result [OF Get_enter_ok])
next
  case (reopen gp a err gp' T ro)
  obtain ws where ws: "inv0 gp ws (add_mset (InReopen a) T) ro" using reopen by (auto elim: pool_invE)
  with reopen_flag have ro by blast
  with closing_end_inv [OF ws _ reopen(1)] show ?case
    using reopen_ok by (simp add: closing_thread_def)
next
  case (create gp res gp' out T ro)
  have "creating_thread InCreate" by (simp add: creating_thread_def)
  with create show ?case by (auto elim!: pool_invE intro: section_result [OF getConnFromNewForUse_end_ok])
next
  case (recv gp w gp' r T ro)
  obtain ws where ws: "inv0 gp ws (add_mset (InWait w) T) ro" "settled gp ws" using recv by (auto elim: pool_invE)
  with recv recv_pending have "w \<notin> set ws" by blast
  from section_result [OF receiveResult_ok [OF ws this] recv(1)] show ?case by blast
next
  case (cancel gp w e gp' e' T ro)
  obtain ws where ws: "inv0 gp ws (add_mset (InWait w) T) ro" "settled gp ws" using cancel by (auto elim: pool_invE)
  from cancelWaiter_queued_ok [OF ws(1) cancel_kind(1) [OF ws cancel(1)], of e] cancel(1) show ?case by auto
next
  case (cancel_lost gp w e gp' r T ro)
  obtain ws where ws: "inv0 gp ws (add_mset (InWait w) T) ro" "settled gp ws" using cancel_lost by (auto elim: pool_invE)
  from cancelWaiter_lost_ok [OF ws cancel_kind(2) [OF ws cancel_lost(1)], of e] cancel_lost(1) show ?case by auto
next
  case (check gp gp' out T ro)
  then show ?case by (auto elim!: pool_invE intro: section_result [OF handleWaitResult_check_ok])
next
  case (granted gp res gp' out T ro)
  have "creating_thread InCreateGranted" by (simp add: creating_thread_def)
  with granted show ?case
    unfolding handleWaitResult_end_eq
    by (auto elim!: pool_invE intro: section_result [OF getConnFromNewForUse_end_ok])
next
  case (abandoned gp a err gp' T ro)
  then show ?case by (auto elim!: pool_invE intro!: closing_end_inv simp: closing_thread_def)
next
  case (close_cas gp a gp' T ro)
  obtain ws where ws: "inv0 gp ws (add_mset (Holding a) T) ro" "settled gp ws" using close_cas by (auto elim: pool_invE)
  from lease_cas_ok [OF ws, of "Returning a"] close_cas(1) show ?case by auto
next
  case (discard_cas gp a gp' T ro)
  obtain ws where ws: "inv0 gp ws (add_mset (Holding a) T) ro" "settled gp ws" using discard_cas by (auto elim: pool_invE)
  from lease_cas_ok [OF ws, of "Discarding a"] discard_cas(1) show ?case by auto
next
  case (put gp a now isOpen gp' c T ro)
  then show ?case by (auto elim!: pool_invE intro: section_result [OF put_ok])
next
  case (discard gp a gp' T ro)
  then show ?case by (auto elim!: pool_invE intro: section_result1 [OF discard_ok])
next
  case (closed gp a err gp' T ro)
  then show ?case by (auto elim!: pool_invE intro!: closing_end_inv simp: closing_thread_def)
next
  case (shutdown gp gp' cl T ro)
  obtain ws where "inv0 gp ws T ro" "settled gp ws" using shutdown by (auto elim: pool_invE)
  from Close_enter_ok [OF this] shutdown(1) show ?case by auto
next
  case (shutdown_one gp a err gp' "as" T ro)
  obtain ws where ws: "inv0 gp ws (add_mset (InShutdown (a # as)) T) ro" using shutdown_one by (auto elim: pool_invE)
  from closeIdleConnections_end_ok [OF ws shutdown_closed [OF ws], of err] shutdown_one(1) show ?case by auto
qed

lemma pool_reachable_inv: "pool_reachable s \<Longrightarrow> pool_inv s"
proof (induction rule: pool_reachable.induct)
  case (init timeout conf results nows gp)
  then show ?case using GpoolInit2_ok [of timeout conf results nows] init_ok_inv by auto
next
  case (init_old timeout maxconns maxidle maxlife results nows gp)
  then show ?case using GpoolInit_ok [of timeout maxconns maxidle maxlife results nows] init_ok_inv by auto
next
  case (step s s')
  then show ?case using pool_step_inv by blast
qed

section \<open>Executable schedules\<close>

text \<open>
  One action per rule of \<open>pool_step\<close>, with the inputs the environment chooses.  \<open>pool_exec\<close> keeps the
  threads in a list.
\<close>

datatype action =
    DoGet int bool
  | DoReopen addr "error option"
  | DoCreate create_result
  | DoRecv addr
  | DoCancel addr error
  | DoCheck
  | DoGranted create_result
  | DoAbandon addr "error option"
  | DoCloseCas addr
  | DoDiscardCas addr
  | DoPut addr int bool
  | DoDiscard addr
  | DoClosed addr "error option"
  | DoShutdown
  | DoShutdownOne addr "addr list" "error option"

type_synonym xsys = "gpool \<times> thread list \<times> bool"

fun after_get_list :: "outcome \<Rightarrow> thread list" where
  "after_get_list (Failed e) = []"
| "after_get_list (Got a) = [Holding a]"
| "after_get_list (MustReopen a) = [InReopen a]"
| "after_get_list MustCreate = [InCreate]"
| "after_get_list (MustAbandon a) = [InAbandon a]"
| "after_get_list (MustWait w) = [InWait w]"

fun after_recv_list :: "received \<Rightarrow> thread list" where
  "after_recv_list (RecvErr e) = []"
| "after_recv_list (RecvConn None) = []"
| "after_recv_list (RecvConn (Some a)) = [Holding a]"
| "after_recv_list RecvCreate = [InCreateWait]"

fun after_cancel_list :: "error + waitResult \<Rightarrow> thread list" where
  "after_cancel_list (Inl e) = []"
| "after_cancel_list (Inr r) = after_recv_list (handleWaitResult_recv r)"

fun after_check_list :: "outcome \<Rightarrow> thread list" where
  "after_check_list MustCreate = [InCreateGranted]"
| "after_check_list _ = []"

fun after_put_list :: "addr option \<Rightarrow> thread list" where
  "after_put_list None = []"
| "after_put_list (Some a) = [InClose a]"

fun after_shutdown_list :: "addr list \<Rightarrow> thread list" where
  "after_shutdown_list [] = []"
| "after_shutdown_list (a # as) = [InShutdown (a # as)]"

lemma mset_after_put [simp]: "mset (after_put_list c) = after_put c"
  by (cases c) auto

lemma mset_after_shutdown [simp]: "mset (after_shutdown_list cl) = after_shutdown cl"
  by (cases cl) auto

lemma mset_after_check [simp]: "mset (after_check_list out) = after_check out"
  by (cases out) auto

lemma mset_after_get [simp]: "mset (after_get_list out) = after_get out"
  by (cases out) auto

lemma mset_after_recv [simp]: "mset (after_recv_list r) = after_recv r"
  by (cases r rule: after_recv_list.cases) auto

definition take_thread :: "thread \<Rightarrow> thread list \<Rightarrow> thread list option" where
  "take_thread t L = (if t \<in> set L then Some (remove1 t L) else None)"

lemma take_thread_mset: "take_thread t L = Some L' \<Longrightarrow> mset L = add_mset t (mset L')"
  by (auto simp: take_thread_def split: if_splits)

fun pool_exec1 :: "action \<Rightarrow> xsys \<Rightarrow> xsys option" where
  "pool_exec1 (DoGet now isOpen) (gp, L, ro) =
     do { (gp, out) \<leftarrow> Get_enter gp now isOpen; Some (gp, after_get_list out @ L, ro \<or> is_reopen out) }"
| "pool_exec1 (DoReopen a err) (gp, L, ro) =
     do { L \<leftarrow> take_thread (InReopen a) L; gp \<leftarrow> closeConnectionLocked_end gp a err;
          Some (getConnFromNewForUse_begin gp, InCreate # L, ro) }"
| "pool_exec1 (DoCreate res) (gp, L, ro) =
     do { L \<leftarrow> take_thread InCreate L; (gp, out) \<leftarrow> getConnFromNewForUse_end gp res;
          Some (gp, after_get_list out @ L, ro) }"
| "pool_exec1 (DoRecv w) (gp, L, ro) =
     do { L \<leftarrow> take_thread (InWait w) L; (gp, r) \<leftarrow> receiveResult gp w;
          Some (gp, after_recv_list (handleWaitResult_recv r) @ L, ro) }"
| "pool_exec1 (DoCancel w e) (gp, L, ro) =
     do { L \<leftarrow> take_thread (InWait w) L; (gp, x) \<leftarrow> cancelWaiter gp w e;
          Some (gp, after_cancel_list x @ L, ro) }"
| "pool_exec1 DoCheck (gp, L, ro) =
     do { L \<leftarrow> take_thread InCreateWait L; (gp, out) \<leftarrow> handleWaitResult_check gp;
          Some (gp, after_check_list out @ L, ro) }"
| "pool_exec1 (DoGranted res) (gp, L, ro) =
     do { L \<leftarrow> take_thread InCreateGranted L; (gp, out) \<leftarrow> handleWaitResult_end gp res;
          Some (gp, after_get_list out @ L, ro) }"
| "pool_exec1 (DoAbandon a err) (gp, L, ro) =
     do { L \<leftarrow> take_thread (InAbandon a) L; gp \<leftarrow> closeConnectionLocked_end gp a err; Some (gp, L, ro) }"
| "pool_exec1 (DoCloseCas a) (gp, L, ro) =
     do { L \<leftarrow> take_thread (Holding a) L; (gp, ok) \<leftarrow> PoolConn_Close_cas gp a;
          (if ok then Some (gp, Returning a # L, ro) else None) }"
| "pool_exec1 (DoDiscardCas a) (gp, L, ro) =
     do { L \<leftarrow> take_thread (Holding a) L; (gp, ok) \<leftarrow> PoolConn_Close_cas gp a;
          (if ok then Some (gp, Discarding a # L, ro) else None) }"
| "pool_exec1 (DoPut a now isOpen) (gp, L, ro) =
     do { L \<leftarrow> take_thread (Returning a) L; (gp, c) \<leftarrow> put gp a now isOpen;
          Some (gp, after_put_list c @ L, ro) }"
| "pool_exec1 (DoDiscard a) (gp, L, ro) =
     do { L \<leftarrow> take_thread (Discarding a) L; gp \<leftarrow> PoolConn_Discard_locked gp a; Some (gp, InClose a # L, ro) }"
| "pool_exec1 (DoClosed a err) (gp, L, ro) =
     do { L \<leftarrow> take_thread (InClose a) L; gp \<leftarrow> closeConnectionLocked_end gp a err; Some (gp, L, ro) }"
| "pool_exec1 DoShutdown (gp, L, ro) =
     do { (gp, cl) \<leftarrow> Close_enter gp; Some (gp, after_shutdown_list cl @ L, ro) }"
| "pool_exec1 (DoShutdownOne a as err) (gp, L, ro) =
     do { L \<leftarrow> take_thread (InShutdown (a # as)) L; gp \<leftarrow> closeIdleConnections_end gp a err;
          Some (gp, after_shutdown_list as @ L, ro) }"

fun pool_exec :: "action list \<Rightarrow> xsys \<Rightarrow> xsys option" where
  "pool_exec [] s = Some s"
| "pool_exec (a # as) s = (case pool_exec1 a s of None \<Rightarrow> None | Some s' \<Rightarrow> pool_exec as s')"

fun xs_mset :: "xsys \<Rightarrow> psys" where
  "xs_mset (gp, L, ro) = (gp, mset L, ro)"

lemma pool_exec1_step:
  "pool_exec1 a s = Some s' \<Longrightarrow> pool_step (xs_mset s) (xs_mset s')"
proof (induction a s rule: pool_exec1.induct)
  case (5 w e gp L ro)
  then obtain L' gp' x where x: "take_thread (InWait w) L = Some L'" "cancelWaiter gp w e = Some (gp', x)"
      "s' = (gp', after_cancel_list x @ L', ro)"
    by (auto simp: Option.bind_eq_Some_conv)
  then show ?case by (cases x) (auto simp: take_thread_mset intro: pool_step.intros)
qed (auto simp: Option.bind_eq_Some_conv take_thread_mset split: if_splits intro: pool_step.intros)

lemma pool_exec_reachable:
  assumes "pool_exec as s = Some s'" "pool_reachable (xs_mset s)"
  shows "pool_reachable (xs_mset s')"
  using assms
  by (induction as s rule: pool_exec.induct)
    (auto split: option.splits dest: pool_exec1_step intro: pool_reachable.step)

section \<open>Concrete pools and schedules\<close>

text \<open>
  A pool of at most one connection that was created at time 0 and may live for 10 units.  \<open>borrow1\<close>
  borrows it, \<open>wait1\<close> queues a second caller behind the first, \<open>reopen1\<close> borrows after the connection
  has expired.
\<close>

definition conf1 :: gPoolConfig where
  "conf1 = \<lparr>cf_MaxConns = 1, cf_MaxIdleConns = 1, cf_MaxWaiters = 4, cf_MaxConnLife = 10,
     cf_MaxIdleConnLife = 0, cf_RPCMaxRetries = 0, cf_PoolFIFO = False\<rparr>"

definition run1 :: "action list \<Rightarrow> xsys option" where
  "run1 as = do {
     gp \<leftarrow> GpoolInit2 zeroGpool 5 conf1 (\<lambda>_. Inr (0, 7)) (\<lambda>_. 0);
     pool_exec as (gp, [], False)
   }"

lemma run1_reachable:
  assumes "run1 as = Some (gp, L, ro)"
  shows "pool_reachable (gp, mset L, ro)"
proof -
  from assms obtain g where g: "GpoolInit2 zeroGpool 5 conf1 (\<lambda>_. Inr (0, 7)) (\<lambda>_. 0) = Some g"
      "pool_exec as (g, [], False) = Some (gp, L, ro)"
    by (auto simp: run1_def Option.bind_eq_Some_conv)
  then show ?thesis
    using pool_exec_reachable [OF g(2)] pool_reachable.init [OF g(1)] by simp
qed

text \<open>What a schedule has to satisfy, as a test that can be evaluated.\<close>

definition run1_sat :: "action list \<Rightarrow> (xsys \<Rightarrow> bool) \<Rightarrow> bool" where
  "run1_sat as Q = (case run1 as of None \<Rightarrow> False | Some s \<Rightarrow> Q s)"

lemma run1_satE:
  assumes "run1_sat as Q"
  obtains gp L ro where "pool_reachable (gp, mset L, ro)" "Q (gp, L, ro)"
  using assms by (auto simp: run1_sat_def split: option.splits dest: run1_reachable)

section \<open>No section panics or blocks\<close>

text \<open>The next section of a thread runs to its end whatever the environment answers.\<close>

fun section_total :: "gpool \<Rightarrow> thread \<Rightarrow> bool" where
  "section_total gp (InReopen a) = (\<forall>err. closeConnectionLocked_end gp a err \<noteq> None)"
| "section_total gp InCreate = (\<forall>res. getConnFromNewForUse_end gp res \<noteq> None)"
| "section_total gp (InWait w) = (\<forall>e. cancelWaiter gp w e \<noteq> None)"
| "section_total gp InCreateWait = (handleWaitResult_check gp \<noteq> None)"
| "section_total gp InCreateGranted = (\<forall>res. handleWaitResult_end gp res \<noteq> None)"
| "section_total gp (InAbandon a) = (\<forall>err. closeConnectionLocked_end gp a err \<noteq> None)"
| "section_total gp (Holding a) = (\<exists>gp'. PoolConn_Close_cas gp a = Some (gp', True))"
| "section_total gp (Returning a) = (\<forall>now isOpen. put gp a now isOpen \<noteq> None)"
| "section_total gp (Discarding a) = (PoolConn_Discard_locked gp a \<noteq> None)"
| "section_total gp (InClose a) = (\<forall>err. closeConnectionLocked_end gp a err \<noteq> None)"
| "section_total gp (InShutdown cl) =
     (case cl of [] \<Rightarrow> True | a # _ \<Rightarrow> \<forall>err. closeIdleConnections_end gp a err \<noteq> None)"

lemma closing_total:
  "inv0 gp ws (add_mset t T) ro \<Longrightarrow> closing_thread t a \<Longrightarrow> closeConnectionLocked_end gp a err \<noteq> None"
  by (erule closeConnectionLocked_end_ok [where err = err]) auto

lemma thread_section_total:
  assumes inv: "inv0 gp ws (add_mset t T) ro" and st: "settled gp ws"
  shows "section_total gp t"
proof (cases t)
  case (InReopen a) then show ?thesis using closing_total [OF inv] by (simp add: closing_thread_def)
next
  case InCreate
  then show ?thesis using getConnFromNewForUse_end_ok [OF inv st] by (fastforce simp: creating_thread_def)
next
  case (InWait w)
  then show ?thesis
    using cancelWaiter_queued_ok [of gp ws w T ro] cancelWaiter_lost_ok [of gp ws w T ro] inv st
    by (cases "w \<in> set ws") fastforce+
next
  case InCreateWait then show ?thesis using handleWaitResult_check_ok inv st by fastforce
next
  case InCreateGranted
  then show ?thesis
    using getConnFromNewForUse_end_ok [OF inv st] by (fastforce simp: creating_thread_def handleWaitResult_end_eq)
next
  case (InAbandon a) then show ?thesis using closing_total [OF inv] by (simp add: closing_thread_def)
next
  case (Holding a) then show ?thesis using lease_cas_ok [of gp ws a T ro "Returning a"] inv st by auto
next
  case (Returning a) then show ?thesis using put_ok [of gp ws a T ro] inv st by fastforce
next
  case (Discarding a) then show ?thesis using discard_ok [of gp ws a T ro] inv st by fastforce
next
  case (InClose a) then show ?thesis using closing_total [OF inv] by (simp add: closing_thread_def)
next
  case (InShutdown cl)
  then show ?thesis
    using closeIdleConnections_end_ok [of gp ws _ _ T ro] shutdown_closed inv by (fastforce split: list.splits)
qed

text \<open>
  C3: In every state any interleaving of the pool's users can reach, no critical section panics or
  blocks with the mutex held: a new \<^verbatim>\<open>Get\<close> and a new \<^verbatim>\<open>Close\<close> run to the end of their first section, and
  so does the next section of every goroutine that is inside the pool or holds a connection, whatever
  the clock, the factory and the connections answer.  In particular a result channel is never full
  when a result is sent, the queues never yield a nil element and the owner's compare-and-swap wins.
\<close>

theorem pool_sections_total:
  assumes "pool_reachable (gp, T, ro)"
  shows "(\<forall>now isOpen. Get_enter gp now isOpen \<noteq> None) \<and> Close_enter gp \<noteq> None \<and>
    (\<forall>t \<in># T. section_total gp t)"
proof -
  obtain ws where ws: "inv0 gp ws T ro" "settled gp ws"
    using pool_reachable_inv [OF assms] by (rule pool_invE)
  have "section_total gp t" if "t \<in># T" for t
    using thread_section_total [of gp ws t "T - {#t#}" ro] ws that by simp
  then show ?thesis using Get_enter_ok [OF ws] Close_enter_ok [OF ws] by fastforce
qed

theorem pool_sections_total_witness:
  "\<exists>gp T ro. T \<noteq> {#} \<and> Close_enter gp \<noteq> None \<and> (\<forall>t \<in># T. section_total gp t)"
proof -
  have "run1_sat [DoGet 5 True, DoGet 5 True] (\<lambda>(gp, L, ro). L \<noteq> [])" by code_simp
  then obtain gp L ro where "pool_reachable (gp, mset L, ro)" "L \<noteq> []" by (auto elim: run1_satE)
  with pool_sections_total [of gp "mset L" ro] show ?thesis by (metis mset_zero_iff)
qed

section \<open>Accounting\<close>

text \<open>
  C5: The counters are exact in every reachable state: \<open>inUse\<close> is the number of leases that callers
  hold, are returning, or that wait in a result channel; \<open>creating\<close> the number of goroutines that run
  the factory or have been granted the right to; \<open>closing\<close> the number of connections being physically
  closed.  So no counter is ever negative, the idle store never exceeds \<open>MaxIdleConns\<close>, and the
  published \<open>Waits\<close> is the length of the waiter queue.
\<close>

theorem pool_counters_exact:
  assumes "pool_reachable (gp, T, ro)"
  shows "InUseCount gp = (\<Sum>t\<in>#T. uses (pay (gp_wheap gp)) t) \<and>
    gp_creating gp = (\<Sum>t\<in>#T. creates (pay (gp_wheap gp)) t) \<and>
    gp_closing gp = (\<Sum>t\<in>#T. closes (pay (gp_wheap gp)) t) \<and>
    0 \<le> InUseCount gp \<and> 0 \<le> gp_creating gp \<and> 0 \<le> gp_closing gp \<and>
    IdleCount gp \<le> nat (gp_MaxIdleConns gp) \<and> gp_Waits gp = WaiterCount gp"
proof -
  obtain ws where ws: "inv0 gp ws T ro" using pool_reachable_inv [OF assms] by (rule pool_invE)
  note co = inv0_parts(1) [OF ws] and so = inv0_struct [OF ws]
  have "IdleCount gp \<le> nat (gp_MaxIdleConns gp)"
    using ring.list_le_cap [OF inv0_parts(5) [OF ws]] so unfolding IdleCount_def idleQueue_Len_list
    by (simp add: struct_ok_def)
  moreover have "gp_Waits gp = WaiterCount gp"
    using so wqf.len_rep [OF inv0_parts(4) [OF ws]] by (simp add: struct_ok_def WaiterCount_def)
  ultimately show ?thesis
    using co count_ok_nonneg [OF co] by (simp add: count_ok_def InUseCount_def)
qed

theorem pool_counters_exact_witness:
  "\<exists>gp T. gp_Waits gp = WaiterCount gp \<and> InUseCount gp = (\<Sum>t\<in>#T. uses (pay (gp_wheap gp)) t) \<and>
     WaiterCount gp = 1 \<and> InUseCount gp = 1"
proof -
  have "run1_sat [DoGet 5 True, DoGet 5 True] (\<lambda>(gp, L, ro). WaiterCount gp = 1 \<and> InUseCount gp = 1)" by code_simp
  then obtain gp L ro where r: "pool_reachable (gp, mset L, ro)" "WaiterCount gp = 1 \<and> InUseCount gp = 1"
    by (auto elim: run1_satE)
  with pool_counters_exact [OF r(1)] show ?thesis by blast
qed

section \<open>Leases\<close>

lemma owns_wait: "a \<in> set (owns P (InWait w)) \<Longrightarrow> owns P (InWait w) = [a]"
  by (cases "pending P w") (auto split: received.splits option.splits)

text \<open>
  C1: Leases are exclusive.  A connection that a goroutine holds (from \<^verbatim>\<open>Get\<close> or through a hand-off
  that is still in its channel) is in the borrowed state, is not in the idle store, and no other
  goroutine holds, returns, discards or closes it.
\<close>

theorem pool_leases_exclusive:
  assumes "pool_reachable (gp, add_mset t T, ro)" "t = Holding a \<or> (\<exists>w. t = InWait w \<and> a \<in> set (owns (pay (gp_wheap gp)) t))"
  shows "conn_st (gp_conns gp) a = Some poolConnBorrowed \<and> a \<notin> set (iq_list (gp_idle gp)) \<and>
    (\<forall>t' \<in># T. a \<notin> set (owns (pay (gp_wheap gp)) t'))"
proof -
  obtain ws where ws: "inv0 gp ws (add_mset t T) ro" using pool_reachable_inv [OF assms(1)] by (rule pool_invE)
  note oo = inv0_parts(2) [OF ws]
  have t: "owns (pay (gp_wheap gp)) t = [a]" "want t = poolConnBorrowed"
    using assms(2) owns_wait by auto
  with own_ok_owner_unique [OF oo t(1)] oo show ?thesis by (auto simp: own_ok_def in_owned)
qed

theorem pool_leases_exclusive_witness:
  "\<exists>(gp :: gpool) T. Holding 0 \<in># T \<and> conn_st (gp_conns gp) 0 = Some poolConnBorrowed \<and> 0 \<notin> set (iq_list (gp_idle gp))"
proof -
  have "run1_sat [DoGet 5 True, DoGet 5 True] (\<lambda>(gp, L, ro). Holding 0 \<in> set L)" by code_simp
  then obtain gp L ro where r: "pool_reachable (gp, mset L, ro)" "Holding 0 \<in># mset L"
    by (rule run1_satE) auto
  then have "pool_reachable (gp, add_mset (Holding 0) (mset L - {#Holding 0#}), ro)" by simp
  from pool_leases_exclusive [OF this, of 0] have "conn_st (gp_conns gp) 0 = Some poolConnBorrowed"
    "0 \<notin> set (iq_list (gp_idle gp))" by simp_all
  with r(2) show ?thesis by (intro exI [of _ gp] exI [of _ "mset L"]) simp
qed

section \<open>Waiting\<close>

lemma sum_mset_pos:
  fixes f :: "'a \<Rightarrow> int"
  shows "0 < (\<Sum>t\<in>#T. f t) \<Longrightarrow> \<exists>t \<in># T. 0 < f t"
  by (induction T) force+

lemma undelivered_queued:
  assumes "inv0 gp ws T ro" "InWait w \<in># T" "pending (pay (gp_wheap gp)) w = None"
  shows "w \<in> set ws"
  using inv0_parts(3) [OF assms(1)] assms(2,3) unfolding wait_ok_def by fastforce

text \<open>
  C2: No lost wake-up.  While some goroutine waits without a result in its channel, the pool is open,
  keeps no idle connection and has no free capacity; and if \<open>MaxConns\<close> is positive some goroutine
  occupies a slot whose release will serve the queue (a lease, a creation or a close).
\<close>

theorem pool_waiters_only_when_saturated:
  assumes "pool_reachable (gp, T, ro)" "InWait w \<in># T" "pending (pay (gp_wheap gp)) w = None"
  shows "\<not> gp_closed gp \<and> IdleCount gp = 0 \<and> gp_MaxConns gp \<le> capacityUsedLocked gp \<and>
    (0 < gp_MaxConns gp \<longrightarrow> (\<exists>t \<in># T. 0 < uses (pay (gp_wheap gp)) t + creates (pay (gp_wheap gp)) t + closes (pay (gp_wheap gp)) t))"
proof -
  let ?P = "pay (gp_wheap gp)"
  obtain ws where ws: "inv0 gp ws T ro" "settled gp ws" using pool_reachable_inv [OF assms(1)] by (rule pool_invE)
  then have "w \<in> set ws" using undelivered_queued assms(2,3) by blast
  then have ne: "ws \<noteq> []" by auto
  then have op: "\<not> gp_closed gp" and idl: "iq_list (gp_idle gp) = []"
    using inv0_flag [OF ws(1)] by (auto simp: flag_ok_def)
  then have cap: "gp_MaxConns gp \<le> capacityUsedLocked gp" and id0: "IdleCount gp = 0"
    using ws(2) ne by (auto simp: settled_def IdleCount_def idleQueue_Len_list simp del: length_iq_list)
  have "capacityUsedLocked gp = (\<Sum>t\<in>#T. uses ?P t + creates ?P t + closes ?P t)"
    using inv0_parts(1) [OF ws(1)] id0
    by (simp add: capacityUsedLocked_def count_ok_def IdleCount_def sum_mset.distrib)
  with cap op id0 show ?thesis using sum_mset_pos [where T = T and f = "\<lambda>t. uses ?P t + creates ?P t + closes ?P t"] by auto
qed

theorem pool_waiters_only_when_saturated_witness:
  "\<exists>gp T w. InWait w \<in># T \<and> \<not> gp_closed gp \<and> IdleCount gp = 0 \<and> gp_MaxConns gp \<le> capacityUsedLocked gp"
proof -
  have "run1_sat [DoGet 5 True, DoGet 5 True]
      (\<lambda>(gp, L, ro). InWait 1 \<in> set L \<and> pending (pay (gp_wheap gp)) 1 = None)" by code_simp
  then obtain gp L ro where r: "pool_reachable (gp, mset L, ro)" "InWait 1 \<in># mset L"
      "pending (pay (gp_wheap gp)) 1 = None" by (auto elim: run1_satE)
  with pool_waiters_only_when_saturated [OF r] show ?thesis by blast
qed

section \<open>Capacity\<close>

text \<open>
  C6: As long as no \<^verbatim>\<open>Get\<close> has popped an unusable idle connection, the idle, borrowed, creating and
  closing connections together never exceed \<open>MaxConns\<close>.
\<close>

theorem pool_capacity_bounded:
  assumes "pool_reachable (gp, T, False)"
  shows "0 \<le> capacityUsedLocked gp \<and> capacityUsedLocked gp \<le> max 0 (gp_MaxConns gp)"
proof -
  obtain ws where ws: "inv0 gp ws T False" using pool_reachable_inv [OF assms] by (rule pool_invE)
  with capacity_pos_parts [OF ws] inv0_flag [OF ws] show ?thesis
    by (simp add: flag_ok_def capacityUsedLocked_def)
qed

theorem pool_capacity_bounded_witness:
  "\<exists>gp. gp_MaxConns gp = 1 \<and> capacityUsedLocked gp = 1 \<and> capacityUsedLocked gp \<le> max 0 (gp_MaxConns gp)"
proof -
  have "run1_sat [DoGet 5 True, DoGet 5 True]
      (\<lambda>(gp, L, ro). gp_MaxConns gp = 1 \<and> capacityUsedLocked gp = 1 \<and> \<not> ro)" by code_simp
  then obtain gp L ro where r: "pool_reachable (gp, mset L, ro)"
      "gp_MaxConns gp = 1 \<and> capacityUsedLocked gp = 1 \<and> \<not> ro" by (auto elim: run1_satE)
  then have "pool_reachable (gp, mset L, False)" by simp
  from pool_capacity_bounded [OF this] r(2) show ?thesis by blast
qed

text \<open>
  The bound does not hold in general.  \<^verbatim>\<open>getConnFromIdle\<close> closes an unusable idle connection with
  the lock released; the slot this frees is given to a queued waiter, and \<^verbatim>\<open>getConnFromNewForUse\<close> then
  takes a slot of its own without a check.  A pool with \<open>MaxConns = 1\<close> ends up creating two connections.
\<close>

theorem pool_capacity_exceeded:
  "\<exists>gp T. pool_reachable (gp, T, True) \<and> gp_MaxConns gp = 1 \<and> gp_creating gp = 2 \<and>
     capacityUsedLocked gp = 2"
proof -
  have "run1_sat [DoGet 100 True, DoGet 100 True, DoReopen 0 None]
      (\<lambda>(gp, L, ro). gp_MaxConns gp = 1 \<and> gp_creating gp = 2 \<and> capacityUsedLocked gp = 2 \<and> ro)" by code_simp
  then obtain gp L ro where "pool_reachable (gp, mset L, ro)"
      "gp_MaxConns gp = 1 \<and> gp_creating gp = 2 \<and> capacityUsedLocked gp = 2 \<and> ro" by (auto elim: run1_satE)
  then show ?thesis by (intro exI [of _ gp] exI [of _ "mset L"]) simp
qed

section \<open>Shutdown\<close>

text \<open>
  C7: Shutdown ends.  Once the pool is closed and no goroutine accounts for a connection any more, the
  channel that \<^verbatim>\<open>Gpool.Close\<close> waits on is closed; and whenever it is closed the pool is closed, nothing
  is idle, in use or queued, and - if no unusable idle connection was ever reopened - nothing is being
  created or closed either.
\<close>

theorem pool_shutdown_ends:
  assumes "pool_reachable (gp, T, ro)"
  shows "(gp_closed gp \<and> (\<forall>t \<in># T. uses (pay (gp_wheap gp)) t = 0 \<and> creates (pay (gp_wheap gp)) t = 0 \<and>
        closes (pay (gp_wheap gp)) t = 0) \<longrightarrow> gp_closeDone gp = Some True) \<and>
    (gp_closeDone gp = Some True \<longrightarrow> gp_closed gp \<and> IdleCount gp = 0 \<and> InUseCount gp = 0 \<and> WaiterCount gp = 0 \<and>
        (\<not> ro \<longrightarrow> gp_creating gp = 0 \<and> gp_closing gp = 0))"
proof -
  let ?P = "pay (gp_wheap gp)"
  obtain ws where ws: "inv0 gp ws T ro" "settled gp ws" using pool_reachable_inv [OF assms] by (rule pool_invE)
  note fl = inv0_flag [OF ws(1)] and co = inv0_parts(1) [OF ws(1)] and pos = capacity_pos_parts [OF ws(1)]
  have idle: "IdleCount gp = 0" if "gp_closed gp"
    using fl that by (simp add: flag_ok_def IdleCount_def idleQueue_Len_list del: length_iq_list)
  have wait: "WaiterCount gp = 0" if "gp_closed gp"
    using fl that wqf.len_rep [OF inv0_parts(4) [OF ws(1)]] by (simp add: flag_ok_def WaiterCount_def)
  have dn: "gp_closeDone gp = Some (gp_closeEnded gp)" using fl by (simp add: flag_ok_def)
  have ended: "gp_closed gp \<and> gp_inUse gp = 0" if "gp_closeEnded gp" using fl that by (simp add: flag_ok_def)
  have "gp_creating gp = 0 \<and> gp_closing gp = 0" if "gp_closeEnded gp" "\<not> ro"
    using fl that pos by (simp add: flag_ok_def capacityUsedLocked_def)
  moreover have "gp_closeEnded gp" if "gp_closed gp"
    and z: "\<forall>t \<in># T. uses ?P t = 0 \<and> creates ?P t = 0 \<and> closes ?P t = 0"
  proof -
    have "gp_inUse gp = 0" "gp_creating gp = 0" "gp_closing gp = 0"
      using co z by (simp_all add: count_ok_def cong: image_mset_cong)
    with idle [OF that(1)] ws(2) that(1) show ?thesis
      by (simp add: settled_def capacityUsedLocked_def IdleCount_def)
  qed
  ultimately show ?thesis using dn ended idle wait by (simp add: InUseCount_def)
qed

theorem pool_shutdown_ends_witness:
  "\<exists>gp. gp_closeDone gp = Some True \<and> gp_closed gp \<and> IdleCount gp = 0 \<and> InUseCount gp = 0 \<and> gp_creating gp = 0"
proof -
  have "run1_sat [DoGet 5 True, DoShutdown, DoCloseCas 0, DoPut 0 6 True, DoClosed 0 None]
      (\<lambda>(gp, L, ro). gp_closeDone gp = Some True \<and> \<not> ro)" by code_simp
  then obtain gp L ro where r: "pool_reachable (gp, mset L, ro)" "gp_closeDone gp = Some True \<and> \<not> ro"
    by (rule run1_satE) auto
  with pool_shutdown_ends [OF r(1)] show ?thesis by blast
qed

text \<open>
  After an unusable idle connection was popped, the channel can be closed too early: \<^verbatim>\<open>Close\<close> returns
  once the old connection is closed, while the goroutine that popped it still goes on to run the
  connection factory.
\<close>

theorem pool_creates_after_close:
  "\<exists>gp T. pool_reachable (gp, T, True) \<and> gp_closeDone gp = Some True \<and> gp_creating gp = 1"
proof -
  have "run1_sat [DoGet 100 True, DoShutdown, DoReopen 0 None]
      (\<lambda>(gp, L, ro). gp_closeDone gp = Some True \<and> gp_creating gp = 1 \<and> ro)" by code_simp
  then obtain gp L ro where "pool_reachable (gp, mset L, ro)" "gp_closeDone gp = Some True \<and> gp_creating gp = 1 \<and> ro"
    by (rule run1_satE) auto
  then show ?thesis by (intro exI [of _ gp] exI [of _ "mset L"]) simp
qed

text \<open>
  \<^verbatim>\<open>Close\<close> releases every waiter.  The locked part of \<^verbatim>\<open>Gpool.Close\<close> marks the pool closed, puts
  \<^verbatim>\<open>ErrPoolClosed\<close> into the channel of every goroutine that waits without a result, and takes every idle
  connection out of the store, oldest first, to close it.
\<close>

theorem Close_releases_waiters:
  assumes "pool_reachable (gp, T, ro)" "\<not> gp_closed gp"
  shows "\<exists>gp' cl. Close_enter gp = Some (gp', cl) \<and> gp_closed gp' \<and> cl = iq_list (gp_idle gp) \<and> IdleCount gp' = 0 \<and>
    (\<forall>w. InWait w \<in># T \<and> pending (pay (gp_wheap gp)) w = None \<longrightarrow>
       pending (pay (gp_wheap gp')) w = Some (RecvErr [ErrPoolClosed]))"
proof -
  obtain ws where ws: "inv0 gp ws T ro" "settled gp ws" using pool_reachable_inv [OF assms(1)] by (rule pool_invE)
  obtain gp' cl where c: "Close_enter gp = Some (gp', cl)" "pool_inv (gp', after_shutdown cl + T, ro)" "gp_closed gp'"
      "cl = iq_list (gp_idle gp)" "\<forall>w \<in> set ws. pay (gp_wheap gp') w = Some (waiterDelivered, Some closedResult)"
    using Close_enter_ok [OF ws] assms(2) by blast
  have "IdleCount gp' = 0"
    using c(2,3) by (auto simp: inv0_def flag_ok_def IdleCount_def idleQueue_Len_list simp del: length_iq_list elim!: pool_invE)
  moreover have "pending (pay (gp_wheap gp')) w = Some (RecvErr [ErrPoolClosed])"
    if "InWait w \<in># T" "pending (pay (gp_wheap gp)) w = None" for w
    using c(5) undelivered_queued [OF ws(1) that] by simp
  ultimately show ?thesis using c(1,3,4) by blast
qed

theorem Close_releases_waiters_witness:
  "\<exists>gp gp' cl. Close_enter gp = Some (gp', cl) \<and> pending (pay (gp_wheap gp')) 1 = Some (RecvErr [ErrPoolClosed])"
proof -
  have "run1_sat [DoGet 5 True, DoGet 5 True]
      (\<lambda>(gp, L, ro). \<not> gp_closed gp \<and> InWait 1 \<in> set L \<and> pending (pay (gp_wheap gp)) 1 = None)" by code_simp
  then obtain gp L ro where r: "pool_reachable (gp, mset L, ro)" "\<not> gp_closed gp" "InWait 1 \<in># mset L"
      "pending (pay (gp_wheap gp)) 1 = None" by (rule run1_satE) auto
  with Close_releases_waiters [OF r(1,2)] show ?thesis by blast
qed

section \<open>Returning\<close>

text \<open>
  Fairness of \<^verbatim>\<open>put\<close>.  A reusable connection returned while callers wait goes to the waiter at the
  head of the queue and is never closed or made idle; the connection is found in that waiter's channel.
\<close>

theorem put_serves_oldest_waiter:
  assumes "pool_reachable (gp, add_mset (Returning a) T, ro)" "\<not> gp_closed gp"
    "wq_head (gp_waiters gp) = Some w" "gp_conns gp a = Some c" "connectionReusableForHandoff gp c now isOpen"
  shows "\<exists>gp'. put gp a now isOpen = Some (gp', None) \<and> pool_reachable (gp', T, ro) \<and>
    pending (pay (gp_wheap gp')) w = Some (RecvConn (Some a)) \<and> conn_st (gp_conns gp') a = Some poolConnBorrowed"
proof -
  obtain ws where ws: "inv0 gp ws (add_mset (Returning a) T) ro" "settled gp ws"
    using pool_reachable_inv [OF assms(1)] by (rule pool_invE)
  obtain ws' where "ws = w # ws'"
    using inv0_parts(4) [OF ws(1)] assms(3) by (cases ws) (auto simp: wq_rep_def)
  with put_handoff_ok [of gp w ws' a T ro c now isOpen] ws assms(4,5) obtain gp'
    where p: "put gp a now isOpen = Some (gp', None)" "pool_inv (gp', T, ro)"
      "pending (pay (gp_wheap gp')) w = Some (RecvConn (Some a))" by blast
  then have re: "pool_reachable (gp', T, ro)"
    using pool_reachable.step [OF assms(1) pool_step.put [OF p(1)]] by simp
  have "InWait w \<in># T" using inv0_parts(3) [OF ws(1)] \<open>ws = w # ws'\<close> by (auto simp: wait_ok_def)
  moreover have "a \<in> set (owns (pay (gp_wheap gp')) (InWait w))" using p(3) by simp
  ultimately have "conn_st (gp_conns gp') a = Some poolConnBorrowed"
    using p(2) by (force simp: inv0_def own_ok_def elim!: pool_invE)
  with p(1,3) re show ?thesis by blast
qed

theorem put_serves_oldest_waiter_witness:
  "\<exists>gp gp'. put gp 0 6 True = Some (gp', None) \<and> pending (pay (gp_wheap gp')) 1 = Some (RecvConn (Some 0))"
proof -
  have "run1_sat [DoGet 5 True, DoGet 5 True, DoCloseCas 0]
      (\<lambda>(gp, L, ro). Returning 0 \<in> set L \<and> \<not> gp_closed gp \<and> wq_head (gp_waiters gp) = Some 1 \<and>
        (case gp_conns gp 0 of None \<Rightarrow> False | Some c \<Rightarrow> connectionReusableForHandoff gp c 6 True))" by code_simp
  then obtain gp L ro where r: "pool_reachable (gp, mset L, ro)" "Returning 0 \<in> set L" "\<not> gp_closed gp"
      "wq_head (gp_waiters gp) = Some 1"
      "case gp_conns gp 0 of None \<Rightarrow> False | Some c \<Rightarrow> connectionReusableForHandoff gp c 6 True"
    by (rule run1_satE) auto
  from r(5) obtain c where c: "gp_conns gp 0 = Some c" "connectionReusableForHandoff gp c 6 True"
    by (auto split: option.splits)
  have "pool_reachable (gp, add_mset (Returning 0) (mset L - {#Returning 0#}), ro)" using r(1,2) by simp
  from put_serves_oldest_waiter [OF this r(3,4) c] show ?thesis by blast
qed

end
