(* ===== verification/GpoolCall.thy ===== *)
theory GpoolCall
  imports Gpool_Safety
begin

text \<open>
  RPC calls through the pool (\<^verbatim>\<open>gpool/gpool.go\<close> from \<^verbatim>\<open>ThriftCall\<close> on).  The methods of one goroutine
  are composed from the critical sections of \<open>Gpool\<close>; the answers of the environment (clock, factory,
  connection, RPC) are the fields of \<open>call_env\<close>.  The composition is placed in any reachable state of
  the pool, so the lemmas say what a whole call does to the pool, whatever its other users hold.
\<close>

section \<open>The methods of one goroutine\<close>

record call_env =
  ce_now :: int                     \<comment> \<open>the clock when the pool is entered\<close>
  ce_isOpen :: bool                 \<comment> \<open>\<^verbatim>\<open>IsOpen\<close> of the idle connection\<close>
  ce_reopenErr :: "error option"    \<comment> \<open>\<^verbatim>\<open>Close\<close> of an unusable idle connection\<close>
  ce_create :: create_result        \<comment> \<open>the connection factory\<close>
  ce_abandonErr :: "error option"   \<comment> \<open>\<^verbatim>\<open>Close\<close> of a connection created for a closed pool\<close>
  ce_cancel :: bool                 \<comment> \<open>the select takes the timer or the context\<close>
  ce_cancelErr :: error             \<comment> \<open>\<^verbatim>\<open>ctx.Err()\<close> or \<^verbatim>\<open>ErrPoolWaitTimeout\<close>\<close>
  ce_rpcName :: string              \<comment> \<open>what the RPC callback returns\<close>
  ce_rpcErr :: "error option"
  ce_putNow :: int                  \<comment> \<open>the clock when the connection is returned\<close>
  ce_putOpen :: bool                \<comment> \<open>\<^verbatim>\<open>IsOpen\<close> of the returned connection\<close>
  ce_closeErr :: "error option"     \<comment> \<open>\<^verbatim>\<open>Close\<close> of the connection that has to go\<close>
  ce_ctxErr :: "error option"       \<comment> \<open>\<^verbatim>\<open>ctx.Err()\<close> after the attempt\<close>

text \<open>The rest of a creation: an abandoned connection is closed and the caller gets \<^verbatim>\<open>ErrPoolClosed\<close>.\<close>

fun finish_create :: "call_env \<Rightarrow> gpool \<times> outcome \<Rightarrow> (gpool \<times> (error + addr)) go" where
  "finish_create env (gp, Failed e) = Some (gp, Inl e)"
| "finish_create env (gp, Got a) = Some (gp, Inr a)"
| "finish_create env (gp, MustAbandon a) = do {
     gp \<leftarrow> closeConnectionLocked_end gp a (ce_abandonErr env);
     Some (gp, Inl [ErrPoolClosed])
   }"
| "finish_create env (gp, _) = None"

definition getConnFromNewForUse :: "call_env \<Rightarrow> gpool \<Rightarrow> (gpool \<times> (error + addr)) go" where
  "getConnFromNewForUse env gp =
     Option.bind (getConnFromNewForUse_end gp (ce_create env)) (finish_create env)"

fun handleWaitResult :: "call_env \<Rightarrow> gpool \<Rightarrow> received \<Rightarrow> (gpool \<times> (error + addr)) go" where
  "handleWaitResult env gp (RecvErr e) = Some (gp, Inl e)"
| "handleWaitResult env gp (RecvConn pc) = (case pc of None \<Rightarrow> None | Some a \<Rightarrow> Some (gp, Inr a))"
| "handleWaitResult env gp RecvCreate = do {
     (gp, out) \<leftarrow> handleWaitResult_check gp;
     (if out = MustCreate
      then Option.bind (handleWaitResult_end gp (ce_create env)) (finish_create env)
      else finish_create env (gp, out))
   }"

text \<open>The select of \<^verbatim>\<open>waitForConnectionLocked\<close>: a result that is there may still lose against the timer.\<close>

definition waitForConnection :: "call_env \<Rightarrow> gpool \<Rightarrow> addr \<Rightarrow> (gpool \<times> (error + addr)) go" where
  "waitForConnection env gp w =
     (case (if ce_cancel env then None else receiveResult gp w) of
        Some (gp, r) \<Rightarrow> handleWaitResult env gp (handleWaitResult_recv r)
      | None \<Rightarrow> do {
          (gp, x) \<leftarrow> cancelWaiter gp w (ce_cancelErr env);
          (case x of Inl e \<Rightarrow> Some (gp, Inl e) | Inr r \<Rightarrow> handleWaitResult env gp (handleWaitResult_recv r))
        })"

definition Get :: "call_env \<Rightarrow> gpool \<Rightarrow> (gpool \<times> (error + addr)) go" where
  "Get env gp = do {
     (gp, out) \<leftarrow> Get_enter gp (ce_now env) (ce_isOpen env);
     (case out of
        MustReopen a \<Rightarrow> do {
          gp \<leftarrow> closeConnectionLocked_end gp a (ce_reopenErr env);
          getConnFromNewForUse env (getConnFromNewForUse_begin gp)
        }
      | MustCreate \<Rightarrow> getConnFromNewForUse env gp
      | MustWait w \<Rightarrow> waitForConnection env gp w
      | _ \<Rightarrow> finish_create env (gp, out))
   }"

definition PoolConn_Close :: "call_env \<Rightarrow> gpool \<Rightarrow> addr \<Rightarrow> gpool go" where
  "PoolConn_Close env gp pc = do {
     (gp, ok) \<leftarrow> PoolConn_Close_cas gp pc;
     (if \<not> ok then Some gp
      else do {
        (gp, closeConn) \<leftarrow> put gp pc (ce_putNow env) (ce_putOpen env);
        (case closeConn of None \<Rightarrow> Some gp | Some c \<Rightarrow> closeConnectionLocked_end gp c (ce_closeErr env))
      })
   }"

definition PoolConn_Discard :: "call_env \<Rightarrow> gpool \<Rightarrow> addr \<Rightarrow> gpool go" where
  "PoolConn_Discard env gp pc = do {
     (gp, ok) \<leftarrow> PoolConn_Close_cas gp pc;
     (if \<not> ok then Some gp
      else do {
        gp \<leftarrow> PoolConn_Discard_locked gp pc;
        closeConnectionLocked_end gp pc (ce_closeErr env)
      })
   }"

section \<open>Calls with retry\<close>

definition isDisconnectedError :: "error \<Rightarrow> bool" where
  "isDisconnectedError err =
     (case errors_As as_TTransportException err of
        None \<Rightarrow> False
      | Some t \<Rightarrow>
          (case t of
             NOT_OPEN \<Rightarrow> True
           | END_OF_FILE \<Rightarrow> True
           | UNKNOWN_TRANSPORT_EXCEPTION \<Rightarrow>
               errors_Is err IoEOF \<or> errors_Is err IoErrUnexpectedEOF \<or> errors_Is err NetErrClosed \<or>
               errors_Is err ECONNRESET \<or> errors_Is err EPIPE
           | _ \<Rightarrow> False))"

definition mustDiscard :: "error \<Rightarrow> bool" where
  "mustDiscard err \<longleftrightarrow>
     errors_As as_TTransportException err \<noteq> None \<or> errors_As as_TProtocolException err \<noteq> None"

definition thriftCall2Once :: "call_env \<Rightarrow> gpool \<Rightarrow> (gpool \<times> string \<times> error option) go" where
  "thriftCall2Once env gp = do {
     (gp, r) \<leftarrow> Get env gp;
     (case r of
        Inl e \<Rightarrow> Some (gp, '''', Some e)
      | Inr pc \<Rightarrow>
          (case ce_rpcErr env of
             None \<Rightarrow> do { gp \<leftarrow> PoolConn_Close env gp pc; Some (gp, ce_rpcName env, None) }
           | Some e \<Rightarrow>
               (if mustDiscard e
                then do { gp \<leftarrow> PoolConn_Discard env gp pc; Some (gp, ce_rpcName env, Some e) }
                else do { gp \<leftarrow> PoolConn_Close env gp pc; Some (gp, ce_rpcName env, Some e) })))
   }"

text \<open>
  The retry loop; \<open>envs i\<close> is what the environment answers during attempt \<open>i\<close>.  The result also has
  the number of attempts made.
\<close>

function thriftCall2Loop ::
  "(nat \<Rightarrow> call_env) \<Rightarrow> int \<Rightarrow> nat \<Rightarrow> string \<Rightarrow> gpool \<Rightarrow> (gpool \<times> nat \<times> string \<times> error option) go" where
  "thriftCall2Loop envs maxRetries attempt rpcName gp =
     (case thriftCall2Once (envs attempt) gp of
        None \<Rightarrow> None
      | Some (gp', attemptName, err) \<Rightarrow>
          let rpcName = (if attemptName \<noteq> '''' then attemptName else rpcName) in
          (case err of
             None \<Rightarrow> Some (gp', Suc attempt, rpcName, None)
           | Some e \<Rightarrow>
               if int attempt \<ge> maxRetries \<or> \<not> isDisconnectedError e
               then Some (gp', Suc attempt, rpcName, Some e)
               else (case ce_ctxErr (envs attempt) of
                       Some ctxErr \<Rightarrow> Some (gp', Suc attempt, rpcName, Some ctxErr)
                     | None \<Rightarrow> thriftCall2Loop envs maxRetries (Suc attempt) rpcName gp')))"
  by pat_completeness auto
termination
  by (relation "measure (\<lambda>(_, maxRetries, attempt, _, _). nat (maxRetries - int attempt))") auto

declare thriftCall2Loop.simps [simp del]

definition thriftCall2WithRetry :: "(nat \<Rightarrow> call_env) \<Rightarrow> gpool \<Rightarrow> (gpool \<times> nat \<times> string \<times> error option) go" where
  "thriftCall2WithRetry envs gp =
     (let maxRetries = gp_RPCMaxRetries gp;
          maxRetries = (if maxRetries < 0 then 0 else maxRetries) in
      thriftCall2Loop envs maxRetries 0 '''' gp)"

definition ThriftCall2 :: "(nat \<Rightarrow> call_env) \<Rightarrow> gpool \<Rightarrow> (gpool \<times> error option) go" where
  "ThriftCall2 envs gp = do {
     (gp, attempts, rpcName, rpcErr) \<leftarrow> thriftCall2WithRetry envs gp;
     Some (gp, rpcErr)
   }"

section \<open>Reflective calls\<close>

text \<open>
  The values a reflected method returns, as \<^verbatim>\<open>interface{}\<close>.  A type assertion to \<^verbatim>\<open>error\<close> panics on any other
  value; an index beyond the slice panics.
\<close>

datatype ret = RNil | RErr error | RVal nat

fun assert_error :: "ret \<Rightarrow> error go" where
  "assert_error (RErr e) = Some e"
| "assert_error _ = None"

definition call_error :: "ret list \<Rightarrow> error option go" where
  "call_error rets =
     (if length rets = 1 \<and> rets ! 0 \<noteq> RNil then map_option Some (assert_error (rets ! 0))
      else if length rets \<le> 1 then None
      else if rets ! 1 \<noteq> RNil then map_option Some (assert_error (rets ! 1))
      else Some None)"

definition call_value :: "ret list \<Rightarrow> ret" where
  "call_value rets = (if length rets = 1 then RNil else rets ! 0)"

text \<open>
  \<^verbatim>\<open>ThriftCall\<close>: \<open>numIn\<close> is the arity of the method if the client has it, \<open>rets\<close> what it returns.  The
  deferred \<^verbatim>\<open>Close\<close> runs on every return.
\<close>

definition ThriftCall ::
  "call_env \<Rightarrow> int option \<Rightarrow> int \<Rightarrow> ret list \<Rightarrow> gpool \<Rightarrow> (gpool \<times> ret \<times> error option) go" where
  "ThriftCall env numIn nargs rets gp = do {
     (gp, r) \<leftarrow> Get env gp;
     (case r of
        Inl e \<Rightarrow> Some (gp, RNil, Some e)
      | Inr pc \<Rightarrow>
          (if numIn = None
           then do { gp \<leftarrow> PoolConn_Close env gp pc; Some (gp, RNil, Some [ErrorText ''method not found'']) }
           else if the numIn \<noteq> nargs + 1
           then do { gp \<leftarrow> PoolConn_Close env gp pc; Some (gp, RNil, Some [ErrorText ''arguments number not match'']) }
           else do {
             rpc_err \<leftarrow> call_error rets;
             gp \<leftarrow> (case rpc_err of
                      Some e \<Rightarrow> if mustDiscard e then PoolConn_Discard env gp pc else Some gp
                    | None \<Rightarrow> Some gp);
             gp \<leftarrow> PoolConn_Close env gp pc;
             Some (gp, call_value rets, rpc_err)
           }))
   }"

section \<open>A call in a reachable pool\<close>

lemma reachable_total:
  assumes "pool_reachable (gp, add_mset t T, ro)" shows "section_total gp t"
  using pool_reachable_inv [OF assms] thread_section_total by (auto elim!: pool_invE)

lemmas reach_step = pool_reachable.step

lemma inclose_reach:
  assumes "pool_reachable (gp, add_mset (InClose a) T, ro)"
  obtains gp' where "closeConnectionLocked_end gp a err = Some gp'" "pool_reachable (gp', T, ro)"
  using reachable_total [OF assms] reach_step [OF assms pool_step.closed] by (simp, metis not_None_eq)

lemma inabandon_reach:
  assumes "pool_reachable (gp, add_mset (InAbandon a) T, ro)"
  obtains gp' where "closeConnectionLocked_end gp a err = Some gp'" "pool_reachable (gp', T, ro)"
  using reachable_total [OF assms] reach_step [OF assms pool_step.abandoned] by (simp, metis not_None_eq)

lemma inreopen_reach:
  assumes "pool_reachable (gp, add_mset (InReopen a) T, ro)"
  obtains gp' where "closeConnectionLocked_end gp a err = Some gp'"
    "pool_reachable (getConnFromNewForUse_begin gp', add_mset InCreate T, ro)"
  using reachable_total [OF assms] reach_step [OF assms pool_step.reopen] by (simp, metis not_None_eq)

text \<open>What the caller owns after a \<^verbatim>\<open>Get\<close> that returned \<open>r\<close>.\<close>

fun after_result :: "error + addr \<Rightarrow> thread multiset \<Rightarrow> thread multiset" where
  "after_result (Inl e) T = T"
| "after_result (Inr a) T = add_mset (Holding a) T"

definition get_ok :: "(gpool \<times> (error + addr)) go \<Rightarrow> thread multiset \<Rightarrow> bool" where
  "get_ok x T \<longleftrightarrow> (\<exists>gp r ro. x = Some (gp, r) \<and> pool_reachable (gp, after_result r T, ro))"

fun final_outcome :: "outcome \<Rightarrow> bool" where
  "final_outcome (Failed e) = True"
| "final_outcome (Got a) = True"
| "final_outcome (MustAbandon a) = True"
| "final_outcome _ = False"

lemma finish_create_ok:
  assumes "pool_reachable (gp, after_get out + T, ro)" "final_outcome out"
  shows "get_ok (finish_create env (gp, out)) T"
proof (cases out)
  case (MustAbandon a)
  with assms have "pool_reachable (gp, add_mset (InAbandon a) T, ro)" by simp
  then obtain gp' where "closeConnectionLocked_end gp a (ce_abandonErr env) = Some gp'" "pool_reachable (gp', T, ro)"
    by (rule inabandon_reach)
  then show ?thesis using MustAbandon by (auto simp: get_ok_def)
qed (use assms in \<open>auto simp: get_ok_def\<close>)

lemma create_final:
  "getConnFromNewForUse_end gp res = Some (gp', out) \<Longrightarrow> final_outcome out"
  by (auto simp: getConnFromNewForUse_end_def Let_def Option.bind_eq_Some_conv
      split: prod.splits if_splits option.splits)

lemma create_reach:
  assumes "pool_reachable (gp, add_mset InCreate T, ro)"
  shows "get_ok (getConnFromNewForUse env gp) T"
proof -
  obtain gp' out where e: "getConnFromNewForUse_end gp (ce_create env) = Some (gp', out)"
    using reachable_total [OF assms] by (metis section_total.simps(2) not_None_eq surj_pair)
  with finish_create_ok [OF reach_step [OF assms pool_step.create [OF e]] create_final [OF e]]
  show ?thesis by (simp add: getConnFromNewForUse_def)
qed

lemma granted_reach:
  assumes "pool_reachable (gp, add_mset InCreateGranted T, ro)"
  shows "get_ok (Option.bind (handleWaitResult_end gp (ce_create env)) (finish_create env)) T"
proof -
  obtain gp' out where e: "handleWaitResult_end gp (ce_create env) = Some (gp', out)"
    using reachable_total [OF assms] by (metis section_total.simps(5) not_None_eq surj_pair)
  then have "final_outcome out" using create_final by (simp add: handleWaitResult_end_eq)
  with finish_create_ok [OF reach_step [OF assms pool_step.granted [OF e]]] e show ?thesis by simp
qed

lemma handleWaitResult_reach:
  assumes "pool_reachable (gp, after_recv (handleWaitResult_recv r) + T, ro)" "good_result r"
  shows "get_ok (handleWaitResult env gp (handleWaitResult_recv r)) T"
  using assms(2)
proof (cases rule: good_result_cases)
  case 1
  then have R: "pool_reachable (gp, add_mset InCreateWait T, ro)" using assms(1) by simp
  then obtain gp' out where e: "handleWaitResult_check gp = Some (gp', out)"
    using reachable_total [OF R] by (metis section_total.simps(4) not_None_eq surj_pair)
  have R': "pool_reachable (gp', after_check out + T, ro)" by (rule reach_step [OF R pool_step.check [OF e]])
  show ?thesis
  proof (cases "out = MustCreate")
    case True
    with R' granted_reach 1 e show ?thesis by simp
  next
    case False
    with e obtain x where "out = Failed x"
      by (auto simp: handleWaitResult_check_def Option.bind_eq_Some_conv split: if_splits)
    with R' 1 e show ?thesis by (auto simp: get_ok_def)
  qed
qed (use assms(1) in \<open>auto simp: get_ok_def\<close>)

lemma waitForConnection_reach:
  assumes R: "pool_reachable (gp, add_mset (InWait w) T, ro)"
  shows "get_ok (waitForConnection env gp w) T"
proof -
  obtain ws where ws: "inv0 gp ws (add_mset (InWait w) T) ro" "settled gp ws"
    using pool_reachable_inv [OF R] by (rule pool_invE)
  have cancel: "get_ok (Option.bind (cancelWaiter gp w e) (\<lambda>(gp, x). case x of Inl e \<Rightarrow> Some (gp, Inl e)
      | Inr r \<Rightarrow> handleWaitResult env gp (handleWaitResult_recv r))) T" for e
  proof (cases "w \<in> set ws")
    case True
    with cancelWaiter_queued_ok [OF ws(1), of e] obtain gp' where c: "cancelWaiter gp w e = Some (gp', Inl e)" by blast
    with reach_step [OF R pool_step.cancel [OF c]] show ?thesis by (auto simp: get_ok_def)
  next
    case False
    with cancelWaiter_lost_ok [OF ws, of e] obtain gp' r where c: "cancelWaiter gp w e = Some (gp', Inr r)" "good_result r"
      by blast
    with handleWaitResult_reach [OF reach_step [OF R pool_step.cancel_lost [OF c(1)]]] show ?thesis by simp
  qed
  show ?thesis
  proof (cases "ce_cancel env \<or> w \<in> set ws")
    case True
    then show ?thesis using cancel receiveResult_blocks [OF ws(1)] by (auto simp: waitForConnection_def)
  next
    case False
    then obtain gp' r where c: "receiveResult gp w = Some (gp', r)" "good_result r"
      using receiveResult_ok [OF ws] by blast
    with False handleWaitResult_reach [OF reach_step [OF R pool_step.recv [OF c(1)]]]
    show ?thesis by (simp add: waitForConnection_def)
  qed
qed

lemma Get_reach:
  assumes R: "pool_reachable (gp, T, ro)"
  shows "get_ok (Get env gp) T"
proof -
  obtain ws where ws: "inv0 gp ws T ro" "settled gp ws" using pool_reachable_inv [OF R] by (rule pool_invE)
  obtain gp' out where e: "Get_enter gp (ce_now env) (ce_isOpen env) = Some (gp', out)"
    using Get_enter_ok [OF ws] by blast
  have R': "pool_reachable (gp', after_get out + T, ro \<or> is_reopen out)"
    by (rule reach_step [OF R pool_step.get [OF e]])
  show ?thesis
  proof (cases out)
    case (MustReopen a)
    then have "pool_reachable (gp', add_mset (InReopen a) T, True)" using R' by simp
    from inreopen_reach [OF this, of "ce_reopenErr env"] obtain gp''
      where "closeConnectionLocked_end gp' a (ce_reopenErr env) = Some gp''"
        "pool_reachable (getConnFromNewForUse_begin gp'', add_mset InCreate T, True)" by blast
    with create_reach e MustReopen show ?thesis by (simp add: Get_def)
  next
    case MustCreate
    with R' create_reach e show ?thesis by (simp add: Get_def)
  next
    case (MustWait w)
    with R' waitForConnection_reach e show ?thesis by (simp add: Get_def)
  qed (use finish_create_ok [OF R'] e in \<open>auto simp: Get_def\<close>)
qed

text \<open>Returning and discarding end the lease.\<close>

lemma dispatch_conns:
  "dispatchCapacityWaitersLocked gp = Some gp' \<Longrightarrow> gp_conns gp' = gp_conns gp"
proof (induction gp rule: dispatchCapacityWaitersLocked.induct)
  case (1 gp)
  have one: "dispatchOne gp = Some g \<Longrightarrow> gp_conns g = gp_conns gp" for g
    by (auto simp: dispatchOne_def popWaiter_def deliverWaiterLocked_def Option.bind_eq_Some_conv split: if_splits)
  show ?case
  proof (cases "\<not> gp_closed gp \<and> waiterQueue_Len (gp_waiters gp) > 0 \<and> capacityUsedLocked gp < gp_MaxConns gp")
    case True
    with "1.prems" obtain g where g: "dispatchOne gp = Some g" "dispatchCapacityWaitersLocked g = Some gp'"
      by (subst (asm) dispatchCapacityWaitersLocked.simps) (auto split: option.splits)
    from "1.IH" [OF True g] one [OF g(1)] show ?thesis by simp
  next
    case False
    with "1.prems" show ?thesis by (subst (asm) dispatchCapacityWaitersLocked.simps) (simp split: if_splits)
  qed
qed

lemma finish_conns: "finishCloseLocked gp = Some gp' \<Longrightarrow> gp_conns gp' = gp_conns gp"
  by (auto simp: finishCloseLocked_def split: if_splits option.splits bool.splits)

lemma closeConnectionLocked_end_state:
  "closeConnectionLocked_end gp a err = Some gp' \<Longrightarrow> conn_st (gp_conns gp') a = Some poolConnClosed"
  by (auto simp: closeConnectionLocked_end_def setState_def Option.bind_eq_Some_conv Let_def conn_st_def
      split: if_splits dest!: dispatch_conns finish_conns)

lemma PoolConn_Close_reach:
  assumes R: "pool_reachable (gp, add_mset (Holding a) T, ro)"
  obtains gp' where "PoolConn_Close env gp a = Some gp'" "pool_reachable (gp', T, ro)"
proof -
  obtain gp1 where cas: "PoolConn_Close_cas gp a = Some (gp1, True)" using reachable_total [OF R] by auto
  have R1: "pool_reachable (gp1, add_mset (Returning a) T, ro)" by (rule reach_step [OF R pool_step.close_cas [OF cas]])
  obtain gp2 c where p: "put gp1 a (ce_putNow env) (ce_putOpen env) = Some (gp2, c)"
    using reachable_total [OF R1] by (metis section_total.simps(8) not_None_eq surj_pair)
  have R2: "pool_reachable (gp2, after_put c + T, ro)" by (rule reach_step [OF R1 pool_step.put [OF p]])
  show thesis
  proof (cases c)
    case None
    with that R2 cas p show thesis by (simp add: PoolConn_Close_def)
  next
    case (Some b)
    then have "pool_reachable (gp2, add_mset (InClose b) T, ro)" using R2 by simp
    then obtain gp3 where "closeConnectionLocked_end gp2 b (ce_closeErr env) = Some gp3" "pool_reachable (gp3, T, ro)"
      by (rule inclose_reach)
    with that cas p Some show thesis by (simp add: PoolConn_Close_def)
  qed
qed

lemma PoolConn_Discard_reach:
  assumes R: "pool_reachable (gp, add_mset (Holding a) T, ro)"
  obtains gp' where "PoolConn_Discard env gp a = Some gp'" "pool_reachable (gp', T, ro)"
    "conn_st (gp_conns gp') a = Some poolConnClosed"
proof -
  obtain gp1 where cas: "PoolConn_Close_cas gp a = Some (gp1, True)" using reachable_total [OF R] by auto
  have R1: "pool_reachable (gp1, add_mset (Discarding a) T, ro)" by (rule reach_step [OF R pool_step.discard_cas [OF cas]])
  obtain gp2 where p: "PoolConn_Discard_locked gp1 a = Some gp2" using reachable_total [OF R1] by auto
  have R2: "pool_reachable (gp2, add_mset (InClose a) T, ro)" by (rule reach_step [OF R1 pool_step.discard [OF p]])
  then obtain gp3 where c: "closeConnectionLocked_end gp2 a (ce_closeErr env) = Some gp3" "pool_reachable (gp3, T, ro)"
    by (rule inclose_reach)
  have "conn_st (gp_conns gp3) a = Some poolConnClosed"
    using closeConnectionLocked_end_state [OF c(1)] .
  with that cas p c show thesis by (simp add: PoolConn_Discard_def)
qed

section \<open>Properties of calls\<close>

lemma thriftCall2Once_reach:
  assumes R: "pool_reachable (gp, T, ro)"
  obtains gp' name err ro' where "thriftCall2Once env gp = Some (gp', name, err)" "pool_reachable (gp', T, ro')"
proof -
  obtain gp1 r ro1 where g: "Get env gp = Some (gp1, r)" "pool_reachable (gp1, after_result r T, ro1)"
    using Get_reach [OF R, of env] by (auto simp: get_ok_def)
  show thesis
  proof (cases r)
    case (Inl e)
    with that g show thesis by (simp add: thriftCall2Once_def)
  next
    case (Inr a)
    then have H: "pool_reachable (gp1, add_mset (Holding a) T, ro1)" using g by simp
    obtain gp2 where c: "PoolConn_Close env gp1 a = Some gp2" "pool_reachable (gp2, T, ro1)"
      by (rule PoolConn_Close_reach [OF H])
    obtain gp3 where d: "PoolConn_Discard env gp1 a = Some gp3" "pool_reachable (gp3, T, ro1)"
      by (rule PoolConn_Discard_reach [OF H])
    show thesis
    proof (cases "ce_rpcErr env")
      case None
      with that c g Inr show thesis by (simp add: thriftCall2Once_def)
    next
      case (Some e)
      with that c d g Inr show thesis by (cases "mustDiscard e") (simp_all add: thriftCall2Once_def)
    qed
  qed
qed

lemma thriftCall2Loop_reach:
  assumes "pool_reachable (gp, T, ro)" "int n \<le> m"
  shows "\<exists>gp' k name err ro'. thriftCall2Loop envs m n nm gp = Some (gp', k, name, err) \<and>
    pool_reachable (gp', T, ro') \<and> n < k \<and> int k \<le> m + 1"
  using assms
proof (induction "nat (m - int n)" arbitrary: n nm gp ro)
  case (0 n nm gp ro)
  obtain gp' name err ro' where o: "thriftCall2Once (envs n) gp = Some (gp', name, err)" "pool_reachable (gp', T, ro')"
    by (rule thriftCall2Once_reach [OF "0.prems"(1)])
  then have "\<exists>nm' err'. thriftCall2Loop envs m n nm gp = Some (gp', Suc n, nm', err')"
    using "0.hyps" by (subst thriftCall2Loop.simps) (auto split: option.splits)
  with o "0.prems" show ?case by auto
next
  case (Suc d n nm gp ro)
  obtain gp' name err ro' where o: "thriftCall2Once (envs n) gp = Some (gp', name, err)" "pool_reachable (gp', T, ro')"
    by (rule thriftCall2Once_reach [OF Suc.prems(1)])
  define nm' where "nm' = (if name \<noteq> '''' then name else nm)"
  have IH: "\<exists>gp'' k name err ro'. thriftCall2Loop envs m (Suc n) nm' gp' = Some (gp'', k, name, err) \<and>
      pool_reachable (gp'', T, ro') \<and> Suc n < k \<and> int k \<le> m + 1"
    by (rule Suc.hyps(1) [OF _ o(2)]) (use Suc.hyps(2) in linarith)+
  have "(\<exists>err'. thriftCall2Loop envs m n nm gp = Some (gp', Suc n, nm', err')) \<or>
      thriftCall2Loop envs m n nm gp = thriftCall2Loop envs m (Suc n) nm' gp'"
    using o by (subst (1 2) thriftCall2Loop.simps) (auto simp: nm'_def split: option.splits)
  then show ?case
  proof
    assume "\<exists>err'. thriftCall2Loop envs m n nm gp = Some (gp', Suc n, nm', err')"
    with o Suc.prems show ?thesis by auto
  next
    assume "thriftCall2Loop envs m n nm gp = thriftCall2Loop envs m (Suc n) nm' gp'"
    with IH show ?thesis by (auto intro: Suc_lessD)
  qed
qed

text \<open>The pool before attempt \<open>i\<close>.\<close>

fun pool_before :: "(nat \<Rightarrow> call_env) \<Rightarrow> gpool \<Rightarrow> nat \<Rightarrow> gpool go" where
  "pool_before envs gp 0 = Some gp"
| "pool_before envs gp (Suc i) = do {
     gp \<leftarrow> pool_before envs gp i;
     (gp, _, _) \<leftarrow> thriftCall2Once (envs i) gp;
     Some gp
   }"

lemma thriftCall2Loop_trace:
  assumes "thriftCall2Loop envs m n nm g = Some (gp', k, name, err)" "pool_before envs gp n = Some g"
  shows "n < k \<and> (\<forall>i. n \<le> i \<and> Suc i < k \<longrightarrow>
    (\<exists>g g' nm e. pool_before envs gp i = Some g \<and> thriftCall2Once (envs i) g = Some (g', nm, Some e) \<and>
       isDisconnectedError e \<and> ce_ctxErr (envs i) = None))"
  using assms
proof (induction envs m n nm g rule: thriftCall2Loop.induct)
  case (1 envs m n nm g)
  obtain g1 name1 err1 where o: "thriftCall2Once (envs n) g = Some (g1, name1, err1)"
    using "1.prems"(1) by (subst (asm) thriftCall2Loop.simps) (auto split: option.splits)
  define nm' where "nm' = (if name1 \<noteq> '''' then name1 else nm)"
  have before: "pool_before envs gp (Suc n) = Some g1" using "1.prems"(2) o by simp
  show ?case
  proof (cases "\<exists>e. err1 = Some e \<and> int n < m \<and> isDisconnectedError e \<and> ce_ctxErr (envs n) = None")
    case True
    then obtain e where e: "err1 = Some e" "int n < m" "isDisconnectedError e" "ce_ctxErr (envs n) = None" by blast
    then have "thriftCall2Loop envs m (Suc n) nm' g1 = Some (gp', k, name, err)"
      using o "1.prems"(1) by (subst (asm) thriftCall2Loop.simps) (simp add: nm'_def)
    with "1.IH" [OF o refl refl nm'_def e(1) _ e(4) _ before] e
    have IH: "Suc n < k" "\<And>i. Suc n \<le> i \<and> Suc i < k \<longrightarrow>
      (\<exists>g g' nm e. pool_before envs gp i = Some g \<and> thriftCall2Once (envs i) g = Some (g', nm, Some e) \<and>
       isDisconnectedError e \<and> ce_ctxErr (envs i) = None)" by simp_all
    have "\<exists>g g' nm e. pool_before envs gp i = Some g \<and> thriftCall2Once (envs i) g = Some (g', nm, Some e) \<and>
       isDisconnectedError e \<and> ce_ctxErr (envs i) = None" if "n \<le> i" "Suc i < k" for i
      using that IH(2) [of i] "1.prems"(2) o e by (cases "i = n") auto
    with IH(1) show ?thesis by auto
  next
    case False
    then have "k = Suc n"
      using "1.prems"(1) o by (subst (asm) thriftCall2Loop.simps) (auto split: option.splits if_splits)
    then show ?thesis by auto
  qed
qed

text \<open>A pool of one connection whose calls are retried at most twice.\<close>

definition conf2 :: gPoolConfig where
  "conf2 = conf1\<lparr>cf_RPCMaxRetries := 2\<rparr>"

definition env_ok :: call_env where
  "env_ok = \<lparr>ce_now = 5, ce_isOpen = True, ce_reopenErr = None, ce_create = Inr (5, 8), ce_abandonErr = None,
     ce_cancel = True, ce_cancelErr = [ErrPoolWaitTimeout], ce_rpcName = ''Add'', ce_rpcErr = None, ce_putNow = 6,
     ce_putOpen = True, ce_closeErr = None, ce_ctxErr = None\<rparr>"

definition env_broken :: call_env where
  "env_broken = env_ok\<lparr>ce_rpcErr := Some [TTransportException END_OF_FILE, IoEOF]\<rparr>"

definition pool2 :: "gpool go" where
  "pool2 = GpoolInit2 zeroGpool 5 conf2 (\<lambda>_. Inr (0, 7)) (\<lambda>_. 0)"

lemma pool2_reachable:
  obtains gp where "pool2 = Some gp" "pool_reachable (gp, {#}, False)"
  using GpoolInit2_ok [of 5 conf2 "\<lambda>_. Inr (0, 7)" "\<lambda>_. 0"] pool_reachable.init
  unfolding pool2_def by blast

text \<open>
  C10: An RPC with retries always returns, makes at most \<^verbatim>\<open>RPCMaxRetries\<close> + 1 attempts, and whatever the
  environment answers, leaves the pool in a reachable state in which the other goroutines hold exactly
  what they held before: no attempt leaks a lease, a slot or a waiter.
\<close>

theorem thriftCall2_no_leak:
  assumes "pool_reachable (gp, T, ro)"
  shows "\<exists>gp' k name err ro'. thriftCall2WithRetry envs gp = Some (gp', k, name, err) \<and>
    pool_reachable (gp', T, ro') \<and> 1 \<le> k \<and> int k \<le> max 0 (gp_RPCMaxRetries gp) + 1"
proof -
  have "int 0 \<le> (if gp_RPCMaxRetries gp < 0 then 0 else gp_RPCMaxRetries gp)" by simp
  from thriftCall2Loop_reach [OF assms this, of envs "''''"] show ?thesis
    unfolding thriftCall2WithRetry_def Let_def by (fastforce split: if_splits)
qed

theorem thriftCall2_no_leak_witness:
  "\<exists>gp gp' k name err. pool2 = Some gp \<and> thriftCall2WithRetry (\<lambda>i. if i = 0 then env_broken else env_ok) gp = Some (gp', k, name, err) \<and>
     1 \<le> k \<and> int k \<le> max 0 (gp_RPCMaxRetries gp) + 1"
proof -
  obtain gp where gp: "pool2 = Some gp" "pool_reachable (gp, {#}, False)" by (rule pool2_reachable)
  from thriftCall2_no_leak [OF gp(2), of "\<lambda>i. if i = 0 then env_broken else env_ok"] gp(1) show ?thesis by blast
qed

text \<open>
  C14: A request is only replayed after a disconnection.  Every attempt but the last ended with an error
  that \<^verbatim>\<open>isDisconnectedError\<close> accepts while the context was still alive; such an error is a transport
  exception, never a time-out, and the connection it came from was discarded.
\<close>

theorem thriftCall2_replays_only_disconnected:
  assumes "thriftCall2WithRetry envs gp = Some (gp', k, name, err)" "Suc i < k"
  shows "\<exists>g g' nm e. pool_before envs gp i = Some g \<and> thriftCall2Once (envs i) g = Some (g', nm, Some e) \<and>
    isDisconnectedError e \<and> ce_ctxErr (envs i) = None \<and> mustDiscard e \<and>
    errors_As as_TTransportException e \<noteq> Some TIMED_OUT"
proof -
  obtain g g' nm e where e: "pool_before envs gp i = Some g" "thriftCall2Once (envs i) g = Some (g', nm, Some e)"
      "isDisconnectedError e" "ce_ctxErr (envs i) = None"
    using thriftCall2Loop_trace [where gp = gp and g = gp and n = 0] assms
    unfolding thriftCall2WithRetry_def Let_def by (metis le0 pool_before.simps(1))
  then have "mustDiscard e" "errors_As as_TTransportException e \<noteq> Some TIMED_OUT"
    by (auto simp: isDisconnectedError_def mustDiscard_def split: option.splits)
  with e show ?thesis by blast
qed

theorem thriftCall2_replays_only_disconnected_witness:
  "\<exists>gp gp' g nm e. pool2 = Some gp \<and> thriftCall2WithRetry (\<lambda>i. if i = 0 then env_broken else env_ok) gp = Some (gp', 2, ''Add'', None) \<and>
     thriftCall2Once env_broken gp = Some (g, nm, Some e) \<and> isDisconnectedError e"
proof -
  obtain gp where gp: "pool2 = Some gp" "pool_reachable (gp, {#}, False)" by (rule pool2_reachable)
  have "(case pool2 of None \<Rightarrow> False | Some gp \<Rightarrow>
      (case thriftCall2WithRetry (\<lambda>i. if i = 0 then env_broken else env_ok) gp of
         Some (gp', k, name, err) \<Rightarrow> k = 2 \<and> name = ''Add'' \<and> err = None | _ \<Rightarrow> False))" by code_simp
  then obtain gp' where r: "thriftCall2WithRetry (\<lambda>i. if i = 0 then env_broken else env_ok) gp = Some (gp', 2, ''Add'', None)"
    unfolding gp(1) by (auto split: option.splits)
  from thriftCall2_replays_only_disconnected [OF r, of 0] obtain g' nm e
    where "thriftCall2Once env_broken gp = Some (g', nm, Some e)" "isDisconnectedError e" by auto
  with gp(1) r show ?thesis by blast
qed

text \<open>
  \<^verbatim>\<open>ThriftCall\<close> panics on a method without result that succeeds.  The single return value is nil, so
  the first test fails and \<^verbatim>\<open>rets[1]\<close> is read from a slice of length one.
\<close>

theorem ThriftCall_void_success_panics:
  "ThriftCall env (Some (nargs + 1)) nargs [RNil] gp =
     (case Get env gp of Some (gp', Inl e) \<Rightarrow> Some (gp', RNil, Some e) | _ \<Rightarrow> None)"
  by (simp add: ThriftCall_def call_error_def split: option.splits sum.splits)

end
