(* ===== verification/GoStrings.thy ===== *)
theory GoStrings
  imports Go_Prelude
begin

text \<open>
  The functions of Go's \<^verbatim>\<open>strings\<close> and \<^verbatim>\<open>strconv\<close> packages that the repository calls, on byte strings: a
  Go string is a \<open>string\<close> whose characters are its bytes.
\<close>

section \<open>\<^verbatim>\<open>strings.Split\<close> with a one-byte separator\<close>

fun Split :: "string \<Rightarrow> char \<Rightarrow> string list" where
  "Split [] sep = [[]]"
| "Split (c # cs) sep =
     (if c = sep then [] # Split cs sep
      else case Split cs sep of [] \<Rightarrow> [[c]] | w # ws \<Rightarrow> (c # w) # ws)"

fun Join :: "string list \<Rightarrow> char \<Rightarrow> string" where
  "Join [] sep = []"
| "Join [w] sep = w"
| "Join (w # v # ws) sep = w @ sep # Join (v # ws) sep"

lemma Split_nonempty [simp]: "Split s sep \<noteq> []"
  by (induction s) (auto split: list.splits)

lemma Split_no_sep: "sep \<notin> set s \<Longrightarrow> Split s sep = [s]"
  by (induction s) auto

lemma Split_append_sep: "sep \<notin> set w \<Longrightarrow> Split (w @ sep # s) sep = w # Split s sep"
  by (induction w) auto

lemma Split_Join:
  "ws \<noteq> [] \<Longrightarrow> (\<And>w. w \<in> set ws \<Longrightarrow> sep \<notin> set w) \<Longrightarrow> Split (Join ws sep) sep = ws"
  by (induction ws sep rule: Join.induct) (auto simp: Split_no_sep Split_append_sep)

lemma Join_Split: "Join (Split s sep) sep = s"
proof (induction s)
  case (Cons c cs)
  show ?case
  proof (cases "Split cs sep")
    case (Cons w ws)
    with Cons.IH show ?thesis by (cases ws) auto
  qed simp
qed simp

lemma Split_words_no_sep: "w \<in> set (Split s sep) \<Longrightarrow> sep \<notin> set w"
  by (induction s arbitrary: w) (auto split: if_splits list.splits)

section \<open>\<^verbatim>\<open>strings.TrimSpace\<close>\<close>

text \<open>
  The UTF-8 encodings of the characters for which \<^verbatim>\<open>unicode.IsSpace\<close> holds.  None is a suffix or a prefix
  of another one and none can start in the middle of a character, so trimming whole runes is trimming
  these byte sequences.
\<close>

definition space_seqs :: "string list" where
  "space_seqs =
     [[CHR 0x09], [CHR 0x0A], [CHR 0x0B], [CHR 0x0C], [CHR 0x0D], [CHR 0x20],
      [CHR 0xC2, CHR 0x85], [CHR 0xC2, CHR 0xA0], [CHR 0xE1, CHR 0x9A, CHR 0x80],
      [CHR 0xE2, CHR 0x80, CHR 0x80], [CHR 0xE2, CHR 0x80, CHR 0x81], [CHR 0xE2, CHR 0x80, CHR 0x82],
      [CHR 0xE2, CHR 0x80, CHR 0x83], [CHR 0xE2, CHR 0x80, CHR 0x84], [CHR 0xE2, CHR 0x80, CHR 0x85],
      [CHR 0xE2, CHR 0x80, CHR 0x86], [CHR 0xE2, CHR 0x80, CHR 0x87], [CHR 0xE2, CHR 0x80, CHR 0x88],
      [CHR 0xE2, CHR 0x80, CHR 0x89], [CHR 0xE2, CHR 0x80, CHR 0x8A], [CHR 0xE2, CHR 0x80, CHR 0xA8],
      [CHR 0xE2, CHR 0x80, CHR 0xA9], [CHR 0xE2, CHR 0x80, CHR 0xAF], [CHR 0xE2, CHR 0x81, CHR 0x9F],
      [CHR 0xE3, CHR 0x80, CHR 0x80]]"

fun starts_with :: "string \<Rightarrow> string \<Rightarrow> bool" where
  "starts_with [] s = True"
| "starts_with (p # ps) [] = False"
| "starts_with (p # ps) (c # cs) = (p = c \<and> starts_with ps cs)"

lemma starts_with_iff: "starts_with p s \<longleftrightarrow> (\<exists>t. s = p @ t)"
  by (induction p s rule: starts_with.induct) auto

definition first_match :: "string list \<Rightarrow> string \<Rightarrow> nat" where
  "first_match seqs s = (case filter (\<lambda>p. starts_with p s) seqs of [] \<Rightarrow> 0 | p # _ \<Rightarrow> length p)"

lemma first_match_le: "first_match seqs s \<le> length s"
proof (cases "filter (\<lambda>p. starts_with p s) seqs")
  case (Cons p ps)
  then have "p \<in> set (filter (\<lambda>p. starts_with p s) seqs)" by simp
  then have "starts_with p s" by simp
  with Cons show ?thesis by (auto simp: first_match_def starts_with_iff)
qed (simp add: first_match_def)

lemma first_match_shrinks:
  assumes "first_match seqs s \<noteq> 0" shows "length (drop (first_match seqs s) s) < length s"
  using assms first_match_le [of seqs s] by simp

function trim_seqs :: "string list \<Rightarrow> string \<Rightarrow> string" where
  "trim_seqs seqs s = (if first_match seqs s = 0 then s else trim_seqs seqs (drop (first_match seqs s) s))"
  by pat_completeness auto
termination
  by (relation "measure (\<lambda>(_, s). length s)") (use first_match_shrinks in simp_all)

declare trim_seqs.simps [simp del]

definition TrimLeftSpace :: "string \<Rightarrow> string" where
  "TrimLeftSpace s = trim_seqs space_seqs s"

definition TrimRightSpace :: "string \<Rightarrow> string" where
  "TrimRightSpace s = rev (trim_seqs (map rev space_seqs) (rev s))"

definition TrimSpace :: "string \<Rightarrow> string" where
  "TrimSpace s = TrimRightSpace (TrimLeftSpace s)"

text \<open>A string with no space at either end is left as it is; ASCII graphic characters are no spaces.\<close>

definition space_byte :: "char \<Rightarrow> bool" where
  "space_byte c \<longleftrightarrow> c \<in> set (concat space_seqs)"

lemma first_match_graphic:
  assumes "\<And>p. p \<in> set seqs \<Longrightarrow> p \<noteq> [] \<and> hd p \<noteq> c"
  shows "first_match seqs (c # cs) = 0"
proof -
  have "\<not> starts_with p (c # cs)" if "p \<in> set seqs" for p
    using assms [OF that] by (cases p) auto
  then have "filter (\<lambda>p. starts_with p (c # cs)) seqs = []" by (simp add: filter_empty_conv)
  then show ?thesis by (simp add: first_match_def)
qed

lemma first_match_Nil: "[] \<notin> set seqs \<Longrightarrow> first_match seqs [] = 0"
proof -
  assume "[] \<notin> set seqs"
  then have "\<not> starts_with p []" if "p \<in> set seqs" for p using that by (cases p) auto
  then show ?thesis by (simp add: first_match_def filter_empty_conv)
qed

lemma trim_seqs_id:
  assumes "[] \<notin> set seqs" "s = [] \<or> (\<forall>p \<in> set seqs. hd p \<noteq> hd s)"
  shows "trim_seqs seqs s = s"
proof -
  have "first_match seqs s = 0"
    using assms by (cases s) (auto simp: first_match_Nil intro!: first_match_graphic)
  then show ?thesis by (simp add: trim_seqs.simps)
qed

lemma TrimLeftSpace_Cons: "\<not> space_byte c \<Longrightarrow> TrimLeftSpace (c # s) = c # s"
proof -
  assume c: "\<not> space_byte c"
  have nn: "[] \<notin> set space_seqs" by code_simp
  have "hd p \<noteq> c" if "p \<in> set space_seqs" for p
    using c that nn by (metis concat_eq_Nil_conv hd_in_set set_concat UN_I space_byte_def)
  then show ?thesis unfolding TrimLeftSpace_def by (intro trim_seqs_id [OF nn]) simp
qed

lemma TrimSpace_id:
  assumes "s = [] \<or> (\<not> space_byte (hd s) \<and> \<not> space_byte (last s))"
  shows "TrimSpace s = s"
proof -
  have nn: "[] \<notin> set space_seqs" by code_simp
  then have nr: "[] \<notin> set (map rev space_seqs)" by auto
  have heads: "hd p \<in> set (concat space_seqs)" if "p \<in> set space_seqs" for p
    using that nn by (metis concat_eq_Nil_conv hd_in_set set_concat UN_I)
  have tails: "hd p \<in> set (concat space_seqs)" if "p \<in> set (map rev space_seqs)" for p
  proof -
    from that obtain q where q: "q \<in> set space_seqs" "p = rev q" by auto
    with nn have "hd p \<in> set q" by (metis hd_in_set rev_is_Nil_conv set_rev)
    with q(1) show ?thesis by auto
  qed
  have "TrimLeftSpace s = s"
    unfolding TrimLeftSpace_def
    by (rule trim_seqs_id [OF nn]) (metis assms heads space_byte_def)
  moreover have "trim_seqs (map rev space_seqs) (rev s) = rev s"
    by (rule trim_seqs_id [OF nr]) (metis assms tails space_byte_def hd_rev rev_is_Nil_conv)
  ultimately show ?thesis by (simp add: TrimSpace_def TrimRightSpace_def)
qed

section \<open>\<^verbatim>\<open>strings.LastIndex\<close> and \<^verbatim>\<open>strings.Index\<close> of one byte\<close>

text \<open>The index, or \<open>-1\<close>.\<close>

definition LastIndex :: "string \<Rightarrow> char \<Rightarrow> int" where
  "LastIndex s c =
     (if c \<in> set s then int (length s) - 1 - int (length (takeWhile (\<lambda>x. x \<noteq> c) (rev s))) else -1)"

definition IndexByte :: "string \<Rightarrow> char \<Rightarrow> int" where
  "IndexByte s c = (if c \<in> set s then int (length (takeWhile (\<lambda>x. x \<noteq> c) s)) else -1)"

lemma takeWhile_until: "c \<notin> set s \<Longrightarrow> takeWhile (\<lambda>x. x \<noteq> c) (s @ c # t) = s"
  by (induction s) auto

lemma LastIndex_append: "c \<notin> set t \<Longrightarrow> LastIndex (s @ c # t) c = int (length s)"
  by (simp add: LastIndex_def takeWhile_until)

lemma IndexByte_append: "c \<notin> set s \<Longrightarrow> IndexByte (s @ c # t) c = int (length s)"
  by (simp add: IndexByte_def takeWhile_until)

section \<open>\<^verbatim>\<open>strconv.Atoi\<close> and \<^verbatim>\<open>strconv.Itoa\<close>\<close>

definition digit_val :: "char \<Rightarrow> nat option" where
  "digit_val c = (let n = of_char c in if 48 \<le> n \<and> n \<le> 57 then Some (n - 48) else None)"

definition digit_char :: "nat \<Rightarrow> char" where
  "digit_char n = char_of (48 + n)"

fun digits_val :: "nat \<Rightarrow> string \<Rightarrow> nat option" where
  "digits_val acc [] = Some acc"
| "digits_val acc (c # cs) = (case digit_val c of None \<Rightarrow> None | Some d \<Rightarrow> digits_val (10 * acc + d) cs)"

definition unsigned_val :: "string \<Rightarrow> nat option" where
  "unsigned_val s = (if s = [] then None else digits_val 0 s)"

text \<open>
  The value and whether there is an error: \<open>0\<close> on a syntax error, the nearest representable number on
  a range error (\<^verbatim>\<open>int\<close> has 64 bits).
\<close>

definition Atoi :: "string \<Rightarrow> int \<times> bool" where
  "Atoi s =
     (let neg = (s \<noteq> [] \<and> hd s = CHR ''-'');
          body = (if s \<noteq> [] \<and> (hd s = CHR ''-'' \<or> hd s = CHR ''+'') then tl s else s)
      in case unsigned_val body of
           None \<Rightarrow> (0, True)
         | Some n \<Rightarrow>
             if neg then (if n \<le> 2 ^ 63 then (- int n, False) else (- (2 ^ 63), True))
             else (if n < 2 ^ 63 then (int n, False) else (2 ^ 63 - 1, True)))"

fun nat_str :: "nat \<Rightarrow> string" where
  "nat_str n = (if n < 10 then [digit_char n] else nat_str (n div 10) @ [digit_char (n mod 10)])"

declare nat_str.simps [simp del]

definition Itoa :: "int \<Rightarrow> string" where
  "Itoa i = (if i < 0 then CHR ''-'' # nat_str (nat (- i)) else nat_str (nat i))"

lemma digit_val_char: "n < 10 \<Longrightarrow> digit_val (digit_char n) = Some n"
  by (simp add: digit_val_def digit_char_def)

lemma digits_val_append:
  "digits_val acc (s @ t) = (case digits_val acc s of None \<Rightarrow> None | Some v \<Rightarrow> digits_val v t)"
  by (induction s arbitrary: acc) (auto split: option.splits)

lemma digits_val_nat_str: "digits_val 0 (nat_str n) = Some n"
proof (induction n rule: less_induct)
  case (less n)
  show ?case
  proof (cases "n < 10")
    case True
    then show ?thesis by (simp add: nat_str.simps [of n] digit_val_char)
  next
    case False
    with less [of "n div 10"] show ?thesis
      by (simp add: nat_str.simps [of n] digits_val_append digit_val_char)
  qed
qed

definition decimal :: "char \<Rightarrow> bool" where
  "decimal c \<longleftrightarrow> digit_val c \<noteq> None"

lemma nat_str_decimal:
  assumes "c \<in> set (nat_str n)" shows "decimal c"
  using assms
proof (induction n rule: less_induct)
  case (less n)
  have dc: "d < 10 \<Longrightarrow> decimal (digit_char d)" for d by (simp add: decimal_def digit_val_char)
  show ?case
  proof (cases "n < 10")
    case True
    then show ?thesis using less.prems dc by (simp add: nat_str.simps [of n])
  next
    case False
    then show ?thesis using less.prems less.IH [of "n div 10"] dc [of "n mod 10"]
      by (auto simp: nat_str.simps [of n])
  qed
qed

lemma not_decimal [simp]:
  "\<not> decimal CHR ''-''" "\<not> decimal CHR ''+''" "\<not> decimal CHR ''/''" "\<not> decimal CHR '':''" "\<not> decimal CHR '',''"
  by (simp_all add: decimal_def digit_val_def Let_def)

lemma nat_str_nonempty [simp]: "nat_str n \<noteq> []"
  by (subst nat_str.simps) simp

lemma Atoi_Itoa: "- (2 ^ 63) \<le> i \<Longrightarrow> i < 2 ^ 63 \<Longrightarrow> Atoi (Itoa i) = (i, False)"
proof -
  assume i: "- (2 ^ 63) \<le> i" "i < 2 ^ 63"
  have "decimal (hd (nat_str n))" for n by (rule nat_str_decimal [of _ n]) simp
  then have ns: "hd (nat_str n) \<noteq> CHR ''-''" "hd (nat_str n) \<noteq> CHR ''+''" for n
    using not_decimal by metis+
  show ?thesis
  proof (cases "i < 0")
    case True
    with i show ?thesis
      by (simp add: Itoa_def Atoi_def unsigned_val_def digits_val_nat_str)
  next
    case False
    with i ns [of "nat i"] show ?thesis
      by (simp add: Itoa_def Atoi_def unsigned_val_def digits_val_nat_str)
  qed
qed

lemma space_not_decimal: "space_byte c \<Longrightarrow> \<not> decimal c"
proof -
  have "list_all (\<lambda>c. \<not> decimal c) (concat space_seqs)" by code_simp
  then show "space_byte c \<Longrightarrow> \<not> decimal c" by (auto simp: list_all_iff space_byte_def)
qed

end
