(* ===== verification/Selector.thy ===== *)
theory Selector
  imports GoStrings "HOL-Library.Monad_Syntax" "HOL-Library.Signed_Division"
begin

text \<open>
  The address list every selector is built on (\<^verbatim>\<open>selector/selector.go\<close>): server records, the parser of
  \<^verbatim>\<open>host:port/timeout\<close> lists and the base round robin.  \<open>int32\<close> fields are 32-bit words.
\<close>

section \<open>Servers\<close>

definition SVR_VALID :: "32 word" where "SVR_VALID = 1"
definition SVR_NOTVALID :: "32 word" where "SVR_NOTVALID = 0"

record baseSvr =
  bs_Port :: int
  bs_Addr :: string
  bs_TimeOut :: int
  bs_Valid :: "32 word"
  bs_Index :: int

definition zeroSvr :: baseSvr where
  "zeroSvr = \<lparr>bs_Port = 0, bs_Addr = '''', bs_TimeOut = 0, bs_Valid = 0, bs_Index = 0\<rparr>"

definition GetTimeOut :: "baseSvr \<Rightarrow> 32 word" where
  "GetTimeOut bs = word_of_int (bs_TimeOut bs)"

definition SetStat :: "'a baseSvr_scheme \<Rightarrow> 32 word \<Rightarrow> 'a baseSvr_scheme" where
  "SetStat bs st = bs\<lparr>bs_Valid := st\<rparr>"

definition CompareAndSwapStat :: "'a baseSvr_scheme \<Rightarrow> 32 word \<Rightarrow> 32 word \<Rightarrow> bool \<times> 'a baseSvr_scheme" where
  "CompareAndSwapStat bs old new = (if bs_Valid bs = old then (True, bs\<lparr>bs_Valid := new\<rparr>) else (False, bs))"

definition NewSvr :: baseSvr where
  "NewSvr = zeroSvr\<lparr>bs_Port := 0, bs_Addr := '''', bs_Valid := 0\<rparr>"

text \<open>What an element of \<^verbatim>\<open>Slist\<close>, an \<^verbatim>\<open>interface{}\<close>, can hold: nothing, a \<^verbatim>\<open>BaseSvr\<close> or a \<^verbatim>\<open>*BaseSvr\<close>.\<close>

datatype svrAddr = SvrNil | SvrVal baseSvr | SvrPtr baseSvr

record selector =
  sel_Pos :: "32 word"
  sel_Slist :: "svrAddr list"

definition NewSelector :: selector where
  "NewSelector = \<lparr>sel_Pos = 0, sel_Slist = []\<rparr>"

section \<open>Parsing\<close>

definition GetAddrPort :: "string \<Rightarrow> (string \<times> string) go" where
  "GetAddrPort x = (let ret = Split x CHR ''/'' in if length ret < 2 then None else Some (ret ! 0, ret ! 1))"

definition errAddrFormat :: error where
  "errAddrFormat = [ErrorText ''addr format error!!!'']"

definition sparseOne :: "string \<Rightarrow> (error + baseSvr) go" where
  "sparseOne x =
     (let xx = Split x CHR '':'' in
      if length xx \<noteq> 2 then Some (Inl errAddrFormat)
      else do {
        (port, timeout) \<leftarrow> GetAddrPort (xx ! 1);
        Some (Inr (zeroSvr\<lparr>bs_Addr := xx ! 0, bs_Port := fst (Atoi port), bs_TimeOut := fst (Atoi timeout),
                           bs_Valid := 1\<rparr>))
      })"

text \<open>The loop of \<^verbatim>\<open>SparseAddr\<close> from index \<open>i\<close> on; on an error the rest of the list stays nil.\<close>

fun SparseAddr_loop :: "string list \<Rightarrow> nat \<Rightarrow> selector \<Rightarrow> (selector \<times> error option) go" where
  "SparseAddr_loop [] i s = Some (s, None)"
| "SparseAddr_loop (x # xs) i s = do {
     r \<leftarrow> sparseOne x;
     (case r of
        Inl e \<Rightarrow> Some (s, Some e)
      | Inr bs \<Rightarrow> SparseAddr_loop xs (Suc i) (s\<lparr>sel_Slist := (sel_Slist s)[i := SvrPtr bs]\<rparr>))
   }"

definition SparseAddr :: "selector \<Rightarrow> string \<Rightarrow> (selector \<times> error option) go" where
  "SparseAddr s pstr =
     (let x = Split pstr CHR '','' in
      SparseAddr_loop x 0 (s\<lparr>sel_Slist := replicate (length x) SvrNil\<rparr>))"

definition SparseRedisAddr :: "selector \<Rightarrow> string list \<Rightarrow> selector" where
  "SparseRedisAddr s pstr =
     s\<lparr>sel_Slist := map (\<lambda>a. SvrPtr (zeroSvr\<lparr>bs_Addr := a, bs_Valid := SVR_VALID\<rparr>)) pstr\<rparr>"

section \<open>Round robin\<close>

text \<open>The scan: \<open>item\<close> and the number of valid servers; the type assertion panics on anything but a value.\<close>

fun rr_scan :: "svrAddr list \<Rightarrow> nat \<Rightarrow> svrAddr list \<Rightarrow> 32 word \<Rightarrow> (svrAddr list \<times> 32 word) go" where
  "rr_scan [] i item j = Some (item, j)"
| "rr_scan (x # xs) i item j =
     (case x of
        SvrVal bs \<Rightarrow>
          if bs_Valid bs = SVR_VALID then rr_scan xs (Suc i) (item[i := x]) (j + 1) else rr_scan xs (Suc i) item j
      | _ \<Rightarrow> None)"

definition RoundRobin :: "selector \<Rightarrow> (svrAddr \<times> selector) go" where
  "RoundRobin s = do {
     (item, j) \<leftarrow> rr_scan (sel_Slist s) 0 (replicate (length (sel_Slist s)) SvrNil) 0;
     (if j = 0 then Some (SvrNil, s)
      else
        let pos = sel_Pos s;
            k = sint pos smod sint j in
        if k < 0 \<or> k \<ge> int (length item) then None
        else Some (item ! nat k, s\<lparr>sel_Pos := word_of_int (sint (pos + 1) smod sint (word_of_nat (length (sel_Slist s)) :: 32 word))\<rparr>))
   }"

text \<open>The assertion copies the server, so the new state is stored in the copy only.\<close>

definition SetSvrStat :: "selector \<Rightarrow> int \<Rightarrow> 32 word \<Rightarrow> selector go" where
  "SetSvrStat s i stat =
     (if i < 0 \<or> i \<ge> int (length (sel_Slist s)) then None
      else case sel_Slist s ! nat i of SvrVal bs \<Rightarrow> Some s | _ \<Rightarrow> None)"

section \<open>Properties\<close>

text \<open>The text form of a server.\<close>

definition showSvr :: "string \<times> int \<times> int \<Rightarrow> string" where
  "showSvr e = (case e of (addr, port, timeout) \<Rightarrow> addr @ CHR '':'' # Itoa port @ CHR ''/'' # Itoa timeout)"

definition mkSvr :: "string \<times> int \<times> int \<Rightarrow> svrAddr" where
  "mkSvr e = (case e of (addr, port, timeout) \<Rightarrow>
     SvrPtr (zeroSvr\<lparr>bs_Addr := addr, bs_Port := port, bs_TimeOut := timeout, bs_Valid := 1\<rparr>))"

definition int64 :: "int \<Rightarrow> bool" where
  "int64 i \<longleftrightarrow> - (2 ^ 63) \<le> i \<and> i < 2 ^ 63"

definition goodSvr :: "string \<times> int \<times> int \<Rightarrow> bool" where
  "goodSvr e = (case e of (addr, port, timeout) \<Rightarrow>
     CHR '':'' \<notin> set addr \<and> CHR '','' \<notin> set addr \<and> int64 port \<and> int64 timeout)"

lemma Itoa_chars:
  assumes "c \<in> set (Itoa i)" shows "c = CHR ''-'' \<or> decimal c"
  using assms nat_str_decimal by (auto simp: Itoa_def split: if_splits)

lemma Itoa_no_sep:
  "CHR '':'' \<notin> set (Itoa i)" "CHR '','' \<notin> set (Itoa i)" "CHR ''/'' \<notin> set (Itoa i)"
  using Itoa_chars not_decimal by fastforce+

lemma sparseOne_show:
  assumes "goodSvr e"
  shows "sparseOne (showSvr e) = Some (Inr (case mkSvr e of SvrPtr b \<Rightarrow> b | _ \<Rightarrow> zeroSvr))"
proof -
  obtain a p t where e: "e = (a, p, t)" by (cases e)
  have "CHR '':'' \<notin> set (Itoa p @ CHR ''/'' # Itoa t)" using Itoa_no_sep by auto
  then have "Split (showSvr e) CHR '':'' = [a, Itoa p @ CHR ''/'' # Itoa t]"
    using assms e by (simp add: showSvr_def goodSvr_def Split_append_sep Split_no_sep)
  moreover have "Split (Itoa p @ CHR ''/'' # Itoa t) CHR ''/'' = [Itoa p, Itoa t]"
    using Itoa_no_sep by (simp add: Split_append_sep Split_no_sep)
  ultimately show ?thesis
    using assms e Atoi_Itoa by (simp add: sparseOne_def GetAddrPort_def mkSvr_def goodSvr_def int64_def)
qed

lemma SparseAddr_loop_show:
  assumes "\<forall>e \<in> set es. goodSvr e" "i + length es = length (sel_Slist s)"
  shows "SparseAddr_loop (map showSvr es) i s = Some (s\<lparr>sel_Slist := take i (sel_Slist s) @ map mkSvr es\<rparr>, None)"
  using assms
proof (induction es arbitrary: i s)
  case (Cons e es)
  have mk: "mkSvr e = SvrPtr (case mkSvr e of SvrPtr b \<Rightarrow> b | _ \<Rightarrow> zeroSvr)"
    by (cases e) (simp add: mkSvr_def)
  have "take (Suc i) ((sel_Slist s)[i := mkSvr e]) = take i (sel_Slist s) @ [mkSvr e]"
    using Cons.prems(2) by (simp add: take_Suc_conv_app_nth)
  with Cons sparseOne_show [of e] mk show ?case by simp
qed simp

text \<open>
  Parsing inverts printing.  For any non-empty list of servers whose host has no colon and no
  comma, \<^verbatim>\<open>SparseAddr\<close> of the comma-separated \<^verbatim>\<open>host:port/timeout\<close> text succeeds and yields exactly these
  servers, all valid.
\<close>

theorem SparseAddr_roundtrip:
  assumes "es \<noteq> []" "\<forall>e \<in> set es. goodSvr e"
  shows "SparseAddr s (Join (map showSvr es) CHR '','') = Some (s\<lparr>sel_Slist := map mkSvr es\<rparr>, None)"
proof -
  have "CHR '','' \<notin> set (showSvr e)" if "e \<in> set es" for e
    using assms(2) that Itoa_no_sep by (cases e) (auto simp: showSvr_def goodSvr_def)
  then have "Split (Join (map showSvr es) CHR '','') CHR '','' = map showSvr es"
    using assms(1) by (intro Split_Join) auto
  then show ?thesis
    using assms SparseAddr_loop_show [of es 0 "s\<lparr>sel_Slist := replicate (length es) SvrNil\<rparr>"]
    by (simp add: SparseAddr_def Let_def)
qed

theorem SparseAddr_roundtrip_witness:
  "SparseAddr NewSelector (Join (map showSvr [(''127.0.0.1'', 6379, 3000), (''h'', 80, 5)]) CHR '','') =
     Some (NewSelector\<lparr>sel_Slist := map mkSvr [(''127.0.0.1'', 6379, 3000), (''h'', 80, 5)]\<rparr>, None)"
  by (rule SparseAddr_roundtrip) (simp_all add: goodSvr_def int64_def)

lemma SparseAddr_loop_ptrs:
  assumes "SparseAddr_loop xs i s = Some (s', None)" "\<forall>j < i. \<exists>b. sel_Slist s ! j = SvrPtr b"
    "i + length xs = length (sel_Slist s)"
  shows "length (sel_Slist s') = length (sel_Slist s) \<and> (\<forall>j < length (sel_Slist s'). \<exists>b. sel_Slist s' ! j = SvrPtr b)"
  using assms
proof (induction xs i s rule: SparseAddr_loop.induct)
  case (2 x xs i s)
  from "2.prems"(1) obtain r where "sparseOne x = Some r" "r = Inl (projl r) \<or> r = Inr (projr r)"
    by (cases "sparseOne x"; cases "the (sparseOne x)") auto
  with "2.prems"(1) obtain b where b: "sparseOne x = Some (Inr b)"
      "SparseAddr_loop xs (Suc i) (s\<lparr>sel_Slist := (sel_Slist s)[i := SvrPtr b]\<rparr>) = Some (s', None)"
    by (cases r) auto
  from "2.IH" [OF b(1) refl b(2)] "2.prems"(2,3) show ?case by (auto simp: nth_list_update less_Suc_eq)
qed auto

text \<open>
  The base selector cannot select.  \<^verbatim>\<open>SparseAddr\<close> and \<^verbatim>\<open>SparseRedisAddr\<close> store pointers, \<^verbatim>\<open>RoundRobin\<close> and
  \<^verbatim>\<open>SetSvrStat\<close> assert values: on every list the parsers produce both panic.
\<close>

theorem RoundRobin_panics_on_parsed:
  assumes "SparseAddr s pstr = Some (s', None) \<or> (ps \<noteq> [] \<and> s' = SparseRedisAddr s ps)"
  shows "RoundRobin s' = None \<and> SetSvrStat s' i stat = None"
proof -
  have "sel_Slist s' \<noteq> [] \<and> (\<forall>j < length (sel_Slist s'). \<exists>b. sel_Slist s' ! j = SvrPtr b)"
    using assms
  proof
    assume *: "SparseAddr s pstr = Some (s', None)"
    have "0 < length (Split pstr CHR '','')" by simp
    with * SparseAddr_loop_ptrs [of "Split pstr CHR '',''" 0 "s\<lparr>sel_Slist := replicate (length (Split pstr CHR '','')) SvrNil\<rparr>" s']
    show ?thesis by (auto simp: SparseAddr_def Let_def simp del: Split_nonempty)
  qed (auto simp: SparseRedisAddr_def)
  moreover from this obtain b xs where "sel_Slist s' = SvrPtr b # xs"
    by (metis length_greater_0_conv list.exhaust nth_Cons_0)
  moreover have "SetSvrStat s' i stat = None"
  proof (cases "i < 0 \<or> i \<ge> int (length (sel_Slist s'))")
    case False
    then have "nat i < length (sel_Slist s')" by (simp add: nat_less_iff)
    then obtain b where "sel_Slist s' ! nat i = SvrPtr b" using calculation(1) by blast
    then show ?thesis by (simp add: SetSvrStat_def)
  qed (simp add: SetSvrStat_def)
  ultimately show ?thesis by (simp add: RoundRobin_def)
qed

theorem RoundRobin_panics_on_parsed_witness:
  "RoundRobin (SparseRedisAddr NewSelector [''redis://a'']) = None"
  using RoundRobin_panics_on_parsed [of NewSelector "''''" "SparseRedisAddr NewSelector [''redis://a'']" "[''redis://a'']" 0 0]
  by simp

end
