(* ===== verification/RpcSelector.thy ===== *)
theory RpcSelector
  imports GpoolCall Selector
begin

text \<open>
  The selector over one connection pool per endpoint (\<^verbatim>\<open>gpool/gpool_selector.go\<close>): parsing of the endpoint
  list, round robin over the valid endpoints, ejection of a broken endpoint and its recovery by the
  health checker, and shutdown.

  A server is named by its index in \<^verbatim>\<open>Slist\<close>; the channel \<^verbatim>\<open>NotValid\<close> is the list of indices in it.  The two
  scans of \<^verbatim>\<open>RoundRobin\<close> read the validity flags one by one while other goroutines change them, so they
  are arguments.  Error texts keep their fixed part only.
\<close>

section \<open>Configuration\<close>

record rpcConfig = gPoolConfig +
  cf_Addrs :: string
  cf_hasCfunc :: bool
  cf_hasPing :: bool
  cf_PingTicker :: int

record rpcSvr = baseSvr +
  rs_Gp :: gpool

record rpcSelector =
  rps_Pos :: "32 word"
  rps_Slist :: "rpcSvr list"
  rps_NotValid :: "nat list"
  rps_chanCap :: nat
  rps_Gpconf :: "rpcConfig option"
  rps_closed :: bool
  rps_initErr :: "error option"
  rps_healthCancel :: bool
  rps_healthDone :: bool
  rps_ejectPolicy :: "(error \<Rightarrow> bool) option"

record rpcPoolEndpoint =
  ep_addr :: string
  ep_port :: int
  ep_timeout :: int

definition applyRPCPoolConfigDefaults :: "rpcConfig option \<Rightarrow> rpcConfig option" where
  "applyRPCPoolConfigDefaults conf =
     (case conf of
        None \<Rightarrow> None
      | Some conf \<Rightarrow>
          let conf = (if cf_MaxConns conf = 0 then conf\<lparr>cf_MaxConns := 200\<rparr> else conf);
              conf = (if cf_MaxIdleConns conf = 0 then conf\<lparr>cf_MaxIdleConns := 100\<rparr> else conf)
          in Some conf)"

definition errText :: "string \<Rightarrow> error" where
  "errText s = [ErrorText s]"

definition parseEndpoint :: "string \<Rightarrow> error + rpcPoolEndpoint" where
  "parseEndpoint rawEndpoint =
     (let rawEndpoint = TrimSpace rawEndpoint;
          colon = LastIndex rawEndpoint CHR '':'' in
      if colon \<le> 0 \<or> colon = int (length rawEndpoint) - 1 then Inl (errText ''invalid RPC pool address'')
      else
        let addr = TrimSpace (take (nat colon) rawEndpoint);
            portAndTimeout = Split (drop (nat colon + 1) rawEndpoint) CHR ''/'' in
        if addr = '''' \<or> length portAndTimeout \<noteq> 2 then Inl (errText ''invalid RPC pool address'')
        else
          let (port, err) = Atoi (TrimSpace (portAndTimeout ! 0)) in
          if err \<or> port \<le> 0 \<or> port > 65535 then Inl (errText ''invalid RPC pool port'')
          else
            let (timeout, err) = Atoi (TrimSpace (portAndTimeout ! 1)) in
            if err \<or> timeout \<le> 0 then Inl (errText ''invalid RPC pool timeout'')
            else Inr \<lparr>ep_addr = addr, ep_port = port, ep_timeout = timeout\<rparr>)"

fun parseEndpoints_loop :: "string list \<Rightarrow> rpcPoolEndpoint list \<Rightarrow> error + rpcPoolEndpoint list" where
  "parseEndpoints_loop [] endpoints = Inr endpoints"
| "parseEndpoints_loop (raw # rest) endpoints =
     (case parseEndpoint raw of Inl e \<Rightarrow> Inl e | Inr ep \<Rightarrow> parseEndpoints_loop rest (endpoints @ [ep]))"

definition parseRPCPoolEndpoints :: "string \<Rightarrow> error + rpcPoolEndpoint list" where
  "parseRPCPoolEndpoints addrs =
     (case parseEndpoints_loop (Split addrs CHR '','') [] of
        Inl e \<Rightarrow> Inl e
      | Inr endpoints \<Rightarrow> if endpoints = [] then Inl (errText ''RPC pool has no endpoints'') else Inr endpoints)"

text \<open>\<^verbatim>\<open>normalizeRPCPoolConfig\<close> also stores the defaults of \<^verbatim>\<open>MaxWaiters\<close> and \<^verbatim>\<open>PingTicker\<close> in the configuration.\<close>

definition normalizeRPCPoolConfig :: "rpcConfig option \<Rightarrow> rpcConfig option \<times> (error + rpcPoolEndpoint list)" where
  "normalizeRPCPoolConfig conf =
     (case conf of
        None \<Rightarrow> (None, Inl (errText ''RPC pool config is nil''))
      | Some conf \<Rightarrow>
          if \<not> cf_hasCfunc conf then (Some conf, Inl (errText ''RPC connection factory is nil''))
          else if cf_MaxConns conf < 0 then (Some conf, Inl (errText ''RPC pool MaxConns must be positive''))
          else if cf_MaxIdleConns conf < 0 then (Some conf, Inl (errText ''RPC pool MaxIdleConns must not be negative''))
          else
            let conf = (if cf_MaxWaiters conf \<le> 0 then conf\<lparr>cf_MaxWaiters := max 1 (cf_MaxConns conf)\<rparr> else conf);
                conf = (if cf_hasPing conf \<and> cf_PingTicker conf \<le> 0 then conf\<lparr>cf_PingTicker := 5\<rparr> else conf)
            in (Some conf, parseRPCPoolEndpoints (cf_Addrs conf)))"

section \<open>Round robin\<close>

definition valid_count :: "bool list \<Rightarrow> nat" where
  "valid_count v = length (filter (\<lambda>b. b) v)"

fun nth_valid :: "bool list \<Rightarrow> nat \<Rightarrow> nat \<Rightarrow> nat option" where
  "nth_valid [] target i = None"
| "nth_valid (b # bs) target i =
     (if \<not> b then nth_valid bs target (Suc i)
      else if target = 0 then Some i
      else nth_valid bs (target - 1) (Suc i))"

text \<open>The remainder of \<^verbatim>\<open>uint32\<close> values: a division by zero is a panic.\<close>

definition uint32_mod :: "32 word \<Rightarrow> 32 word \<Rightarrow> 32 word go" where
  "uint32_mod a b = (if b = 0 then None else Some (a mod b))"

text \<open>
  One element per pass of the loop: the flags its first and its second scan saw.  The inner option is the server, if one is found.
  The count is converted to 32 bits before the division, as in the source.
\<close>

fun rr_passes :: "(bool list \<times> bool list) list \<Rightarrow> 32 word \<Rightarrow> (nat option \<times> 32 word) go" where
  "rr_passes [] pos = Some (None, pos)"
| "rr_passes ((scan1, scan2) # rest) pos =
     (let validCount = valid_count scan1 in
      if validCount = 0 then Some (None, pos)
      else do {
        let ticket = pos;
        target \<leftarrow> uint32_mod ticket (word_of_nat validCount);
        (case nth_valid scan2 (unat target) 0 of
           Some i \<Rightarrow> Some (Some i, pos + 1)
         | None \<Rightarrow> rr_passes rest (pos + 1))
      })"

definition Rps_RoundRobin ::
  "rpcSelector \<Rightarrow> bool list \<times> bool list \<Rightarrow> bool list \<times> bool list \<Rightarrow> (nat option \<times> rpcSelector) go" where
  "Rps_RoundRobin rps pass1 pass2 =
     (if rps_closed rps \<or> rps_initErr rps \<noteq> None then Some (None, rps)
      else do {
        (r, pos) \<leftarrow> rr_passes [pass1, pass2] (rps_Pos rps);
        Some (r, rps\<lparr>rps_Pos := pos\<rparr>)
      })"

definition valid_flags :: "rpcSelector \<Rightarrow> bool list" where
  "valid_flags rps = map (\<lambda>s. bs_Valid s = SVR_VALID) (rps_Slist rps)"

definition selectedServer ::
  "rpcSelector \<Rightarrow> bool list \<times> bool list \<Rightarrow> bool list \<times> bool list \<Rightarrow> ((error + nat) \<times> rpcSelector) go" where
  "selectedServer rps pass1 pass2 =
     (case rps_initErr rps of
        Some e \<Rightarrow> Some (Inl e, rps)
      | None \<Rightarrow>
          if rps_closed rps then Some (Inl [ErrPoolClosed], rps)
          else do {
            (server, rps) \<leftarrow> Rps_RoundRobin rps pass1 pass2;
            Some (case server of None \<Rightarrow> Inl [ErrNoValidRPCServer] | Some i \<Rightarrow> Inr i, rps)
          })"

section \<open>Ejection and recovery\<close>

definition shouldEject :: "rpcSelector \<Rightarrow> error \<Rightarrow> bool" where
  "shouldEject rps err =
     (case rps_ejectPolicy rps of
        Some policy \<Rightarrow> policy err
      | None \<Rightarrow>
          if errors_As as_TTransportException err \<noteq> None then True
          else errors_As as_TProtocolException err \<noteq> None)"

definition SetShouldEject :: "rpcSelector \<Rightarrow> (error \<Rightarrow> bool) option \<Rightarrow> rpcSelector" where
  "SetShouldEject rps policy = rps\<lparr>rps_ejectPolicy := policy\<rparr>"

definition pingConfigured :: "rpcSelector \<Rightarrow> bool" where
  "pingConfigured rps = (case rps_Gpconf rps of None \<Rightarrow> False | Some conf \<Rightarrow> cf_hasPing conf)"

definition handleCallError :: "rpcSelector \<Rightarrow> nat \<Rightarrow> error option \<Rightarrow> rpcSelector \<times> error option" where
  "handleCallError rps server err =
     (case err of
        None \<Rightarrow> (rps, None)
      | Some e \<Rightarrow>
          if \<not> pingConfigured rps \<or> \<not> shouldEject rps e then (rps, err)
          else
            let (swapped, s) = CompareAndSwapStat (rps_Slist rps ! server) SVR_VALID SVR_NOTVALID;
                rps = rps\<lparr>rps_Slist := (rps_Slist rps)[server := s]\<rparr> in
            if \<not> swapped then (rps, err)
            else if length (rps_NotValid rps) < rps_chanCap rps
            then (rps\<lparr>rps_NotValid := rps_NotValid rps @ [server]\<rparr>, err)
            else (rps, err))"

text \<open>
  \<^verbatim>\<open>checkServerHealth\<close> pings through the server's own pool; \<open>closedAfter\<close> tells whether the selector was
  closed during the ping.
\<close>

definition checkServerHealth :: "rpcSelector \<Rightarrow> nat \<Rightarrow> (nat \<Rightarrow> call_env) \<Rightarrow> bool \<Rightarrow> rpcSelector go" where
  "checkServerHealth rps server envs closedAfter =
     (let s = rps_Slist rps ! server in
      if bs_Valid s = SVR_VALID \<or> rps_closed rps \<or> \<not> pingConfigured rps then Some rps
      else do {
        (gp, err) \<leftarrow> ThriftCall2 envs (rs_Gp s);
        let s = s\<lparr>rs_Gp := gp\<rparr>;
        let s = (if err = None \<and> \<not> closedAfter then SetStat s SVR_VALID else s);
        Some (rps\<lparr>rps_Slist := (rps_Slist rps)[server := s]\<rparr>)
      })"

text \<open>The two working cases of the loop of \<^verbatim>\<open>runHealthChecker\<close>.\<close>

definition health_notified :: "rpcSelector \<Rightarrow> (nat \<Rightarrow> call_env) \<Rightarrow> bool \<Rightarrow> rpcSelector go" where
  "health_notified rps envs closedAfter =
     (case rps_NotValid rps of
        [] \<Rightarrow> None
      | server # rest \<Rightarrow> checkServerHealth (rps\<lparr>rps_NotValid := rest\<rparr>) server envs closedAfter)"

primrec health_scan :: "nat \<Rightarrow> nat \<Rightarrow> (nat \<Rightarrow> nat \<Rightarrow> call_env) \<Rightarrow> bool \<Rightarrow> rpcSelector \<Rightarrow> rpcSelector go" where
  "health_scan 0 i envs closedAfter rps = Some rps"
| "health_scan (Suc n) i envs closedAfter rps =
     (if bs_Valid (rps_Slist rps ! i) = SVR_NOTVALID
      then do {
        rps \<leftarrow> checkServerHealth rps i (envs i) closedAfter;
        health_scan n (Suc i) envs closedAfter rps
      }
      else health_scan n (Suc i) envs closedAfter rps)"

definition health_tick :: "rpcSelector \<Rightarrow> (nat \<Rightarrow> nat \<Rightarrow> call_env) \<Rightarrow> bool \<Rightarrow> rpcSelector go" where
  "health_tick rps envs closedAfter = health_scan (length (rps_Slist rps)) 0 envs closedAfter rps"

section \<open>Calls, initialisation and shutdown\<close>

definition Rps_ThriftCall ::
  "rpcSelector \<Rightarrow> bool list \<times> bool list \<Rightarrow> bool list \<times> bool list \<Rightarrow> (nat \<Rightarrow> call_env) \<Rightarrow>
   (rpcSelector \<times> error option) go" where
  "Rps_ThriftCall rps pass1 pass2 envs =
     (case selectedServer rps pass1 pass2 of
        None \<Rightarrow> None
      | Some (Inl e, rps) \<Rightarrow> Some (rps, Some e)
      | Some (Inr server, rps) \<Rightarrow> do {
          (gp, err) \<leftarrow> ThriftCall2 envs (rs_Gp (rps_Slist rps ! server));
          Some (handleCallError
            (rps\<lparr>rps_Slist := (rps_Slist rps)[server := (rps_Slist rps ! server)\<lparr>rs_Gp := gp\<rparr>]\<rparr>) server err)
        })"

text \<open>The shutdown of every endpoint's pool is started; what the waiting ends with is an argument.\<close>

primrec close_pools :: "rpcSvr list \<Rightarrow> rpcSvr list go" where
  "close_pools [] = Some []"
| "close_pools (s # ss) = do {
     (gp, closeList) \<leftarrow> Close_enter (rs_Gp s);
     ss \<leftarrow> close_pools ss;
     Some (s\<lparr>rs_Gp := gp\<rparr> # ss)
   }"

definition Rps_Close :: "rpcSelector \<Rightarrow> error option \<Rightarrow> error list \<Rightarrow> (rpcSelector \<times> error option) go" where
  "Rps_Close rps ctxErr poolErrs = do {
     ss \<leftarrow> close_pools (rps_Slist rps);
     Some (rps\<lparr>rps_closed := True, rps_healthCancel := False, rps_Slist := ss\<rparr>,
       case ctxErr of
         Some e \<Rightarrow> Some e
       | None \<Rightarrow> fold (\<lambda>e closeErr. errors_Join closeErr (Some e)) poolErrs None)
   }"

primrec init_servers ::
  "rpcPoolEndpoint list \<Rightarrow> rpcConfig \<Rightarrow> nat \<Rightarrow> (nat \<Rightarrow> nat \<Rightarrow> create_result) \<Rightarrow> (nat \<Rightarrow> nat \<Rightarrow> int) \<Rightarrow> rpcSvr list go" where
  "init_servers [] conf i results nows = Some []"
| "init_servers (ep # eps) conf i results nows = do {
     gp \<leftarrow> GpoolInit2 zeroGpool (ep_timeout ep) (gPoolConfig.truncate conf) (results i) (nows i);
     rest \<leftarrow> init_servers eps conf (Suc i) results nows;
     Some (\<lparr>bs_Port = ep_port ep, bs_Addr = ep_addr ep, bs_TimeOut = ep_timeout ep, bs_Valid = SVR_VALID, bs_Index = 0,
            rs_Gp = gp\<rparr> # rest)
   }"

definition startHealthChecker :: "rpcSelector \<Rightarrow> rpcSelector" where
  "startHealthChecker rps = rps\<lparr>rps_healthCancel := True, rps_healthDone := True\<rparr>"

definition RpcPoolInit ::
  "rpcSelector \<Rightarrow> rpcConfig option \<Rightarrow> error option \<Rightarrow> (nat \<Rightarrow> nat \<Rightarrow> create_result) \<Rightarrow> (nat \<Rightarrow> nat \<Rightarrow> int) \<Rightarrow>
   (rpcSelector \<times> error option) go" where
  "RpcPoolInit rps conf closeRes results nows =
     (case normalizeRPCPoolConfig conf of
        (_, Inl err) \<Rightarrow> Some (rps\<lparr>rps_initErr := Some err\<rparr>, Some err)
      | (None, Inr endpoints) \<Rightarrow> None
      | (Some conf, Inr endpoints) \<Rightarrow> do {
          (rps, err) \<leftarrow>
            (if rps_Slist rps \<noteq> [] \<or> rps_healthDone rps
             then do {
               (rps, err) \<leftarrow> Rps_Close rps closeRes [];
               Some (if err \<noteq> None then rps
                     else rps\<lparr>rps_healthCancel := False, rps_healthDone := False, rps_Slist := [],
                              rps_NotValid := [], rps_chanCap := 0, rps_Gpconf := None\<rparr>, err)
             }
             else Some (rps, None));
          (if err \<noteq> None then Some (rps, err)
           else do {
             ss \<leftarrow> init_servers endpoints conf 0 results nows;
             let rps = rps\<lparr>rps_closed := False, rps_initErr := None, rps_Pos := 0, rps_Slist := ss,
                           rps_Gpconf := Some conf, rps_NotValid := [], rps_chanCap := length endpoints\<rparr>;
             Some (if cf_hasPing conf then startHealthChecker rps else rps, None)
           })
        })"

definition zeroRps :: rpcSelector where
  "zeroRps = \<lparr>rps_Pos = 0, rps_Slist = [], rps_NotValid = [], rps_chanCap = 0, rps_Gpconf = None, rps_closed = False,
     rps_initErr = None, rps_healthCancel = False, rps_healthDone = False, rps_ejectPolicy = None\<rparr>"

definition NewRpcPoolSelectorWithError ::
  "rpcConfig option \<Rightarrow> (nat \<Rightarrow> nat \<Rightarrow> create_result) \<Rightarrow> (nat \<Rightarrow> nat \<Rightarrow> int) \<Rightarrow> (rpcSelector \<times> error option) go" where
  "NewRpcPoolSelectorWithError conf results nows =
     RpcPoolInit zeroRps (applyRPCPoolConfigDefaults conf) None results nows"

section \<open>Parsing\<close>

definition showEndpoint :: "rpcPoolEndpoint \<Rightarrow> string" where
  "showEndpoint ep = ep_addr ep @ CHR '':'' # Itoa (ep_port ep) @ CHR ''/'' # Itoa (ep_timeout ep)"

definition goodEndpoint :: "rpcPoolEndpoint \<Rightarrow> bool" where
  "goodEndpoint ep \<longleftrightarrow>
     ep_addr ep \<noteq> '''' \<and> CHR '','' \<notin> set (ep_addr ep) \<and>
     \<not> space_byte (hd (ep_addr ep)) \<and> \<not> space_byte (last (ep_addr ep)) \<and>
     1 \<le> ep_port ep \<and> ep_port ep \<le> 65535 \<and> 1 \<le> ep_timeout ep \<and> ep_timeout ep < 2 ^ 63"

lemma TrimSpace_Itoa: "0 \<le> i \<Longrightarrow> TrimSpace (Itoa i) = Itoa i"
proof -
  assume i: "0 \<le> i"
  have "decimal (hd (nat_str n))" "decimal (last (nat_str n))" for n by (rule nat_str_decimal [of _ n], simp)+
  with i show ?thesis using space_not_decimal by (intro TrimSpace_id) (auto simp: Itoa_def)
qed

lemma parseEndpoint_show:
  assumes "goodEndpoint ep"
  shows "parseEndpoint (showEndpoint ep) = Inr ep"
proof -
  let ?rest = "Itoa (ep_port ep) @ CHR ''/'' # Itoa (ep_timeout ep)"
  from assms have ep: "ep_addr ep \<noteq> ''''" "\<not> space_byte (hd (ep_addr ep))" "\<not> space_byte (last (ep_addr ep))"
    and p: "1 \<le> ep_port ep" "ep_port ep \<le> 65535" and t: "1 \<le> ep_timeout ep" "ep_timeout ep < 2 ^ 63"
    by (auto simp: goodEndpoint_def)
  have "last (showEndpoint ep) = last (nat_str (nat (ep_timeout ep)))"
    using t(1) by (simp add: showEndpoint_def Itoa_def)
  moreover have "decimal (last (nat_str n))" for n using nat_str_decimal [of _ n] by simp
  ultimately have "\<not> space_byte (last (showEndpoint ep))" using space_not_decimal by auto
  then have trim: "TrimSpace (showEndpoint ep) = showEndpoint ep"
    using ep by (intro TrimSpace_id) (simp add: showEndpoint_def)
  have colon: "LastIndex (showEndpoint ep) CHR '':'' = int (length (ep_addr ep))"
    unfolding showEndpoint_def by (rule LastIndex_append) (use Itoa_no_sep in auto)
  have split: "Split ?rest CHR ''/'' = [Itoa (ep_port ep), Itoa (ep_timeout ep)]"
    using Itoa_no_sep by (simp add: Split_append_sep Split_no_sep)
  have "TrimSpace (ep_addr ep) = ep_addr ep" using ep by (intro TrimSpace_id) simp
  moreover have "Atoi (TrimSpace (Itoa (ep_port ep))) = (ep_port ep, False)"
    "Atoi (TrimSpace (Itoa (ep_timeout ep))) = (ep_timeout ep, False)"
    using p t Atoi_Itoa by (simp_all add: TrimSpace_Itoa)
  ultimately show ?thesis
    using ep p t split unfolding parseEndpoint_def Let_def trim colon
    by (simp add: showEndpoint_def)
qed

lemma parseEndpoints_loop_show:
  "\<forall>ep \<in> set eps. goodEndpoint ep \<Longrightarrow> parseEndpoints_loop (map showEndpoint eps) acc = Inr (acc @ eps)"
  by (induction eps arbitrary: acc) (simp_all add: parseEndpoint_show)

lemma parse_show:
  assumes "eps \<noteq> []" "\<forall>ep \<in> set eps. goodEndpoint ep"
  shows "parseRPCPoolEndpoints (Join (map showEndpoint eps) CHR '','') = Inr eps"
proof -
  have "CHR '','' \<notin> set (showEndpoint ep)" if "ep \<in> set eps" for ep
    using assms(2) that Itoa_no_sep by (auto simp: showEndpoint_def goodEndpoint_def)
  then have "Split (Join (map showEndpoint eps) CHR '','') CHR '','' = map showEndpoint eps"
    using assms(1) by (intro Split_Join) auto
  with assms parseEndpoints_loop_show [of eps "[]"] show ?thesis by (simp add: parseRPCPoolEndpoints_def)
qed

text \<open>
  The endpoint parser inverts printing: for any non-empty list of endpoints with a host (which may
  be an IPv6 literal full of colons), a port from 1 to 65535 and a positive time-out, parsing the
  comma-separated \<^verbatim>\<open>host:port/timeout_ms\<close> text gives the list back.
\<close>

theorem parseRPCPoolEndpoints_roundtrip:
  assumes "eps \<noteq> []" "\<forall>ep \<in> set eps. goodEndpoint ep"
  shows "parseRPCPoolEndpoints (Join (map showEndpoint eps) CHR '','') = Inr eps"
  by (rule parse_show [OF assms])

theorem parseRPCPoolEndpoints_roundtrip_witness:
  "parseRPCPoolEndpoints (Join (map showEndpoint [\<lparr>ep_addr = ''[::1]'', ep_port = 80, ep_timeout = 5\<rparr>]) CHR '','') =
     Inr [\<lparr>ep_addr = ''[::1]'', ep_port = 80, ep_timeout = 5\<rparr>]"
proof -
  have "goodEndpoint \<lparr>ep_addr = ''[::1]'', ep_port = 80, ep_timeout = 5\<rparr>" by code_simp
  then show ?thesis by (intro parseRPCPoolEndpoints_roundtrip) simp_all
qed

lemma parseEndpoint_sound:
  "parseEndpoint raw = Inr ep \<Longrightarrow>
   ep_addr ep \<noteq> '''' \<and> 1 \<le> ep_port ep \<and> ep_port ep \<le> 65535 \<and> 1 \<le> ep_timeout ep"
  by (auto simp: parseEndpoint_def Let_def split: if_splits prod.splits)

section \<open>Selection\<close>

definition valid_idx :: "bool list \<Rightarrow> nat list" where
  "valid_idx v = filter (\<lambda>i. v ! i) [0..<length v]"

lemma valid_idx_Cons: "valid_idx (b # bs) = (if b then [0] else []) @ map Suc (valid_idx bs)"
proof -
  have "[0..<length (b # bs)] = 0 # map Suc [0..<length bs]" by (simp add: upt_conv_Cons map_Suc_upt del: upt_Suc)
  then show ?thesis by (auto simp: valid_idx_def filter_map o_def)
qed

lemma length_valid_idx: "length (valid_idx v) = valid_count v"
  by (induction v) (auto simp: valid_idx_Cons valid_count_def, simp add: valid_idx_def)

lemma nth_valid_eq:
  "nth_valid v t i = (if t < valid_count v then Some (i + valid_idx v ! t) else None)"
proof (induction v t i rule: nth_valid.induct)
  case (2 b bs t i)
  then show ?case
    by (auto simp: valid_idx_Cons valid_count_def nth_Cons' length_valid_idx [unfolded valid_count_def])
qed (simp add: valid_count_def)

text \<open>While no flag changes, a call takes the next valid server in turn.\<close>

lemma count_nonzero: "0 < n \<Longrightarrow> n < 2 ^ 32 \<Longrightarrow> (word_of_nat n :: 32 word) \<noteq> 0"
  using unat_of_nat [of n, where 'a = 32] by (auto simp: take_bit_nat_eq_self)

lemma RoundRobin_stable:
  assumes "\<not> rps_closed rps" "rps_initErr rps = None" "valid_count v < 2 ^ 32"
  shows "Rps_RoundRobin rps (v, v) (v, v) =
    Some (if valid_count v = 0 then (None, rps)
      else (Some (valid_idx v ! (unat (rps_Pos rps) mod valid_count v)), rps\<lparr>rps_Pos := rps_Pos rps + 1\<rparr>))"
proof -
  have "unat (word_of_nat (valid_count v) :: 32 word) = valid_count v"
    using assms(3) by (simp add: unat_of_nat take_bit_nat_eq_self)
  then have "unat (rps_Pos rps mod word_of_nat (valid_count v)) = unat (rps_Pos rps) mod valid_count v"
    by (simp add: unat_mod)
  with assms count_nonzero [of "valid_count v"] show ?thesis by (auto simp: Rps_RoundRobin_def nth_valid_eq uint32_mod_def Let_def)
qed

text \<open>The servers of \<open>n\<close> calls in a row; a panic would end them.\<close>

fun rr_calls :: "nat \<Rightarrow> rpcSelector \<Rightarrow> bool list \<Rightarrow> nat option list" where
  "rr_calls 0 rps v = []"
| "rr_calls (Suc n) rps v = (case Rps_RoundRobin rps (v, v) (v, v) of None \<Rightarrow> [] | Some (r, rps') \<Rightarrow> r # rr_calls n rps' v)"

lemma rr_calls_eq:
  assumes "\<not> rps_closed rps" "rps_initErr rps = None" "valid_count v < 2 ^ 32" "0 < valid_count v"
    "unat (rps_Pos rps) + n \<le> 2 ^ 32"
  shows "rr_calls n rps v = map (\<lambda>k. Some (valid_idx v ! ((unat (rps_Pos rps) + k) mod valid_count v))) [0..<n]"
  using assms
proof (induction n arbitrary: rps)
  case (Suc n)
  let ?p = "rps_Pos rps" and ?f = "\<lambda>p k. Some (valid_idx v ! ((p + k) mod valid_count v))"
  show ?case
  proof (cases n)
    case 0
    then show ?thesis using RoundRobin_stable [OF Suc.prems(1-3)] Suc.prems(4) by simp
  next
    case (Suc m)
    then have "unat ?p + 1 < 2 ^ 32" using Suc.prems(5) by simp
    then have "unat (?p + 1) = Suc (unat ?p)"
      using unat_add_lem [of ?p 1] by simp
    then have "rr_calls n (rps\<lparr>rps_Pos := ?p + 1\<rparr>) v = map (?f (Suc (unat ?p))) [0..<n]"
      using Suc.IH [of "rps\<lparr>rps_Pos := ?p + 1\<rparr>"] Suc.prems by simp
    moreover have "map (?f (unat ?p)) [0..<Suc n] = ?f (unat ?p) 0 # map (?f (Suc (unat ?p))) [0..<n]"
      by (simp add: upt_conv_Cons map_Suc_upt [symmetric] o_def del: upt_Suc)
    ultimately show ?thesis
      using RoundRobin_stable [OF Suc.prems(1-3)] Suc.prems(4) by (simp del: upt_Suc)
  qed
qed simp

lemma rotate_perm:
  assumes "0 < length xs"
  shows "mset (map (\<lambda>k. xs ! ((p + k) mod length xs)) [0..<length xs]) = mset xs"
proof -
  have "mset (rotate1 ys) = mset ys" for ys :: "'a list" by (cases ys) auto
  then have "mset (rotate p xs) = mset xs" by (induction p) auto
  moreover have "rotate p xs = map (\<lambda>k. xs ! ((p + k) mod length xs)) [0..<length xs]"
    by (rule nth_equalityI) (simp_all add: nth_rotate)
  ultimately show ?thesis by metis
qed

text \<open>
  C36: Fairness of \<^verbatim>\<open>RoundRobin\<close>.  On an open selector whose validity flags do not change, a block of as
  many consecutive calls as there are valid servers selects every valid server exactly once and no
  other, from any ticket position that does not run past the end of the 32-bit counter.
\<close>

theorem RoundRobin_fair:
  assumes "\<not> rps_closed rps" "rps_initErr rps = None" "0 < valid_count v"
    "unat (rps_Pos rps) + valid_count v \<le> 2 ^ 32" "valid_count v < 2 ^ 32"
  shows "mset (rr_calls (valid_count v) rps v) = mset (map Some (valid_idx v))"
proof -
  have "rr_calls (valid_count v) rps v =
      map Some (map (\<lambda>k. valid_idx v ! ((unat (rps_Pos rps) + k) mod length (valid_idx v))) [0..<length (valid_idx v)])"
    using rr_calls_eq [OF assms(1,2,5,3,4)] by (simp add: length_valid_idx)
  then show ?thesis
    using rotate_perm [of "valid_idx v" "unat (rps_Pos rps)"] assms(3)
    by (simp only: mset_map length_valid_idx)
qed

theorem RoundRobin_fair_witness:
  "mset (rr_calls (valid_count [True, False, True]) zeroRps [True, False, True]) =
     mset (map Some (valid_idx [True, False, True])) \<and> valid_idx [True, False, True] = [0, 2]"
proof -
  have "valid_count [True, False, True] = 2" by code_simp
  moreover have "valid_idx [True, False, True] = [0, 2]" by code_simp
  ultimately show ?thesis
    using RoundRobin_fair [of zeroRps "[True, False, True]"] by (simp add: zeroRps_def)
qed

section \<open>The life of a selector\<close>

inductive sel_step :: "rpcSelector \<Rightarrow> rpcSelector \<Rightarrow> bool" where
  call: "length (snd pass1) \<le> length (rps_Slist rps) \<Longrightarrow> length (snd pass2) \<le> length (rps_Slist rps) \<Longrightarrow>
    Rps_ThriftCall rps pass1 pass2 envs = Some (rps', err) \<Longrightarrow> sel_step rps rps'"
| notified: "health_notified rps envs closedAfter = Some rps' \<Longrightarrow> sel_step rps rps'"
| tick: "health_tick rps envs' closedAfter = Some rps' \<Longrightarrow> sel_step rps rps'"
| policy: "sel_step rps (SetShouldEject rps p)"
| close: "Rps_Close rps ctxErr poolErrs = Some (rps', err) \<Longrightarrow> sel_step rps rps'"

inductive sel_reachable :: "rpcSelector \<Rightarrow> bool" where
  init: "NewRpcPoolSelectorWithError conf results nows = Some (rps, None) \<Longrightarrow> sel_reachable rps"
| step: "sel_reachable rps \<Longrightarrow> sel_step rps rps' \<Longrightarrow> sel_reachable rps'"

definition pool_ok :: "gpool \<Rightarrow> bool" where
  "pool_ok gp \<longleftrightarrow> (\<exists>T ro. pool_reachable (gp, T, ro))"

definition sel_inv :: "rpcSelector \<Rightarrow> bool" where
  "sel_inv rps \<longleftrightarrow>
     (\<forall>s \<in> set (rps_Slist rps). pool_ok (rs_Gp s) \<and> (bs_Valid s = SVR_VALID \<or> bs_Valid s = SVR_NOTVALID)) \<and>
     rps_Slist rps \<noteq> [] \<and> length (rps_NotValid rps) \<le> rps_chanCap rps \<and>
     (\<forall>i \<in> set (rps_NotValid rps). i < length (rps_Slist rps)) \<and>
     (\<not> pingConfigured rps \<longrightarrow> (\<forall>s \<in> set (rps_Slist rps). bs_Valid s = SVR_VALID))"

lemma ThriftCall2_ok:
  assumes "pool_ok gp"
  obtains gp' err where "ThriftCall2 envs gp = Some (gp', err)" "pool_ok gp'"
proof -
  obtain T ro where R: "pool_reachable (gp, T, ro)" using assms by (auto simp: pool_ok_def)
  have "int 0 \<le> (if gp_RPCMaxRetries gp < 0 then 0 else gp_RPCMaxRetries gp)" by simp
  from thriftCall2Loop_reach [OF R this, of envs "''''"] that show thesis
    by (auto simp: ThriftCall2_def thriftCall2WithRetry_def Let_def pool_ok_def) blast
qed

text \<open>Replacing one server by one with a good pool and a good flag keeps the invariant.\<close>

lemma sel_inv_upd:
  assumes "sel_inv rps" "pool_ok (rs_Gp s)"
    "bs_Valid s = SVR_VALID \<or> (pingConfigured rps \<and> bs_Valid s = SVR_NOTVALID)"
  shows "sel_inv (rps\<lparr>rps_Slist := (rps_Slist rps)[i := s]\<rparr>)"
  using assms set_update_subset_insert [of "rps_Slist rps" i s]
  by (auto simp: sel_inv_def pingConfigured_def)

lemma handleCallError_inv:
  assumes inv: "sel_inv rps" and i: "i < length (rps_Slist rps)"
  shows "sel_inv (fst (handleCallError rps i err))" "snd (handleCallError rps i err) = err"
proof -
  let ?s = "rps_Slist rps ! i"
  have s: "pool_ok (rs_Gp ?s)" "bs_Valid ?s = SVR_VALID \<or> bs_Valid ?s = SVR_NOTVALID"
    "\<not> pingConfigured rps \<longrightarrow> bs_Valid ?s = SVR_VALID"
    using inv i by (auto simp: sel_inv_def)
  show "snd (handleCallError rps i err) = err"
    by (simp add: handleCallError_def Let_def split: option.splits prod.splits)
  show "sel_inv (fst (handleCallError rps i err))"
  proof (cases "(\<exists>e. err = Some e \<and> shouldEject rps e) \<and> pingConfigured rps")
    case False
    then show ?thesis using inv by (auto simp: handleCallError_def split: option.splits)
  next
    case True
    let ?rps = "rps\<lparr>rps_Slist := (rps_Slist rps)[i := ?s\<lparr>bs_Valid := SVR_NOTVALID\<rparr>]\<rparr>"
    have "sel_inv ?rps" by (rule sel_inv_upd [OF inv]) (use s True in auto)
    moreover have "sel_inv (?rps\<lparr>rps_NotValid := rps_NotValid rps @ [i]\<rparr>)"
      if "length (rps_NotValid rps) < rps_chanCap rps"
      using calculation i that by (auto simp: sel_inv_def pingConfigured_def)
    ultimately show ?thesis using True inv
      by (auto simp: handleCallError_def CompareAndSwapStat_def Let_def)
  qed
qed

lemma checkServerHealth_ok:
  assumes inv: "sel_inv rps" and i: "i < length (rps_Slist rps)"
  shows "\<exists>rps'. checkServerHealth rps i envs c = Some rps' \<and> sel_inv rps' \<and>
    length (rps_Slist rps') = length (rps_Slist rps)"
proof (cases "bs_Valid (rps_Slist rps ! i) = SVR_VALID \<or> rps_closed rps \<or> \<not> pingConfigured rps")
  case True
  then show ?thesis using inv by (auto simp: checkServerHealth_def Let_def)
next
  case False
  let ?s = "rps_Slist rps ! i"
  have s: "pool_ok (rs_Gp ?s)" "bs_Valid ?s = SVR_VALID \<or> bs_Valid ?s = SVR_NOTVALID"
    using inv i by (auto simp: sel_inv_def)
  obtain gp err where t: "ThriftCall2 envs (rs_Gp ?s) = Some (gp, err)" "pool_ok gp" by (rule ThriftCall2_ok [OF s(1)])
  define s' where "s' = (if err = None \<and> \<not> c then SetStat (?s\<lparr>rs_Gp := gp\<rparr>) SVR_VALID else ?s\<lparr>rs_Gp := gp\<rparr>)"
  have "checkServerHealth rps i envs c = Some (rps\<lparr>rps_Slist := (rps_Slist rps)[i := s']\<rparr>)"
    using False t by (simp add: checkServerHealth_def Let_def s'_def)
  moreover have "sel_inv (rps\<lparr>rps_Slist := (rps_Slist rps)[i := s']\<rparr>)"
    by (rule sel_inv_upd [OF inv]) (use False s t in \<open>auto simp: s'_def SetStat_def\<close>)
  ultimately show ?thesis by simp
qed

lemma nth_valid_less: "nth_valid v t 0 = Some i \<Longrightarrow> i < length v"
proof -
  assume "nth_valid v t 0 = Some i"
  then have "i \<in> set (valid_idx v)" by (auto simp: nth_valid_eq length_valid_idx split: if_splits)
  then show ?thesis by (simp add: valid_idx_def)
qed

lemma rr_passes_less:
  "rr_passes ps pos = Some (Some i, pos') \<Longrightarrow> \<forall>p \<in> set ps. length (snd p) \<le> n \<Longrightarrow> i < n"
  by (induction ps pos rule: rr_passes.induct)
    (auto simp: Let_def split: if_splits option.splits Option.bind_splits dest!: nth_valid_less intro: less_le_trans)

lemma rr_passes_total: "\<forall>p \<in> set ps. length (fst p) < 2 ^ 32 \<Longrightarrow> \<exists>r. rr_passes ps pos = Some r"
proof (induction ps pos rule: rr_passes.induct)
  case (2 scan1 scan2 rest pos)
  have "valid_count scan1 < 2 ^ 32" using 2(2) by (simp add: valid_count_def le_less_trans [OF length_filter_le])
  then show ?case using 2 count_nonzero [of "valid_count scan1"] by (auto simp: Let_def uint32_mod_def split: option.splits)
qed simp

lemma selectedServer_less:
  assumes "selectedServer rps p1 p2 = Some (r, rps')" "length (snd p1) \<le> n" "length (snd p2) \<le> n"
  shows "r = Inr i \<Longrightarrow> i < n" "\<exists>pos. rps' = rps\<lparr>rps_Pos := pos\<rparr>"
proof -
  show "i < n" if "r = Inr i"
    using assms that rr_passes_less [of "[p1, p2]" _ i _ n]
    by (auto simp: selectedServer_def Rps_RoundRobin_def split: option.splits if_splits Option.bind_splits)
  show "\<exists>pos. rps' = rps\<lparr>rps_Pos := pos\<rparr>"
    using assms(1) by (auto simp: selectedServer_def Rps_RoundRobin_def split: option.splits if_splits Option.bind_splits
        intro: exI [of _ "rps_Pos rps"])
qed

lemma selectedServer_total: "length (fst p1) < 2 ^ 32 \<Longrightarrow> length (fst p2) < 2 ^ 32 \<Longrightarrow> \<exists>r. selectedServer rps p1 p2 = Some r"
  using rr_passes_total [of "[p1, p2]" "rps_Pos rps"]
  by (auto simp: selectedServer_def Rps_RoundRobin_def split: option.splits)

lemma sel_inv_Pos: "sel_inv (rps\<lparr>rps_Pos := pos\<rparr>) = sel_inv rps"
  by (simp add: sel_inv_def pingConfigured_def)

lemma Rps_ThriftCall_ok:
  assumes inv: "sel_inv rps" and len: "length (snd p1) \<le> length (rps_Slist rps)" "length (snd p2) \<le> length (rps_Slist rps)"
    and sel: "selectedServer rps p1 p2 = Some (r, rps1)"
  shows "\<exists>rps' err. Rps_ThriftCall rps p1 p2 envs = Some (rps', err) \<and> sel_inv rps'"
proof -
  obtain pos where pos: "rps1 = rps\<lparr>rps_Pos := pos\<rparr>" using selectedServer_less(2) [OF sel len] ..
  show ?thesis
  proof (cases r)
    case (Inl e)
    with sel pos inv show ?thesis by (simp add: Rps_ThriftCall_def sel_inv_Pos)
  next
    case (Inr i)
    have i: "i < length (rps_Slist rps)" by (rule selectedServer_less(1) [OF sel len Inr])
    have inv1: "sel_inv rps1" using inv by (simp add: pos sel_inv_Pos)
    let ?s = "rps_Slist rps1 ! i"
    have i1: "i < length (rps_Slist rps1)" using i pos by simp
    then have s: "pool_ok (rs_Gp ?s)" "bs_Valid ?s = SVR_VALID \<or> (pingConfigured rps1 \<and> bs_Valid ?s = SVR_NOTVALID)"
      using inv1 nth_mem [OF i1] unfolding sel_inv_def by blast+
    obtain gp err where t: "ThriftCall2 envs (rs_Gp ?s) = Some (gp, err)" "pool_ok gp" by (rule ThriftCall2_ok [OF s(1)])
    let ?rps2 = "rps1\<lparr>rps_Slist := (rps_Slist rps1)[i := ?s\<lparr>rs_Gp := gp\<rparr>]\<rparr>"
    have "sel_inv ?rps2" by (rule sel_inv_upd [OF inv1]) (use s t in auto)
    then have "sel_inv (fst (handleCallError ?rps2 i err))" by (rule handleCallError_inv) (use i1 in simp)
    with sel Inr t show ?thesis by (cases "handleCallError ?rps2 i err") (simp add: Rps_ThriftCall_def)
  qed
qed

lemma health_scan_ok:
  "sel_inv rps \<Longrightarrow> i + n \<le> length (rps_Slist rps) \<Longrightarrow>
   \<exists>rps'. health_scan n i envs c rps = Some rps' \<and> sel_inv rps'"
proof (induction n arbitrary: i rps)
  case (Suc n)
  show ?case
  proof (cases "bs_Valid (rps_Slist rps ! i) = SVR_NOTVALID")
    case True
    obtain rps1 where "checkServerHealth rps i (envs i) c = Some rps1" "sel_inv rps1"
        "length (rps_Slist rps1) = length (rps_Slist rps)"
      using checkServerHealth_ok [OF Suc.prems(1), of i "envs i" c] Suc.prems(2) by auto
    with True Suc.IH [of rps1 "Suc i"] Suc.prems(2) show ?thesis by simp
  next
    case False
    with Suc show ?thesis by simp
  qed
qed simp

lemma health_notified_ok:
  assumes inv: "sel_inv rps" and r: "health_notified rps envs c = Some rps'"
  shows "sel_inv rps'"
proof -
  obtain i rest where nv: "rps_NotValid rps = i # rest" using r by (cases "rps_NotValid rps") (auto simp: health_notified_def)
  then have "sel_inv (rps\<lparr>rps_NotValid := rest\<rparr>)" "i < length (rps_Slist (rps\<lparr>rps_NotValid := rest\<rparr>))"
    using inv by (auto simp: sel_inv_def pingConfigured_def)
  from checkServerHealth_ok [OF this, of envs c] r nv show ?thesis by (auto simp: health_notified_def)
qed

lemma close_pools_ok:
  "\<forall>s \<in> set ss. pool_ok (rs_Gp s) \<and> Q (bs_Valid s) \<Longrightarrow>
   \<exists>ss'. close_pools ss = Some ss' \<and> length ss' = length ss \<and> (\<forall>s \<in> set ss'. pool_ok (rs_Gp s) \<and> Q (bs_Valid s))"
proof (induction ss)
  case (Cons s ss)
  then obtain T ro where R: "pool_reachable (rs_Gp s, T, ro)" by (auto simp: pool_ok_def)
  obtain ws where ws: "inv0 (rs_Gp s) ws T ro" "settled (rs_Gp s) ws"
    using pool_reachable_inv [OF R] by (rule pool_invE)
  obtain gp cl where c: "Close_enter (rs_Gp s) = Some (gp, cl)" using Close_enter_ok [OF ws] by blast
  have "pool_ok gp" unfolding pool_ok_def using reach_step [OF R pool_step.shutdown [OF c]] by blast
  with Cons c show ?case by fastforce
qed simp

lemma Rps_Close_ok:
  assumes "sel_inv rps"
  shows "\<exists>rps' err. Rps_Close rps ctxErr poolErrs = Some (rps', err) \<and> sel_inv rps' \<and> rps_closed rps'"
proof -
  have "\<forall>s \<in> set (rps_Slist rps). pool_ok (rs_Gp s) \<and>
      (bs_Valid s = SVR_VALID \<or> (pingConfigured rps \<and> bs_Valid s = SVR_NOTVALID))"
    using assms unfolding sel_inv_def by blast
  from close_pools_ok [OF this] obtain ss where ss: "close_pools (rps_Slist rps) = Some ss"
      "length ss = length (rps_Slist rps)"
      "\<forall>s \<in> set ss. pool_ok (rs_Gp s) \<and> (bs_Valid s = SVR_VALID \<or> (pingConfigured rps \<and> bs_Valid s = SVR_NOTVALID))"
    by blast
  moreover have "sel_inv (rps\<lparr>rps_closed := True, rps_healthCancel := False, rps_Slist := ss\<rparr>)"
    using ss(2,3) assms by (auto simp: sel_inv_def pingConfigured_def)
  ultimately show ?thesis by (simp add: Rps_Close_def)
qed

lemma init_servers_ok:
  "\<exists>ss. init_servers eps conf i results nows = Some ss \<and> length ss = length eps \<and>
     (\<forall>s \<in> set ss. pool_ok (rs_Gp s) \<and> bs_Valid s = SVR_VALID)"
proof (induction eps arbitrary: i)
  case (Cons ep eps)
  obtain gp where gp: "GpoolInit2 zeroGpool (ep_timeout ep) (gPoolConfig.truncate conf) (results i) (nows i) = Some gp"
    using GpoolInit2_ok by blast
  then have "pool_ok gp" unfolding pool_ok_def using pool_reachable.init by blast
  with gp Cons [of "Suc i"] show ?case by auto
qed simp

lemma parse_nonempty: "parseRPCPoolEndpoints addrs = Inr eps \<Longrightarrow> eps \<noteq> []"
  by (auto simp: parseRPCPoolEndpoints_def split: sum.splits if_splits)

lemma RpcPoolInit_ok:
  assumes "RpcPoolInit zeroRps conf cr results nows = Some (rps, None)"
  shows "sel_inv rps"
proof -
  obtain conf' eps where n: "normalizeRPCPoolConfig conf = (Some conf', Inr eps)"
    using assms by (auto simp: RpcPoolInit_def split: prod.splits sum.splits option.splits)
  then have "eps \<noteq> []"
    by (auto simp: normalizeRPCPoolConfig_def Let_def split: option.splits if_splits dest: parse_nonempty)
  moreover obtain ss where "init_servers eps conf' 0 results nows = Some ss" "length ss = length eps"
      "\<forall>s \<in> set ss. pool_ok (rs_Gp s) \<and> bs_Valid s = SVR_VALID"
    using init_servers_ok by blast
  ultimately show ?thesis
    using assms n
    by (auto simp: RpcPoolInit_def zeroRps_def startHealthChecker_def sel_inv_def pingConfigured_def Let_def split: if_splits)
qed

lemma sel_reachable_inv: "sel_reachable rps \<Longrightarrow> sel_inv rps"
proof (induction rule: sel_reachable.induct)
  case (init conf results nows rps)
  then show ?case using RpcPoolInit_ok by (simp add: NewRpcPoolSelectorWithError_def)
next
  case (step rps rps')
  from step.hyps(2) step.IH show ?case
  proof (induction rule: sel_step.induct)
    case (call p1 rps p2 envs rps' err)
    then obtain r rps1 where "selectedServer rps p1 p2 = Some (r, rps1)" by (auto simp: Rps_ThriftCall_def split: option.splits)
    with call Rps_ThriftCall_ok [of rps p1 p2 r rps1 envs] show ?case by auto
  next
    case (notified rps envs c rps')
    then show ?case using health_notified_ok by blast
  next
    case (tick rps envs c rps')
    then show ?case using health_scan_ok [of rps 0 "length (rps_Slist rps)" envs c] by (auto simp: health_tick_def)
  next
    case (policy rps p)
    then show ?case by (simp add: SetShouldEject_def sel_inv_def pingConfigured_def)
  next
    case (close rps ctxErr poolErrs rps' err)
    then show ?case using Rps_Close_ok [of rps ctxErr poolErrs] by auto
  qed
qed

section \<open>Properties of the selector\<close>

definition demo_eps :: "rpcPoolEndpoint list" where
  "demo_eps = [\<lparr>ep_addr = ''a'', ep_port = 1, ep_timeout = 5\<rparr>, \<lparr>ep_addr = ''b'', ep_port = 2, ep_timeout = 5\<rparr>]"

definition demo_conf :: "bool \<Rightarrow> rpcConfig" where
  "demo_conf ping = \<lparr>cf_MaxConns = 1, cf_MaxIdleConns = 1, cf_MaxWaiters = 0, cf_MaxConnLife = 0, cf_MaxIdleConnLife = 0,
     cf_RPCMaxRetries = 0, cf_PoolFIFO = False, cf_Addrs = Join (map showEndpoint demo_eps) CHR '','', cf_hasCfunc = True,
     cf_hasPing = ping, cf_PingTicker = 0\<rparr>"

definition demo_sel :: "bool \<Rightarrow> (rpcSelector \<times> error option) go" where
  "demo_sel ping = NewRpcPoolSelectorWithError (Some (demo_conf ping)) (\<lambda>_ _. Inr (0, 7)) (\<lambda>_ _. 0)"

lemma demo_normal:
  "\<exists>c. normalizeRPCPoolConfig (applyRPCPoolConfigDefaults (Some (demo_conf ping))) = (Some c, Inr demo_eps) \<and> cf_hasPing c = ping"
proof -
  have "\<forall>ep \<in> set demo_eps. goodEndpoint ep" by code_simp
  then have "parseRPCPoolEndpoints (Join (map showEndpoint demo_eps) CHR '','') = Inr demo_eps"
    by (rule parse_show [rotated]) (simp add: demo_eps_def)
  then show ?thesis
    by (simp add: applyRPCPoolConfigDefaults_def normalizeRPCPoolConfig_def demo_conf_def Let_def)
qed

lemma demo_sel_reachable:
  obtains rps where "demo_sel ping = Some (rps, None)" "sel_reachable rps" "length (rps_Slist rps) = 2"
    "pingConfigured rps = ping" "valid_flags rps = [True, True]" "rps_ejectPolicy rps = None"
proof -
  obtain c where c: "normalizeRPCPoolConfig (applyRPCPoolConfigDefaults (Some (demo_conf ping))) = (Some c, Inr demo_eps)"
      "cf_hasPing c = ping"
    using demo_normal by blast
  obtain ss where ss: "init_servers demo_eps c 0 (\<lambda>_ _. Inr (0, 7)) (\<lambda>_ _. 0) = Some ss" "length ss = length demo_eps"
      "\<forall>s \<in> set ss. pool_ok (rs_Gp s) \<and> bs_Valid s = SVR_VALID"
    using init_servers_ok by blast
  then obtain s1 s2 where s12: "ss = [s1, s2]"
    by (auto simp: demo_eps_def length_Suc_conv)
  define rps where "rps = (if ping then startHealthChecker else id) (zeroRps\<lparr>rps_Slist := ss, rps_Gpconf := Some c, rps_chanCap := 2\<rparr>)"
  have "demo_sel ping = Some (rps, None)"
    using c ss(1) by (simp add: demo_sel_def NewRpcPoolSelectorWithError_def RpcPoolInit_def zeroRps_def rps_def
        startHealthChecker_def Let_def demo_eps_def)
  moreover from this have "sel_reachable rps" unfolding demo_sel_def by (rule sel_reachable.init)
  ultimately show thesis
    using that ss(3) s12 c(2)
    by (auto simp: rps_def startHealthChecker_def zeroRps_def pingConfigured_def valid_flags_def)
qed

text \<open>
  C19: a selector of fewer than \<open>2 ^ 32\<close> servers never panics.  In every state its calls, its health checker and its shutdown can
  reach, a call through any validity snapshots, a health scan and a shutdown run to their end (the rotation never divides by
  zero, although the count of valid servers may change between its scans), all
  endpoint pools are in a reachable state, and the notification channel holds only its own servers.
\<close>

theorem selector_total:
  assumes "sel_reachable rps" "length (snd p1) \<le> length (rps_Slist rps)" "length (snd p2) \<le> length (rps_Slist rps)"
    and "length (fst p1) < 2 ^ 32" "length (fst p2) < 2 ^ 32"
  shows "Rps_ThriftCall rps p1 p2 envs \<noteq> None \<and> health_tick rps envs' c \<noteq> None \<and> Rps_Close rps ctxErr poolErrs \<noteq> None \<and>
    (rps_NotValid rps \<noteq> [] \<longrightarrow> health_notified rps envs c \<noteq> None) \<and>
    (\<forall>s \<in> set (rps_Slist rps). \<exists>T ro. pool_reachable (rs_Gp s, T, ro)) \<and>
    length (rps_NotValid rps) \<le> rps_chanCap rps \<and> (\<forall>i \<in> set (rps_NotValid rps). i < length (rps_Slist rps))"
proof -
  note inv = sel_reachable_inv [OF assms(1)]
  have "health_notified rps envs c \<noteq> None" if "rps_NotValid rps \<noteq> []"
  proof -
    from that obtain i rest where nv: "rps_NotValid rps = i # rest" by (auto simp: neq_Nil_conv)
    then have "sel_inv (rps\<lparr>rps_NotValid := rest\<rparr>)" "i < length (rps_Slist (rps\<lparr>rps_NotValid := rest\<rparr>))"
      using inv by (auto simp: sel_inv_def pingConfigured_def)
    from checkServerHealth_ok [OF this, of envs c] nv show ?thesis by (auto simp: health_notified_def)
  qed
  moreover have "health_tick rps envs' c \<noteq> None"
    using health_scan_ok [OF inv, of 0 "length (rps_Slist rps)" envs' c] by (auto simp: health_tick_def)
  moreover obtain r rps1 where "selectedServer rps p1 p2 = Some (r, rps1)" using selectedServer_total [OF assms(4,5)] by fastforce
  ultimately show ?thesis
    using Rps_ThriftCall_ok [OF inv assms(2,3), of r rps1 envs] Rps_Close_ok [OF inv, of ctxErr poolErrs] inv
    by (auto simp: sel_inv_def pool_ok_def)
qed

theorem selector_total_witness:
  "\<exists>rps. demo_sel True = Some (rps, None) \<and>
     Rps_ThriftCall rps ([True, True], [False, True]) ([True, True], [True, True]) (\<lambda>_. env_broken) \<noteq> None"
proof -
  obtain rps where r: "demo_sel True = Some (rps, None)" "sel_reachable rps" "length (rps_Slist rps) = 2"
    by (rule demo_sel_reachable)
  with selector_total [OF r(2), of "([True, True], [False, True])" "([True, True], [True, True])" "\<lambda>_. env_broken"]
  show ?thesis by auto
qed

text \<open>
  C34: ejection.  \<^verbatim>\<open>handleCallError\<close> hands the error back unchanged; it takes a valid server out of rotation
  exactly when a ping is configured and the error is one the policy ejects for, and then queues it for
  an immediate check unless the channel is full.  Without a ping no endpoint ever leaves the rotation.
\<close>

theorem selector_ejection:
  assumes "sel_reachable rps" "i < length (rps_Slist rps)"
  shows "snd (handleCallError rps i err) = err \<and>
    valid_flags (fst (handleCallError rps i err)) =
      (if pingConfigured rps \<and> (\<exists>e. err = Some e \<and> shouldEject rps e) then (valid_flags rps)[i := False] else valid_flags rps) \<and>
    rps_NotValid (fst (handleCallError rps i err)) =
      rps_NotValid rps @ (if pingConfigured rps \<and> (\<exists>e. err = Some e \<and> shouldEject rps e) \<and> valid_flags rps ! i \<and>
        length (rps_NotValid rps) < rps_chanCap rps then [i] else []) \<and>
    (\<not> pingConfigured rps \<longrightarrow> (\<forall>b \<in> set (valid_flags rps). b))"
proof -
  note inv = sel_reachable_inv [OF assms(1)]
  have flag: "bs_Valid (rps_Slist rps ! i) = SVR_VALID \<or> bs_Valid (rps_Slist rps ! i) = SVR_NOTVALID"
    using inv assms(2) by (auto simp: sel_inv_def)
  have ne: "SVR_NOTVALID \<noteq> SVR_VALID" by (simp add: SVR_VALID_def SVR_NOTVALID_def)
  have vf: "valid_flags rps ! i = (bs_Valid (rps_Slist rps ! i) = SVR_VALID)" using assms(2) by (simp add: valid_flags_def)
  have "\<not> pingConfigured rps \<longrightarrow> (\<forall>b \<in> set (valid_flags rps). b)"
    using inv by (auto simp: sel_inv_def valid_flags_def)
  moreover have "(valid_flags rps)[i := False] = valid_flags rps" if "bs_Valid (rps_Slist rps ! i) = SVR_NOTVALID"
    using that ne vf assms(2) by (metis list_update_id)
  ultimately show ?thesis using handleCallError_inv(2) [OF inv assms(2), of err] flag ne vf
    by (cases err) (auto simp: handleCallError_def CompareAndSwapStat_def Let_def valid_flags_def map_update)
qed

theorem selector_ejection_witness:
  "\<exists>rps. demo_sel True = Some (rps, None) \<and>
     valid_flags (fst (handleCallError rps 1 (Some [TProtocolException 1]))) = [True, False]"
proof -
  obtain rps where r: "demo_sel True = Some (rps, None)" "sel_reachable rps" "length (rps_Slist rps) = 2"
      "pingConfigured rps = True" "valid_flags rps = [True, True]" "rps_ejectPolicy rps = None"
    by (rule demo_sel_reachable)
  then have "shouldEject rps [TProtocolException 1]" by (simp add: shouldEject_def)
  with selector_ejection [OF r(2), of 1 "Some [TProtocolException 1]"] r show ?thesis by auto
qed

end
