(* ===== verification/RuleSelector.thy ===== *)
theory RuleSelector
  imports RpcSelector "HOL-Library.AList"
begin

text \<open>
  The rule-based selector (\<^verbatim>\<open>gpool/gpool_rule_selector.go\<close>): one \<open>rpcSelector\<close> per server group and a rule
  engine that picks the group.  The engine is third-party code: \<open>build\<close> (parsing and building a rule set)
  and \<open>execute\<close> (running it, giving the final value of \<^verbatim>\<open>RuleRet.Svr\<close>) are parameters.  \<^verbatim>\<open>RulePools\<close> is an
  association list.
\<close>

section \<open>Model\<close>

record ruleItem =
  ri_Name :: string
  ri_Description :: string
  ri_Salience :: int
  ri_When :: string
  ri_Then :: "string list"

record rpcServerConf =
  sc_Addr :: string
  sc_Rule :: string
  sc_Salience :: int
  sc_MaxConns :: int
  sc_MaxIdleConns :: int
  sc_MaxWaiters :: int
  sc_MaxConnLife :: int
  sc_MaxIdleConnLife :: int
  sc_PingTicker :: int

record ruleSelector =
  rrs_rlist :: "ruleItem list"
  rrs_pools :: "(string \<times> rpcSelector) list"
  rrs_grule :: "ruleItem list option"
  rrs_closed :: bool

definition NewRpcRulePoolSelector :: ruleSelector where
  "NewRpcRulePoolSelector = \<lparr>rrs_rlist = [], rrs_pools = [], rrs_grule = None, rrs_closed = False\<rparr>"

definition validateRpcServerAddrs :: "string \<Rightarrow> error option" where
  "validateRpcServerAddrs addrs = (case parseRPCPoolEndpoints addrs of Inl e \<Rightarrow> Some e | Inr _ \<Rightarrow> None)"

definition serverPoolConfig :: "rpcServerConf \<Rightarrow> bool \<Rightarrow> bool \<Rightarrow> rpcConfig" where
  "serverPoolConfig conf hasCfunc hasPing =
     \<lparr>cf_MaxConns = sc_MaxConns conf, cf_MaxIdleConns = sc_MaxIdleConns conf, cf_MaxWaiters = sc_MaxWaiters conf,
      cf_MaxConnLife = sc_MaxConnLife conf, cf_MaxIdleConnLife = sc_MaxIdleConnLife conf, cf_RPCMaxRetries = 0,
      cf_PoolFIFO = False, cf_Addrs = sc_Addr conf, cf_hasCfunc = hasCfunc, cf_hasPing = hasPing,
      cf_PingTicker = sc_PingTicker conf\<rparr>"

text \<open>\<^verbatim>\<open>AddSvr\<close> up to the write lock: the checks and the new selector.\<close>

definition AddSvr_prepare ::
  "ruleSelector \<Rightarrow> rpcServerConf option \<Rightarrow> bool \<Rightarrow> bool \<Rightarrow> (nat \<Rightarrow> nat \<Rightarrow> create_result) \<Rightarrow> (nat \<Rightarrow> nat \<Rightarrow> int) \<Rightarrow>
   (error + rpcServerConf \<times> rpcSelector) go" where
  "AddSvr_prepare rrs conf hasCfunc hasPing results nows =
     (if rrs_closed rrs then Some (Inl [ErrPoolClosed])
      else case conf of
        None \<Rightarrow> Some (Inl (errText ''server config must not be nil''))
      | Some conf \<Rightarrow>
          if TrimSpace (sc_Rule conf) = '''' then Some (Inl (errText ''server rule must not be empty''))
          else if \<not> hasCfunc then Some (Inl (errText ''create conn func must not be nil''))
          else (case validateRpcServerAddrs (sc_Addr conf) of
            Some e \<Rightarrow> Some (Inl e)
          | None \<Rightarrow> do {
              (rps, err) \<leftarrow> RpcPoolInit zeroRps
                (applyRPCPoolConfigDefaults (Some (serverPoolConfig conf hasCfunc hasPing))) None results nows;
              (case err of Some e \<Rightarrow> Some (Inl e) | None \<Rightarrow> Some (Inr (conf, rps)))
            }))"

definition ruleOf :: "rpcServerConf \<Rightarrow> nat \<Rightarrow> ruleItem" where
  "ruleOf conf n =
     \<lparr>ri_Name = ''rpc_pool_rule_'' @ Itoa (int n), ri_Description = sc_Addr conf, ri_Salience = sc_Salience conf,
      ri_When = sc_Rule conf, ri_Then = [''R.Set('' @ CHR 0x27 # sc_Addr conf @ CHR 0x27 # '')'', ''Complete()'']\<rparr>"

text \<open>
  The part under the write lock and what follows it.  It finds the selector closed if \<^verbatim>\<open>Close\<close> ran in
  between.  The second component is the selector that was replaced, after its own \<^verbatim>\<open>Close\<close>, or the new one
  that has to go.
\<close>

definition AddSvr_commit ::
  "ruleSelector \<Rightarrow> rpcServerConf \<Rightarrow> rpcSelector \<Rightarrow> error option \<Rightarrow> (ruleSelector \<times> rpcSelector option \<times> error option) go" where
  "AddSvr_commit rrs conf rps ctxErr =
     (if rrs_closed rrs then do {
        (rps, _) \<leftarrow> Rps_Close rps None [];
        Some (rrs, Some rps, Some [ErrPoolClosed])
      } else
        let previous = map_of (rrs_pools rrs) (sc_Addr conf);
            rrs = rrs\<lparr>rrs_pools := AList.update (sc_Addr conf) rps (rrs_pools rrs),
                      rrs_rlist := rrs_rlist rrs @ [ruleOf conf (length (rrs_rlist rrs))]\<rparr> in
        (case previous of
           None \<Rightarrow> Some (rrs, None, None)
         | Some p \<Rightarrow> do { (p, _) \<leftarrow> Rps_Close p ctxErr []; Some (rrs, Some p, None) }))"

text \<open>\<^verbatim>\<open>ParseRule\<close>: the snapshot of the rules is built and installed; \<open>rrs2\<close> is the state the second lock finds.\<close>

definition ParseRule_begin :: "ruleSelector \<Rightarrow> error + ruleItem list" where
  "ParseRule_begin rrs =
     (if rrs_closed rrs then Inl [ErrPoolClosed]
      else if rrs_rlist rrs = [] then Inl (errText ''no rule configured'')
      else Inr (rrs_rlist rrs))"

definition ParseRule_install ::
  "(ruleItem list \<Rightarrow> error option) \<Rightarrow> ruleItem list \<Rightarrow> ruleSelector \<Rightarrow> ruleSelector \<times> error option" where
  "ParseRule_install build rules rrs =
     (case build rules of
        Some e \<Rightarrow> (rrs, Some e)
      | None \<Rightarrow>
          if rrs_closed rrs then (rrs, Some [ErrPoolClosed])
          else (rrs\<lparr>rrs_grule := Some rules\<rparr>, None))"

definition rulePoolByRet :: "ruleSelector \<Rightarrow> string \<Rightarrow> error + string \<times> rpcSelector" where
  "rulePoolByRet rrs svr =
     (if svr = '''' then Inl (errText ''no rule matched'')
      else if rrs_closed rrs then Inl [ErrPoolClosed]
      else case map_of (rrs_pools rrs) svr of
        None \<Rightarrow> Inl (errText ''rule matched unknown server'')
      | Some rps \<Rightarrow> Inr (svr, rps))"

definition SvrSelectFromDataCtx ::
  "(ruleItem list \<Rightarrow> 'd \<Rightarrow> error + string) \<Rightarrow> ruleSelector \<Rightarrow> 'd \<Rightarrow> error option \<Rightarrow> error + string \<times> rpcSelector" where
  "SvrSelectFromDataCtx execute rrs data addErr =
     (if rrs_closed rrs then Inl [ErrPoolClosed]
      else case rrs_grule rrs of
        None \<Rightarrow> Inl (errText ''rule selector is not initialized'')
      | Some kb \<Rightarrow>
          (case addErr of
             Some e \<Rightarrow> Inl e
           | None \<Rightarrow> (case execute kb data of Inl e \<Rightarrow> Inl e | Inr svr \<Rightarrow> rulePoolByRet rrs svr)))"

text \<open>\<open>addJSON\<close> is the engine's parser of the JSON facts.\<close>

definition SvrSelectFromJson ::
  "(ruleItem list \<Rightarrow> 'd \<Rightarrow> error + string) \<Rightarrow> (string \<Rightarrow> string \<Rightarrow> error + 'd) \<Rightarrow> ruleSelector \<Rightarrow> string \<Rightarrow> string \<Rightarrow>
   error option \<Rightarrow> error + string \<times> rpcSelector" where
  "SvrSelectFromJson execute addJSON rrs jData jDataKey addErr =
     (if rrs_closed rrs then Inl [ErrPoolClosed]
      else case rrs_grule rrs of
        None \<Rightarrow> Inl (errText ''rule selector is not initialized'')
      | Some kb \<Rightarrow>
          (case addJSON jDataKey jData of
             Inl e \<Rightarrow> Inl e
           | Inr data \<Rightarrow>
               (case addErr of
                  Some e \<Rightarrow> Inl e
                | None \<Rightarrow> (case execute kb data of Inl e \<Rightarrow> Inl e | Inr svr \<Rightarrow> rulePoolByRet rrs svr))))"

primrec close_selectors :: "(string \<times> rpcSelector) list \<Rightarrow> error option \<Rightarrow> (string \<times> rpcSelector) list go" where
  "close_selectors [] ctxErr = Some []"
| "close_selectors (p # ps) ctxErr = do {
     (rps, _) \<leftarrow> Rps_Close (snd p) ctxErr [];
     ps \<leftarrow> close_selectors ps ctxErr;
     Some ((fst p, rps) # ps)
   }"

definition Rrs_Close :: "ruleSelector \<Rightarrow> error option \<Rightarrow> error list \<Rightarrow> (ruleSelector \<times> error option) go" where
  "Rrs_Close rrs ctxErr errs = do {
     let rrs = (if \<not> rrs_closed rrs then rrs\<lparr>rrs_closed := True, rrs_grule := None\<rparr> else rrs);
     ps \<leftarrow> close_selectors (rrs_pools rrs) ctxErr;
     Some (rrs\<lparr>rrs_pools := ps\<rparr>, fold (\<lambda>e closeErr. errors_Join closeErr (Some e)) errs None)
   }"

section \<open>The life of a rule selector\<close>

text \<open>Rules are never removed, so the snapshot that is built is still part of the list when it is installed.\<close>

inductive rule_reachable :: "(ruleItem list \<Rightarrow> error option) \<Rightarrow> ruleSelector \<Rightarrow> bool" for build where
  new: "rule_reachable build NewRpcRulePoolSelector"
| add: "rule_reachable build rrs0 \<Longrightarrow> AddSvr_prepare rrs0 conf hasCfunc hasPing results nows = Some (Inr (conf', rps)) \<Longrightarrow>
    rule_reachable build rrs \<Longrightarrow> AddSvr_commit rrs conf' rps ctxErr = Some (rrs', old, err) \<Longrightarrow> rule_reachable build rrs'"
| parse: "rule_reachable build rrs0 \<Longrightarrow> ParseRule_begin rrs0 = Inr rules \<Longrightarrow> set rules \<subseteq> set (rrs_rlist rrs) \<Longrightarrow>
    rule_reachable build rrs \<Longrightarrow> ParseRule_install build rules rrs = (rrs', err) \<Longrightarrow> rule_reachable build rrs'"
| close: "rule_reachable build rrs \<Longrightarrow> Rrs_Close rrs ctxErr errs = Some (rrs', err) \<Longrightarrow> rule_reachable build rrs'"

definition rule_inv :: "ruleSelector \<Rightarrow> bool" where
  "rule_inv rrs \<longleftrightarrow>
     (\<forall>r \<in> set (rrs_rlist rrs). ri_Description r \<in> fst ` set (rrs_pools rrs)) \<and>
     (\<forall>kb. rrs_grule rrs = Some kb \<longrightarrow> set kb \<subseteq> set (rrs_rlist rrs)) \<and>
     (\<forall>i < length (rrs_rlist rrs). ri_Name (rrs_rlist rrs ! i) = ''rpc_pool_rule_'' @ Itoa (int i)) \<and>
     (\<forall>p \<in> set (rrs_pools rrs). sel_inv (snd p)) \<and>
     (rrs_closed rrs \<longrightarrow> rrs_grule rrs = None)"

lemma prepare_inv:
  "AddSvr_prepare rrs conf c p results nows = Some (Inr (conf', rps)) \<Longrightarrow> sel_inv rps"
  using RpcPoolInit_ok by (fastforce simp: AddSvr_prepare_def Option.bind_eq_Some_conv split: if_splits option.splits)

lemma commit_inv:
  assumes inv: "rule_inv rrs" and rps: "sel_inv rps" and c: "AddSvr_commit rrs conf rps ctxErr = Some (rrs', old, err)"
  shows "rule_inv rrs'"
proof (cases "rrs_closed rrs")
  case True
  then show ?thesis using inv c by (auto simp: AddSvr_commit_def Option.bind_eq_Some_conv)
next
  case False
  let ?r = "rrs\<lparr>rrs_pools := AList.update (sc_Addr conf) rps (rrs_pools rrs),
                rrs_rlist := rrs_rlist rrs @ [ruleOf conf (length (rrs_rlist rrs))]\<rparr>"
  have r': "rrs' = ?r"
    using False c by (auto simp: AddSvr_commit_def Let_def Option.bind_eq_Some_conv split: option.splits)
  have sub: "set (AList.update k v al) \<subseteq> insert (k, v) (set al)" for k :: string and v :: rpcSelector and al
    by (induction al) auto
  have "fst ` set (AList.update k v al) = insert k (fst ` set al)" for k :: string and v :: rpcSelector and al
    by (induction al) auto
  moreover have "\<forall>p \<in> set (AList.update (sc_Addr conf) rps (rrs_pools rrs)). sel_inv (snd p)"
    using sub [of "sc_Addr conf" rps "rrs_pools rrs"] inv rps by (auto simp: rule_inv_def)
  ultimately show ?thesis
    using inv False unfolding r' by (auto simp: rule_inv_def ruleOf_def nth_append less_Suc_eq)
qed

lemma close_selectors_ok:
  "\<forall>p \<in> set ps. sel_inv (snd p) \<Longrightarrow>
   \<exists>ps'. close_selectors ps ctxErr = Some ps' \<and> map fst ps' = map fst ps \<and> (\<forall>p \<in> set ps'. sel_inv (snd p) \<and> rps_closed (snd p))"
proof (induction ps)
  case (Cons p ps)
  obtain rps err where "Rps_Close (snd p) ctxErr [] = Some (rps, err)" "sel_inv rps" "rps_closed rps"
    using Rps_Close_ok [of "snd p"] Cons.prems by fastforce
  with Cons show ?case by auto
qed simp

lemma rule_reachable_inv: "rule_reachable build rrs \<Longrightarrow> rule_inv rrs"
proof (induction rule: rule_reachable.induct)
  case new
  then show ?case by (simp add: rule_inv_def NewRpcRulePoolSelector_def)
next
  case (add rrs0 conf c p results nows conf' rps rrs ctxErr rrs' old err)
  then show ?case using prepare_inv commit_inv by blast
next
  case (parse rrs0 rules rrs rrs' err)
  then show ?case by (auto simp: ParseRule_install_def rule_inv_def split: option.splits if_splits)
next
  case (close rrs ctxErr errs rrs' err)
  obtain ps where ps: "close_selectors (rrs_pools rrs) ctxErr = Some ps" "map fst ps = map fst (rrs_pools rrs)"
      "\<forall>p \<in> set ps. sel_inv (snd p) \<and> rps_closed (snd p)"
    using close_selectors_ok [of "rrs_pools rrs" ctxErr] close.IH by (auto simp: rule_inv_def)
  have "fst ` set ps = fst ` set (rrs_pools rrs)" using ps(2) by (metis list.set_map)
  with close ps(1,3) show ?case
    by (auto simp: Rrs_Close_def rule_inv_def Let_def Option.bind_eq_Some_conv split: if_splits)
qed

section \<open>Properties\<close>

lemma map_of_key: "k \<in> fst ` set ps \<Longrightarrow> \<exists>v. map_of ps k = Some v"
  by (metis domIff dom_map_of_conv_image_fst option.exhaust)

lemma select_cases:
  assumes inv: "rule_inv rrs"
    and eng: "\<forall>kb d svr. execute kb d = Inr svr \<longrightarrow> svr = '''' \<or> svr \<in> ri_Description ` set kb"
  shows "(case SvrSelectFromDataCtx execute rrs d addErr of
      Inr (svr, rps) \<Rightarrow> map_of (rrs_pools rrs) svr = Some rps \<and> (\<exists>r \<in> set (rrs_rlist rrs). ri_Description r = svr)
    | Inl e \<Rightarrow> e \<noteq> errText ''rule matched unknown server'' \<or> addErr = Some e \<or> (\<exists>kb. execute kb d = Inl e))"
proof (cases "rrs_closed rrs \<or> rrs_grule rrs = None \<or> addErr \<noteq> None")
  case True
  have "[ErrPoolClosed] \<noteq> errText s" "errText ''rule selector is not initialized'' \<noteq> errText ''rule matched unknown server''" for s
    by (simp_all add: errText_def)
  with True show ?thesis by (cases "rrs_closed rrs"; cases "rrs_grule rrs"; cases addErr) (simp_all add: SvrSelectFromDataCtx_def)
next
  case False
  then obtain kb where kb: "rrs_grule rrs = Some kb" "\<not> rrs_closed rrs" "addErr = None" by auto
  then have sub: "set kb \<subseteq> set (rrs_rlist rrs)" using inv by (simp add: rule_inv_def)
  show ?thesis
  proof (cases "execute kb d")
    case (Inl e)
    then show ?thesis using kb by (auto simp: SvrSelectFromDataCtx_def)
  next
    case (Inr svr)
    then consider "svr = ''''" | r where "svr \<noteq> ''''" "r \<in> set kb" "svr = ri_Description r" using eng by blast
    then show ?thesis
    proof cases
      case 1
      have ne: "errText ''no rule matched'' \<noteq> errText ''rule matched unknown server''" by (simp add: errText_def)
      have "SvrSelectFromDataCtx execute rrs d addErr = Inl (errText ''no rule matched'')"
        using kb Inr 1 by (simp add: SvrSelectFromDataCtx_def rulePoolByRet_def)
      with ne show ?thesis by simp
    next
      case 2
      with sub have r: "r \<in> set (rrs_rlist rrs)" by blast
      then have "svr \<in> fst ` set (rrs_pools rrs)" using inv 2 by (simp add: rule_inv_def)
      from map_of_key [OF this] obtain rps where rps: "map_of (rrs_pools rrs) svr = Some rps" ..
      then have "SvrSelectFromDataCtx execute rrs d addErr = Inr (svr, rps)"
        using kb Inr 2(1) by (simp add: SvrSelectFromDataCtx_def rulePoolByRet_def)
      with rps 2(3) r show ?thesis by auto
    qed
  qed
qed

text \<open>A group of two servers and its selector after \<^verbatim>\<open>AddSvr\<close> and \<^verbatim>\<open>ParseRule\<close>.\<close>

definition demo_group :: rpcServerConf where
  "demo_group = \<lparr>sc_Addr = Join (map showEndpoint demo_eps) CHR '','', sc_Rule = ''true'', sc_Salience = 1, sc_MaxConns = 1,
     sc_MaxIdleConns = 1, sc_MaxWaiters = 1, sc_MaxConnLife = 0, sc_MaxIdleConnLife = 0, sc_PingTicker = 0\<rparr>"

definition first_rule :: "ruleItem list \<Rightarrow> unit \<Rightarrow> error + string" where
  "first_rule kb d = (case kb of [] \<Rightarrow> Inr '''' | r # _ \<Rightarrow> Inr (ri_Description r))"

lemma demo_parse: "parseRPCPoolEndpoints (sc_Addr demo_group) = Inr demo_eps"
proof -
  have "\<forall>ep \<in> set demo_eps. goodEndpoint ep" by code_simp
  moreover have "sc_Addr demo_group = Join (map showEndpoint demo_eps) CHR '',''" by (simp add: demo_group_def)
  moreover have "demo_eps \<noteq> []" by (simp add: demo_eps_def)
  ultimately show ?thesis using parse_show by presburger
qed

lemma demo_rule_reachable:
  obtains rrs rps where "rule_reachable (\<lambda>_. None) rrs" "rrs_grule rrs = Some [ruleOf demo_group 0]"
    "rrs_pools rrs = [(sc_Addr demo_group, rps)]" "rrs_rlist rrs = [ruleOf demo_group 0]" "\<not> rrs_closed rrs"
proof -
  have "\<not> space_byte (CHR ''t'') \<and> \<not> space_byte (CHR ''e'')" by code_simp
  then have "TrimSpace ''true'' = ''true''"
    by (intro TrimSpace_id) simp
  then have trim: "TrimSpace (sc_Rule demo_group) \<noteq> ''''" by (simp add: demo_group_def)
  have val: "validateRpcServerAddrs (sc_Addr demo_group) = None"
    by (simp add: validateRpcServerAddrs_def demo_parse)
  obtain c where "normalizeRPCPoolConfig (applyRPCPoolConfigDefaults (Some (serverPoolConfig demo_group True False))) = (Some c, Inr demo_eps)"
    using demo_parse by (simp add: applyRPCPoolConfigDefaults_def normalizeRPCPoolConfig_def serverPoolConfig_def Let_def demo_group_def)
  moreover obtain ss where ss: "init_servers demo_eps c 0 (\<lambda>_ _. Inr (0, 7)) (\<lambda>_ _. 0) = Some ss"
    using init_servers_ok by blast
  ultimately obtain rps where "RpcPoolInit zeroRps (applyRPCPoolConfigDefaults (Some (serverPoolConfig demo_group True False))) None
      (\<lambda>_ _. Inr (0, 7)) (\<lambda>_ _. 0) = Some (rps, None)"
    by (simp add: RpcPoolInit_def zeroRps_def Let_def)
  then have p:
    "AddSvr_prepare NewRpcRulePoolSelector (Some demo_group) True False (\<lambda>_ _. Inr (0, 7)) (\<lambda>_ _. 0) = Some (Inr (demo_group, rps))"
    using trim val by (simp add: AddSvr_prepare_def NewRpcRulePoolSelector_def)
  define rrs1 where "rrs1 = \<lparr>rrs_rlist = [ruleOf demo_group 0], rrs_pools = [(sc_Addr demo_group, rps)], rrs_grule = None, rrs_closed = False\<rparr>"
  have c1: "AddSvr_commit NewRpcRulePoolSelector demo_group rps None = Some (rrs1, None, None)"
    by (simp add: AddSvr_commit_def NewRpcRulePoolSelector_def rrs1_def)
  have r1: "rule_reachable (\<lambda>_. None) rrs1"
    by (rule rule_reachable.add [OF rule_reachable.new p rule_reachable.new c1])
  have b: "ParseRule_begin rrs1 = Inr [ruleOf demo_group 0]" by (simp add: ParseRule_begin_def rrs1_def)
  have i: "ParseRule_install (\<lambda>_. None) [ruleOf demo_group 0] rrs1 = (rrs1\<lparr>rrs_grule := Some [ruleOf demo_group 0]\<rparr>, None)"
    by (simp add: ParseRule_install_def rrs1_def)
  have "rule_reachable (\<lambda>_. None) (rrs1\<lparr>rrs_grule := Some [ruleOf demo_group 0]\<rparr>)"
    by (rule rule_reachable.parse [OF r1 b _ r1 i]) (simp add: rrs1_def)
  then show thesis by (rule that) (simp_all add: rrs1_def)
qed

text \<open>
  Rule selection is sound.  Provided the engine only ever sets \<^verbatim>\<open>R\<close> through a rule of the set it runs,
  a successful selection returns the pool registered under the address of one of the configured rules,
  and the error for an unknown server cannot come from the selector itself, also after servers were
  added, replaced or re-parsed.
\<close>

theorem rule_select_sound:
  assumes "rule_reachable build rrs"
    "\<forall>kb d svr. execute kb d = Inr svr \<longrightarrow> svr = '''' \<or> svr \<in> ri_Description ` set kb"
  shows "case SvrSelectFromDataCtx execute rrs d addErr of
      Inr (svr, rps) \<Rightarrow> map_of (rrs_pools rrs) svr = Some rps \<and> (\<exists>r \<in> set (rrs_rlist rrs). ri_Description r = svr)
    | Inl e \<Rightarrow> e \<noteq> errText ''rule matched unknown server'' \<or> addErr = Some e \<or> (\<exists>kb. execute kb d = Inl e)"
  by (rule select_cases [OF rule_reachable_inv [OF assms(1)] assms(2)])

theorem rule_select_sound_witness:
  "\<exists>rrs rps. rule_reachable (\<lambda>_. None) rrs \<and> SvrSelectFromDataCtx first_rule rrs () None = Inr (sc_Addr demo_group, rps) \<and>
     map_of (rrs_pools rrs) (sc_Addr demo_group) = Some rps"
proof -
  obtain rrs rps where r: "rule_reachable (\<lambda>_. None) rrs" "rrs_grule rrs = Some [ruleOf demo_group 0]"
      "rrs_pools rrs = [(sc_Addr demo_group, rps)]" "rrs_rlist rrs = [ruleOf demo_group 0]" "\<not> rrs_closed rrs"
    by (rule demo_rule_reachable)
  have ne: "sc_Addr demo_group \<noteq> ''''" by (simp add: demo_group_def demo_eps_def showEndpoint_def)
  have s: "SvrSelectFromDataCtx first_rule rrs () None = Inr (sc_Addr demo_group, rps)"
    using r ne by (simp add: SvrSelectFromDataCtx_def first_rule_def ruleOf_def rulePoolByRet_def)
  have "\<forall>kb d svr. first_rule kb d = Inr svr \<longrightarrow> svr = '''' \<or> svr \<in> ri_Description ` set kb"
    by (auto simp: first_rule_def split: list.splits)
  from rule_select_sound [OF r(1) this, where d = "()" and addErr = None] s r(1) show ?thesis by auto
qed

text \<open>
  A closed rule selector stays shut.  After \<^verbatim>\<open>Close\<close> every selector it owned is closed and every
  further operation fails with \<^verbatim>\<open>ErrPoolClosed\<close>: adding a server before or after its preparation, parsing and
  both forms of selection.
\<close>

theorem rule_close_final:
  assumes "rule_reachable build rrs"
  shows "\<exists>rrs' err. Rrs_Close rrs ctxErr errs = Some (rrs', err) \<and> rrs_closed rrs' \<and>
    (\<forall>p \<in> set (rrs_pools rrs'). rps_closed (snd p)) \<and>
    AddSvr_prepare rrs' conf c p results nows = Some (Inl [ErrPoolClosed]) \<and>
    (sel_reachable rps \<longrightarrow> (\<exists>rps'. AddSvr_commit rrs' conf' rps ctxErr = Some (rrs', Some rps', Some [ErrPoolClosed]) \<and> rps_closed rps')) \<and>
    ParseRule_begin rrs' = Inl [ErrPoolClosed] \<and>
    SvrSelectFromDataCtx execute rrs' d addErr = Inl [ErrPoolClosed] \<and>
    SvrSelectFromJson execute addJSON rrs' jData jKey addErr = Inl [ErrPoolClosed]"
proof -
  have "\<forall>p \<in> set (rrs_pools rrs). sel_inv (snd p)" using rule_reachable_inv [OF assms] by (simp add: rule_inv_def)
  then obtain ps where ps: "close_selectors (rrs_pools rrs) ctxErr = Some ps" "\<forall>p \<in> set ps. rps_closed (snd p)"
    using close_selectors_ok by blast
  obtain rrs' err where r: "Rrs_Close rrs ctxErr errs = Some (rrs', err)" "rrs_closed rrs'" "rrs_pools rrs' = ps"
    using ps(1) by (cases "rrs_closed rrs") (auto simp: Rrs_Close_def Let_def)
  have "\<exists>rps'. AddSvr_commit rrs' conf' rps ctxErr = Some (rrs', Some rps', Some [ErrPoolClosed]) \<and> rps_closed rps'"
    if "sel_reachable rps"
    using Rps_Close_ok [OF sel_reachable_inv [OF that], of None "[]"] r(2) by (auto simp: AddSvr_commit_def)
  with r ps(2) show ?thesis
    by (intro exI [of _ rrs'] exI [of _ err])
      (simp add: AddSvr_prepare_def ParseRule_begin_def SvrSelectFromDataCtx_def SvrSelectFromJson_def)
qed

theorem rule_close_final_witness:
  "\<exists>rrs rrs' err. Rrs_Close rrs None [] = Some (rrs', err) \<and> rrs_closed rrs' \<and>
     SvrSelectFromDataCtx first_rule rrs' () None = Inl [ErrPoolClosed]"
proof -
  obtain rrs rps where r: "rule_reachable (\<lambda>_. None) rrs" by (rule demo_rule_reachable)
  from rule_close_final [OF r, of None "[]" None True True "\<lambda>_ _. Inr (0, 7)" "\<lambda>_ _. 0" zeroRps demo_group first_rule "()" None
      "\<lambda>_ _. Inl []" "''''" "''''"]
  show ?thesis by blast
qed

end
