(* ===== verification/Snowflake.thy ===== *)
theory Snowflake
  imports Go_Prelude "HOL-Library.Word"
begin

text \<open>
  The snowflake generator (\<^verbatim>\<open>util/snowflake.go\<close>).  \<^verbatim>\<open>int64\<close> values are 64-bit words compared as signed
  numbers, \<^verbatim>\<open>uint8\<close> values 8-bit words.  The readings of the clock are arguments: the first one of a call
  and the list of those its waiting loop takes.
\<close>

unbundle bit_operations_syntax

section \<open>Generator\<close>

record snowflake =
  sf_timestamp :: "64 word"
  sf_workerID :: "64 word"
  sf_dataID :: "64 word"
  sf_sequence :: "64 word"
  sf_epoch :: "64 word"
  sf_wkBits :: "8 word"
  sf_dataBits :: "8 word"
  sf_seqBits :: "8 word"
  sf_maxWorker :: "64 word"
  sf_maxData :: "64 word"
  sf_maxSeq :: "64 word"
  sf_wkShift :: "8 word"
  sf_dataShift :: "8 word"
  sf_timeShift :: "8 word"

datatype option_fn = WithEpoch "64 word" | WithWorkerBits "8 word" | WithDataBits "8 word" | WithSequenceBits "8 word"

fun apply_option :: "option_fn \<Rightarrow> snowflake \<Rightarrow> error + snowflake" where
  "apply_option (WithEpoch epoch) s =
     (if sint epoch \<le> 0 then Inl [ErrorText ''epoch must be positive''] else Inr (s\<lparr>sf_epoch := epoch\<rparr>))"
| "apply_option (WithWorkerBits bits) s =
     (if bits \<le> 0 \<or> bits > 20 then Inl [ErrorText ''worker bits must be between 1 and 20'']
      else Inr (s\<lparr>sf_wkBits := bits\<rparr>))"
| "apply_option (WithDataBits bits) s =
     (if bits \<le> 0 \<or> bits > 20 then Inl [ErrorText ''data bits must be between 1 and 20'']
      else Inr (s\<lparr>sf_dataBits := bits\<rparr>))"
| "apply_option (WithSequenceBits bits) s =
     (if bits \<le> 0 \<or> bits > 20 then Inl [ErrorText ''sequence bits must be between 1 and 20'']
      else Inr (s\<lparr>sf_seqBits := bits\<rparr>))"

fun apply_options :: "option_fn list \<Rightarrow> snowflake \<Rightarrow> error + snowflake" where
  "apply_options [] s = Inr s"
| "apply_options (opt # opts) s =
     (case apply_option opt s of Inl e \<Rightarrow> Inl e | Inr s \<Rightarrow> apply_options opts s)"

definition defaultSnowflake :: snowflake where
  "defaultSnowflake =
     \<lparr>sf_timestamp = 0, sf_workerID = 0, sf_dataID = 0, sf_sequence = 0, sf_epoch = 1609459200000,
      sf_wkBits = 5, sf_dataBits = 5, sf_seqBits = 12, sf_maxWorker = 0, sf_maxData = 0, sf_maxSeq = 0,
      sf_wkShift = 0, sf_dataShift = 0, sf_timeShift = 0\<rparr>"

definition shl :: "64 word \<Rightarrow> 8 word \<Rightarrow> 64 word" where
  "shl x n = push_bit (unat n) x"

definition sar :: "64 word \<Rightarrow> 8 word \<Rightarrow> 64 word" where
  "sar x n = signed_drop_bit (unat n) x"

definition NewSnowflake :: "64 word \<Rightarrow> 64 word \<Rightarrow> option_fn list \<Rightarrow> error + snowflake" where
  "NewSnowflake workerID dataID options =
     (case apply_options options defaultSnowflake of
        Inl e \<Rightarrow> Inl e
      | Inr s \<Rightarrow>
          let s = s\<lparr>sf_maxWorker := shl 1 (sf_wkBits s) - 1, sf_maxData := shl 1 (sf_dataBits s) - 1,
                    sf_maxSeq := shl 1 (sf_seqBits s) - 1\<rparr> in
          if sint workerID < 0 \<or> sint workerID > sint (sf_maxWorker s) then Inl [ErrorText ''invalid worker ID'']
          else if sint dataID < 0 \<or> sint dataID > sint (sf_maxData s) then Inl [ErrorText ''invalid data ID'']
          else Inr (s\<lparr>sf_wkShift := sf_seqBits s, sf_dataShift := sf_seqBits s + sf_wkBits s,
                      sf_timeShift := sf_seqBits s + sf_wkBits s + sf_dataBits s, sf_workerID := workerID,
                      sf_dataID := dataID, sf_sequence := 0, sf_timestamp := 0\<rparr>))"

text \<open>The loop that waits for the next millisecond; \<open>None\<close> when no reading of the list is past \<open>timestamp\<close>.\<close>

fun spin :: "64 word list \<Rightarrow> 64 word \<Rightarrow> 64 word option" where
  "spin [] timestamp = None"
| "spin (now # later) timestamp = (if sint now \<le> sint timestamp then spin later timestamp else Some now)"

definition composeID :: "snowflake \<Rightarrow> 64 word \<Rightarrow> 64 word" where
  "composeID s now =
     shl (now - sf_epoch s) (sf_timeShift s) OR shl (sf_dataID s) (sf_dataShift s) OR
     shl (sf_workerID s) (sf_wkShift s) OR sf_sequence s"

definition NextID :: "snowflake \<Rightarrow> 64 word \<Rightarrow> 64 word list \<Rightarrow> (snowflake \<times> (error + 64 word)) option" where
  "NextID s now later =
     (if sint now < sint (sf_timestamp s) then Some (s, Inl [ErrorText ''clock moved backwards''])
      else
        case (if now = sf_timestamp s
              then let s = s\<lparr>sf_sequence := sf_sequence s + 1\<rparr> in
                   if sint (sf_sequence s) > sint (sf_maxSeq s)
                   then map_option (\<lambda>now. (now, s\<lparr>sf_sequence := 0\<rparr>)) (spin later (sf_timestamp s))
                   else Some (now, s)
              else Some (now, s\<lparr>sf_sequence := 0\<rparr>)) of
          None \<Rightarrow> None
        | Some (now, s) \<Rightarrow>
            let s = s\<lparr>sf_timestamp := now\<rparr> in Some (s, Inr (composeID s now)))"

record parsedID =
  p_timestamp :: "64 word"
  p_dataID :: "64 word"
  p_workerID :: "64 word"
  p_sequence :: "64 word"

definition ParseID :: "snowflake \<Rightarrow> 64 word \<Rightarrow> parsedID" where
  "ParseID s i =
     \<lparr>p_timestamp = sar i (sf_timeShift s) + sf_epoch s, p_dataID = sar i (sf_dataShift s) AND sf_maxData s,
      p_workerID = sar i (sf_wkShift s) AND sf_maxWorker s, p_sequence = i AND sf_maxSeq s\<rparr>"

section \<open>Well-formed generators\<close>

definition field_ok :: "64 word \<Rightarrow> nat \<Rightarrow> bool" where
  "field_ok x n \<longleftrightarrow> unat x < 2 ^ n"

definition sf_inv :: "snowflake \<Rightarrow> bool" where
  "sf_inv s \<longleftrightarrow>
     (let w = unat (sf_wkBits s); d = unat (sf_dataBits s); q = unat (sf_seqBits s) in
      0 < w \<and> w \<le> 20 \<and> 0 < d \<and> d \<le> 20 \<and> 0 < q \<and> q \<le> 20 \<and>
      sf_maxWorker s = mask w \<and> sf_maxData s = mask d \<and> sf_maxSeq s = mask q \<and>
      unat (sf_wkShift s) = q \<and> unat (sf_dataShift s) = q + w \<and> unat (sf_timeShift s) = q + w + d \<and>
      field_ok (sf_workerID s) w \<and> field_ok (sf_dataID s) d \<and> field_ok (sf_sequence s) q)"

text \<open>A reading of the clock the generator has room for.\<close>

definition time_ok :: "snowflake \<Rightarrow> 64 word \<Rightarrow> bool" where
  "time_ok s now \<longleftrightarrow> field_ok (now - sf_epoch s) (63 - unat (sf_timeShift s))"

lemma field_bit: "field_ok x n \<Longrightarrow> bit x i \<Longrightarrow> i < n"
proof -
  assume "field_ok x n" "bit x i"
  then have "take_bit n x = x"
    by (metis field_ok_def take_bit_nat_eq_self unsigned_take_bit_eq word_unat_eq_iff)
  with \<open>bit x i\<close> show ?thesis by (metis bit_take_bit_iff)
qed

lemma compose_bit:
  assumes inv: "sf_inv s" and i: "i < 64"
  shows "bit (composeID s now) i \<longleftrightarrow>
    (let w = unat (sf_wkBits s); d = unat (sf_dataBits s); q = unat (sf_seqBits s) in
     if i < q then bit (sf_sequence s) i
     else if i < q + w then bit (sf_workerID s) (i - q)
     else if i < q + w + d then bit (sf_dataID s) (i - (q + w))
     else bit (now - sf_epoch s) (i - (q + w + d)))"
proof -
  define w d q where wdq: "w = unat (sf_wkBits s)" "d = unat (sf_dataBits s)" "q = unat (sf_seqBits s)"
  have f: "bit (sf_workerID s) j \<Longrightarrow> j < w" "bit (sf_dataID s) j \<Longrightarrow> j < d" "bit (sf_sequence s) j \<Longrightarrow> j < q" for j
    using inv field_bit by (auto simp: sf_inv_def Let_def wdq)
  have "bit (composeID s now) i \<longleftrightarrow>
      i \<ge> q + w + d \<and> bit (now - sf_epoch s) (i - (q + w + d)) \<or>
      i \<ge> q + w \<and> bit (sf_dataID s) (i - (q + w)) \<or> i \<ge> q \<and> bit (sf_workerID s) (i - q) \<or> bit (sf_sequence s) i"
    using inv i by (simp add: composeID_def shl_def sf_inv_def bit_or_iff bit_push_bit_iff Let_def wdq)
  moreover have "\<not> (i \<ge> q + w + d \<and> bit (sf_dataID s) (i - (q + w)))" "\<not> (i \<ge> q + w \<and> bit (sf_workerID s) (i - q))"
    "\<not> (i \<ge> q \<and> bit (sf_sequence s) i)"
    using f(2) [of "i - (q + w)"] f(1) [of "i - q"] f(3) [of i] by auto
  ultimately show ?thesis unfolding Let_def wdq [symmetric] by auto
qed

lemma parse_compose:
  assumes inv: "sf_inv s" and now: "time_ok s now"
  shows "ParseID s (composeID s now) =
    \<lparr>p_timestamp = now, p_dataID = sf_dataID s, p_workerID = sf_workerID s, p_sequence = sf_sequence s\<rparr>"
proof -
  define w d q where wdq: "w = unat (sf_wkBits s)" "d = unat (sf_dataBits s)" "q = unat (sf_seqBits s)"
  have b: "w \<le> 20" "d \<le> 20" "q \<le> 20" "sf_maxWorker s = mask w" "sf_maxData s = mask d" "sf_maxSeq s = mask q"
    "unat (sf_wkShift s) = q" "unat (sf_dataShift s) = q + w" "unat (sf_timeShift s) = q + w + d"
    using inv by (auto simp: sf_inv_def Let_def wdq)
  have f: "bit (sf_workerID s) j \<Longrightarrow> j < w" "bit (sf_dataID s) j \<Longrightarrow> j < d" "bit (sf_sequence s) j \<Longrightarrow> j < q"
    "bit (now - sf_epoch s) j \<Longrightarrow> j < 63 - (q + w + d)" for j
    using inv now field_bit by (auto simp: sf_inv_def time_ok_def Let_def wdq)
  note bit = compose_bit [OF inv, folded wdq, unfolded Let_def]
  have "composeID s now AND sf_maxSeq s = sf_sequence s"
    using b f(3) by (intro bit_word_eqI) (auto simp: bit bit_and_iff bit_mask_iff)
  moreover have "sar (composeID s now) (sf_wkShift s) AND sf_maxWorker s = sf_workerID s"
  proof (rule bit_word_eqI)
    fix i
    show "bit (sar (composeID s now) (sf_wkShift s) AND sf_maxWorker s) i = bit (sf_workerID s) i"
      using b f(1) [of i] by (auto simp: sar_def bit_signed_drop_bit_iff bit bit_and_iff bit_mask_iff)
  qed
  moreover have "sar (composeID s now) (sf_dataShift s) AND sf_maxData s = sf_dataID s"
  proof (rule bit_word_eqI)
    fix i
    show "bit (sar (composeID s now) (sf_dataShift s) AND sf_maxData s) i = bit (sf_dataID s) i"
      using b f(2) [of i] by (auto simp: sar_def bit_signed_drop_bit_iff bit bit_and_iff bit_mask_iff)
  qed
  moreover have "sar (composeID s now) (sf_timeShift s) = now - sf_epoch s"
  proof (rule bit_word_eqI)
    fix i assume "i < LENGTH(64)"
    then show "bit (sar (composeID s now) (sf_timeShift s)) i = bit (now - sf_epoch s) i"
      using b f(4) [of i] f(4) [of "63 - (q + w + d)"] by (auto simp: sar_def bit_signed_drop_bit_iff bit)
  qed
  ultimately show ?thesis by (simp add: ParseID_def)
qed


section \<open>Initialisation and steps\<close>

lemma sint_small: "unat (x :: 64 word) < 2 ^ 63 \<Longrightarrow> sint x = int (unat x)"
  by (simp add: sint_uint signed_take_bit_int_eq_self uint_nat del: of_nat_unat)

lemma word_sint_inj: "sint (x :: 64 word) = sint y \<Longrightarrow> x = y"
  by (metis signed_word_eqI)

lemma unat_shl1: "n \<le> 20 \<Longrightarrow> shl 1 n - 1 = mask (unat n)"
  by (simp add: shl_def mask_eq_exp_minus_1 push_bit_eq_mult)

lemma unat_of_nat64: "x < 2 ^ 64 \<Longrightarrow> unat (word_of_nat x :: 64 word) = x"
  by (simp add: unsigned_of_nat take_bit_nat_eq_self)

lemma unat_mask64: "n \<le> 20 \<Longrightarrow> unat (mask n :: 64 word) = 2 ^ n - 1"
proof -
  assume "n \<le> 20"
  then have "(2 :: nat) ^ n \<le> 2 ^ 20" by (rule power_increasing) simp
  then have "unat (word_of_nat (2 ^ n - 1) :: 64 word) = 2 ^ n - 1" by (intro unat_of_nat64) simp
  then show ?thesis by (simp add: mask_eq_exp_minus_1 of_nat_diff)
qed

lemma sint_mask64: "n \<le> 20 \<Longrightarrow> sint (mask n :: 64 word) = 2 ^ n - 1"
proof -
  assume n: "n \<le> 20"
  then have "(2 :: nat) ^ n \<le> 2 ^ 20" by (rule power_increasing) simp
  then have "unat (mask n :: 64 word) < 2 ^ 63" by (simp add: unat_mask64 [OF n])
  then show ?thesis by (simp add: sint_small unat_mask64 [OF n] of_nat_diff del: of_nat_unat)
qed

lemma sint_nonneg: "0 \<le> sint (x :: 64 word) \<Longrightarrow> unat x = nat (sint x)"
proof -
  assume "0 \<le> sint x"
  then have "x = word_of_nat (nat (sint x))" by simp
  moreover have "nat (sint x) < 2 ^ 64" using sint_lt [of x] by simp
  ultimately show ?thesis by (metis unat_of_nat64)
qed

lemma field_mask:
  assumes "0 \<le> sint x" "sint x \<le> sint (mask n :: 64 word)" "n \<le> 20"
  shows "field_ok x n"
proof -
  have "sint x < 2 ^ n" using assms sint_mask64 by simp
  then show ?thesis using sint_nonneg [OF assms(1)] unfolding field_ok_def by (simp add: nat_less_iff)
qed


definition bits_ok :: "snowflake \<Rightarrow> bool" where
  "bits_ok s \<longleftrightarrow>
     unat (sf_wkBits s) \<in> {1..20} \<and> unat (sf_dataBits s) \<in> {1..20} \<and> unat (sf_seqBits s) \<in> {1..20}"

lemma bits_range: "\<not> (bits \<le> (0 :: 8 word) \<or> bits > 20) \<Longrightarrow> unat bits \<in> {1..20}"
  by (simp add: word_less_nat_alt word_le_nat_alt)

lemma apply_options_bits: "apply_options opts s = Inr s' \<Longrightarrow> bits_ok s \<Longrightarrow> bits_ok s'"
proof (induction opts s rule: apply_options.induct)
  case (2 opt opts s)
  then obtain s1 where s1: "apply_option opt s = Inr s1" "apply_options opts s1 = Inr s'"
    by (auto split: sum.splits)
  moreover have "bits_ok s1"
    using s1(1) 2(3) bits_range by (cases opt) (auto simp: bits_ok_def split: if_splits)
  ultimately show ?case using 2(1) by simp
qed simp

lemma NewSnowflake_inv:
  assumes "NewSnowflake workerID dataID opts = Inr s"
  shows "sf_inv s" "sf_workerID s = workerID" "sf_dataID s = dataID"
proof -
  obtain s0 where s0: "apply_options opts defaultSnowflake = Inr s0"
    using assms by (auto simp: NewSnowflake_def split: sum.splits)
  have b: "bits_ok s0" using apply_options_bits [OF s0] by (simp add: bits_ok_def defaultSnowflake_def)
  have le: "sf_wkBits s0 \<le> 20" "sf_dataBits s0 \<le> 20" "sf_seqBits s0 \<le> 20"
    using b by (simp_all add: bits_ok_def word_le_nat_alt)
  have m: "shl 1 (sf_wkBits s0) - 1 = mask (unat (sf_wkBits s0))" "shl 1 (sf_dataBits s0) - 1 = mask (unat (sf_dataBits s0))"
    "shl 1 (sf_seqBits s0) - 1 = mask (unat (sf_seqBits s0))"
    using le by (simp_all add: unat_shl1)
  have sums: "unat (sf_seqBits s0 + sf_wkBits s0) = unat (sf_seqBits s0) + unat (sf_wkBits s0)"
    "unat (sf_seqBits s0 + sf_wkBits s0 + sf_dataBits s0) = unat (sf_seqBits s0) + unat (sf_wkBits s0) + unat (sf_dataBits s0)"
    using b by (simp_all add: bits_ok_def unat_word_ariths)
  have ok: "0 \<le> sint workerID" "sint workerID \<le> sint (mask (unat (sf_wkBits s0)) :: 64 word)"
    "0 \<le> sint dataID" "sint dataID \<le> sint (mask (unat (sf_dataBits s0)) :: 64 word)"
    using assms s0 unfolding NewSnowflake_def Let_def by (simp_all add: m split: if_splits)
  have s: "s = s0\<lparr>sf_maxWorker := mask (unat (sf_wkBits s0)), sf_maxData := mask (unat (sf_dataBits s0)),
      sf_maxSeq := mask (unat (sf_seqBits s0)), sf_wkShift := sf_seqBits s0, sf_dataShift := sf_seqBits s0 + sf_wkBits s0,
      sf_timeShift := sf_seqBits s0 + sf_wkBits s0 + sf_dataBits s0, sf_workerID := workerID,
      sf_dataID := dataID, sf_sequence := 0, sf_timestamp := 0\<rparr>"
    using assms s0 unfolding NewSnowflake_def Let_def by (simp add: m split: if_splits)
  show "sf_inv s" "sf_workerID s = workerID" "sf_dataID s = dataID"
    using b sums field_mask [OF ok(1,2)] field_mask [OF ok(3,4)]
    by (simp_all add: s sf_inv_def Let_def bits_ok_def field_ok_def)
qed

text \<open>What a step keeps: everything but the timestamp and the sequence number.\<close>

definition layout :: "snowflake \<Rightarrow> snowflake" where
  "layout s = s\<lparr>sf_timestamp := 0, sf_sequence := 0\<rparr>"

text \<open>The stamp of a state; it grows with every identifier.\<close>

definition stamp :: "snowflake \<Rightarrow> int \<times> nat" where
  "stamp s = (sint (sf_timestamp s), unat (sf_sequence s))"

definition later_stamp :: "int \<times> nat \<Rightarrow> int \<times> nat \<Rightarrow> bool" where
  "later_stamp a b \<longleftrightarrow> fst a < fst b \<or> fst a = fst b \<and> snd a < snd b"

lemma spin_later: "spin later t = Some now \<Longrightarrow> sint t < sint now \<and> now \<in> set later"
  by (induction later t rule: spin.induct) (auto split: if_splits)

lemma NextID_step:
  assumes inv: "sf_inv s" and step: "NextID s now later = Some (s', Inr i)"
  shows "sf_inv s'" "layout s' = layout s" "i = composeID s' (sf_timestamp s')" "later_stamp (stamp s) (stamp s')"
    "sf_timestamp s' \<in> insert now (set later)"
proof -
  define q where q: "q = unat (sf_seqBits s)"
  have seq: "unat (sf_sequence s) < 2 ^ q" "q \<le> 20" "sf_maxSeq s = mask q"
    using inv by (auto simp: sf_inv_def Let_def q field_ok_def)
  have p20: "(2 :: nat) ^ q \<le> 2 ^ 20" using seq(2) by (rule power_increasing) simp
  have succ: "unat (sf_sequence s + 1) = unat (sf_sequence s) + 1"
    using seq(1) p20 by (simp add: unat_word_ariths)
  have ssucc: "sint (sf_sequence s + 1) = int (unat (sf_sequence s)) + 1"
    using seq(1) p20 by (subst sint_small) (simp_all add: succ)
  consider (same) "now = sf_timestamp s" "unat (sf_sequence s) + 1 < 2 ^ q"
      "s' = s\<lparr>sf_sequence := sf_sequence s + 1\<rparr>" "i = composeID s' (sf_timestamp s')"
    | (wait) now' where "now = sf_timestamp s" "spin later (sf_timestamp s) = Some now'"
      "s' = s\<lparr>sf_sequence := 0, sf_timestamp := now'\<rparr>" "i = composeID s' (sf_timestamp s')"
    | (new) "now \<noteq> sf_timestamp s" "sint (sf_timestamp s) \<le> sint now"
      "s' = s\<lparr>sf_sequence := 0, sf_timestamp := now\<rparr>" "i = composeID s' (sf_timestamp s')"
  proof -
    show thesis
    proof (cases "now = sf_timestamp s")
      case True
      show thesis
      proof (cases "sint (sf_sequence s + 1) > sint (sf_maxSeq s)")
        case over: True
        then show thesis
          using step True wait by (auto simp: NextID_def Let_def split: option.splits)
      next
        case False
        then have "int (unat (sf_sequence s)) + 1 \<le> 2 ^ q - 1"
          using sint_mask64 [OF seq(2)] ssucc seq(3) by simp
        then have "int (unat (sf_sequence s) + 1) < int (2 ^ q)" by simp
        then have "unat (sf_sequence s) + 1 < 2 ^ q" by (simp only: of_nat_less_iff)
        with False show thesis using step True same by (auto simp: NextID_def Let_def)
      qed
    next
      case False
      then show thesis using step new by (auto simp: NextID_def Let_def split: if_splits)
    qed
  qed
  then have "sf_inv s' \<and> layout s' = layout s \<and> i = composeID s' (sf_timestamp s') \<and> later_stamp (stamp s) (stamp s') \<and>
    sf_timestamp s' \<in> insert now (set later)"
  proof cases
    case same
    then show ?thesis using inv succ by (simp add: sf_inv_def Let_def layout_def later_stamp_def stamp_def field_ok_def q)
  next
    case wait
    then show ?thesis using inv spin_later [OF wait(2)] by (simp add: sf_inv_def Let_def layout_def later_stamp_def stamp_def field_ok_def)
  next
    case new
    then have "sint (sf_timestamp s) < sint now" by (metis order_le_less word_sint_inj)
    with new inv show ?thesis by (simp add: sf_inv_def Let_def layout_def later_stamp_def stamp_def field_ok_def)
  qed
  then show "sf_inv s'" "layout s' = layout s" "i = composeID s' (sf_timestamp s')" "later_stamp (stamp s) (stamp s')"
    "sf_timestamp s' \<in> insert now (set later)" by blast+
qed


section \<open>Runs\<close>

text \<open>
  A run: one element per call, the first reading of the clock and the readings of the waiting loop.
  Calls that fail because the clock went back contribute no identifier.
\<close>

fun run_ids :: "snowflake \<Rightarrow> (64 word \<times> 64 word list) list \<Rightarrow> (snowflake \<times> 64 word list) option" where
  "run_ids s [] = Some (s, [])"
| "run_ids s ((now, later) # calls) =
     (case NextID s now later of
        None \<Rightarrow> None
      | Some (s, Inl _) \<Rightarrow> run_ids s calls
      | Some (s, Inr i) \<Rightarrow> map_option (\<lambda>(s, ids). (s, i # ids)) (run_ids s calls))"

definition clock_ok :: "snowflake \<Rightarrow> (64 word \<times> 64 word list) list \<Rightarrow> bool" where
  "clock_ok s calls \<longleftrightarrow> (\<forall>(now, later) \<in> set calls. \<forall>t \<in> insert now (set later). time_ok s t)"

lemma layout_simps:
  assumes "layout s' = layout s"
  shows "time_ok s' = time_ok s" "clock_ok s' = clock_ok s" "ParseID s' = ParseID s"
    "sf_dataID s' = sf_dataID s" "sf_workerID s' = sf_workerID s"
proof -
  have "sf_timeShift s' = sf_timeShift s" "sf_epoch s' = sf_epoch s" "sf_dataShift s' = sf_dataShift s"
    "sf_wkShift s' = sf_wkShift s" "sf_maxData s' = sf_maxData s" "sf_maxWorker s' = sf_maxWorker s" "sf_maxSeq s' = sf_maxSeq s"
    and ids: "sf_dataID s' = sf_dataID s" "sf_workerID s' = sf_workerID s"
    using assms by (cases s; cases s'; auto simp: layout_def)+
  then show "time_ok s' = time_ok s" "ParseID s' = ParseID s"
    by (auto simp: time_ok_def ParseID_def fun_eq_iff)
  then show "clock_ok s' = clock_ok s" by (auto simp: clock_ok_def fun_eq_iff)
  show "sf_dataID s' = sf_dataID s" "sf_workerID s' = sf_workerID s" by (fact ids)+
qed

text \<open>The stamp of an identifier, read back by \<open>ParseID\<close>.\<close>

definition id_stamp :: "snowflake \<Rightarrow> 64 word \<Rightarrow> int \<times> nat" where
  "id_stamp s i = (sint (p_timestamp (ParseID s i)), unat (p_sequence (ParseID s i)))"

lemma later_trans: "later_stamp a b \<Longrightarrow> later_stamp b c \<Longrightarrow> later_stamp a c"
  by (auto simp: later_stamp_def)

lemma NextID_error: "NextID s now later = Some (s', Inl e) \<Longrightarrow> s' = s"
  by (auto simp: NextID_def Let_def split: if_splits option.splits)

lemma NextID_parse:
  assumes "sf_inv s" "NextID s now later = Some (s', Inr i)" "\<forall>t \<in> insert now (set later). time_ok s t"
  shows "ParseID s i = \<lparr>p_timestamp = sf_timestamp s', p_dataID = sf_dataID s, p_workerID = sf_workerID s,
    p_sequence = sf_sequence s'\<rparr>"
proof -
  note n = NextID_step [OF assms(1,2)]
  have "time_ok s' (sf_timestamp s')" using n(5) assms(3) layout_simps(1) [OF n(2)] by metis
  then show ?thesis
    using parse_compose [OF n(1)] n(3) layout_simps(3-5) [OF n(2)] by simp
qed

lemma run_ids_stamps:
  assumes "run_ids s calls = Some (s', ids)" "sf_inv s" "clock_ok s calls"
  shows "distinct ids \<and> (\<forall>i \<in> set ids. later_stamp (stamp s) (id_stamp s i) \<and>
      p_dataID (ParseID s i) = sf_dataID s \<and> p_workerID (ParseID s i) = sf_workerID s) \<and>
    sf_inv s' \<and> layout s' = layout s"
  using assms
proof (induction s calls arbitrary: ids rule: run_ids.induct)
  case (2 s now later calls)
  have ok: "\<forall>t \<in> insert now (set later). time_ok s t" "clock_ok s calls" using 2(5) by (auto simp: clock_ok_def)
  show ?case
  proof (cases "NextID s now later")
    case None
    then show ?thesis using 2(3) by simp
  next
    case (Some r)
    obtain s1 res where r: "r = (s1, res)" by (cases r)
    show ?thesis
    proof (cases res)
      case (Inl e)
      then have "s1 = s" using NextID_error Some r by blast
      then show ?thesis using 2(1) [OF Some] 2(3,4) ok(2) Some r Inl by simp
    next
      case (Inr i)
      then have step: "NextID s now later = Some (s1, Inr i)" using Some r by simp
      note n = NextID_step [OF 2(4) step]
      obtain ids1 where ids: "ids = i # ids1" "run_ids s1 calls = Some (s', ids1)"
        using 2(3) step by auto
      note l = layout_simps [OF n(2)]
      have IH: "distinct ids1" "\<forall>i \<in> set ids1. later_stamp (stamp s1) (id_stamp s i) \<and>
          p_dataID (ParseID s i) = sf_dataID s \<and> p_workerID (ParseID s i) = sf_workerID s" "sf_inv s'" "layout s' = layout s"
        using 2(2) [OF Some r [symmetric] Inr ids(2) n(1)] ok(2) l n(2) by (simp_all add: id_stamp_def)
      note p = NextID_parse [OF 2(4) step ok(1)]
      have i: "id_stamp s i = stamp s1" by (simp add: id_stamp_def stamp_def p)
      have "i \<notin> set ids1" using IH(2) i by (fastforce simp: later_stamp_def)
      moreover have "later_stamp (stamp s) (id_stamp s j)" if "j \<in> set ids1" for j
        using that IH(2) n(4) later_trans by blast
      ultimately show ?thesis using IH n(4) i ids(1) p by simp
    qed
  qed
qed simp

section \<open>Properties\<close>

text \<open>
  An identifier carries its parts.  Whatever options a generator was created with and whatever it
  produced before, \<^verbatim>\<open>ParseID\<close> of the next identifier gives back the millisecond it was issued in, the data
  centre, the worker and the sequence number, as long as the clock is within the range of the time field.
\<close>

theorem snowflake_parse_next:
  assumes "NewSnowflake workerID dataID options = Inr s0" "run_ids s0 calls = Some (s, ids)" "clock_ok s0 calls"
    "NextID s now later = Some (s', Inr i)" "clock_ok s0 [(now, later)]"
  shows "ParseID s0 i = \<lparr>p_timestamp = sf_timestamp s', p_dataID = dataID, p_workerID = workerID, p_sequence = sf_sequence s'\<rparr> \<and>
    sf_timestamp s' \<in> insert now (set later) \<and> sint (sf_timestamp s) \<le> sint (sf_timestamp s')"
proof -
  note init = NewSnowflake_inv [OF assms(1)]
  have r: "sf_inv s" "layout s = layout s0" using run_ids_stamps [OF assms(2) init(1) assms(3)] by auto
  note l = layout_simps [OF r(2)]
  have "\<forall>t \<in> insert now (set later). time_ok s t" using assms(5) l(1) by (simp add: clock_ok_def)
  from NextID_parse [OF r(1) assms(4) this] NextID_step [OF r(1) assms(4)] l init(2,3) show ?thesis
    by (auto simp: later_stamp_def stamp_def)
qed


text \<open>
  C22: identifiers are unique as long as every reading of the clock is at or after the epoch of the generator and its distance from it fits
  the time field, that is, the bits that the worker, data-centre and sequence fields leave (\<open>clock_ok\<close>).  Then all identifiers of one
  generator are distinct, also across overflows of the sequence number and clocks that stand still or jump back, and two generators with
  the same options but another worker or data centre never issue a common identifier.
\<close>

theorem snowflake_unique:
  assumes "NewSnowflake workerID dataID options = Inr s" "run_ids s calls = Some (s', ids)" "clock_ok s calls"
  shows "distinct ids \<and>
    (\<forall>workerID2 dataID2 s2 calls2 s2' ids2. NewSnowflake workerID2 dataID2 options = Inr s2 \<longrightarrow>
       run_ids s2 calls2 = Some (s2', ids2) \<longrightarrow> clock_ok s2 calls2 \<longrightarrow> (workerID2, dataID2) \<noteq> (workerID, dataID) \<longrightarrow>
       set ids \<inter> set ids2 = {})"
proof -
  note init = NewSnowflake_inv [OF assms(1)]
  note r = run_ids_stamps [OF assms(2) init(1) assms(3)]
  have "set ids \<inter> set ids2 = {}"
    if 2: "NewSnowflake workerID2 dataID2 options = Inr s2" "run_ids s2 calls2 = Some (s2', ids2)" "clock_ok s2 calls2"
      "(workerID2, dataID2) \<noteq> (workerID, dataID)" for workerID2 dataID2 s2 calls2 s2' ids2
  proof -
    note init2 = NewSnowflake_inv [OF 2(1)]
    note r2 = run_ids_stamps [OF 2(2) init2(1) 2(3)]
    have "ParseID s2 = ParseID s"
      using assms(1) 2(1) by (auto simp: NewSnowflake_def Let_def ParseID_def fun_eq_iff split: sum.splits if_splits)
    then show ?thesis using r r2 init(2,3) init2(2,3) 2(4) by (metis disjoint_iff prod.inject)
  qed
  with r show ?thesis by blast
qed


text \<open>A generator with the default layout, and two calls in the same millisecond.\<close>

definition demo_gen :: "64 word \<Rightarrow> snowflake" where
  "demo_gen w = defaultSnowflake\<lparr>sf_workerID := w, sf_dataID := 2, sf_maxWorker := 31,
    sf_maxData := 31, sf_maxSeq := 4095, sf_wkShift := 12, sf_dataShift := 17, sf_timeShift := 22\<rparr>"

definition demo_calls :: "(64 word \<times> 64 word list) list" where
  "demo_calls = [(1609459200005, []), (1609459200005, [])]"

lemma demo_new: "NewSnowflake 1 2 [] = Inr (demo_gen 1)" "NewSnowflake 3 2 [] = Inr (demo_gen 3)"
  by (simp_all add: NewSnowflake_def demo_gen_def defaultSnowflake_def shl_def)

lemma demo_run:
  "run_ids (demo_gen 1) demo_calls =
     Some (demo_gen 1\<lparr>sf_timestamp := 1609459200005, sf_sequence := 1\<rparr>, [21237760, 21237761])"
  by code_simp

lemma demo_run2:
  "run_ids (demo_gen 3) demo_calls =
     Some (demo_gen 3\<lparr>sf_timestamp := 1609459200005, sf_sequence := 1\<rparr>, [21245952, 21245953])"
  by code_simp

lemma demo_clock: "clock_ok (demo_gen 1) demo_calls" "clock_ok (demo_gen 3) demo_calls"
  by (simp_all add: clock_ok_def demo_calls_def demo_gen_def defaultSnowflake_def time_ok_def field_ok_def)

theorem snowflake_parse_next_witness:
  "ParseID (demo_gen 1) 21237762 = \<lparr>p_timestamp = 1609459200005, p_dataID = 2, p_workerID = 1, p_sequence = 2\<rparr>"
proof -
  have n: "NextID (demo_gen 1\<lparr>sf_timestamp := 1609459200005, sf_sequence := 1\<rparr>) 1609459200005 [] =
      Some (demo_gen 1\<lparr>sf_timestamp := 1609459200005, sf_sequence := 2\<rparr>, Inr 21237762)"
    by code_simp
  have "clock_ok (demo_gen 1) [(1609459200005, [])]"
    by (simp add: clock_ok_def demo_gen_def defaultSnowflake_def time_ok_def field_ok_def)
  from snowflake_parse_next [OF demo_new(1) demo_run demo_clock(1) n this] show ?thesis by (simp add: demo_gen_def)
qed

theorem snowflake_unique_witness:
  "distinct [21237760, 21237761 :: 64 word] \<and> {21237760, 21237761 :: 64 word} \<inter> {21245952, 21245953} = {}"
proof -
  note u = snowflake_unique [OF demo_new(1) demo_run demo_clock(1)]
  from conjunct1 [OF u] have "distinct [21237760, 21237761 :: 64 word]" .
  moreover have "set [21237760, 21237761 :: 64 word] \<inter> set [21245952, 21245953] = {}"
    using conjunct2 [OF u] demo_new(2) demo_run2 demo_clock(2) by fastforce
  ultimately show ?thesis by simp
qed

text \<open>
  Nothing keeps room for the time.  Options may give 20 bits to each of the three fields; the time
  is then shifted by 60 bits and only its last four bits remain, so two identifiers 16 milliseconds apart
  are equal.
\<close>

theorem snowflake_wide_collision:
  "case NewSnowflake 0 0 [WithWorkerBits 20, WithDataBits 20, WithSequenceBits 20] of
     Inl e \<Rightarrow> False
   | Inr s \<Rightarrow> (case run_ids s [(1609459200001, []), (1609459200017, [])] of
       Some (_, [i, j]) \<Rightarrow> i = j
     | _ \<Rightarrow> False)"
  by code_simp

end
