(* ===== verification/CasQueue.thy ===== *)
theory CasQueue
  imports Go_Prelude "HOL-Library.Monad_Syntax"
begin

text \<open>
  The lock-free queue (\<^verbatim>\<open>cas/queue.go\<close>).  Every atomic load and every compare-and-swap of \<^verbatim>\<open>PushBack\<close> and
  \<^verbatim>\<open>PopFront\<close> is one step of a goroutine; any number of goroutines interleave.  A panic (nil dereference)
  is \<open>None\<close>.  The garbage collector never reuses a node somebody still refers to, so allocation takes an
  address that was never used.
\<close>

section \<open>Nodes and goroutines\<close>

record 'v item =
  it_next :: "addr option"
  it_V :: "'v option"

record 'v casQueue =
  q_Head :: addr
  q_Tail :: addr
  q_heap :: "addr \<rightharpoonup> 'v item"

definition CreateCasQueue :: "'v casQueue" where
  "CreateCasQueue = \<lparr>q_Head = 0, q_Tail = 0, q_heap = [0 \<mapsto> \<lparr>it_next = None, it_V = None\<rparr>]\<rparr>"

text \<open>
  The points of the two loops.  Each constructor carries the locals that are live there; the value of a
  push comes last.  \<open>PopNil\<close> has a ghost flag, set when the queue was empty at the load of \<^verbatim>\<open>next\<close>.
\<close>

datatype 'v pc =
    PushTop addr 'v                          \<comment> \<open>line 41: load \<^verbatim>\<open>Tail\<close>\<close>
  | PushNext addr addr 'v                    \<comment> \<open>line 43: load \<^verbatim>\<open>tail.next\<close>\<close>
  | PushCheck addr addr "addr option" 'v     \<comment> \<open>line 44: load \<^verbatim>\<open>Tail\<close> again\<close>
  | PushHelp addr addr addr 'v               \<comment> \<open>line 48: swing \<^verbatim>\<open>Tail\<close>\<close>
  | PushLink addr addr 'v                    \<comment> \<open>line 51: link the node\<close>
  | PushSwing addr addr 'v                   \<comment> \<open>line 52: swing \<^verbatim>\<open>Tail\<close> to it\<close>
  | PushDone 'v
  | PopTop                                   \<comment> \<open>line 60: load \<^verbatim>\<open>Head\<close>\<close>
  | PopTail addr                             \<comment> \<open>line 61: load \<^verbatim>\<open>Tail\<close>\<close>
  | PopNext addr addr                        \<comment> \<open>line 63: load \<^verbatim>\<open>head.next\<close>\<close>
  | PopCheck addr addr "addr option" bool    \<comment> \<open>line 64: load \<^verbatim>\<open>Head\<close> again\<close>
  | PopHelp addr addr                        \<comment> \<open>line 71: swing \<^verbatim>\<open>Tail\<close>\<close>
  | PopRead addr "addr option"               \<comment> \<open>line 75: read the value\<close>
  | PopSwing addr addr 'v                    \<comment> \<open>line 76: swing \<^verbatim>\<open>Head\<close>\<close>
  | PopRet 'v
  | PopNil bool

definition newItem :: "'v \<Rightarrow> 'v item" where
  "newItem v = \<lparr>it_next = None, it_V = Some v\<rparr>"

definition cas_Tail :: "'v casQueue \<Rightarrow> addr \<Rightarrow> addr \<Rightarrow> 'v casQueue" where
  "cas_Tail q old new = (if q_Tail q = old then q\<lparr>q_Tail := new\<rparr> else q)"

text \<open>The queue looks empty: the node \<^verbatim>\<open>Head\<close> points to has no successor.\<close>

definition empty_now :: "'v casQueue \<Rightarrow> bool" where
  "empty_now q = (case q_heap q (q_Head q) of None \<Rightarrow> False | Some it \<Rightarrow> it_next it = None)"

fun cas_exec :: "'v casQueue \<Rightarrow> 'v pc \<Rightarrow> ('v casQueue \<times> 'v pc) go" where
  "cas_exec q (PushTop node v) = Some (q, PushNext node (q_Tail q) v)"
| "cas_exec q (PushNext node tail v) = do {
     tailItem \<leftarrow> q_heap q tail;
     Some (q, PushCheck node tail (it_next tailItem) v)
   }"
| "cas_exec q (PushCheck node tail next v) =
     (if tail \<noteq> q_Tail q then Some (q, PushTop node v)
      else case next of
        Some n \<Rightarrow> Some (q, PushHelp node tail n v)
      | None \<Rightarrow> Some (q, PushLink node tail v))"
| "cas_exec q (PushHelp node tail n v) = Some (cas_Tail q tail n, PushTop node v)"
| "cas_exec q (PushLink node tail v) = do {
     tailItem \<leftarrow> q_heap q tail;
     (if it_next tailItem = None
      then Some (q\<lparr>q_heap := (q_heap q)(tail \<mapsto> tailItem\<lparr>it_next := Some node\<rparr>)\<rparr>, PushSwing node tail v)
      else Some (q, PushTop node v))
   }"
| "cas_exec q (PushSwing node tail v) = Some (cas_Tail q tail node, PushDone v)"
| "cas_exec q PopTop = Some (q, PopTail (q_Head q))"
| "cas_exec q (PopTail head) = Some (q, PopNext head (q_Tail q))"
| "cas_exec q (PopNext head tail) = do {
     headItem \<leftarrow> q_heap q head;
     Some (q, PopCheck head tail (it_next headItem) (empty_now q))
   }"
| "cas_exec q (PopCheck head tail next emp) =
     (if head \<noteq> q_Head q then Some (q, PopTop)
      else if head = tail
      then (case next of None \<Rightarrow> Some (q, PopNil emp) | Some n \<Rightarrow> Some (q, PopHelp tail n))
      else Some (q, PopRead head next))"
| "cas_exec q (PopHelp tail n) = Some (cas_Tail q tail n, PopTop)"
| "cas_exec q (PopRead head next) = do {
     n \<leftarrow> next;
     nextItem \<leftarrow> q_heap q n;
     value \<leftarrow> it_V nextItem;
     Some (q, PopSwing head n value)
   }"
| "cas_exec q (PopSwing head n value) =
     (if q_Head q = head then Some (q\<lparr>q_Head := n\<rparr>, PopRet value) else Some (q, PopTop))"
| "cas_exec q (PushDone v) = Some (q, PushDone v)"
| "cas_exec q (PopRet v) = Some (q, PopRet v)"
| "cas_exec q (PopNil emp) = Some (q, PopNil emp)"

text \<open>\<^verbatim>\<open>Print\<close>: the walk from \<^verbatim>\<open>Head\<close>; the values it logs, whose number it returns.  The fuel bounds the walk.\<close>

fun walk :: "nat \<Rightarrow> (addr \<rightharpoonup> 'v item) \<Rightarrow> addr \<Rightarrow> 'v list go" where
  "walk 0 heap p = None"
| "walk (Suc n) heap p = do {
     it \<leftarrow> heap p;
     (case it_next it of
        None \<Rightarrow> Some []
      | Some next \<Rightarrow> do {
          nextItem \<leftarrow> heap next;
          value \<leftarrow> it_V nextItem;
          vs \<leftarrow> walk n heap next;
          Some (value # vs)
        })
   }"

definition Print :: "nat \<Rightarrow> 'v casQueue \<Rightarrow> int go" where
  "Print fuel q = map_option (\<lambda>vs. int (length vs)) (walk fuel (q_heap q) (q_Head q))"

section \<open>Interleavings and their history\<close>

datatype 'v event = Enq 'v | Deq 'v

text \<open>The event of a step: linking a node and swinging \<^verbatim>\<open>Head\<close> are what the other goroutines see.\<close>

fun event_of :: "'v pc \<Rightarrow> 'v pc \<Rightarrow> 'v event list" where
  "event_of (PushLink _ _ _) (PushSwing _ _ v) = [Enq v]"
| "event_of (PopSwing _ _ _) (PopRet v) = [Deq v]"
| "event_of _ _ = []"

inductive cas_reachable :: "'v casQueue \<Rightarrow> 'v pc multiset \<Rightarrow> 'v event list \<Rightarrow> bool" where
  create: "cas_reachable CreateCasQueue {#} []"
| push: "cas_reachable q T hist \<Longrightarrow> q_heap q node = None \<Longrightarrow>
    cas_reachable (q\<lparr>q_heap := (q_heap q)(node \<mapsto> newItem v)\<rparr>) (add_mset (PushTop node v) T) hist"
| pop: "cas_reachable q T hist \<Longrightarrow> cas_reachable q (add_mset PopTop T) hist"
| step: "cas_reachable q (add_mset pc T) hist \<Longrightarrow> cas_exec q pc = Some (q', pc') \<Longrightarrow>
    cas_reachable q' (add_mset pc' T) (hist @ event_of pc pc')"

text \<open>The specification: a FIFO queue as a list.\<close>

fun fifo :: "'v event list \<Rightarrow> 'v list \<Rightarrow> 'v list option" where
  "fifo [] vs = Some vs"
| "fifo (Enq v # es) vs = fifo es (vs @ [v])"
| "fifo (Deq v # es) vs = (case vs of [] \<Rightarrow> None | x # xs \<Rightarrow> if x = v then fifo es xs else None)"

lemma fifo_append: "fifo (es @ es') vs = Option.bind (fifo es vs) (fifo es')"
  by (induction es vs rule: fifo.induct) (auto split: list.splits)

section \<open>The chain of nodes\<close>

text \<open>
  \<open>chain\<close> lists the nodes in the order they were linked, starting with the dummy node of the constructor;
  \<open>vals\<close> are the values pushed.  \<^verbatim>\<open>Head\<close> and \<^verbatim>\<open>Tail\<close> are at the positions \<open>h\<close> and \<open>t\<close>.
\<close>

definition links :: "addr list \<Rightarrow> 'v list \<Rightarrow> (addr \<rightharpoonup> 'v item) \<Rightarrow> bool" where
  "links chain vals heap \<longleftrightarrow>
     length chain = Suc (length vals) \<and> distinct chain \<and>
     (\<forall>i < length chain. \<exists>it. heap (chain ! i) = Some it \<and>
        it_next it = (if Suc i < length chain then Some (chain ! Suc i) else None) \<and>
        (0 < i \<longrightarrow> it_V it = Some (vals ! (i - 1))))"

definition shape :: "addr list \<Rightarrow> 'v list \<Rightarrow> nat \<Rightarrow> nat \<Rightarrow> 'v casQueue \<Rightarrow> bool" where
  "shape chain vals h t q \<longleftrightarrow>
     links chain vals (q_heap q) \<and> h \<le> t \<and> t < length chain \<and> length chain \<le> t + 2 \<and>
     q_Head q = chain ! h \<and> q_Tail q = chain ! t"

text \<open>The node a push has not linked yet.\<close>

fun unlinked :: "'v pc \<Rightarrow> (addr \<times> 'v) option" where
  "unlinked (PushTop node v) = Some (node, v)"
| "unlinked (PushNext node _ v) = Some (node, v)"
| "unlinked (PushCheck node _ _ v) = Some (node, v)"
| "unlinked (PushHelp node _ _ v) = Some (node, v)"
| "unlinked (PushLink node _ v) = Some (node, v)"
| "unlinked _ = None"

definition own :: "'v pc \<Rightarrow> addr multiset" where
  "own pc = (case unlinked pc of None \<Rightarrow> {#} | Some (node, v) \<Rightarrow> {#node#})"

text \<open>A node at a position up to \<open>t\<close>, a link from such a node, and two nodes read one after the other.\<close>

definition upto_pos :: "addr list \<Rightarrow> nat \<Rightarrow> addr \<Rightarrow> bool" where
  "upto_pos chain t a \<longleftrightarrow> (\<exists>i \<le> t. i < length chain \<and> a = chain ! i)"

definition edge :: "addr list \<Rightarrow> nat \<Rightarrow> addr \<Rightarrow> addr \<Rightarrow> bool" where
  "edge chain t a b \<longleftrightarrow> (\<exists>i \<le> t. Suc i < length chain \<and> a = chain ! i \<and> b = chain ! Suc i)"

definition behind :: "addr list \<Rightarrow> nat \<Rightarrow> nat \<Rightarrow> addr \<Rightarrow> addr \<Rightarrow> bool" where
  "behind chain h t a b \<longleftrightarrow> (\<exists>i \<le> h. \<exists>j \<le> t. i \<le> j \<and> j < length chain \<and> a = chain ! i \<and> b = chain ! j)"

definition popping :: "addr list \<Rightarrow> 'v list \<Rightarrow> nat \<Rightarrow> nat \<Rightarrow> addr \<Rightarrow> addr \<Rightarrow> 'v \<Rightarrow> bool" where
  "popping chain vals h t a b v \<longleftrightarrow>
     (\<exists>i \<le> h. i < t \<and> Suc i < length chain \<and> i < length vals \<and> a = chain ! i \<and> b = chain ! Suc i \<and> v = vals ! i)"

text \<open>What the locals of a goroutine say about the chain.\<close>

fun local_ok :: "addr list \<Rightarrow> 'v list \<Rightarrow> nat \<Rightarrow> nat \<Rightarrow> 'v pc \<Rightarrow> bool" where
  "local_ok chain vals h t (PushNext node tail v) \<longleftrightarrow> upto_pos chain t tail"
| "local_ok chain vals h t (PushCheck node tail next v) \<longleftrightarrow>
     upto_pos chain t tail \<and> (\<forall>n. next = Some n \<longrightarrow> edge chain t tail n)"
| "local_ok chain vals h t (PushHelp node tail n v) \<longleftrightarrow> edge chain t tail n"
| "local_ok chain vals h t (PushLink node tail v) \<longleftrightarrow> upto_pos chain t tail"
| "local_ok chain vals h t (PushSwing node tail v) \<longleftrightarrow> edge chain t tail node"
| "local_ok chain vals h t (PopTail head) \<longleftrightarrow> upto_pos chain h head"
| "local_ok chain vals h t (PopNext head tail) \<longleftrightarrow> behind chain h t head tail"
| "local_ok chain vals h t (PopCheck head tail next emp) \<longleftrightarrow>
     behind chain h t head tail \<and>
     (case next of None \<Rightarrow> head = tail \<and> emp | Some n \<Rightarrow> edge chain h head n)"
| "local_ok chain vals h t (PopHelp tail n) \<longleftrightarrow> edge chain t tail n"
| "local_ok chain vals h t (PopRead head next) \<longleftrightarrow> (\<exists>n v. next = Some n \<and> popping chain vals h t head n v)"
| "local_ok chain vals h t (PopSwing head n value) \<longleftrightarrow> popping chain vals h t head n value"
| "local_ok chain vals h t (PopNil emp) \<longleftrightarrow> emp"
| "local_ok chain vals h t _ \<longleftrightarrow> True"

text \<open>The event a goroutine has already contributed.\<close>

fun done_event :: "'v pc \<Rightarrow> 'v event multiset" where
  "done_event (PushSwing _ _ v) = {#Enq v#}"
| "done_event (PushDone v) = {#Enq v#}"
| "done_event (PopRet v) = {#Deq v#}"
| "done_event _ = {#}"

definition unlinked_ok :: "(addr \<rightharpoonup> 'v item) \<Rightarrow> 'v pc \<Rightarrow> bool" where
  "unlinked_ok heap pc = (case unlinked pc of None \<Rightarrow> True | Some (node, v) \<Rightarrow> heap node = Some (newItem v))"

definition cas_inv :: "addr list \<Rightarrow> 'v list \<Rightarrow> nat \<Rightarrow> nat \<Rightarrow> 'v casQueue \<Rightarrow> 'v pc multiset \<Rightarrow> 'v event list \<Rightarrow> bool" where
  "cas_inv chain vals h t q T hist \<longleftrightarrow>
     shape chain vals h t q \<and>
     once (mset chain + \<Sum>\<^sub># (image_mset own T)) \<and>
     (\<forall>pc \<in># T. unlinked_ok (q_heap q) pc \<and> local_ok chain vals h t pc) \<and>
     fifo hist [] = Some (drop h vals) \<and>
     mset hist = \<Sum>\<^sub># (image_mset done_event T)"


section \<open>Every step keeps the chain\<close>

lemma links_len: "links chain vals heap \<Longrightarrow> length chain = Suc (length vals)"
  by (simp add: links_def)

lemma links_get:
  assumes "links chain vals heap" "i < length chain"
  obtains it where "heap (chain ! i) = Some it" "it_next it = (if Suc i < length chain then Some (chain ! Suc i) else None)"
    "0 < i \<Longrightarrow> it_V it = Some (vals ! (i - 1))"
  using assms unfolding links_def by blast

lemma links_cong:
  assumes "links chain vals heap" "\<And>a. a \<in> set chain \<Longrightarrow> heap' a = heap a"
  shows "links chain vals heap'"
  using assms(1) unfolding links_def by (metis assms(2) nth_mem)

lemma links_inj: "links chain vals heap \<Longrightarrow> i < length chain \<Longrightarrow> j < length chain \<Longrightarrow> chain ! i = chain ! j \<Longrightarrow> i = j"
  by (simp add: links_def nth_eq_iff_index_eq)

lemma upto_pos_mono: "upto_pos chain t a \<Longrightarrow> t \<le> t' \<Longrightarrow> upto_pos (chain @ c) t' a"
  unfolding upto_pos_def by (metis le_trans length_append nth_append trans_less_add1)

lemma edge_mono: "edge chain t a b \<Longrightarrow> t \<le> t' \<Longrightarrow> edge (chain @ c) t' a b"
  unfolding edge_def by (metis Suc_lessD le_trans length_append nth_append trans_less_add1)

lemma behind_mono: "behind chain h t a b \<Longrightarrow> h \<le> h' \<Longrightarrow> t \<le> t' \<Longrightarrow> behind (chain @ c) h' t' a b"
proof -
  assume "behind chain h t a b" and le: "h \<le> h'" "t \<le> t'"
  then obtain i j where "i \<le> h" "j \<le> t" "i \<le> j" "j < length chain" "a = chain ! i" "b = chain ! j"
    unfolding behind_def by blast
  with le show ?thesis unfolding behind_def by (intro exI [of _ i] exI [of _ j] conjI) (simp_all add: nth_append)
qed

lemma popping_mono:
  "popping chain vals h t a b v \<Longrightarrow> h \<le> h' \<Longrightarrow> t \<le> t' \<Longrightarrow> popping (chain @ c) (vals @ w) h' t' a b v"
proof -
  assume "popping chain vals h t a b v" and le: "h \<le> h'" "t \<le> t'"
  then obtain i where "i \<le> h" "i < t" "Suc i < length chain" "i < length vals" "a = chain ! i" "b = chain ! Suc i" "v = vals ! i"
    unfolding popping_def by blast
  with le show ?thesis unfolding popping_def by (intro exI [of _ i]) (simp add: nth_append)
qed

lemmas local_mono = upto_pos_mono edge_mono behind_mono popping_mono

lemma local_ok_mono:
  "local_ok chain vals h t pc \<Longrightarrow> h \<le> h' \<Longrightarrow> t \<le> t' \<Longrightarrow> local_ok (chain @ c) (vals @ w) h' t' pc"
  by (cases pc) (auto intro: local_mono split: option.splits)

lemma tail_step:
  assumes "shape chain vals h t q" "edge chain t tail n"
  obtains t' where "shape chain vals h t' (cas_Tail q tail n)" "t \<le> t'"
proof (cases "q_Tail q = tail")
  case True
  obtain i where i: "i \<le> t" "Suc i < length chain" "tail = chain ! i" "n = chain ! Suc i" using assms(2) by (auto simp: edge_def)
  then have "t = i" using assms(1) True links_inj unfolding shape_def by (metis Suc_lessD)
  with assms(1) True i have "shape chain vals h (Suc i) (cas_Tail q tail n)" by (simp add: shape_def cas_Tail_def)
  with \<open>t = i\<close> that show thesis by force
next
  case False
  with assms have "shape chain vals h t (cas_Tail q tail n)" by (simp add: cas_Tail_def)
  with that show thesis by blast
qed

lemma cas_Tail_heap [simp]: "q_heap (cas_Tail q a b) = q_heap q"
  by (simp add: cas_Tail_def)

text \<open>A step that writes nothing but possibly \<^verbatim>\<open>Tail\<close>, and completes nothing.\<close>

lemma quiet_step:
  assumes inv: "cas_inv chain vals h t q (add_mset pc T) hist" and shape: "shape chain vals h t' q'" "t \<le> t'"
    and same: "q_heap q' = q_heap q" "unlinked pc' = unlinked pc" "done_event pc' = done_event pc" "event_of pc pc' = []"
    and loc: "local_ok chain vals h t' pc'"
  shows "cas_inv chain vals h t' q' (add_mset pc' T) (hist @ event_of pc pc')"
proof -
  have "local_ok chain vals h t' p" if "p \<in># T" for p
    using inv that local_ok_mono [of chain vals h t p h t' "[]" "[]"] shape(2) by (simp add: cas_inv_def)
  then show ?thesis using inv shape same loc by (auto simp: cas_inv_def own_def unlinked_ok_def)
qed

lemma shape_head:
  assumes "shape chain vals h t q"
  shows "empty_now q \<longleftrightarrow> Suc h = length chain"
proof -
  have h: "links chain vals (q_heap q)" "h < length chain" "q_Head q = chain ! h" using assms by (auto simp: shape_def)
  obtain it where "q_heap q (chain ! h) = Some it" "it_next it = (if Suc h < length chain then Some (chain ! Suc h) else None)"
    using links_get [OF h(1,2)] by blast
  with h(2,3) show ?thesis by (auto simp: empty_now_def)
qed


lemma next_of:
  assumes "shape chain vals h t q" "upto_pos chain t a"
  obtains it where "q_heap q a = Some it"
    "case it_next it of None \<Rightarrow> a = last chain | Some n \<Rightarrow> edge chain t a n"
proof -
  obtain i where i: "i \<le> t" "i < length chain" "a = chain ! i" using assms(2) by (auto simp: upto_pos_def)
  have l: "links chain vals (q_heap q)" using assms(1) by (simp add: shape_def)
  obtain it where it: "q_heap q (chain ! i) = Some it"
    "it_next it = (if Suc i < length chain then Some (chain ! Suc i) else None)"
    using links_get [OF l i(2)] by blast
  have "last chain = chain ! i" if "\<not> Suc i < length chain"
  proof -
    from that i(2) have "length chain - 1 = i" by simp
    with i(2) show ?thesis by (metis last_conv_nth list.size(3) not_less_zero)
  qed
  with it i that show thesis by (cases "Suc i < length chain") (auto simp: edge_def)
qed

text \<open>The linking step appends a node.\<close>

lemma link_step:
  assumes inv: "cas_inv chain vals h t q (add_mset (PushLink node tail v) T) hist"
    and it: "q_heap q tail = Some it" "it_next it = None"
  shows "cas_inv (chain @ [node]) (vals @ [v]) h t (q\<lparr>q_heap := (q_heap q)(tail \<mapsto> it\<lparr>it_next := Some node\<rparr>)\<rparr>)
    (add_mset (PushSwing node tail v) T) (hist @ [Enq v])"
proof -
  have s: "shape chain vals h t q" and up: "upto_pos chain t tail" and node: "q_heap q node = Some (newItem v)"
    and o: "once (mset chain + (add_mset node (\<Sum>\<^sub># (image_mset own T))))"
    and T: "\<forall>pc \<in># T. unlinked_ok (q_heap q) pc \<and> local_ok chain vals h t pc"
    using inv by (auto simp: cas_inv_def own_def unlinked_ok_def)
  have l: "links chain vals (q_heap q)" and t: "h \<le> t" "t < length chain" using s by (auto simp: shape_def)
  have fresh: "node \<notin> set chain" "node \<notin># \<Sum>\<^sub># (image_mset own T)" using o by auto
  obtain i where i: "i \<le> t" "i < length chain" "tail = chain ! i" using up by (auto simp: upto_pos_def)
  have last: "Suc i = length chain"
    using links_get [OF l i(2)] it i by (metis Suc_lessI option.distinct(1) option.inject)
  then have ti: "t = i" using i t by simp
  have tail: "tail \<notin># \<Sum>\<^sub># (image_mset own T)"
    using once_disjoint [OF o, of tail] i(2,3) by auto
  have "links (chain @ [node]) (vals @ [v]) ((q_heap q)(tail \<mapsto> it\<lparr>it_next := Some node\<rparr>))"
    unfolding links_def
  proof (intro conjI allI impI)
    fix j assume j: "j < length (chain @ [node])"
    have len: "length chain = Suc (length vals)" using l by (simp add: links_def)
    consider "j = length chain" | "j = i" | "j < i" using j last by fastforce
    then show "\<exists>ita. ((q_heap q)(tail \<mapsto> it\<lparr>it_next := Some node\<rparr>)) ((chain @ [node]) ! j) = Some ita \<and>
      it_next ita = (if Suc j < length (chain @ [node]) then Some ((chain @ [node]) ! Suc j) else None) \<and>
      (0 < j \<longrightarrow> it_V ita = Some ((vals @ [v]) ! (j - 1)))"
    proof cases
      case 1
      then show ?thesis using node fresh(1) i len by (auto simp: newItem_def nth_append)
    next
      case 2
      then show ?thesis using links_get [OF l i(2)] i it last len by (auto simp: nth_append)
    next
      case 3
      then have "chain ! j \<noteq> tail" using links_inj [OF l, of j i] i by auto
      moreover have "j < length chain" "Suc j < length chain" using 3 i by auto
      moreover obtain ij where "q_heap q (chain ! j) = Some ij" "it_next ij = Some (chain ! Suc j)" "0 < j \<Longrightarrow> it_V ij = Some (vals ! (j - 1))"
        using links_get [OF l \<open>j < length chain\<close>] \<open>Suc j < length chain\<close> by metis
      ultimately show ?thesis using len by (auto simp: nth_append)
    qed
  next
    show "length (chain @ [node]) = Suc (length (vals @ [v]))" using links_len [OF l] by simp
    show "distinct (chain @ [node])" using l fresh(1) by (simp add: links_def)
  qed
  then have s': "shape (chain @ [node]) (vals @ [v]) h t (q\<lparr>q_heap := (q_heap q)(tail \<mapsto> it\<lparr>it_next := Some node\<rparr>)\<rparr>)"
    using s t last ti by (simp add: shape_def nth_append)
  have e: "edge (chain @ [node]) t tail node" using i last unfolding edge_def by (intro exI [of _ i]) (simp add: nth_append)
  have loc: "local_ok (chain @ [node]) (vals @ [v]) h t p" if "p \<in># T" for p
    using T that local_ok_mono by blast
  have un: "unlinked_ok ((q_heap q)(tail \<mapsto> it\<lparr>it_next := Some node\<rparr>)) p" if "p \<in># T" for p
  proof -
    have "n \<noteq> tail" if "unlinked p = Some (n, w)" for n w
      using tail \<open>p \<in># T\<close> that by (auto simp: own_def)
    then show ?thesis using T \<open>p \<in># T\<close> by (auto simp: unlinked_ok_def split: option.splits)
  qed
  have "fifo (hist @ [Enq v]) [] = Some (drop h (vals @ [v]))"
    using inv t l by (simp add: cas_inv_def fifo_append links_def)
  moreover have "mset (hist @ [Enq v]) = \<Sum>\<^sub># (image_mset done_event (add_mset (PushSwing node tail v) T))"
    using inv by (simp add: cas_inv_def)
  ultimately show ?thesis
    using s' o e loc un by (simp add: cas_inv_def own_def unlinked_ok_def)
qed

text \<open>The swing of \<^verbatim>\<open>Head\<close> takes the oldest value.\<close>

lemma head_step:
  assumes inv: "cas_inv chain vals h t q (add_mset (PopSwing head n v) T) hist" and head: "q_Head q = head"
  shows "cas_inv chain vals (Suc h) t (q\<lparr>q_Head := n\<rparr>) (add_mset (PopRet v) T) (hist @ [Deq v])"
proof -
  have s: "shape chain vals h t q" and p: "popping chain vals h t head n v"
    and T: "\<forall>pc \<in># T. unlinked_ok (q_heap q) pc \<and> local_ok chain vals h t pc"
    using inv by (auto simp: cas_inv_def)
  obtain i where i: "i \<le> h" "i < t" "Suc i < length chain" "i < length vals" "head = chain ! i" "n = chain ! Suc i" "v = vals ! i"
    using p by (auto simp: popping_def)
  have "h = i" using head s i links_inj unfolding shape_def by (metis Suc_lessD le_less_trans)
  with i s have s': "shape chain vals (Suc h) t (q\<lparr>q_Head := n\<rparr>)" by (simp add: shape_def)
  have "drop h vals = v # drop (Suc h) vals" using i \<open>h = i\<close> by (simp add: Cons_nth_drop_Suc)
  then have "fifo (hist @ [Deq v]) [] = Some (drop (Suc h) vals)"
    using inv by (simp add: cas_inv_def fifo_append)
  moreover have "local_ok chain vals (Suc h) t p" if "p \<in># T" for p
    using T that local_ok_mono [of chain vals h t p "Suc h" t "[]" "[]"] by simp
  ultimately show ?thesis using inv s' by (simp add: cas_inv_def own_def unlinked_ok_def)
qed


section \<open>The invariant of every interleaving\<close>

lemma behind_lt:
  assumes "shape chain vals h t q" "behind chain h t a b" "a \<noteq> b" "edge chain h a n"
  shows "\<exists>v. popping chain vals h t a n v"
proof -
  have l: "links chain vals (q_heap q)" using assms(1) by (simp add: shape_def)
  note len = links_len [OF l]
  obtain i j where ij: "i \<le> h" "j \<le> t" "i \<le> j" "j < length chain" "a = chain ! i" "b = chain ! j"
    using assms(2) by (auto simp: behind_def)
  obtain k where k: "k \<le> h" "Suc k < length chain" "a = chain ! k" "n = chain ! Suc k" using assms(4) by (auto simp: edge_def)
  have "k = i" using links_inj [OF l, of k i] ij k by simp
  moreover have "i < j" using ij assms(3) by (metis le_neq_implies_less)
  ultimately have "popping chain vals h t a n (vals ! i)"
    using ij k len unfolding popping_def by (intro exI [of _ i]) simp
  then show ?thesis ..
qed

lemma popping_value:
  assumes "shape chain vals h t q" "popping chain vals h t a n v"
  obtains it where "q_heap q n = Some it" "it_V it = Some v"
proof -
  obtain i where "Suc i < length chain" "n = chain ! Suc i" "v = vals ! i" using assms(2) by (auto simp: popping_def)
  with links_get [of chain vals "q_heap q" "Suc i"] assms(1) that show thesis by (force simp: shape_def)
qed

lemma shape_pos:
  assumes "shape chain vals h t q"
  shows "upto_pos chain t (q_Tail q)" "upto_pos chain h (q_Head q)"
    "upto_pos chain h a \<Longrightarrow> upto_pos chain t a" "upto_pos chain h a \<Longrightarrow> behind chain h t a (q_Tail q)"
    "behind chain h t a b \<Longrightarrow> upto_pos chain h a"
proof -
  have s: "h \<le> t" "t < length chain" "q_Tail q = chain ! t" "q_Head q = chain ! h" using assms by (auto simp: shape_def)
  show "upto_pos chain t (q_Tail q)" "upto_pos chain h (q_Head q)"
    using s by (auto simp: upto_pos_def)
  show "upto_pos chain h a \<Longrightarrow> upto_pos chain t a" unfolding upto_pos_def using s(1) le_trans by blast
  show "behind chain h t a b \<Longrightarrow> upto_pos chain h a" unfolding upto_pos_def behind_def using le_less_trans by blast
  assume "upto_pos chain h a"
  then show "behind chain h t a (q_Tail q)" using s unfolding upto_pos_def behind_def by (metis le_trans order_refl)
qed

lemma edge_head:
  assumes s: "shape chain vals h t q" and a: "upto_pos chain h a" and n: "edge chain t a n"
  shows "edge chain h a n"
proof -
  have l: "links chain vals (q_heap q)" using s by (simp add: shape_def)
  obtain i where i: "i \<le> h" "i < length chain" "a = chain ! i" using a by (auto simp: upto_pos_def)
  obtain k where k: "Suc k < length chain" "a = chain ! k" "n = chain ! Suc k" using n by (auto simp: edge_def)
  have "k = i" using links_inj [OF l, of k i] i k by simp
  with i k show ?thesis by (auto simp: edge_def)
qed

lemma last_is_head:
  assumes s: "shape chain vals h t q" and b: "behind chain h t a b" and l: "a = last chain"
  shows "a = b \<and> empty_now q"
proof -
  have k: "links chain vals (q_heap q)" and t: "h \<le> t" "t < length chain" using s by (auto simp: shape_def)
  obtain i j where ij: "i \<le> h" "j \<le> t" "i \<le> j" "j < length chain" "a = chain ! i" "b = chain ! j"
    using b by (auto simp: behind_def)
  have "chain ! i = chain ! (length chain - 1)" using l ij by (metis last_conv_nth list.size(3) not_less_zero)
  then have "i = length chain - 1" using links_inj [OF k, of i "length chain - 1"] ij by simp
  with ij t have "i = j" "Suc h = length chain" by auto
  with ij shape_head [OF s] show ?thesis by simp
qed

definition cas_ok :: "'v casQueue \<Rightarrow> 'v pc multiset \<Rightarrow> 'v event list \<Rightarrow> bool" where
  "cas_ok q T hist \<longleftrightarrow> (\<exists>chain vals h t. cas_inv chain vals h t q T hist)"

lemma cas_okI: "cas_inv chain vals h t q T hist \<Longrightarrow> cas_ok q T hist"
  by (auto simp: cas_ok_def)

lemma cas_exec_inv:
  assumes inv: "cas_inv chain vals h t q (add_mset pc T) hist"
  shows "\<exists>q' pc'. cas_exec q pc = Some (q', pc') \<and> cas_ok q' (add_mset pc' T) (hist @ event_of pc pc')"
proof -
  have s: "shape chain vals h t q" and loc: "local_ok chain vals h t pc" using inv by (auto simp: cas_inv_def)
  note quiet = quiet_step [OF inv, THEN cas_okI]
  note same = quiet [OF s order_refl refl]
  note pos = shape_pos [OF s]
  show ?thesis
  proof (cases pc)
    case (PushTop node v)
    then show ?thesis using same [of "PushNext node (q_Tail q) v"] pos(1) by auto
  next
    case (PushNext node tail v)
    then obtain it where it: "q_heap q tail = Some it" "case it_next it of None \<Rightarrow> tail = last chain | Some n \<Rightarrow> edge chain t tail n"
      using next_of [OF s] loc by auto
    then show ?thesis using same [of "PushCheck node tail (it_next it) v"] PushNext loc by (auto split: option.splits)
  next
    case (PushCheck node tail nx v)
    then show ?thesis
      using same [of "PushTop node v"] same [of "PushLink node tail v"] same [of "PushHelp node tail (the nx) v"] loc
      by (auto split: option.splits)
  next
    case (PushHelp node tail n v)
    then obtain t' where "shape chain vals h t' (cas_Tail q tail n)" "t \<le> t'" using tail_step [OF s] loc by auto
    then show ?thesis using quiet [of t' "cas_Tail q tail n" "PushTop node v"] PushHelp by auto
  next
    case (PushLink node tail v)
    then obtain it where it: "q_heap q tail = Some it" using next_of [OF s] loc by auto
    show ?thesis
    proof (cases "it_next it = None")
      case True
      then show ?thesis using cas_okI [OF link_step [OF inv [unfolded PushLink] it True]] PushLink it by auto
    next
      case False
      then show ?thesis using same [of "PushTop node v"] PushLink it by auto
    qed
  next
    case (PushSwing node tail v)
    then obtain t' where "shape chain vals h t' (cas_Tail q tail node)" "t \<le> t'" using tail_step [OF s] loc by auto
    then show ?thesis using quiet [of t' "cas_Tail q tail node" "PushDone v"] PushSwing by auto
  next
    case (PushDone v)
    then show ?thesis using same [of "PushDone v"] by auto
  next
    case PopTop
    then show ?thesis using same [of "PopTail (q_Head q)"] pos(2) by auto
  next
    case (PopTail head)
    then show ?thesis using same [of "PopNext head (q_Tail q)"] pos(4) loc by auto
  next
    case (PopNext head tail)
    then have b: "behind chain h t head tail" using loc by simp
    then have up: "upto_pos chain h head" using pos(5) by blast
    then obtain it where it: "q_heap q head = Some it" "case it_next it of None \<Rightarrow> head = last chain | Some n \<Rightarrow> edge chain t head n"
      using next_of [OF s pos(3)] by blast
    then have "local_ok chain vals h t (PopCheck head tail (it_next it) (empty_now q) :: 'a pc)"
      using b last_is_head [OF s b] edge_head [OF s up] by (auto split: option.splits)
    then show ?thesis using same [of "PopCheck head tail (it_next it) (empty_now q)"] PopNext it by auto
  next
    case (PopCheck head tail nx emp)
    then have "head \<noteq> tail \<Longrightarrow> \<exists>n v. nx = Some n \<and> popping chain vals h t head n v"
      using loc behind_lt [OF s] by (cases nx) auto
    moreover have "edge chain t head n" if "nx = Some n" for n
      using PopCheck loc that s edge_mono [of chain h head n t "[]"] by (simp add: shape_def)
    ultimately show ?thesis
      using same [of PopTop] same [of "PopNil emp"] same [of "PopHelp tail (the nx)"] same [of "PopRead head nx"] PopCheck loc
      by (cases "head = q_Head q"; cases "head = tail"; cases nx) auto
  next
    case (PopHelp tail n)
    then obtain t' where "shape chain vals h t' (cas_Tail q tail n)" "t \<le> t'" using tail_step [OF s] loc by auto
    then show ?thesis using quiet [of t' "cas_Tail q tail n" PopTop] PopHelp by auto
  next
    case (PopRead head nx)
    then obtain n v where n: "nx = Some n" "popping chain vals h t head n v" using loc by auto
    from popping_value [OF s n(2)] obtain it where "q_heap q n = Some it" "it_V it = Some v" .
    then show ?thesis using same [of "PopSwing head n v"] PopRead n by auto
  next
    case (PopSwing head n v)
    show ?thesis
    proof (cases "q_Head q = head")
      case True
      then show ?thesis using cas_okI [OF head_step [OF inv [unfolded PopSwing] True]] PopSwing by auto
    next
      case False
      then show ?thesis using same [of PopTop] PopSwing by auto
    qed
  next
    case (PopRet v)
    then show ?thesis using same [of "PopRet v"] by auto
  next
    case (PopNil emp)
    then show ?thesis using same [of "PopNil emp"] loc by auto
  qed
qed


lemma cas_ok_exec:
  assumes "cas_ok q (add_mset pc T) hist"
  obtains q' pc' where "cas_exec q pc = Some (q', pc')" "cas_ok q' (add_mset pc' T) (hist @ event_of pc pc')"
  using assms cas_exec_inv unfolding cas_ok_def [of q] by blast

lemma cas_alloc:
  assumes "cas_inv chain vals h t q T hist" "q_heap q node = None"
  shows "cas_inv chain vals h t (q\<lparr>q_heap := (q_heap q)(node \<mapsto> newItem v)\<rparr>) (add_mset (PushTop node v) T) hist"
proof -
  have l: "links chain vals (q_heap q)" using assms by (simp add: cas_inv_def shape_def)
  then have c: "node \<notin> set chain" using assms(2) by (auto simp: links_def in_set_conv_nth)
  have own: "n \<noteq> node" if "p \<in># T" "unlinked p = Some (n, w)" for p n w
    using assms that by (auto simp: cas_inv_def unlinked_ok_def)
  have "node \<notin># \<Sum>\<^sub># (image_mset own T)"
    using own by (auto simp: own_def split: option.splits)
  moreover have "unlinked_ok ((q_heap q)(node \<mapsto> newItem v)) p" if "p \<in># T" for p
    using assms(1) that own [OF that] by (auto simp: cas_inv_def unlinked_ok_def split: option.splits)
  moreover have "links chain vals ((q_heap q)(node \<mapsto> newItem v))"
    by (rule links_cong [OF l]) (use c in auto)
  moreover have "unlinked_ok ((q_heap q)(node \<mapsto> newItem v)) (PushTop node v)" by (simp add: unlinked_ok_def)
  ultimately show ?thesis using assms(1) c by (simp add: cas_inv_def shape_def own_def)
qed

lemma cas_reachable_ok: "cas_reachable q T hist \<Longrightarrow> cas_ok q T hist"
proof (induction rule: cas_reachable.induct)
  case create
  have "cas_inv [0] [] 0 0 CreateCasQueue {#} []"
    by (simp add: cas_inv_def shape_def links_def CreateCasQueue_def)
  then show ?case by (rule cas_okI)
next
  case (push q T hist node v)
  then obtain chain vals h t where "cas_inv chain vals h t q T hist" by (auto simp: cas_ok_def)
  from cas_okI [OF cas_alloc [OF this push.hyps(2)]] show ?case .
next
  case (pop q T hist)
  then show ?case by (auto simp: cas_ok_def cas_inv_def own_def unlinked_ok_def)
next
  case (step q pc T hist q' pc')
  then show ?case using cas_ok_exec [OF step.IH] by force
qed

lemma walk_chain:
  assumes "links chain vals heap" "h < length chain" "length vals - h < n"
  shows "walk n heap (chain ! h) = Some (drop h vals)"
  using assms(2,3)
proof (induction "length vals - h" arbitrary: h n)
  case 0
  then obtain m where "n = Suc m" by (cases n) auto
  moreover have "\<not> Suc h < length chain" "length vals \<le> h" using 0 links_len [OF assms(1)] by auto
  moreover obtain it where "heap (chain ! h) = Some it" "it_next it = (if Suc h < length chain then Some (chain ! Suc h) else None)"
    using links_get [OF assms(1) 0(2)] by blast
  ultimately show ?case by simp
next
  case (Suc k)
  have len: "Suc h < length chain" "h < length vals" using Suc.hyps(2) links_len [OF assms(1)] by auto
  obtain m where m: "n = Suc m" using Suc.prems by (cases n) auto
  obtain it where it: "heap (chain ! h) = Some it" "it_next it = Some (chain ! Suc h)"
    using links_get [OF assms(1) Suc.prems(1)] len by metis
  obtain it' where it': "heap (chain ! Suc h) = Some it'" "it_V it' = Some (vals ! h)"
    using links_get [OF assms(1) len(1)] by (metis diff_Suc_1 zero_less_Suc)
  have "walk m heap (chain ! Suc h) = Some (drop (Suc h) vals)"
    using Suc.hyps(1) [of "Suc h" m] Suc.hyps(2) Suc.prems len m by auto
  with it it' m len show ?case by (simp add: Cons_nth_drop_Suc)
qed

section \<open>A goroutine alone\<close>

fun finished :: "'v pc \<Rightarrow> bool" where
  "finished (PushDone _) = True"
| "finished (PopRet _) = True"
| "finished (PopNil _) = True"
| "finished _ = False"

text \<open>\<open>n\<close> steps of one goroutine while the others stand still.\<close>

fun run_alone :: "nat \<Rightarrow> 'v casQueue \<Rightarrow> 'v pc \<Rightarrow> ('v casQueue \<times> 'v pc) go" where
  "run_alone 0 q pc = Some (q, pc)"
| "run_alone (Suc n) q pc = do { (q, pc) \<leftarrow> cas_exec q pc; run_alone n q pc }"

definition completes :: "nat \<Rightarrow> 'v casQueue \<Rightarrow> 'v pc \<Rightarrow> bool" where
  "completes n q pc \<longleftrightarrow> (\<exists>q' pc'. run_alone n q pc = Some (q', pc') \<and> finished pc')"


lemma completes_exec: "cas_exec q pc = Some (q', pc') \<Longrightarrow> completes n q' pc' \<Longrightarrow> completes (Suc n) q pc"
  by (simp add: completes_def)

lemma completes_finished: "finished pc \<Longrightarrow> completes n q pc"
  by (induction n) (cases pc; auto simp: completes_def)+

lemma completes_mono: "completes n q pc \<Longrightarrow> n \<le> m \<Longrightarrow> completes m q pc"
proof (induction n arbitrary: m q pc)
  case 0
  then show ?case using completes_finished by (simp add: completes_def)
next
  case (Suc n)
  then obtain m' where m: "m = Suc m'" "n \<le> m'" by (cases m) auto
  obtain q' pc' where e: "cas_exec q pc = Some (q', pc')" "completes n q' pc'"
    using Suc.prems(1) by (auto simp: completes_def bind_eq_Some_conv)
  show ?case using completes_exec [OF e(1) Suc.IH [OF e(2) m(2)]] m(1) by simp
qed

text \<open>From the top of a loop: \<^verbatim>\<open>Tail\<close> is up to date, or lags by one node.\<close>

lemma push_top_updated:
  assumes "q_heap q (q_Tail q) = Some it" "it_next it = None"
  shows "completes 5 q (PushTop node v)"
  using assms by (simp add: completes_def numeral_eq_Suc)

lemma push_top_lagging:
  assumes "q_heap q (q_Tail q) = Some it" "it_next it = Some n" "q_heap q n = Some it'" "it_next it' = None"
  shows "completes 9 q (PushTop node v)"
proof -
  have "completes 5 (cas_Tail q (q_Tail q) n) (PushTop node v)"
    using assms(3,4) push_top_updated [of "cas_Tail q (q_Tail q) n"] by (simp add: cas_Tail_def)
  moreover have "completes m (cas_Tail q (q_Tail q) n) (PushTop node v) \<Longrightarrow> completes (Suc (Suc (Suc (Suc m)))) q (PushTop node v)" for m
    using assms(1,2) by (simp add: completes_def)
  ultimately have "completes (Suc (Suc (Suc (Suc 5)))) q (PushTop node v)" by blast
  then show ?thesis by simp
qed

lemma push_top_completes: "cas_ok q (add_mset (PushTop node v) T) hist \<Longrightarrow> completes 9 q (PushTop node v)"
proof -
  assume "cas_ok q (add_mset (PushTop node v) T) hist"
  then obtain chain vals h t where s: "shape chain vals h t q" by (auto simp: cas_ok_def cas_inv_def)
  then have l: "links chain vals (q_heap q)" and t: "t < length chain" "length chain \<le> t + 2" "q_Tail q = chain ! t"
    by (auto simp: shape_def)
  obtain it where it: "q_heap q (chain ! t) = Some it" "it_next it = (if Suc t < length chain then Some (chain ! Suc t) else None)"
    using links_get [OF l t(1)] by blast
  show ?thesis
  proof (cases "Suc t < length chain")
    case True
    obtain it' where "q_heap q (chain ! Suc t) = Some it'"
      "it_next it' = (if Suc (Suc t) < length chain then Some (chain ! Suc (Suc t)) else None)"
      using links_get [OF l True] by blast
    with True it t show ?thesis by (intro push_top_lagging) auto
  next
    case False
    with it t have "completes 5 q (PushTop node v)" by (intro push_top_updated) auto
    then show ?thesis by (rule completes_mono) simp
  qed
qed

lemma pop_top_empty:
  assumes "q_heap q (q_Head q) = Some it" "it_next it = None" "q_Tail q = q_Head q"
  shows "completes 4 q PopTop"
  using assms by (simp add: completes_def numeral_eq_Suc)

lemma pop_top_nonempty:
  assumes "q_heap q (q_Head q) = Some it" "it_next it = Some n" "q_heap q n = Some it'" "it_V it' = Some v" "q_Tail q \<noteq> q_Head q"
  shows "completes 6 q PopTop"
  using assms by (simp add: completes_def numeral_eq_Suc)

lemma pop_top_lagging:
  assumes "q_heap q (q_Head q) = Some it" "it_next it = Some n" "q_heap q n = Some it'" "it_V it' = Some v" "n \<noteq> q_Head q"
  shows "completes 11 q PopTop"
proof (cases "q_Tail q = q_Head q")
  case True
  have "completes 6 (cas_Tail q (q_Tail q) n) PopTop"
    using assms by (intro pop_top_nonempty) (auto simp: cas_Tail_def)
  moreover have "completes m (cas_Tail q (q_Tail q) n) PopTop \<Longrightarrow> completes (Suc (Suc (Suc (Suc (Suc m))))) q PopTop" for m
    using assms(1,2) True by (simp add: completes_def)
  ultimately have "completes (Suc (Suc (Suc (Suc (Suc 6))))) q PopTop" by blast
  then show ?thesis by simp
next
  case False
  then have "completes 6 q PopTop" using assms by (intro pop_top_nonempty) auto
  then show ?thesis by (rule completes_mono) simp
qed

lemma pop_top_completes: "cas_ok q (add_mset PopTop T) hist \<Longrightarrow> completes 11 q PopTop"
proof -
  assume "cas_ok q (add_mset PopTop T) hist"
  then obtain chain vals h t where s: "shape chain vals h t q" by (auto simp: cas_ok_def cas_inv_def)
  then have l: "links chain vals (q_heap q)" and t: "h \<le> t" "t < length chain" "q_Tail q = chain ! t" "q_Head q = chain ! h"
    by (auto simp: shape_def)
  have h: "h < length chain" using t by simp
  obtain it where it: "q_heap q (chain ! h) = Some it" "it_next it = (if Suc h < length chain then Some (chain ! Suc h) else None)"
    using links_get [OF l h] by blast
  show ?thesis
  proof (cases "Suc h < length chain")
    case True
    obtain it' where "q_heap q (chain ! Suc h) = Some it'" "it_V it' = Some (vals ! h)"
      using links_get [OF l True] by (metis diff_Suc_1 zero_less_Suc)
    moreover have "chain ! Suc h \<noteq> chain ! h" using links_inj [OF l True h] by auto
    ultimately show ?thesis using True it t by (intro pop_top_lagging) auto
  next
    case False
    then have "t = h" using t by simp
    with False it t have "completes 4 q PopTop" by (intro pop_top_empty) auto
    then show ?thesis by (rule completes_mono) simp
  qed
qed

text \<open>From any other point one more run to the top of the loop is needed at most.\<close>

lemma via:
  assumes ok: "cas_ok q (add_mset pc T) hist"
    and nxt: "\<And>q' pc' hist'. cas_exec q pc = Some (q', pc') \<Longrightarrow> cas_ok q' (add_mset pc' T) hist' \<Longrightarrow> completes n q' pc'"
  shows "completes (Suc n) q pc"
  using cas_ok_exec [OF ok] nxt completes_exec by metis

fun rank :: "'v pc \<Rightarrow> nat" where
  "rank (PushTop _ _) = 9"
| "rank (PushNext _ _ _) = 12"
| "rank (PushCheck _ _ _ _) = 11"
| "rank (PushHelp _ _ _ _) = 10"
| "rank (PushLink _ _ _) = 10"
| "rank (PushSwing _ _ _) = 1"
| "rank PopTop = 11"
| "rank (PopTail _) = 16"
| "rank (PopNext _ _) = 15"
| "rank (PopCheck _ _ _ _) = 14"
| "rank (PopHelp _ _) = 12"
| "rank (PopRead _ _) = 13"
| "rank (PopSwing _ _ _) = 12"
| "rank _ = 0"

lemma rank_exec:
  assumes "cas_exec q pc = Some (q', pc')" "\<not> finished pc" "\<forall>node v. pc \<noteq> PushTop node v" "pc \<noteq> PopTop"
  shows "rank pc' < rank pc"
  using assms by (cases pc) (auto simp: bind_eq_Some_conv split: if_splits option.splits)

lemma alone_completes: "cas_ok q (add_mset pc T) hist \<Longrightarrow> completes (rank pc) q pc"
proof (induction "rank pc" arbitrary: q pc hist rule: less_induct)
  case less
  consider (fin) "finished pc" | (push) node v where "pc = PushTop node v" | (pop) "pc = PopTop"
    | (other) "\<not> finished pc" "\<forall>node v. pc \<noteq> PushTop node v" "pc \<noteq> PopTop"
    by blast
  then show ?case
  proof cases
    case other
    obtain q' pc' where e: "cas_exec q pc = Some (q', pc')" "cas_ok q' (add_mset pc' T) (hist @ event_of pc pc')"
      using cas_ok_exec [OF less.prems] .
    have r: "rank pc' < rank pc" using rank_exec [OF e(1) other] .
    have "completes (Suc (rank pc')) q pc" using completes_exec [OF e(1)] less.hyps [OF r e(2)] by blast
    then show ?thesis using r by (auto intro: completes_mono)
  qed (use less.prems push_top_completes pop_top_completes completes_finished in auto)
qed

section \<open>Properties\<close>

text \<open>
  C4: The queue is a linearisable FIFO queue.  In every interleaving the links and head swings, taken in
  order, form a run of a list queue whose contents are what a walk from \<^verbatim>\<open>Head\<close> finds, and every completed
  operation stands for exactly one of these events: nothing is lost, duplicated or reordered.
\<close>

theorem cas_queue_linearizable:
  assumes "cas_reachable q T hist"
  shows "\<exists>vs. fifo hist [] = Some vs \<and> (\<exists>n. walk n (q_heap q) (q_Head q) = Some vs \<and> Print n q = Some (int (length vs))) \<and>
    mset hist = \<Sum>\<^sub># (image_mset done_event T)"
proof -
  obtain chain vals h t where inv: "cas_inv chain vals h t q T hist"
    using cas_reachable_ok [OF assms] by (auto simp: cas_ok_def)
  then have "links chain vals (q_heap q)" "h < length chain" "q_Head q = chain ! h" by (auto simp: cas_inv_def shape_def)
  then obtain n where n: "walk n (q_heap q) (q_Head q) = Some (drop h vals)" using walk_chain by (metis lessI)
  then have "Print n q = Some (int (length (drop h vals)))" by (simp add: Print_def)
  with n inv show ?thesis by (intro exI [of _ "drop h vals"]) (auto simp: cas_inv_def)
qed

text \<open>
  No step of the queue dereferences nil, and \<^verbatim>\<open>PopFront\<close> answers that the queue is empty only if it was
  empty at the moment it loaded \<^verbatim>\<open>next\<close>.
\<close>

theorem cas_queue_safe:
  assumes "cas_reachable q T hist"
  shows "(\<forall>pc \<in># T. \<exists>r. cas_exec q pc = Some r) \<and> PopNil False \<notin># T"
proof -
  obtain chain vals h t where inv: "cas_inv chain vals h t q T hist"
    using cas_reachable_ok [OF assms] by (auto simp: cas_ok_def)
  have "\<exists>r. cas_exec q pc = Some r" if "pc \<in># T" for pc
    using inv cas_exec_inv that by (metis multi_member_split)
  moreover have "PopNil False \<notin># T" using inv by (auto simp: cas_inv_def)
  ultimately show ?thesis by blast
qed

text \<open>
  C25: operations are obstruction free.  From any point of any interleaving, a goroutine that is left
  alone completes its operation within 16 steps.
\<close>

theorem cas_queue_completes:
  assumes "cas_reachable q (add_mset pc T) hist"
  shows "\<exists>q' pc'. run_alone 16 q pc = Some (q', pc') \<and> finished pc'"
proof -
  have "completes 16 q pc"
    by (rule completes_mono [OF alone_completes [OF cas_reachable_ok [OF assms]]]) (cases pc; simp)
  then show ?thesis by (simp add: completes_def)
qed

text \<open>A push that has linked its node but not yet swung \<^verbatim>\<open>Tail\<close>, with a pop at its start.\<close>

definition demo_queue :: "nat casQueue" where
  "demo_queue = \<lparr>q_Head = 0, q_Tail = 0,
     q_heap = [0 \<mapsto> \<lparr>it_next = Some 1, it_V = None\<rparr>, 1 \<mapsto> newItem 7]\<rparr>"

lemma demo_reachable: "cas_reachable demo_queue (add_mset PopTop {#PushSwing 1 0 7#}) [Enq 7]"
proof -
  define q1 where "q1 = CreateCasQueue\<lparr>q_heap := (q_heap CreateCasQueue)(1 \<mapsto> newItem (7 :: nat))\<rparr>"
  have 1: "cas_reachable q1 {#PushTop 1 7#} []"
    unfolding q1_def by (rule cas_reachable.push [OF cas_reachable.create]) (simp add: CreateCasQueue_def)
  have 2: "cas_reachable q1 {#PushNext 1 0 7#} []"
    using cas_reachable.step [OF 1] by (simp add: q1_def CreateCasQueue_def)
  have 3: "cas_reachable q1 {#PushCheck 1 0 None 7#} []"
    using cas_reachable.step [OF 2] by (simp add: q1_def CreateCasQueue_def)
  have 4: "cas_reachable q1 {#PushLink 1 0 7#} []"
    using cas_reachable.step [OF 3] by (simp add: q1_def CreateCasQueue_def)
  have "demo_queue = q1\<lparr>q_heap := (q_heap q1)(0 \<mapsto> \<lparr>it_next = Some 1, it_V = None\<rparr>)\<rparr>"
    by (auto simp: demo_queue_def q1_def CreateCasQueue_def)
  then have "cas_reachable demo_queue {#PushSwing 1 0 7#} [Enq 7]"
    using cas_reachable.step [OF 4] by (simp add: q1_def CreateCasQueue_def)
  then show ?thesis by (rule cas_reachable.pop)
qed

theorem cas_queue_linearizable_witness:
  "cas_reachable demo_queue (add_mset PopTop {#PushSwing 1 0 7#}) [Enq 7] \<and>
   (\<exists>n. walk n (q_heap demo_queue) (q_Head demo_queue) = Some [7])"
  using cas_queue_linearizable [OF demo_reachable] demo_reachable by auto

theorem cas_queue_safe_witness:
  "cas_reachable demo_queue (add_mset PopTop {#PushSwing 1 0 7#}) [Enq 7] \<and>
   (\<exists>r. cas_exec demo_queue PopTop = Some r)"
  using cas_queue_safe [OF demo_reachable] demo_reachable by simp

theorem cas_queue_completes_witness:
  "cas_reachable demo_queue (add_mset PopTop {#PushSwing 1 0 7#}) [Enq 7] \<and>
   (\<exists>q' pc'. run_alone 16 demo_queue PopTop = Some (q', pc') \<and> finished pc')"
  using cas_queue_completes [OF demo_reachable] demo_reachable by blast

end
