(* ===== verification/WorkPool.thy ===== *)
theory WorkPool
  imports Go_Prelude "HOL-Library.Monad_Syntax"
begin

text \<open>
  The worker pool (\<^verbatim>\<open>workpool/pool.go\<close>).  Tasks live on a heap.  The lock-free queue is the list its
  linearisation gives (\<open>CasQueue\<close>), a buffered channel the list of its elements, \<^verbatim>\<open>Notify\<close> the number of its
  tokens.  A goroutine is the point it has reached; sections under \<^verbatim>\<open>mu\<close> that other goroutines can observe
  from outside (the queue and the counter) are split there.  What a task returns, and whether its context
  is seen as cancelled, are arguments.
\<close>

section \<open>State\<close>

datatype queueMode = QueueModeCAS | QueueModeChannel

definition wpErrPoolFull :: error where "wpErrPoolFull = [ErrorText ''work pool full'']"
definition wpErrPoolClosed :: error where "wpErrPoolClosed = [ErrorText ''work pool closed'']"
definition wpErrNilProcess :: error where "wpErrNilProcess = [ErrorText ''work pool process is nil'']"
definition wpErrTaskPanic :: error where "wpErrTaskPanic = [ErrorText ''work pool task panic'']"

record options =
  op_PoolSize :: int
  op_QueueMode :: queueMode
  op_QueueSize :: int

record wpTask =
  tk_Ret :: "nat option"
  tk_Err :: "error option"
  tk_completeOnce :: bool
  tk_closed :: bool

record workPool =
  wp_TaskQ :: "addr list"
  wp_PoolSize :: "32 word"
  wp_Notify :: nat
  wp_notifyCap :: nat
  wp_Wg :: int
  wp_QueueMode :: queueMode
  wp_QueueSize :: "32 word"
  wp_parallel :: "32 word"
  wp_tasks :: "addr list"
  wp_tasksCap :: nat
  wp_cancelled :: bool
  wp_mu :: bool
  wp_started :: bool
  wp_stopped :: bool
  wp_stopOnce :: bool
  wp_heap :: "addr \<rightharpoonup> wpTask"

definition NewWorkPoolWithOptions :: "options \<Rightarrow> workPool go" where
  "NewWorkPoolWithOptions options =
     (if op_PoolSize options \<le> 0 then None
      else
        let queueSize = op_QueueSize options in
        if op_QueueMode options = QueueModeCAS \<and> queueSize \<noteq> 0 then None
        else
          let queueSize = (if op_QueueMode options = QueueModeChannel \<and> queueSize = 0 then op_PoolSize options else queueSize) in
          if op_QueueMode options = QueueModeChannel \<and> queueSize < 0 then None
          else Some
            \<lparr>wp_TaskQ = [], wp_PoolSize = word_of_int (op_PoolSize options), wp_Notify = 0,
             wp_notifyCap = nat (op_PoolSize options), wp_Wg = 0, wp_QueueMode = op_QueueMode options,
             wp_QueueSize = word_of_int queueSize, wp_parallel = 0, wp_tasks = [],
             wp_tasksCap = (if op_QueueMode options = QueueModeChannel then nat queueSize else 0),
             wp_cancelled = False, wp_mu = False, wp_started = False, wp_stopped = False, wp_stopOnce = False,
             wp_heap = Map.empty\<rparr>)"

definition NewWorkPool :: "int \<Rightarrow> workPool go" where
  "NewWorkPool poolSize =
     NewWorkPoolWithOptions \<lparr>op_PoolSize = poolSize, op_QueueMode = QueueModeCAS, op_QueueSize = 0\<rparr>"

text \<open>\<^verbatim>\<open>complete\<close>; closing a closed channel panics.\<close>

definition complete_task :: "wpTask \<Rightarrow> nat option \<Rightarrow> error option \<Rightarrow> wpTask go" where
  "complete_task task ret err =
     (if tk_completeOnce task then Some task
      else if tk_closed task then None
      else Some (task\<lparr>tk_completeOnce := True, tk_Ret := ret, tk_Err := err, tk_closed := True\<rparr>))"

definition complete :: "workPool \<Rightarrow> addr \<Rightarrow> nat option \<Rightarrow> error option \<Rightarrow> workPool go" where
  "complete wp a ret err = do {
     task \<leftarrow> wp_heap wp a;
     task \<leftarrow> complete_task task ret err;
     Some (wp\<lparr>wp_heap := (wp_heap wp)(a \<mapsto> task)\<rparr>)
   }"

text \<open>
  \<^verbatim>\<open>WaitRet\<close>: the result if the task is completed; otherwise the select ends with the context, whose error
  is given, or does not end yet (\<open>None\<close>).
\<close>

definition WaitRet :: "workPool \<Rightarrow> addr \<Rightarrow> error option \<Rightarrow> (nat option \<times> error option) option go" where
  "WaitRet wp a ctxErr = do {
     task \<leftarrow> wp_heap wp a;
     Some (if tk_closed task then Some (tk_Ret task, tk_Err task)
           else map_option (\<lambda>e. (None, Some e)) ctxErr)
   }"

section \<open>Goroutines\<close>

text \<open>
  Workers: \<open>WTop\<close> at the top of the loop (about to pop, or at the select of the channel mode), \<open>WWait\<close> in
  the select of \<^verbatim>\<open>nextCASTask\<close>, \<open>WGot\<close> with a task it has just taken, \<open>WCounted\<close> before \<^verbatim>\<open>isStopped\<close>, \<open>WExec\<close>
  before \<^verbatim>\<open>execute\<close>.  Submitters: \<open>APublish\<close> and \<open>ANotify\<close> hold the lock, \<open>AAccepted\<close> and \<open>ARejected\<close> have
  returned.  \<open>RSpawn\<close> is \<^verbatim>\<open>Run\<close> with workers left to start, \<open>SDrain\<close> the loop of \<^verbatim>\<open>stop\<close> under the lock.
\<close>

datatype wthread =
    WTop | WWait | WGot addr | WCounted addr | WExec addr
  | APublish addr | ANotify addr | AAccepted addr | ARejected addr
  | RSpawn nat | SDrain

datatype outcome = Returned "nat option" "error option" | Panicked

definition newTask :: wpTask where
  "newTask = \<lparr>tk_Ret = None, tk_Err = None, tk_completeOnce = False, tk_closed = False\<rparr>"

text \<open>\<^verbatim>\<open>AddTask\<close> up to the publication; \<open>Inl\<close> is the error it returns with.\<close>

definition AddTask_lock :: "workPool \<Rightarrow> bool \<Rightarrow> addr \<Rightarrow> workPool \<times> (error + addr)" where
  "AddTask_lock wp hasProcess a =
     (if \<not> hasProcess then (wp, Inl wpErrNilProcess)
      else if wp_stopped wp then (wp, Inl wpErrPoolClosed)
      else (wp\<lparr>wp_heap := (wp_heap wp)(a \<mapsto> newTask), wp_mu := True, wp_parallel := wp_parallel wp + 1\<rparr>, Inr a))"

definition AddTask_publish :: "workPool \<Rightarrow> addr \<Rightarrow> workPool \<times> wthread" where
  "AddTask_publish wp a =
     (if wp_QueueMode wp = QueueModeCAS then (wp\<lparr>wp_TaskQ := wp_TaskQ wp @ [a]\<rparr>, ANotify a)
      else if length (wp_tasks wp) < wp_tasksCap wp then (wp\<lparr>wp_tasks := wp_tasks wp @ [a], wp_mu := False\<rparr>, AAccepted a)
      else (wp\<lparr>wp_parallel := wp_parallel wp - 1, wp_mu := False\<rparr>, ARejected a))"

definition AddTask_notify :: "workPool \<Rightarrow> addr \<Rightarrow> workPool \<times> wthread" where
  "AddTask_notify wp a =
     (let wp = (if wp_Notify wp < wp_notifyCap wp then wp\<lparr>wp_Notify := Suc (wp_Notify wp)\<rparr> else wp) in
      (wp\<lparr>wp_mu := False\<rparr>, AAccepted a))"

text \<open>\<^verbatim>\<open>execute\<close>: the context's error, or what the task returns; a panic becomes \<^verbatim>\<open>ErrTaskPanic\<close>.\<close>

definition execute :: "workPool \<Rightarrow> addr \<Rightarrow> error option \<Rightarrow> outcome \<Rightarrow> workPool go" where
  "execute wp a ctxErr out =
     (case ctxErr of
        Some e \<Rightarrow> complete wp a None (Some e)
      | None \<Rightarrow>
          (case out of
             Returned ret err \<Rightarrow> complete wp a ret err
           | Panicked \<Rightarrow> complete wp a None (Some wpErrTaskPanic)))"

text \<open>One step of a worker; \<open>None\<close> in the second component is its return.\<close>

definition worker_top :: "workPool \<Rightarrow> (workPool \<times> wthread) option" where
  "worker_top wp =
     (if wp_QueueMode wp = QueueModeCAS
      then (case wp_TaskQ wp of [] \<Rightarrow> Some (wp, WWait) | a # rest \<Rightarrow> Some (wp\<lparr>wp_TaskQ := rest\<rparr>, WGot a))
      else (case wp_tasks wp of [] \<Rightarrow> None | a # rest \<Rightarrow> Some (wp\<lparr>wp_tasks := rest\<rparr>, WGot a)))"

definition worker_count :: "workPool \<Rightarrow> workPool" where
  "worker_count wp = wp\<lparr>wp_parallel := wp_parallel wp - 1\<rparr>"

definition worker_exit :: "workPool \<Rightarrow> workPool" where
  "worker_exit wp = wp\<lparr>wp_Wg := wp_Wg wp - 1\<rparr>"

definition worker_check :: "workPool \<Rightarrow> addr \<Rightarrow> (workPool \<times> bool) go" where
  "worker_check wp a =
     (if wp_stopped wp then map_option (\<lambda>wp. (worker_exit wp, True)) (complete wp a None (Some wpErrPoolClosed))
      else Some (wp, False))"

text \<open>\<^verbatim>\<open>Run\<close> under the lock; a wait group that becomes negative panics.\<close>

definition Run_lock :: "workPool \<Rightarrow> (workPool \<times> nat) go" where
  "Run_lock wp =
     (if wp_started wp \<or> wp_stopped wp then Some (wp, 0)
      else
        let workerCount = sint (wp_PoolSize wp) in
        if wp_Wg wp + workerCount < 0 then None
        else Some (wp\<lparr>wp_started := True, wp_Wg := wp_Wg wp + workerCount\<rparr>, nat workerCount))"

definition stop_begin :: "workPool \<Rightarrow> workPool" where
  "stop_begin wp = wp\<lparr>wp_stopOnce := True, wp_mu := True, wp_stopped := True, wp_cancelled := True\<rparr>"

definition stop_drain :: "workPool \<Rightarrow> (workPool \<times> bool) go" where
  "stop_drain wp =
     (case (if wp_QueueMode wp = QueueModeCAS then wp_TaskQ wp else wp_tasks wp) of
        [] \<Rightarrow> Some (wp\<lparr>wp_mu := False\<rparr>, True)
      | a # rest \<Rightarrow> do {
          let wp = (if wp_QueueMode wp = QueueModeCAS then wp\<lparr>wp_TaskQ := rest\<rparr> else wp\<lparr>wp_tasks := rest\<rparr>);
          wp \<leftarrow> complete (wp\<lparr>wp_parallel := wp_parallel wp - 1\<rparr>) a None (Some wpErrPoolClosed);
          Some (wp, False)
        })"

inductive wp_step :: "workPool \<times> wthread multiset \<Rightarrow> workPool \<times> wthread multiset \<Rightarrow> bool" where
  add: "\<not> wp_mu wp \<Longrightarrow> wp_heap wp a = None \<Longrightarrow> AddTask_lock wp hasProcess a = (wp', Inr a') \<Longrightarrow>
    wp_step (wp, T) (wp', add_mset (APublish a') T)"
| publish: "AddTask_publish wp a = (wp', th) \<Longrightarrow> wp_step (wp, add_mset (APublish a) T) (wp', add_mset th T)"
| notify: "AddTask_notify wp a = (wp', th) \<Longrightarrow> wp_step (wp, add_mset (ANotify a) T) (wp', add_mset th T)"
| run: "\<not> wp_mu wp \<Longrightarrow> Run_lock wp = Some (wp', n) \<Longrightarrow> wp_step (wp, T) (wp', add_mset (RSpawn n) T)"
| spawn: "wp_step (wp, add_mset (RSpawn (Suc n)) T) (wp, add_mset WTop (add_mset (RSpawn n) T))"
| top: "worker_top wp = Some (wp', th) \<Longrightarrow> wp_step (wp, add_mset WTop T) (wp', add_mset th T)"
| top_done: "wp_QueueMode wp = QueueModeChannel \<Longrightarrow> wp_cancelled wp \<Longrightarrow> wp_step (wp, add_mset WTop T) (worker_exit wp, T)"
| wake: "0 < wp_Notify wp \<Longrightarrow> wp_step (wp, add_mset WWait T) (wp\<lparr>wp_Notify := wp_Notify wp - 1\<rparr>, add_mset WTop T)"
| wait_done: "wp_cancelled wp \<Longrightarrow> wp_step (wp, add_mset WWait T) (worker_exit wp, T)"
| count: "wp_step (wp, add_mset (WGot a) T) (worker_count wp, add_mset (WCounted a) T)"
| check: "\<not> wp_mu wp \<Longrightarrow> worker_check wp a = Some (wp', fin) \<Longrightarrow>
    wp_step (wp, add_mset (WCounted a) T) (wp', if fin then T else add_mset (WExec a) T)"
| exec: "execute wp a ctxErr out = Some wp' \<Longrightarrow> wp_step (wp, add_mset (WExec a) T) (wp', add_mset WTop T)"
| stop: "\<not> wp_mu wp \<Longrightarrow> \<not> wp_stopOnce wp \<Longrightarrow> wp_step (wp, T) (stop_begin wp, add_mset SDrain T)"
| drain: "stop_drain wp = Some (wp', fin) \<Longrightarrow> wp_step (wp, add_mset SDrain T) (wp', if fin then T else add_mset SDrain T)"

inductive wp_reachable :: "workPool \<times> wthread multiset \<Rightarrow> bool" where
  new: "NewWorkPoolWithOptions options = Some wp \<Longrightarrow> wp_reachable (wp, {#})"
| step: "wp_reachable s \<Longrightarrow> wp_step s s' \<Longrightarrow> wp_reachable s'"

section \<open>Invariant\<close>

text \<open>The task a goroutine holds; the ones that hold the lock; those that still count in \<^verbatim>\<open>parallel\<close>.\<close>

fun holds :: "wthread \<Rightarrow> addr multiset" where
  "holds (WGot a) = {#a#}"
| "holds (WCounted a) = {#a#}"
| "holds (WExec a) = {#a#}"
| "holds (APublish a) = {#a#}"
| "holds _ = {#}"

fun locking :: "wthread \<Rightarrow> nat" where
  "locking (APublish _) = 1"
| "locking (ANotify _) = 1"
| "locking SDrain = 1"
| "locking _ = 0"

fun counting :: "wthread \<Rightarrow> nat" where
  "counting (WGot _) = 1"
| "counting (APublish _) = 1"
| "counting _ = 0"

fun working :: "wthread \<Rightarrow> nat" where
  "working WTop = 1"
| "working WWait = 1"
| "working (WGot _) = 1"
| "working (WCounted _) = 1"
| "working (WExec _) = 1"
| "working (RSpawn n) = n"
| "working _ = 0"

definition tally :: "(wthread \<Rightarrow> nat) \<Rightarrow> wthread multiset \<Rightarrow> nat" where
  "tally f T = \<Sum>\<^sub># (image_mset f T)"

lemma tally_simps [simp]: "tally f {#} = 0" "tally f (add_mset th T) = f th + tally f T"
  by (simp_all add: tally_def)

definition in_pool :: "workPool \<Rightarrow> wthread multiset \<Rightarrow> addr multiset" where
  "in_pool wp T = mset (wp_TaskQ wp) + mset (wp_tasks wp) + \<Sum>\<^sub># (image_mset holds T)"

definition completed :: "workPool \<Rightarrow> addr \<Rightarrow> bool" where
  "completed wp a = (case wp_heap wp a of None \<Rightarrow> False | Some task \<Rightarrow> tk_closed task)"

definition fresh_task :: "workPool \<Rightarrow> addr \<Rightarrow> bool" where
  "fresh_task wp a = (wp_heap wp a = Some newTask)"

fun accepted :: "wthread \<Rightarrow> addr option" where
  "accepted (ANotify a) = Some a"
| "accepted (AAccepted a) = Some a"
| "accepted _ = None"

definition task_inv :: "workPool \<Rightarrow> wthread multiset \<Rightarrow> bool" where
  "task_inv wp T \<longleftrightarrow>
     once (in_pool wp T) \<and> (\<forall>a \<in># in_pool wp T. fresh_task wp a) \<and>
     (\<forall>th \<in># T. \<forall>a. accepted th = Some a \<longrightarrow> a \<in># in_pool wp T \<or> completed wp a) \<and>
     (\<forall>a task. wp_heap wp a = Some task \<longrightarrow> tk_completeOnce task = tk_closed task)"

definition lock_inv :: "workPool \<Rightarrow> wthread multiset \<Rightarrow> bool" where
  "lock_inv wp T \<longleftrightarrow>
     tally locking T = (if wp_mu wp then 1 else 0) \<and>
     wp_stopped wp = wp_stopOnce wp \<and> wp_cancelled wp = wp_stopped wp \<and>
     (wp_stopped wp \<longrightarrow> SDrain \<in># T \<or> wp_TaskQ wp = [] \<and> wp_tasks wp = []) \<and>
     (SDrain \<in># T \<longrightarrow> wp_stopped wp) \<and>
     (wp_stopped wp \<longrightarrow> (\<forall>th \<in># T. \<forall>a. th \<noteq> APublish a \<and> th \<noteq> ANotify a)) \<and>
     (wp_QueueMode wp = QueueModeCAS \<longrightarrow> wp_tasks wp = []) \<and> (wp_QueueMode wp = QueueModeChannel \<longrightarrow> wp_TaskQ wp = []) \<and>
     (wp_QueueMode wp = QueueModeChannel \<longrightarrow> (\<forall>th \<in># T. \<forall>a. th \<noteq> ANotify a \<and> th \<noteq> WWait))"

definition count_inv :: "workPool \<Rightarrow> wthread multiset \<Rightarrow> bool" where
  "count_inv wp T \<longleftrightarrow>
     wp_parallel wp = word_of_nat (length (wp_TaskQ wp) + length (wp_tasks wp) + tally counting T) \<and>
     wp_Wg wp = int (tally working T) \<and>
     length (wp_tasks wp) \<le> wp_tasksCap wp"


fun notifying :: "wthread \<Rightarrow> nat" where
  "notifying (ANotify _) = 1"
| "notifying _ = 0"

fun waiting :: "wthread \<Rightarrow> nat" where
  "waiting WWait = 1"
| "waiting _ = 0"

fun looking :: "wthread \<Rightarrow> nat" where
  "looking WTop = 1"
| "looking _ = 0"

text \<open>
  No wake-up is lost: either nothing is queued, or there is a token (present or about to be sent) for
  every sleeping worker, or tokens and workers about to pop suffice for the whole queue.
\<close>

definition wake_inv :: "workPool \<Rightarrow> wthread multiset \<Rightarrow> bool" where
  "wake_inv wp T \<longleftrightarrow>
     (wp_TaskQ wp = [] \<or> tally waiting T \<le> wp_Notify wp + tally notifying T \<or>
      length (wp_TaskQ wp) \<le> wp_Notify wp + tally notifying T + tally looking T) \<and>
     tally working T \<le> wp_notifyCap wp \<and> sint (wp_PoolSize wp) \<le> int (wp_notifyCap wp) \<and>
     (\<not> wp_started wp \<longrightarrow> tally working T = 0)"

text \<open>A task being published has not been accepted yet.\<close>

definition pub_inv :: "wthread multiset \<Rightarrow> bool" where
  "pub_inv T \<longleftrightarrow> (\<forall>a. APublish a \<in># T \<longrightarrow> (\<forall>th \<in># T. accepted th \<noteq> Some a))"

definition wp_inv :: "workPool \<times> wthread multiset \<Rightarrow> bool" where
  "wp_inv s \<longleftrightarrow>
     (case s of (wp, T) \<Rightarrow> task_inv wp T \<and> lock_inv wp T \<and> count_inv wp T \<and> wake_inv wp T \<and> pub_inv T)"

lemma waiting_le_working: "tally waiting T \<le> tally working T"
proof (induction T)
  case (add th T)
  then show ?case by (cases th) auto
qed simp

lemma tally_locking_zero: "tally locking T = 0 \<Longrightarrow> th \<in># T \<Longrightarrow> locking th = 0"
  by (auto simp: tally_def)

lemma new_inv: "NewWorkPoolWithOptions options = Some wp \<Longrightarrow> wp_inv (wp, {#})"
proof -
  have "sint (word_of_int n :: 32 word) \<le> n" if "0 < n" for n
    using that by (simp add: sint_sbintrunc' signed_take_bit_int_less_eq_self_iff)
  then show "NewWorkPoolWithOptions options = Some wp \<Longrightarrow> wp_inv (wp, {#})"
    by (auto simp: NewWorkPoolWithOptions_def Let_def wp_inv_def task_inv_def lock_inv_def count_inv_def wake_inv_def pub_inv_def in_pool_def
        split: if_splits)
qed

lemma complete_frame:
  assumes "complete wp a ret err = Some wp'"
  shows "wp' = wp\<lparr>wp_heap := wp_heap wp'\<rparr>"
  using assms by (auto simp: complete_def bind_eq_Some_conv)

lemma execute_frame: "execute wp a ctxErr out = Some wp' \<Longrightarrow> wp' = wp\<lparr>wp_heap := wp_heap wp'\<rparr>"
  by (auto simp: execute_def dest: complete_frame split: option.splits outcome.splits)

text \<open>What a completion leaves alone.\<close>

lemma complete_fields:
  assumes "complete wp a ret err = Some wp'"
  shows "wp_TaskQ wp' = wp_TaskQ wp" "wp_tasks wp' = wp_tasks wp" "wp_Notify wp' = wp_Notify wp"
    "wp_notifyCap wp' = wp_notifyCap wp" "wp_PoolSize wp' = wp_PoolSize wp" "wp_started wp' = wp_started wp"
    "wp_parallel wp' = wp_parallel wp" "wp_Wg wp' = wp_Wg wp" "wp_tasksCap wp' = wp_tasksCap wp" "wp_mu wp' = wp_mu wp"
    "wp_stopped wp' = wp_stopped wp" "wp_stopOnce wp' = wp_stopOnce wp" "wp_cancelled wp' = wp_cancelled wp"
    "wp_QueueMode wp' = wp_QueueMode wp"
  by (subst complete_frame [OF assms]; simp)+

lemma execute_complete:
  assumes "execute wp a ctxErr out = Some wp'"
  obtains ret err where "complete wp a ret err = Some wp'"
  using assms by (auto simp: execute_def split: option.splits outcome.splits)

lemma stop_drain_cases:
  assumes "stop_drain wp = Some (wp', fin)"
  obtains (finish) "fin" "wp' = wp\<lparr>wp_mu := False\<rparr>" "(if wp_QueueMode wp = QueueModeCAS then wp_TaskQ wp else wp_tasks wp) = []"
    | (cas) a rest h where "\<not> fin" "wp_QueueMode wp = QueueModeCAS" "wp_TaskQ wp = a # rest"
        "wp' = wp\<lparr>wp_TaskQ := rest, wp_parallel := wp_parallel wp - 1, wp_heap := h\<rparr>"
    | (chan) a rest h where "\<not> fin" "wp_QueueMode wp = QueueModeChannel" "wp_tasks wp = a # rest"
        "wp' = wp\<lparr>wp_tasks := rest, wp_parallel := wp_parallel wp - 1, wp_heap := h\<rparr>"
proof (cases "if wp_QueueMode wp = QueueModeCAS then wp_TaskQ wp else wp_tasks wp")
  case Nil
  then show thesis using assms finish by (simp add: stop_drain_def)
next
  case (Cons a rest)
  show thesis
  proof (cases "wp_QueueMode wp")
    case QueueModeCAS
    then obtain wp1 where "complete (wp\<lparr>wp_TaskQ := rest, wp_parallel := wp_parallel wp - 1\<rparr>) a None (Some wpErrPoolClosed) = Some wp1"
        "wp' = wp1" "\<not> fin"
      using assms Cons by (auto simp: stop_drain_def Let_def bind_eq_Some_conv)
    then show thesis using cas [of a rest "wp_heap wp'"] QueueModeCAS Cons complete_frame by fastforce
  next
    case QueueModeChannel
    then obtain wp1 where "complete (wp\<lparr>wp_tasks := rest, wp_parallel := wp_parallel wp - 1\<rparr>) a None (Some wpErrPoolClosed) = Some wp1"
        "wp' = wp1" "\<not> fin"
      using assms Cons by (auto simp: stop_drain_def Let_def bind_eq_Some_conv)
    then show thesis using chan [of a rest "wp_heap wp'"] QueueModeChannel Cons complete_frame by fastforce
  qed
qed

lemma step_wake:
  assumes "wp_step (wp, T) (wp', T')" and w: "wake_inv wp T" and l: "lock_inv wp T"
  shows "wake_inv wp' T'"
  using assms(1)
proof (cases rule: wp_step.cases)
  case (add a hasProcess a')
  then show ?thesis using w by (auto simp: wake_inv_def AddTask_lock_def split: if_splits)
next
  case (publish a th T0)
  then show ?thesis using w by (cases "wp_QueueMode wp") (auto simp: wake_inv_def AddTask_publish_def split: if_splits)
next
  case (notify a th T0)
  then show ?thesis using w waiting_le_working [of T0] by (auto simp: wake_inv_def AddTask_notify_def Let_def split: if_splits)
next
  case (run n)
  then show ?thesis using w by (auto simp: wake_inv_def Run_lock_def Let_def split: if_splits)
next
  case (spawn n T0)
  then show ?thesis using w by (auto simp: wake_inv_def)
next
  case (top th T0)
  have "wp_QueueMode wp = QueueModeChannel \<Longrightarrow> wp_TaskQ wp = []" using l by (simp add: lock_inv_def)
  with top w show ?thesis by (cases "wp_QueueMode wp") (auto simp: wake_inv_def worker_top_def split: list.splits)
next
  case top_done
  then show ?thesis using w l by (auto simp: wake_inv_def lock_inv_def worker_exit_def)
next
  case (wake T0)
  then show ?thesis using w by (auto simp: wake_inv_def)
next
  case wait_done
  then show ?thesis using w by (auto simp: wake_inv_def worker_exit_def)
next
  case (count a T0)
  then show ?thesis using w by (auto simp: wake_inv_def worker_count_def)
next
  case (check a fin T0)
  then show ?thesis using w
    by (auto simp: wake_inv_def worker_check_def worker_exit_def complete_fields split: if_splits)
next
  case (exec a ctxErr out T0)
  obtain ret err where c: "complete wp a ret err = Some wp'" using execute_complete [OF exec(3)] .
  then show ?thesis using w exec by (auto simp: wake_inv_def complete_fields [OF c])
next
  case stop
  then show ?thesis using w by (simp add: wake_inv_def stop_begin_def)
next
  case (drain fin T0)
  from drain(3) show ?thesis using w drain(1,2) by (cases rule: stop_drain_cases) (auto simp: wake_inv_def)
qed


lemma step_count:
  assumes "wp_step (wp, T) (wp', T')" and c: "count_inv wp T" and w: "wake_inv wp T"
  shows "count_inv wp' T'"
  using assms(1)
proof (cases rule: wp_step.cases)
  case (add a hasProcess a')
  then show ?thesis using c by (auto simp: count_inv_def AddTask_lock_def split: if_splits)
next
  case (publish a th T0)
  then show ?thesis using c by (auto simp: count_inv_def AddTask_publish_def split: if_splits)
next
  case (notify a th T0)
  then show ?thesis using c by (auto simp: count_inv_def AddTask_notify_def Let_def)
next
  case (run n)
  then show ?thesis using c w by (auto simp: count_inv_def wake_inv_def Run_lock_def Let_def split: if_splits)
next
  case (spawn n T0)
  then show ?thesis using c by (auto simp: count_inv_def)
next
  case (top th T0)
  then show ?thesis using c by (cases "wp_QueueMode wp") (auto simp: count_inv_def worker_top_def split: list.splits)
next
  case top_done
  then show ?thesis using c by (auto simp: count_inv_def worker_exit_def)
next
  case (wake T0)
  then show ?thesis using c by (auto simp: count_inv_def)
next
  case wait_done
  then show ?thesis using c by (auto simp: count_inv_def worker_exit_def)
next
  case (count a T0)
  then show ?thesis using c by (auto simp: count_inv_def worker_count_def)
next
  case (check a fin T0)
  then show ?thesis using c
    by (auto simp: count_inv_def worker_check_def worker_exit_def complete_fields split: if_splits)
next
  case (exec a ctxErr out T0)
  obtain ret err where co: "complete wp a ret err = Some wp'" using execute_complete [OF exec(3)] .
  then show ?thesis using c exec by (auto simp: count_inv_def complete_fields [OF co])
next
  case stop
  then show ?thesis using c by (simp add: count_inv_def stop_begin_def)
next
  case (drain fin T0)
  from drain(3) show ?thesis using c drain(1,2) by (cases rule: stop_drain_cases) (auto simp: count_inv_def)
qed

text \<open>Steps of workers do not touch what the lock protects; a queue may get shorter.\<close>

lemma lock_frame:
  assumes l: "lock_inv wp T"
    and wp: "wp_mu wp' = wp_mu wp" "wp_stopped wp' = wp_stopped wp" "wp_stopOnce wp' = wp_stopOnce wp"
      "wp_cancelled wp' = wp_cancelled wp" "wp_QueueMode wp' = wp_QueueMode wp"
      "wp_TaskQ wp = [] \<Longrightarrow> wp_TaskQ wp' = []" "wp_tasks wp = [] \<Longrightarrow> wp_tasks wp' = []"
    and T: "tally locking T' = tally locking T" "SDrain \<in># T' \<longleftrightarrow> SDrain \<in># T"
      "\<And>a. APublish a \<in># T' \<Longrightarrow> APublish a \<in># T" "\<And>a. ANotify a \<in># T' \<Longrightarrow> ANotify a \<in># T"
      "wp_QueueMode wp = QueueModeChannel \<Longrightarrow> WWait \<in># T' \<Longrightarrow> WWait \<in># T"
  shows "lock_inv wp' T'"
proof -
  have "\<forall>th \<in># T'. \<forall>a. th \<noteq> APublish a \<and> th \<noteq> ANotify a" if "wp_stopped wp"
    using l that T(3,4) by (auto simp: lock_inv_def)
  moreover have "\<forall>th \<in># T'. \<forall>a. th \<noteq> ANotify a \<and> th \<noteq> WWait" if "wp_QueueMode wp = QueueModeChannel"
    using l that T(4,5) by (auto simp: lock_inv_def)
  moreover have "wp_stopped wp \<Longrightarrow> SDrain \<in># T' \<or> wp_TaskQ wp' = [] \<and> wp_tasks wp' = []"
    "wp_QueueMode wp = QueueModeCAS \<Longrightarrow> wp_tasks wp' = []" "wp_QueueMode wp = QueueModeChannel \<Longrightarrow> wp_TaskQ wp' = []"
    using l wp(6,7) T(2) by (auto simp: lock_inv_def)
  moreover have "tally locking T = (if wp_mu wp then 1 else 0)" "wp_stopped wp = wp_stopOnce wp" "wp_cancelled wp = wp_stopped wp"
    "SDrain \<in># T \<Longrightarrow> wp_stopped wp"
    using l by (auto simp: lock_inv_def)
  ultimately show ?thesis using wp(1-5) T(1,2) unfolding lock_inv_def by simp
qed

lemma step_lock:
  assumes "wp_step (wp, T) (wp', T')" and l: "lock_inv wp T"
  shows "lock_inv wp' T'"
  using assms(1)
proof (cases rule: wp_step.cases)
  case (add a hasProcess a')
  then have "wp' = wp\<lparr>wp_heap := (wp_heap wp)(a \<mapsto> newTask), wp_mu := True, wp_parallel := wp_parallel wp + 1\<rparr>" "\<not> wp_stopped wp"
    by (auto simp: AddTask_lock_def split: if_splits)
  moreover have "tally locking T = 0" "SDrain \<notin># T" using l add tally_locking_zero [of T SDrain] by (auto simp: lock_inv_def)
  ultimately show ?thesis using l add by (simp add: lock_inv_def)
next
  case (publish a th T0)
  have lk: "wp_mu wp" "tally locking T0 = 0" using l publish by (auto simp: lock_inv_def split: if_splits)
  then have nd: "SDrain \<notin># T0" "\<not> wp_stopped wp" using l publish tally_locking_zero [of T0 SDrain] by (auto simp: lock_inv_def)
  have rest: "\<not> wp_stopOnce wp" "\<not> wp_cancelled wp" "wp_QueueMode wp = QueueModeCAS \<Longrightarrow> wp_tasks wp = []"
    "wp_QueueMode wp = QueueModeChannel \<Longrightarrow> wp_TaskQ wp = []"
    "wp_QueueMode wp = QueueModeChannel \<Longrightarrow> \<forall>th \<in># T0. \<forall>a. th \<noteq> ANotify a \<and> th \<noteq> WWait"
    using l publish nd(2) by (simp_all add: lock_inv_def)
  show ?thesis
  proof (cases "wp_QueueMode wp")
    case QueueModeCAS
    then have "th = ANotify a" "wp' = wp\<lparr>wp_TaskQ := wp_TaskQ wp @ [a]\<rparr>" using publish(3) by (simp_all add: AddTask_publish_def)
    then show ?thesis using lk nd rest QueueModeCAS publish(2) by (simp add: lock_inv_def)
  next
    case QueueModeChannel
    show ?thesis
    proof (cases "length (wp_tasks wp) < wp_tasksCap wp")
      case True
      then have "th = AAccepted a" "wp' = wp\<lparr>wp_tasks := wp_tasks wp @ [a], wp_mu := False\<rparr>"
        using publish(3) QueueModeChannel by (simp_all add: AddTask_publish_def)
      then show ?thesis using lk nd rest QueueModeChannel publish(2) by (simp add: lock_inv_def)
    next
      case False
      then have "th = ARejected a" "wp' = wp\<lparr>wp_parallel := wp_parallel wp - 1, wp_mu := False\<rparr>"
        using publish(3) QueueModeChannel by (simp_all add: AddTask_publish_def)
      then show ?thesis using lk nd rest QueueModeChannel publish(2) by (simp add: lock_inv_def)
    qed
  qed
next
  case (notify a th T0)
  then obtain k where th: "th = AAccepted a" "wp' = wp\<lparr>wp_Notify := k, wp_mu := False\<rparr>"
    by (cases wp) (auto simp: AddTask_notify_def Let_def split: if_splits)
  have lk: "wp_mu wp" "tally locking T0 = 0" using l notify by (auto simp: lock_inv_def split: if_splits)
  then have "SDrain \<notin># T0" "\<not> wp_stopped wp" using l notify tally_locking_zero [of T0 SDrain] by (auto simp: lock_inv_def)
  with l notify th lk show ?thesis by (simp add: lock_inv_def)
next
  case (run n)
  then show ?thesis by (intro lock_frame [OF l]) (auto simp: Run_lock_def Let_def split: if_splits)
next
  case (spawn n T0)
  then show ?thesis by (intro lock_frame [OF l]) auto
next
  case (top th T0)
  then show ?thesis by (intro lock_frame [OF l]) (auto simp: worker_top_def split: list.splits if_splits)
next
  case top_done
  then show ?thesis by (intro lock_frame [OF l]) (auto simp: worker_exit_def)
next
  case (wake T0)
  then show ?thesis by (intro lock_frame [OF l]) auto
next
  case wait_done
  then show ?thesis by (intro lock_frame [OF l]) (auto simp: worker_exit_def)
next
  case (count a T0)
  then show ?thesis by (intro lock_frame [OF l]) (auto simp: worker_count_def)
next
  case (check a fin T0)
  show ?thesis
  proof (cases "wp_stopped wp")
    case True
    then obtain wp1 where c: "complete wp a None (Some wpErrPoolClosed) = Some wp1" "wp' = worker_exit wp1" "fin"
      using check by (auto simp: worker_check_def)
    then have "wp' = wp\<lparr>wp_heap := wp_heap wp1, wp_Wg := wp_Wg wp - 1\<rparr>"
      using complete_frame [OF c(1)] complete_fields(8) [OF c(1)] by (simp add: worker_exit_def)
    with check c(3) show ?thesis by (intro lock_frame [OF l]) auto
  next
    case False
    then show ?thesis using check by (intro lock_frame [OF l]) (auto simp: worker_check_def)
  qed
next
  case (exec a ctxErr out T0)
  obtain ret err where co: "complete wp a ret err = Some wp'" using execute_complete [OF exec(3)] .
  then show ?thesis using exec by (intro lock_frame [OF l]) (auto simp: complete_fields [OF co])
next
  case stop
  then have "tally locking T = 0" using l by (simp add: lock_inv_def)
  then have "\<forall>th \<in># T. locking th = 0" using tally_locking_zero by blast
  then have "\<forall>th \<in># T. \<forall>a. th \<noteq> APublish a \<and> th \<noteq> ANotify a" by auto
  then show ?thesis using l stop by (auto simp: lock_inv_def stop_begin_def)
next
  case (drain fin T0)
  from drain(3) show ?thesis using l drain(1,2)
    by (cases rule: stop_drain_cases; cases "wp_QueueMode wp") (auto simp: lock_inv_def split: if_splits)
qed


lemma pub_inv_sub:
  assumes "pub_inv T" "\<And>a. APublish a \<in># T' \<Longrightarrow> APublish a \<in># T"
    "\<And>th a. th \<in># T' \<Longrightarrow> accepted th = Some a \<Longrightarrow> \<exists>th' \<in># T. accepted th' = Some a"
  shows "pub_inv T'"
  using assms unfolding pub_inv_def by metis

lemma single_publisher:
  assumes "lock_inv wp (add_mset (APublish a) T)" shows "APublish b \<notin># T"
proof
  assume "APublish b \<in># T"
  then obtain T0 where "T = add_mset (APublish b) T0" by (metis multi_member_split)
  then show False using assms by (simp add: lock_inv_def split: if_splits)
qed

lemma step_pub:
  assumes "wp_step (wp, T) (wp', T')" and p: "pub_inv T" and l: "lock_inv wp T" and t: "task_inv wp T"
  shows "pub_inv T'"
  using assms(1)
proof (cases rule: wp_step.cases)
  case (add a hasProcess a')
  have "a' = a" using add by (auto simp: AddTask_lock_def split: if_splits)
  moreover have "accepted th \<noteq> Some a" if "th \<in># T" for th
  proof
    assume "accepted th = Some a"
    then have "a \<in># in_pool wp T \<or> completed wp a" using t that unfolding task_inv_def by blast
    then show False using t add by (auto simp: task_inv_def fresh_task_def completed_def)
  qed
  ultimately show ?thesis using p add by (auto simp: pub_inv_def)
next
  case (publish a th T0)
  then have "APublish b \<notin># T'" for b
    using single_publisher l by (auto simp: AddTask_publish_def split: if_splits)
  then show ?thesis by (simp add: pub_inv_def)
next
  case (notify a th T0)
  then show ?thesis by (intro pub_inv_sub [OF p]) (auto simp: AddTask_notify_def Let_def)
next
  case (top th T0)
  then show ?thesis by (intro pub_inv_sub [OF p]) (auto simp: worker_top_def split: list.splits if_splits)
qed (use p in \<open>auto simp: pub_inv_def split: if_splits\<close>)

text \<open>Completing a task that was in the pool.\<close>

lemma complete_fresh:
  assumes "fresh_task wp a"
  shows "complete wp a ret err = Some (wp\<lparr>wp_heap := (wp_heap wp)(a \<mapsto>
    \<lparr>tk_Ret = ret, tk_Err = err, tk_completeOnce = True, tk_closed = True\<rparr>)\<rparr>)"
  using assms by (simp add: fresh_task_def complete_def complete_task_def newTask_def)

lemma accepted_ok:
  "task_inv wp T \<Longrightarrow> th \<in># T \<Longrightarrow> accepted th = Some b \<Longrightarrow> b \<in># in_pool wp T \<or> completed wp b"
  unfolding task_inv_def by blast

lemma task_inv_complete:
  assumes inv: "task_inv wp T" and in_pool: "in_pool wp T = add_mset a (in_pool wp' T')"
    and heap: "wp_heap wp' = (wp_heap wp)(a \<mapsto> \<lparr>tk_Ret = ret, tk_Err = err, tk_completeOnce = True, tk_closed = True\<rparr>)"
    and acc: "\<And>th b. th \<in># T' \<Longrightarrow> accepted th = Some b \<Longrightarrow> \<exists>th' \<in># T. accepted th' = Some b"
  shows "task_inv wp' T'"
proof -
  have o: "a \<notin># in_pool wp' T'" "once (in_pool wp' T')" using inv in_pool by (auto simp: task_inv_def)
  have "fresh_task wp' b" if "b \<in># in_pool wp' T'" for b
    using that o(1) inv in_pool heap by (auto simp: task_inv_def fresh_task_def)
  moreover have "b \<in># in_pool wp' T' \<or> completed wp' b" if th: "th \<in># T'" "accepted th = Some b" for th b
  proof -
    obtain th' where "th' \<in># T" "accepted th' = Some b" using acc [OF th] by blast
    then have "b \<in># in_pool wp T \<or> completed wp b" by (rule accepted_ok [OF inv])
    then show ?thesis using in_pool heap by (auto simp: completed_def)
  qed
  ultimately show ?thesis using inv o heap by (auto simp: task_inv_def)
qed

lemma task_inv_move:
  assumes "task_inv wp T" "in_pool wp' T' = in_pool wp T" "wp_heap wp' = wp_heap wp"
    "\<And>th b. th \<in># T' \<Longrightarrow> accepted th = Some b \<Longrightarrow> (\<exists>th' \<in># T. accepted th' = Some b) \<or> b \<in># in_pool wp T"
  shows "task_inv wp' T'"
  using assms unfolding task_inv_def fresh_task_def completed_def by metis

lemma step_task:
  assumes "wp_step (wp, T) (wp', T')" and t: "task_inv wp T" and p: "pub_inv T"
  shows "task_inv wp' T'"
  using assms(1)
proof (cases rule: wp_step.cases)
  case (add a hasProcess a')
  have new: "a \<notin># in_pool wp T" "\<not> completed wp a"
    using t add by (auto simp: task_inv_def fresh_task_def completed_def)
  have wp: "wp' = wp\<lparr>wp_heap := (wp_heap wp)(a \<mapsto> newTask), wp_mu := True, wp_parallel := wp_parallel wp + 1\<rparr>" "a' = a"
    using add by (auto simp: AddTask_lock_def split: if_splits)
  have "in_pool wp' T' = add_mset a (in_pool wp T)" using add wp by (simp add: in_pool_def)
  moreover have "b \<noteq> a" if "b \<in># in_pool wp T" for b using that new by blast
  moreover have "b \<in># in_pool wp T \<or> completed wp' b" if "th \<in># T" "accepted th = Some b" for th b
    using accepted_ok [OF t that] wp new by (cases "b = a") (auto simp: completed_def)
  ultimately show ?thesis using t new add wp
    by (auto simp: task_inv_def fresh_task_def newTask_def)
next
  case (publish a th T0)
  show ?thesis
  proof (cases "th = ARejected a")
    case True
    then have m: "in_pool wp T = add_mset a (in_pool wp' T')" "wp_heap wp' = wp_heap wp" "T' = add_mset (ARejected a) T0"
      using publish by (auto simp: in_pool_def AddTask_publish_def split: if_splits)
    have acc: "b \<in># in_pool wp' T' \<or> completed wp' b" if "th \<in># T'" "accepted th = Some b" for th b
    proof -
      have th: "th \<in># T" using that m(3) publish by auto
      then have "b \<noteq> a" using p publish that(2) by (auto simp: pub_inv_def)
      then show ?thesis using accepted_ok [OF t th that(2)] m by (auto simp: completed_def)
    qed
    have "once (in_pool wp' T')" "\<forall>b \<in># in_pool wp' T'. fresh_task wp' b"
      using t m by (auto simp: task_inv_def fresh_task_def)
    with acc t m(2) show ?thesis by (simp add: task_inv_def)
  next
    case False
    then show ?thesis
      using publish by (intro task_inv_move [OF t]) (auto simp: in_pool_def AddTask_publish_def split: if_splits)
  qed
next
  case (notify a th T0)
  then show ?thesis by (intro task_inv_move [OF t]) (auto simp: in_pool_def AddTask_notify_def Let_def split: if_splits)
next
  case (run n)
  then show ?thesis by (intro task_inv_move [OF t]) (auto simp: in_pool_def Run_lock_def Let_def split: if_splits)
next
  case (spawn n T0)
  then show ?thesis by (intro task_inv_move [OF t]) (auto simp: in_pool_def)
next
  case (top th T0)
  then show ?thesis
    by (intro task_inv_move [OF t]) (auto simp: in_pool_def worker_top_def split: list.splits if_splits)
next
  case top_done
  then show ?thesis by (intro task_inv_move [OF t]) (auto simp: in_pool_def worker_exit_def)
next
  case (wake T0)
  then show ?thesis by (intro task_inv_move [OF t]) (auto simp: in_pool_def)
next
  case wait_done
  then show ?thesis by (intro task_inv_move [OF t]) (auto simp: in_pool_def worker_exit_def)
next
  case (count a T0)
  then show ?thesis by (intro task_inv_move [OF t]) (auto simp: in_pool_def worker_count_def)
next
  case (check a fin T0)
  have "fresh_task wp a" using t check by (simp add: task_inv_def in_pool_def)
  note c = complete_fresh [OF this]
  show ?thesis
  proof (cases fin)
    case True
    then show ?thesis using check c
      by (intro task_inv_complete [OF t, of a]) (auto simp: in_pool_def worker_check_def worker_exit_def split: if_splits)
  next
    case False
    then show ?thesis using check
      by (intro task_inv_move [OF t]) (auto simp: in_pool_def worker_check_def split: if_splits)
  qed
next
  case (exec a ctxErr out T0)
  have f: "fresh_task wp a" using t exec by (simp add: task_inv_def in_pool_def)
  obtain ret err where co: "complete wp a ret err = Some wp'" using execute_complete [OF exec(3)] .
  then show ?thesis using exec complete_fresh [OF f]
    by (intro task_inv_complete [OF t, of a]) (auto simp: in_pool_def)
next
  case stop
  then show ?thesis by (intro task_inv_move [OF t]) (auto simp: in_pool_def stop_begin_def)
next
  case (drain fin T0)
  show ?thesis
  proof (cases fin)
    case True
    then show ?thesis using drain
      by (intro task_inv_move [OF t])
        (auto simp: in_pool_def stop_drain_def Let_def bind_eq_Some_conv split: list.splits if_splits)
  next
    case False
    then obtain a rest where q: "(if wp_QueueMode wp = QueueModeCAS then wp_TaskQ wp else wp_tasks wp) = a # rest"
      using drain by (auto simp: stop_drain_def split: list.splits)
    then have "a \<in># in_pool wp T" by (auto simp: in_pool_def split: if_splits)
    then have "fresh_task wp a" using t by (simp add: task_inv_def)
    then have "wp_heap wp a = Some newTask" by (simp add: fresh_task_def)
    then have "wp_heap wp' = (wp_heap wp)(a \<mapsto>
        \<lparr>tk_Ret = None, tk_Err = Some wpErrPoolClosed, tk_completeOnce = True, tk_closed = True\<rparr>)"
      "in_pool wp T = add_mset a (in_pool wp' T')"
      using drain q False
      by (auto simp: stop_drain_def Let_def complete_def complete_task_def newTask_def in_pool_def split: if_splits)
    with drain False show ?thesis by (intro task_inv_complete [OF t]) auto
  qed
qed


lemma wp_reachable_inv: "wp_reachable s \<Longrightarrow> wp_inv s"
proof (induction rule: wp_reachable.induct)
  case (new options wp)
  then show ?case by (rule new_inv)
next
  case (step s s')
  obtain wp T wp' T' where s: "s = (wp, T)" "s' = (wp', T')" by fastforce
  with step have "wp_step (wp, T) (wp', T')" "task_inv wp T" "lock_inv wp T" "count_inv wp T" "wake_inv wp T" "pub_inv T"
    by (auto simp: wp_inv_def)
  then show ?case
    using step_task step_lock step_count step_wake step_pub by (simp add: wp_inv_def s)
qed

lemma reachable_invs:
  assumes "wp_reachable (wp, T)"
  shows "task_inv wp T" "lock_inv wp T" "count_inv wp T" "wake_inv wp T" "pub_inv T"
  using wp_reachable_inv [OF assms] by (auto simp: wp_inv_def)

section \<open>Properties\<close>

text \<open>
  C8: Every accepted task is carried out exactly once.  In every interleaving of submitters, workers, \<^verbatim>\<open>Run\<close>
  and \<^verbatim>\<open>stop\<close>, an accepted task is either completed, or it is in exactly one place, in the queue or in the
  hands of one worker, and not completed; completing it never closes its channel twice.
\<close>

theorem task_exactly_once:
  assumes "wp_reachable (wp, T)" "AAccepted a \<in># T"
  shows "(completed wp a \<and> count (in_pool wp T) a = 0 \<or> \<not> completed wp a \<and> count (in_pool wp T) a = 1) \<and>
    (\<forall>ret err. \<exists>wp'. complete wp a ret err = Some wp' \<and> completed wp' a)"
proof -
  note t = reachable_invs(1) [OF assms(1)]
  have "a \<in># in_pool wp T \<or> completed wp a" using accepted_ok [OF t assms(2)] by simp
  moreover have "\<not> completed wp a" if "a \<in># in_pool wp T"
    using t that by (auto simp: task_inv_def fresh_task_def completed_def newTask_def)
  moreover have "count (in_pool wp T) a \<le> 1" using t by (simp add: task_inv_def once_def)
  then have "count (in_pool wp T) a = (if a \<in># in_pool wp T then 1 else 0)"
    by (auto simp: not_in_iff intro: le_antisym)
  moreover have "\<exists>wp'. complete wp a ret err = Some wp' \<and> completed wp' a" if c: "a \<in># in_pool wp T \<or> completed wp a" for ret err
  proof -
    obtain task where task: "wp_heap wp a = Some task"
      using c t by (auto simp: task_inv_def fresh_task_def completed_def split: option.splits)
    then have "tk_completeOnce task = tk_closed task" using t by (simp add: task_inv_def)
    then show ?thesis using task by (auto simp: complete_def complete_task_def completed_def)
  qed
  ultimately show ?thesis by auto
qed

text \<open>
  C11: No wake-up is lost.  In the mode of the lock-free queue, if tasks are queued and there is neither a
  token in \<^verbatim>\<open>Notify\<close>, nor a submitter about to send one, nor a worker about to look at the queue, then no
  worker is asleep: all of them are busy with other tasks.  Tokens dropped because \<^verbatim>\<open>Notify\<close> is full do no harm.
\<close>

theorem no_lost_wakeup:
  assumes "wp_reachable (wp, T)" "wp_TaskQ wp \<noteq> []" "wp_Notify wp = 0" "\<forall>a. ANotify a \<notin># T" "WTop \<notin># T"
  shows "WWait \<notin># T"
proof
  assume "WWait \<in># T"
  then obtain T0 where T: "T = add_mset WWait T0" by (metis multi_member_split)
  have n: "notifying th = 0" if "th \<in># T" for th using that assms(4) by (cases th) auto
  have k: "looking th = 0" if "th \<in># T" for th using that assms(5) by (cases th) auto
  have "tally notifying T = 0" "tally looking T = 0" using n k by (auto simp: tally_def)
  with T assms(2,3) reachable_invs(4) [OF assms(1)] show False by (simp add: wake_inv_def)
qed

text \<open>
  Shutdown leaves nothing behind.  Once \<^verbatim>\<open>stop\<close> has run, the queue is empty and an accepted task that
  is not completed is in the hands of a worker; a worker that has not started it yet completes it with
  \<^verbatim>\<open>ErrPoolClosed\<close>, and no new task is accepted.
\<close>

theorem stop_leaves_nothing:
  assumes "wp_reachable (wp, T)" "wp_stopped wp" "\<not> wp_mu wp"
  shows "wp_TaskQ wp = [] \<and> wp_tasks wp = [] \<and>
    (AAccepted a \<in># T \<longrightarrow> completed wp a \<or> WGot a \<in># T \<or> WCounted a \<in># T \<or> WExec a \<in># T) \<and>
    (WCounted a \<in># T \<longrightarrow> (\<exists>wp'. worker_check wp a = Some (wp', True) \<and> WaitRet wp' a None = Some (Some (None, Some wpErrPoolClosed)))) \<and>
    AddTask_lock wp True b = (wp, Inl wpErrPoolClosed)"
proof -
  note t = reachable_invs(1) [OF assms(1)] and l = reachable_invs(2) [OF assms(1)]
  have "tally locking T = 0" using l assms(3) by (simp add: lock_inv_def)
  then have free: "locking th = 0" if "th \<in># T" for th using tally_locking_zero that by blast
  have "SDrain \<notin># T" using free [of SDrain] by auto
  then have q: "wp_TaskQ wp = []" "wp_tasks wp = []" using l assms(2) by (auto simp: lock_inv_def)
  have pool: "WGot a \<in># T \<or> WCounted a \<in># T \<or> WExec a \<in># T" if a: "a \<in># in_pool wp T"
  proof -
    obtain th where th: "th \<in># T" "a \<in># holds th" using a q by (auto simp: in_pool_def)
    then show ?thesis using free [OF th(1)] by (cases th) auto
  qed
  have check: "\<exists>wp'. worker_check wp a = Some (wp', True) \<and> WaitRet wp' a None = Some (Some (None, Some wpErrPoolClosed))"
    if "WCounted a \<in># T"
  proof -
    have "a \<in># in_pool wp T" using that by (force simp: in_pool_def)
    then have "fresh_task wp a" using t by (simp add: task_inv_def)
    then show ?thesis using assms(2) complete_fresh
      by (simp add: worker_check_def worker_exit_def WaitRet_def)
  qed
  show ?thesis using q pool check accepted_ok [OF t, of "AAccepted a" a] assms(2)
    by (auto simp: AddTask_lock_def)
qed

text \<open>
  The counters are exact.  \<^verbatim>\<open>parallel\<close> is the number of tasks queued or in transit (modulo $2^{32}$), the
  wait group that \<^verbatim>\<open>Join\<close> waits for is the number of workers that have not returned, and a bounded queue never
  holds more than its capacity.
\<close>

theorem workpool_counters:
  assumes "wp_reachable (wp, T)"
  shows "wp_parallel wp = word_of_nat (length (wp_TaskQ wp) + length (wp_tasks wp) + tally counting T) \<and>
    wp_Wg wp = int (tally working T) \<and> length (wp_tasks wp) \<le> wp_tasksCap wp"
  using reachable_invs(3) [OF assms] by (simp add: count_inv_def)


text \<open>A pool of one worker: two tasks are submitted while it sleeps; it wakes up and takes the first.\<close>

definition demo_wp :: workPool where
  "demo_wp = \<lparr>wp_TaskQ = [], wp_PoolSize = 1, wp_Notify = 0, wp_notifyCap = 1, wp_Wg = 0, wp_QueueMode = QueueModeCAS,
     wp_QueueSize = 0, wp_parallel = 0, wp_tasks = [], wp_tasksCap = 0, wp_cancelled = False, wp_mu = False,
     wp_started = False, wp_stopped = False, wp_stopOnce = False, wp_heap = Map.empty\<rparr>"

lemmas demo_next = wp_reachable.step

lemma demo_wp_new: "wp_reachable (demo_wp, {#})"
  by (rule wp_reachable.new [of "\<lparr>op_PoolSize = 1, op_QueueMode = QueueModeCAS, op_QueueSize = 0\<rparr>"])
    (simp add: NewWorkPoolWithOptions_def demo_wp_def)

lemma demo_submit:
  assumes "wp_reachable (wp, T)" "wp_QueueMode wp = QueueModeCAS" "\<not> wp_mu wp" "\<not> wp_stopped wp" "wp_heap wp a = None"
  shows "wp_reachable (wp\<lparr>wp_TaskQ := wp_TaskQ wp @ [a], wp_Notify := min (Suc (wp_Notify wp)) (max (wp_Notify wp) (wp_notifyCap wp)),
    wp_parallel := wp_parallel wp + 1, wp_heap := (wp_heap wp)(a \<mapsto> newTask)\<rparr>, add_mset (AAccepted a) T)"
proof -
  let ?w1 = "wp\<lparr>wp_heap := (wp_heap wp)(a \<mapsto> newTask), wp_mu := True, wp_parallel := wp_parallel wp + 1\<rparr>"
  have "wp_reachable (?w1, add_mset (APublish a) T)"
    by (rule demo_next [OF assms(1) wp_step.add [where a = a and hasProcess = True]]) (use assms in \<open>simp_all add: AddTask_lock_def\<close>)
  then have "wp_reachable (?w1\<lparr>wp_TaskQ := wp_TaskQ wp @ [a]\<rparr>, add_mset (ANotify a) T)"
    by (rule demo_next [OF _ wp_step.publish]) (use assms in \<open>simp add: AddTask_publish_def\<close>)
  from demo_next [OF this wp_step.notify [OF refl [THEN trans, OF surjective_pairing]]] show ?thesis
    using assms by (cases wp) (auto simp: AddTask_notify_def Let_def split: if_splits)
qed

definition demo_busy :: workPool where
  "demo_busy = demo_wp\<lparr>wp_started := True, wp_Wg := 1, wp_TaskQ := [1], wp_parallel := 2,
     wp_heap := [0 \<mapsto> newTask, 1 \<mapsto> newTask]\<rparr>"

lemma demo_busy_reachable:
  "wp_reachable (demo_busy, {#WGot 0, AAccepted 1, AAccepted 0, RSpawn 0#})"
proof -
  let ?w1 = "demo_wp\<lparr>wp_started := True, wp_Wg := 1\<rparr>"
  have "wp_reachable (?w1, {#RSpawn 1#})"
    by (rule demo_next [OF demo_wp_new wp_step.run]) (simp_all add: demo_wp_def Run_lock_def)
  then have "wp_reachable (?w1, {#WTop, RSpawn 0#})"
    by (rule demo_next) (use wp_step.spawn [of ?w1 0 "{#}"] in simp)
  then have "wp_reachable (?w1, add_mset WWait {#RSpawn 0#})"
    by (rule demo_next [OF _ wp_step.top]) (simp add: worker_top_def demo_wp_def)
  from demo_submit [OF demo_submit [OF this, of 0], of 1]
  have "wp_reachable (demo_busy\<lparr>wp_TaskQ := [0, 1], wp_Notify := 1\<rparr>, {#WWait, AAccepted 1, AAccepted 0, RSpawn 0#})"
    by (simp add: demo_wp_def demo_busy_def add_mset_commute)
  then have "wp_reachable (demo_busy\<lparr>wp_TaskQ := [0, 1]\<rparr>, {#WTop, AAccepted 1, AAccepted 0, RSpawn 0#})"
    using demo_next [OF _ wp_step.wake] by (fastforce simp: demo_busy_def demo_wp_def)
  then show ?thesis
    by (rule demo_next [OF _ wp_step.top]) (simp add: worker_top_def demo_busy_def demo_wp_def)
qed

theorem task_exactly_once_witness:
  "wp_reachable (demo_busy, {#WGot 0, AAccepted 1, AAccepted 0, RSpawn 0#}) \<and>
   \<not> completed demo_busy 1 \<and> count (in_pool demo_busy {#WGot 0, AAccepted 1, AAccepted 0, RSpawn 0#}) 1 = 1"
  using task_exactly_once [OF demo_busy_reachable, of 1] demo_busy_reachable
  by (simp add: completed_def demo_busy_def newTask_def)

theorem no_lost_wakeup_witness:
  "wp_TaskQ demo_busy \<noteq> [] \<and> WWait \<notin># {#WGot 0, AAccepted 1, AAccepted 0, RSpawn 0#}"
  using no_lost_wakeup [OF demo_busy_reachable] by (simp add: demo_busy_def demo_wp_def)

lemma demo_stopped_reachable:
  obtains wp where "wp_reachable (wp, {#AAccepted 0#})" "wp_stopped wp" "\<not> wp_mu wp"
proof -
  from demo_submit [OF demo_wp_new, of 0]
  have "wp_reachable (demo_wp\<lparr>wp_TaskQ := [0], wp_Notify := 1, wp_parallel := 1, wp_heap := [0 \<mapsto> newTask]\<rparr>, {#AAccepted 0#})"
    by (simp add: demo_wp_def)
  then have 1: "wp_reachable (stop_begin (demo_wp\<lparr>wp_TaskQ := [0], wp_Notify := 1, wp_parallel := 1, wp_heap := [0 \<mapsto> newTask]\<rparr>),
      add_mset SDrain {#AAccepted 0#})" (is "wp_reachable (?w, _)")
    by (rule demo_next [OF _ wp_step.stop]) (simp_all add: demo_wp_def)
  obtain w2 where w2: "stop_drain ?w = Some (w2, False)" "wp_TaskQ w2 = []" "wp_QueueMode w2 = QueueModeCAS" "wp_stopped w2"
    by (simp add: stop_drain_def stop_begin_def demo_wp_def complete_def complete_task_def newTask_def)
  have 2: "wp_reachable (w2, add_mset SDrain {#AAccepted 0#})" using demo_next [OF 1 wp_step.drain [OF w2(1)]] by simp
  have "stop_drain w2 = Some (w2\<lparr>wp_mu := False\<rparr>, True)" using w2 by (simp add: stop_drain_def)
  then have "wp_reachable (w2\<lparr>wp_mu := False\<rparr>, {#AAccepted 0#})" using demo_next [OF 2 wp_step.drain] by fastforce
  then show thesis by (rule that) (simp_all add: w2(4))
qed

theorem stop_leaves_nothing_witness:
  "\<exists>wp. wp_reachable (wp, {#AAccepted 0#}) \<and> wp_stopped wp \<and> completed wp 0 \<and> wp_TaskQ wp = []"
proof -
  obtain wp where w: "wp_reachable (wp, {#AAccepted 0#})" "wp_stopped wp" "\<not> wp_mu wp" by (rule demo_stopped_reachable)
  from stop_leaves_nothing [OF w, of 0 0] w(1,2) show ?thesis by auto
qed

theorem workpool_counters_witness:
  "wp_reachable (demo_busy, {#WGot 0, AAccepted 1, AAccepted 0, RSpawn 0#}) \<and> wp_parallel demo_busy = 2 \<and> wp_Wg demo_busy = 1"
  using workpool_counters [OF demo_busy_reachable] demo_busy_reachable by (simp add: demo_busy_def)

end
