(* ===== verification/TcpPool.thy ===== *)
theory TcpPool
  imports GpoolCall
begin

text \<open>
  The pool of raw TCP connections (\<^verbatim>\<open>network/tcp_pool.go\<close>): a thin layer over \<open>Gpool\<close> that builds the
  connections, wraps the leases and runs a callback with retries.

  The retry loop of this pool and the one of the RPC pool follow the same scheme; what they share is
  proved once in the locale \<open>retrying\<close>.
\<close>

section \<open>A scheme of retries\<close>

text \<open>
  \<open>attempt\<close> is one attempt on the pool, \<open>disconnected\<close> decides which errors are replayed.  The result also
  has the number of attempts made.
\<close>

function retryLoop ::
  "(call_env \<Rightarrow> gpool \<Rightarrow> (gpool \<times> string \<times> error option) go) \<Rightarrow> (error \<Rightarrow> bool) \<Rightarrow> (nat \<Rightarrow> call_env) \<Rightarrow> int \<Rightarrow> nat \<Rightarrow>
   string \<Rightarrow> gpool \<Rightarrow> (gpool \<times> nat \<times> string \<times> error option) go" where
  "retryLoop attempt disconnected envs maxRetries i rpcName gp =
     (case attempt (envs i) gp of
        None \<Rightarrow> None
      | Some (gp', attemptName, err) \<Rightarrow>
          let rpcName = (if attemptName \<noteq> '''' then attemptName else rpcName) in
          (case err of
             None \<Rightarrow> Some (gp', Suc i, rpcName, None)
           | Some e \<Rightarrow>
               if int i \<ge> maxRetries \<or> \<not> disconnected e then Some (gp', Suc i, rpcName, Some e)
               else (case ce_ctxErr (envs i) of
                       Some ctxErr \<Rightarrow> Some (gp', Suc i, rpcName, Some ctxErr)
                     | None \<Rightarrow> retryLoop attempt disconnected envs maxRetries (Suc i) rpcName gp')))"
  by pat_completeness auto
termination
  by (relation "measure (\<lambda>(_, _, _, maxRetries, i, _, _). nat (maxRetries - int i))") auto

declare retryLoop.simps [simp del]

text \<open>
  The contract of one attempt: in a reachable pool it returns, and leaves the pool reachable with the
  other goroutines' holdings untouched.
\<close>

locale retrying =
  fixes attempt :: "call_env \<Rightarrow> gpool \<Rightarrow> (gpool \<times> string \<times> error option) go"
    and disconnected :: "error \<Rightarrow> bool"
  assumes attempt_ok: "pool_reachable (gp, T, ro) \<Longrightarrow>
    \<exists>gp' name err ro'. attempt env gp = Some (gp', name, err) \<and> pool_reachable (gp', T, ro')"
begin

lemma retry_reach:
  assumes "pool_reachable (gp, T, ro)" "int n \<le> m"
  shows "\<exists>gp' k name err ro'. retryLoop attempt disconnected envs m n nm gp = Some (gp', k, name, err) \<and>
    pool_reachable (gp', T, ro') \<and> n < k \<and> int k \<le> m + 1"
  using assms
proof (induction "nat (m - int n)" arbitrary: n nm gp ro)
  case (0 n nm gp ro)
  obtain gp' name err ro' where o: "attempt (envs n) gp = Some (gp', name, err)" "pool_reachable (gp', T, ro')"
    using attempt_ok [OF "0.prems"(1)] by blast
  then have "\<exists>nm' err'. retryLoop attempt disconnected envs m n nm gp = Some (gp', Suc n, nm', err')"
    using "0.hyps" by (subst retryLoop.simps) (auto split: option.splits)
  with o "0.prems" show ?case by auto
next
  case (Suc d n nm gp ro)
  obtain gp' name err ro' where o: "attempt (envs n) gp = Some (gp', name, err)" "pool_reachable (gp', T, ro')"
    using attempt_ok [OF Suc.prems(1)] by blast
  define nm' where "nm' = (if name \<noteq> '''' then name else nm)"
  have IH: "\<exists>gp'' k name err ro'. retryLoop attempt disconnected envs m (Suc n) nm' gp' = Some (gp'', k, name, err) \<and>
      pool_reachable (gp'', T, ro') \<and> Suc n < k \<and> int k \<le> m + 1"
    by (rule Suc.hyps(1) [OF _ o(2)]) (use Suc.hyps(2) in linarith)+
  have "(\<exists>err'. retryLoop attempt disconnected envs m n nm gp = Some (gp', Suc n, nm', err')) \<or>
      retryLoop attempt disconnected envs m n nm gp = retryLoop attempt disconnected envs m (Suc n) nm' gp'"
    using o by (subst (1 2) retryLoop.simps) (auto simp: nm'_def split: option.splits)
  with IH o Suc.prems show ?case by (auto intro: Suc_lessD)
qed

end

text \<open>The loop of the RPC pool is an instance.\<close>

lemma thriftCall2Loop_eq:
  "thriftCall2Loop envs m i nm gp = retryLoop thriftCall2Once isDisconnectedError envs m i nm gp"
  by (induction envs m i nm gp rule: thriftCall2Loop.induct)
    (subst thriftCall2Loop.simps, subst retryLoop.simps, auto simp: Let_def split: option.splits)

interpretation rpc_retry: retrying thriftCall2Once isDisconnectedError
  by unfold_locales (metis thriftCall2Once_reach)

section \<open>The pool\<close>

record tcpPoolConfig =
  tc_Addrs :: string
  tc_MaxConns :: int
  tc_MaxIdleConns :: int
  tc_MaxWaiters :: int
  tc_MaxConnLife :: int
  tc_MaxIdleConnLife :: int
  tc_hasCfunc :: bool
  tc_hasPing :: bool
  tc_PingTicker :: int
  tc_RPCMaxRetries :: int

record gTcpPool =
  tp_MaxConns :: int
  tp_MaxIdleConns :: int
  tp_MaxWaiters :: int
  tp_MaxConnLife :: int
  tp_MaxIdleConnLife :: int
  tp_RPCMaxRetries :: int
  tp_hasCfunc :: bool
  tp_TimeOut :: int
  tp_core :: "gpool option"

definition zeroTcpPool :: gTcpPool where
  "zeroTcpPool = \<lparr>tp_MaxConns = 0, tp_MaxIdleConns = 0, tp_MaxWaiters = 0, tp_MaxConnLife = 0, tp_MaxIdleConnLife = 0,
     tp_RPCMaxRetries = 0, tp_hasCfunc = False, tp_TimeOut = 0, tp_core = None\<rparr>"

text \<open>
  \<^verbatim>\<open>createCoreConn\<close>: what the factory returned (nothing, or a connection) and the error of its \<^verbatim>\<open>Open\<close>; the
  connection is identified by a number, the time is the creation time.
\<close>

definition createCoreConn :: "bool \<Rightarrow> nat option \<Rightarrow> error option \<Rightarrow> int \<Rightarrow> create_result" where
  "createCoreConn hasCfunc conn openErr ctime =
     (if \<not> hasCfunc then Inl [ErrorText ''TCP connection factory is nil'']
      else case conn of
        None \<Rightarrow> Inl [ErrorText ''TCP connection factory returned nil'']
      | Some c \<Rightarrow> (case openErr of Some e \<Rightarrow> Inl e | None \<Rightarrow> Inr (ctime, c)))"

definition coreConf :: "tcpPoolConfig \<Rightarrow> gPoolConfig" where
  "coreConf conf =
     \<lparr>cf_MaxConns = tc_MaxConns conf, cf_MaxIdleConns = tc_MaxIdleConns conf, cf_MaxWaiters = tc_MaxWaiters conf,
      cf_MaxConnLife = tc_MaxConnLife conf, cf_MaxIdleConnLife = tc_MaxIdleConnLife conf, cf_RPCMaxRetries = 0,
      cf_PoolFIFO = False\<rparr>"

text \<open>
  \<^verbatim>\<open>GpoolInit2\<close> stores the number of waiters it settled on in the configuration it was given, and the TCP
  pool copies it back to its own and to the caller's configuration.
\<close>

definition GTcpPoolInitWithContext ::
  "int \<Rightarrow> tcpPoolConfig \<Rightarrow> (nat \<Rightarrow> create_result) \<Rightarrow> (nat \<Rightarrow> int) \<Rightarrow> (gTcpPool \<times> tcpPoolConfig) go" where
  "GTcpPoolInitWithContext timeout conf results nows = do {
     core \<leftarrow> GpoolInit2 zeroGpool timeout (coreConf conf) results nows;
     Some (\<lparr>tp_MaxConns = tc_MaxConns conf, tp_MaxIdleConns = tc_MaxIdleConns conf, tp_MaxWaiters = gp_MaxWaiters core,
            tp_MaxConnLife = tc_MaxConnLife conf, tp_MaxIdleConnLife = tc_MaxIdleConnLife conf,
            tp_RPCMaxRetries = tc_RPCMaxRetries conf, tp_hasCfunc = tc_hasCfunc conf, tp_TimeOut = timeout,
            tp_core = Some core\<rparr>,
           conf\<lparr>tc_MaxWaiters := gp_MaxWaiters core\<rparr>)
   }"

text \<open>A lease: the wrapper around a connection of the core pool.\<close>

record poolTcpConn =
  ptc_coreConn :: "addr option"
  ptc_Opened :: bool

text \<open>
  \<^verbatim>\<open>Get\<close>.  Every connection of the core was made by \<^verbatim>\<open>createCoreConn\<close>, so the type assertion on the adapter
  succeeds; \<open>adapterOk\<close> keeps the other branch.
\<close>

definition Tcp_Get :: "call_env \<Rightarrow> bool \<Rightarrow> gTcpPool \<Rightarrow> (gTcpPool \<times> (error + poolTcpConn)) go" where
  "Tcp_Get env adapterOk tp =
     (case tp_core tp of
        None \<Rightarrow> Some (tp, Inl [ErrorText ''TCP pool is not initialized''])
      | Some core \<Rightarrow> do {
          (core, r) \<leftarrow> Get env core;
          (case r of
             Inl e \<Rightarrow> Some (tp\<lparr>tp_core := Some core\<rparr>, Inl e)
           | Inr pc \<Rightarrow>
               if \<not> adapterOk
               then do {
                 core \<leftarrow> PoolConn_Close env core pc;
                 Some (tp\<lparr>tp_core := Some core\<rparr>, Inl [ErrorText ''TCP pool returned an invalid connection adapter''])
               }
               else Some (tp\<lparr>tp_core := Some core\<rparr>, Inr \<lparr>ptc_coreConn = Some pc, ptc_Opened = True\<rparr>))
        })"

definition PoolTcpConn_Close :: "call_env \<Rightarrow> gTcpPool \<Rightarrow> poolTcpConn \<Rightarrow> (gTcpPool \<times> poolTcpConn) go" where
  "PoolTcpConn_Close env tp pc =
     (case (ptc_coreConn pc, tp_core tp) of
        (Some a, Some core) \<Rightarrow> do {
          core \<leftarrow> PoolConn_Close env core a;
          Some (tp\<lparr>tp_core := Some core\<rparr>, pc\<lparr>ptc_Opened := False\<rparr>)
        }
      | _ \<Rightarrow> Some (tp, pc))"

definition PoolTcpConn_Discard :: "call_env \<Rightarrow> gTcpPool \<Rightarrow> poolTcpConn \<Rightarrow> (gTcpPool \<times> poolTcpConn) go" where
  "PoolTcpConn_Discard env tp pc =
     (case (ptc_coreConn pc, tp_core tp) of
        (Some a, Some core) \<Rightarrow> do {
          core \<leftarrow> PoolConn_Discard env core a;
          Some (tp\<lparr>tp_core := Some core\<rparr>, pc\<lparr>ptc_Opened := False\<rparr>)
        }
      | _ \<Rightarrow> Some (tp, pc))"

definition GetFreeLen :: "gTcpPool \<Rightarrow> int" where
  "GetFreeLen tp = (case tp_core tp of None \<Rightarrow> 0 | Some core \<Rightarrow> int (IdleCount core))"

definition GetUseLen :: "gTcpPool \<Rightarrow> int" where
  "GetUseLen tp = (case tp_core tp of None \<Rightarrow> 0 | Some core \<Rightarrow> InUseCount core)"

definition Tcp_WaiterCount :: "gTcpPool \<Rightarrow> int" where
  "Tcp_WaiterCount tp = (case tp_core tp of None \<Rightarrow> 0 | Some core \<Rightarrow> WaiterCount core)"

text \<open>The shutdown of the pool is started; \<open>closeRes\<close> is what waiting for it ends with.\<close>

definition Tcp_Close :: "gTcpPool \<Rightarrow> error option \<Rightarrow> (gTcpPool \<times> error option) go" where
  "Tcp_Close tp closeRes =
     (case tp_core tp of
        None \<Rightarrow> Some (tp, None)
      | Some core \<Rightarrow> do {
          (core, closeList) \<leftarrow> Close_enter core;
          Some (tp\<lparr>tp_core := Some core\<rparr>, closeRes)
        })"

section \<open>Calls with retry\<close>

definition Tcp_isDisconnectedError :: "error \<Rightarrow> bool" where
  "Tcp_isDisconnectedError err =
     (if errors_Is err ContextCanceled \<or> errors_Is err ContextDeadlineExceeded then False
      else if errors_As as_NetError err = Some True then False
      else errors_Is err IoEOF \<or> errors_Is err IoErrUnexpectedEOF \<or> errors_Is err NetErrClosed \<or>
        errors_Is err ECONNRESET \<or> errors_Is err ECONNABORTED \<or> errors_Is err EPIPE \<or> errors_Is err ENOTCONN)"

text \<open>One attempt on the core of an initialised pool.\<close>

definition core_processOnce :: "call_env \<Rightarrow> gpool \<Rightarrow> (gpool \<times> string \<times> error option) go" where
  "core_processOnce env core = do {
     (core, r) \<leftarrow> Get env core;
     (case r of
        Inl e \<Rightarrow> Some (core, '''', Some e)
      | Inr pc \<Rightarrow>
          (case ce_rpcErr env of
             None \<Rightarrow> do { core \<leftarrow> PoolConn_Close env core pc; Some (core, ce_rpcName env, None) }
           | Some e \<Rightarrow> do { core \<leftarrow> PoolConn_Discard env core pc; Some (core, ce_rpcName env, Some e) }))
   }"

definition processOnce :: "call_env \<Rightarrow> gTcpPool \<Rightarrow> (gTcpPool \<times> string \<times> error option) go" where
  "processOnce env tp = do {
     (tp, r) \<leftarrow> Tcp_Get env True tp;
     (case r of
        Inl e \<Rightarrow> Some (tp, '''', Some e)
      | Inr pc \<Rightarrow>
          (case ce_rpcErr env of
             None \<Rightarrow> do { (tp, pc) \<leftarrow> PoolTcpConn_Close env tp pc; Some (tp, ce_rpcName env, None) }
           | Some e \<Rightarrow> do { (tp, pc) \<leftarrow> PoolTcpConn_Discard env tp pc; Some (tp, ce_rpcName env, Some e) }))
   }"

function processLoop ::
  "(nat \<Rightarrow> call_env) \<Rightarrow> int \<Rightarrow> nat \<Rightarrow> string \<Rightarrow> gTcpPool \<Rightarrow> (gTcpPool \<times> nat \<times> string \<times> error option) go" where
  "processLoop envs maxRetries i rpcName tp =
     (case processOnce (envs i) tp of
        None \<Rightarrow> None
      | Some (tp', attemptName, err) \<Rightarrow>
          let rpcName = (if attemptName \<noteq> '''' then attemptName else rpcName) in
          (case err of
             None \<Rightarrow> Some (tp', Suc i, rpcName, None)
           | Some e \<Rightarrow>
               if int i \<ge> maxRetries \<or> \<not> Tcp_isDisconnectedError e then Some (tp', Suc i, rpcName, Some e)
               else (case ce_ctxErr (envs i) of
                       Some ctxErr \<Rightarrow> Some (tp', Suc i, rpcName, Some ctxErr)
                     | None \<Rightarrow> processLoop envs maxRetries (Suc i) rpcName tp')))"
  by pat_completeness auto
termination
  by (relation "measure (\<lambda>(_, maxRetries, i, _, _). nat (maxRetries - int i))") auto

declare processLoop.simps [simp del]

definition processWithRetry :: "(nat \<Rightarrow> call_env) \<Rightarrow> gTcpPool \<Rightarrow> (gTcpPool \<times> nat \<times> string \<times> error option) go" where
  "processWithRetry envs tp =
     (let maxRetries = tp_RPCMaxRetries tp;
          maxRetries = (if maxRetries < 0 then 0 else maxRetries) in
      processLoop envs maxRetries 0 '''' tp)"

definition Tcp_Process :: "(nat \<Rightarrow> call_env) \<Rightarrow> gTcpPool \<Rightarrow> (gTcpPool \<times> error option) go" where
  "Tcp_Process envs tp = do {
     (tp, attempts, rpcName, rpcErr) \<leftarrow> processWithRetry envs tp;
     Some (tp, rpcErr)
   }"

section \<open>The layer adds nothing\<close>

lemma processOnce_core:
  assumes "tp_core tp = Some core"
  shows "processOnce env tp = map_option (\<lambda>(core, name, err). (tp\<lparr>tp_core := Some core\<rparr>, name, err)) (core_processOnce env core)"
  using assms
  by (auto simp: processOnce_def core_processOnce_def Tcp_Get_def PoolTcpConn_Close_def PoolTcpConn_Discard_def
      split: option.splits sum.splits Option.bind_splits)

lemma processLoop_core:
  assumes "tp_core tp = Some core"
  shows "processLoop envs m i nm tp =
    map_option (\<lambda>(core, k, name, err). (tp\<lparr>tp_core := Some core\<rparr>, k, name, err))
      (retryLoop core_processOnce Tcp_isDisconnectedError envs m i nm core)"
  using assms
proof (induction envs m i nm tp arbitrary: core rule: processLoop.induct)
  case (1 envs m i nm tp)
  show ?case
  proof (cases "core_processOnce (envs i) core")
    case None
    then show ?thesis using 1(2) by (subst processLoop.simps, subst retryLoop.simps) (simp add: processOnce_core)
  next
    case (Some r)
    obtain core' name err where r: "r = (core', name, err)" by (cases r)
    have once: "processOnce (envs i) tp = Some (tp\<lparr>tp_core := Some core'\<rparr>, name, err)"
      using Some r 1(2) by (simp add: processOnce_core)
    have IH: "processLoop envs m (Suc i) (if name \<noteq> '''' then name else nm) (tp\<lparr>tp_core := Some core'\<rparr>) =
      map_option (\<lambda>(core, k, name, err). (tp\<lparr>tp_core := Some core\<rparr>, k, name, err))
        (retryLoop core_processOnce Tcp_isDisconnectedError envs m (Suc i) (if name \<noteq> '''' then name else nm) core')"
      if "err = Some e" "\<not> (int i \<ge> m \<or> \<not> Tcp_isDisconnectedError e)" "ce_ctxErr (envs i) = None" for e
      using 1(1) [OF once refl refl refl that, of core'] by simp
    show ?thesis
      using IH Some r once by (subst processLoop.simps, subst retryLoop.simps) (auto split: option.splits)
  qed
qed

lemma core_processOnce_reach:
  assumes R: "pool_reachable (gp, T, ro)"
  shows "\<exists>gp' name err ro'. core_processOnce env gp = Some (gp', name, err) \<and> pool_reachable (gp', T, ro')"
proof -
  obtain gp1 r ro1 where g: "Get env gp = Some (gp1, r)" "pool_reachable (gp1, after_result r T, ro1)"
    using Get_reach [OF R, of env] by (auto simp: get_ok_def)
  show ?thesis
  proof (cases r)
    case (Inl e)
    with g show ?thesis by (auto simp: core_processOnce_def)
  next
    case (Inr a)
    then have H: "pool_reachable (gp1, add_mset (Holding a) T, ro1)" using g by simp
    obtain gp2 where c: "PoolConn_Close env gp1 a = Some gp2" "pool_reachable (gp2, T, ro1)"
      by (rule PoolConn_Close_reach [OF H])
    obtain gp3 where d: "PoolConn_Discard env gp1 a = Some gp3" "pool_reachable (gp3, T, ro1)"
      by (rule PoolConn_Discard_reach [OF H])
    from c d g Inr show ?thesis by (cases "ce_rpcErr env") (auto simp: core_processOnce_def)
  qed
qed

interpretation tcp_retry: retrying core_processOnce Tcp_isDisconnectedError
  by unfold_locales (rule core_processOnce_reach)

section \<open>Properties\<close>

text \<open>A pool of one connection, retried at most twice.\<close>

definition demo_tcp_conf :: tcpPoolConfig where
  "demo_tcp_conf = \<lparr>tc_Addrs = ''h:1/5'', tc_MaxConns = 1, tc_MaxIdleConns = 1, tc_MaxWaiters = 4, tc_MaxConnLife = 10,
     tc_MaxIdleConnLife = 10, tc_hasCfunc = True, tc_hasPing = False, tc_PingTicker = 0, tc_RPCMaxRetries = 2\<rparr>"

definition demo_tcp :: "gTcpPool go" where
  "demo_tcp = map_option fst (GTcpPoolInitWithContext 5 demo_tcp_conf (\<lambda>i. createCoreConn True (Some 7) None 0) (\<lambda>_. 0))"

lemma demo_tcp_ok:
  obtains tp core where "demo_tcp = Some tp" "tp_core tp = Some core" "tp_RPCMaxRetries tp = 2" "pool_reachable (core, {#}, False)"
proof -
  obtain core where c: "GpoolInit2 zeroGpool 5 (coreConf demo_tcp_conf) (\<lambda>i. createCoreConn True (Some 7) None 0) (\<lambda>_. 0) = Some core"
    "init_ok core" using GpoolInit2_ok by blast
  then have "pool_reachable (core, {#}, False)" using pool_reachable.init by blast
  with c(1) that show thesis by (simp add: demo_tcp_def GTcpPoolInitWithContext_def demo_tcp_conf_def)
qed

text \<open>
  C20: A TCP call with retries always returns, makes at most \<^verbatim>\<open>RPCMaxRetries\<close> + 1 attempts, and leaves the
  other goroutines' leases, slots and waiters as they were, on success, on errors and on disconnections.
\<close>

theorem tcp_process_no_leak:
  assumes "tp_core tp = Some core" "pool_reachable (core, T, ro)"
  shows "\<exists>core' k name err ro'. processWithRetry envs tp = Some (tp\<lparr>tp_core := Some core'\<rparr>, k, name, err) \<and>
    pool_reachable (core', T, ro') \<and> 1 \<le> k \<and> int k \<le> max 0 (tp_RPCMaxRetries tp) + 1"
proof -
  define m where "m = max 0 (tp_RPCMaxRetries tp)"
  have m: "int 0 \<le> m" "(if tp_RPCMaxRetries tp < 0 then 0 else tp_RPCMaxRetries tp) = m" by (simp_all add: m_def max_def)
  obtain core' k name err ro' where r:
    "retryLoop core_processOnce Tcp_isDisconnectedError envs m 0 '''' core = Some (core', k, name, err)"
    "pool_reachable (core', T, ro')" "0 < k" "int k \<le> m + 1"
    using tcp_retry.retry_reach [OF assms(2) m(1), of envs "''''"] by blast
  have "processWithRetry envs tp = Some (tp\<lparr>tp_core := Some core'\<rparr>, k, name, err)"
    using processLoop_core [OF assms(1), of envs m 0 "''''"] r(1) m(2) by (simp add: processWithRetry_def)
  moreover have "1 \<le> k" using r(3) by simp
  ultimately show ?thesis using r(2,4) unfolding m_def by blast
qed

theorem tcp_process_no_leak_witness:
  "\<exists>tp core' k name err. demo_tcp = Some tp \<and>
     processWithRetry (\<lambda>_. env_ok) tp = Some (tp\<lparr>tp_core := Some core'\<rparr>, k, name, err) \<and> int k \<le> 3"
proof -
  obtain tp core where d: "demo_tcp = Some tp" "tp_core tp = Some core" "tp_RPCMaxRetries tp = 2" "pool_reachable (core, {#}, False)"
    by (rule demo_tcp_ok)
  obtain core' k name err where r: "processWithRetry (\<lambda>_. env_ok) tp = Some (tp\<lparr>tp_core := Some core'\<rparr>, k, name, err)"
      "int k \<le> max 0 (tp_RPCMaxRetries tp) + 1"
    using tcp_process_no_leak [OF d(2,4), of "\<lambda>_. env_ok"] by blast
  have "int k \<le> 3" using r(2) d(3) by simp
  with d(1) r(1) show ?thesis by blast
qed

text \<open>
  A second \<^verbatim>\<open>Close\<close> of a lease is not harmless.  The wrapper keeps pointing at the core connection; once
  that connection is borrowed again, closing the old wrapper once more returns the new owner's lease,
  and the next \<^verbatim>\<open>Get\<close> hands the same connection to a third caller while the second still uses it.
\<close>

lemma stale_close_steals_lease:
  "case (do {
     tp \<leftarrow> demo_tcp;
     (tp, a) \<leftarrow> Tcp_Get env_ok True tp;
     a \<leftarrow> (case a of Inr pc \<Rightarrow> Some pc | Inl _ \<Rightarrow> None);
     (tp, a) \<leftarrow> PoolTcpConn_Close env_ok tp a;
     (tp, b) \<leftarrow> Tcp_Get env_ok True tp;
     (tp, a) \<leftarrow> PoolTcpConn_Close env_ok tp a;
     (tp, c) \<leftarrow> Tcp_Get env_ok True tp;
     Some (tp, b, c)
   }) of
     Some (tp, Inr b, Inr c) \<Rightarrow>
       ptc_coreConn b = ptc_coreConn c \<and> ptc_coreConn b \<noteq> None \<and> ptc_Opened b \<and> ptc_Opened c \<and> GetUseLen tp = 1
   | _ \<Rightarrow> False"
  by code_simp

end
