(* ===== verification/TcpSelector.thy ===== *)
theory TcpSelector
  imports TcpPool RpcSelector
begin

text \<open>
  The selector over TCP pools (\<^verbatim>\<open>network/tcp_selector.go\<close>).  It shares the round robin of the RPC selector
  (\<open>rr_passes\<close>, also over the validity flags its two scans saw); parsing, ejection, recovery and shutdown
  are its own.
\<close>

section \<open>Model\<close>

record tcpSvr = baseSvr +
  ts_Gp :: gTcpPool

record tcpSelector =
  tps_Pos :: "32 word"
  tps_Slist :: "tcpSvr list"
  tps_NotValid :: "nat list"
  tps_chanCap :: nat
  tps_Gpconf :: "tcpPoolConfig option"
  tps_closed :: bool
  tps_healthCancel :: bool
  tps_healthDone :: bool

definition zeroTps :: tcpSelector where
  "zeroTps = \<lparr>tps_Pos = 0, tps_Slist = [], tps_NotValid = [], tps_chanCap = 0, tps_Gpconf = None, tps_closed = False,
     tps_healthCancel = False, tps_healthDone = False\<rparr>"

definition parseTcpEndpoint :: "string \<Rightarrow> error + rpcPoolEndpoint" where
  "parseTcpEndpoint rawEndpoint =
     (let rawEndpoint = TrimSpace rawEndpoint;
          colon = LastIndex rawEndpoint CHR '':'' in
      if colon \<le> 0 \<or> colon = int (length rawEndpoint) - 1 then Inl (errText ''invalid TCP pool address'')
      else
        let addr = TrimSpace (take (nat colon) rawEndpoint);
            portAndTimeout = Split (drop (nat colon + 1) rawEndpoint) CHR ''/'' in
        if addr = '''' \<or> length portAndTimeout \<noteq> 2 then Inl (errText ''invalid TCP pool address'')
        else
          let (port, err) = Atoi (TrimSpace (portAndTimeout ! 0)) in
          if err \<or> port \<le> 0 \<or> port > 65535 then Inl (errText ''invalid TCP pool port'')
          else
            let (timeout, err) = Atoi (TrimSpace (portAndTimeout ! 1)) in
            if err \<or> timeout \<le> 0 then Inl (errText ''invalid TCP pool timeout'')
            else Inr \<lparr>ep_addr = addr, ep_port = port, ep_timeout = timeout\<rparr>)"

fun parseTcpEndpoints_loop :: "string list \<Rightarrow> rpcPoolEndpoint list \<Rightarrow> error + rpcPoolEndpoint list" where
  "parseTcpEndpoints_loop [] endpoints = Inr endpoints"
| "parseTcpEndpoints_loop (raw # rest) endpoints =
     (case parseTcpEndpoint raw of Inl e \<Rightarrow> Inl e | Inr ep \<Rightarrow> parseTcpEndpoints_loop rest (endpoints @ [ep]))"

definition parseTcpPoolEndpoints :: "tcpPoolConfig option \<Rightarrow> error + rpcPoolEndpoint list" where
  "parseTcpPoolEndpoints conf =
     (case conf of
        None \<Rightarrow> Inl (errText ''TCP pool config is nil'')
      | Some conf \<Rightarrow>
          if \<not> tc_hasCfunc conf then Inl (errText ''TCP connection factory is nil'')
          else if tc_MaxConns conf \<le> 0 then Inl (errText ''TCP pool MaxConns must be positive'')
          else if tc_MaxIdleConns conf < 0 \<or> tc_MaxIdleConns conf > tc_MaxConns conf
          then Inl (errText ''TCP pool MaxIdleConns must be between zero and MaxConns'')
          else
            (case parseTcpEndpoints_loop (Split (tc_Addrs conf) CHR '','') [] of
               Inl e \<Rightarrow> Inl e
             | Inr endpoints \<Rightarrow> if endpoints = [] then Inl (errText ''TCP pool has no endpoints'') else Inr endpoints))"

definition Tps_RoundRobin ::
  "tcpSelector \<Rightarrow> bool list \<times> bool list \<Rightarrow> bool list \<times> bool list \<Rightarrow> (nat option \<times> tcpSelector) go" where
  "Tps_RoundRobin rps pass1 pass2 =
     (if tps_closed rps then Some (None, rps)
      else do {
        (r, pos) \<leftarrow> rr_passes [pass1, pass2] (tps_Pos rps);
        Some (r, rps\<lparr>tps_Pos := pos\<rparr>)
      })"

text \<open>Every server is initialised with the same configuration, which the first one may complete.\<close>

primrec init_tcp_servers ::
  "rpcPoolEndpoint list \<Rightarrow> tcpPoolConfig \<Rightarrow> nat \<Rightarrow> (nat \<Rightarrow> nat \<Rightarrow> create_result) \<Rightarrow> (nat \<Rightarrow> nat \<Rightarrow> int) \<Rightarrow>
   (tcpSvr list \<times> tcpPoolConfig) go" where
  "init_tcp_servers [] conf i results nows = Some ([], conf)"
| "init_tcp_servers (ep # eps) conf i results nows = do {
     (tp, conf) \<leftarrow> GTcpPoolInitWithContext (ep_timeout ep) conf (results i) (nows i);
     (rest, conf) \<leftarrow> init_tcp_servers eps conf (Suc i) results nows;
     Some (\<lparr>bs_Port = ep_port ep, bs_Addr = ep_addr ep, bs_TimeOut = ep_timeout ep, bs_Valid = SVR_VALID, bs_Index = 0,
            ts_Gp = tp\<rparr> # rest, conf)
   }"

definition Tps_startHealthChecker :: "tcpSelector \<Rightarrow> tcpSelector" where
  "Tps_startHealthChecker rps = rps\<lparr>tps_healthCancel := True, tps_healthDone := True\<rparr>"

definition Tps_RpcPoolInit ::
  "tcpSelector \<Rightarrow> tcpPoolConfig option \<Rightarrow> (nat \<Rightarrow> nat \<Rightarrow> create_result) \<Rightarrow> (nat \<Rightarrow> nat \<Rightarrow> int) \<Rightarrow> (tcpSelector \<times> error option) go" where
  "Tps_RpcPoolInit rps conf results nows =
     (case parseTcpPoolEndpoints conf of
        Inl err \<Rightarrow> Some (rps, Some err)
      | Inr endpoints \<Rightarrow> do {
          conf \<leftarrow> conf;
          (ss, conf) \<leftarrow> init_tcp_servers endpoints conf 0 results nows;
          let rps = rps\<lparr>tps_closed := False, tps_Pos := 0, tps_Slist := ss, tps_Gpconf := Some conf, tps_NotValid := [],
                        tps_chanCap := length endpoints\<rparr>;
          Some (if tc_hasPing conf then Tps_startHealthChecker rps else rps, None)
        })"

definition NewTcpPoolSelector ::
  "tcpPoolConfig option \<Rightarrow> (nat \<Rightarrow> nat \<Rightarrow> create_result) \<Rightarrow> (nat \<Rightarrow> nat \<Rightarrow> int) \<Rightarrow> (error + tcpSelector) go" where
  "NewTcpPoolSelector conf results nows = do {
     (rps, err) \<leftarrow> Tps_RpcPoolInit zeroTps conf results nows;
     Some (case err of Some e \<Rightarrow> Inl e | None \<Rightarrow> Inr rps)
   }"

definition tcpPing :: "tcpSelector \<Rightarrow> bool" where
  "tcpPing rps = (case tps_Gpconf rps of None \<Rightarrow> False | Some conf \<Rightarrow> tc_hasPing conf)"

text \<open>\<^verbatim>\<open>Process\<close>; \<open>closedAfter\<close> is what the second load of \<^verbatim>\<open>closed\<close> sees when no server was found.\<close>

definition Tps_Process ::
  "tcpSelector \<Rightarrow> bool list \<times> bool list \<Rightarrow> bool list \<times> bool list \<Rightarrow> (nat \<Rightarrow> call_env) \<Rightarrow> bool \<Rightarrow>
   (tcpSelector \<times> error option) go" where
  "Tps_Process rps pass1 pass2 envs closedAfter =
     (case Tps_RoundRobin rps pass1 pass2 of
        None \<Rightarrow> None
      | Some (None, rps) \<Rightarrow> Some (rps, Some (if closedAfter then [ErrPoolClosed] else errText ''no valid TCP server''))
      | Some (Some server, rps) \<Rightarrow> do {
          (tp, err) \<leftarrow> Tcp_Process envs (ts_Gp (tps_Slist rps ! server));
          let s = (tps_Slist rps ! server)\<lparr>ts_Gp := tp\<rparr>;
          (if err \<noteq> None \<and> tcpPing rps
           then Some (rps\<lparr>tps_Slist := (tps_Slist rps)[server := SetStat s SVR_NOTVALID],
                          tps_NotValid := (if length (tps_NotValid rps) < tps_chanCap rps
                                           then tps_NotValid rps @ [server] else tps_NotValid rps)\<rparr>, err)
           else Some (rps\<lparr>tps_Slist := (tps_Slist rps)[server := s]\<rparr>, err))
        })"

definition Tps_checkServerHealth :: "tcpSelector \<Rightarrow> nat \<Rightarrow> (nat \<Rightarrow> call_env) \<Rightarrow> tcpSelector go" where
  "Tps_checkServerHealth rps server envs =
     (let s = tps_Slist rps ! server in
      if bs_Valid s = SVR_VALID \<or> tps_closed rps then Some rps
      else do {
        (tp, err) \<leftarrow> Tcp_Process envs (ts_Gp s);
        let s = s\<lparr>ts_Gp := tp\<rparr>;
        let s = (if err = None then SetStat s SVR_VALID else s);
        Some (rps\<lparr>tps_Slist := (tps_Slist rps)[server := s]\<rparr>)
      })"

definition Tps_notified :: "tcpSelector \<Rightarrow> (nat \<Rightarrow> call_env) \<Rightarrow> tcpSelector go" where
  "Tps_notified rps envs =
     (case tps_NotValid rps of
        [] \<Rightarrow> None
      | server # rest \<Rightarrow> Tps_checkServerHealth (rps\<lparr>tps_NotValid := rest\<rparr>) server envs)"

primrec Tps_scan :: "nat \<Rightarrow> nat \<Rightarrow> (nat \<Rightarrow> nat \<Rightarrow> call_env) \<Rightarrow> tcpSelector \<Rightarrow> tcpSelector go" where
  "Tps_scan 0 i envs rps = Some rps"
| "Tps_scan (Suc n) i envs rps =
     (if bs_Valid (tps_Slist rps ! i) = SVR_NOTVALID
      then do { rps \<leftarrow> Tps_checkServerHealth rps i (envs i); Tps_scan n (Suc i) envs rps }
      else Tps_scan n (Suc i) envs rps)"

definition Tps_tick :: "tcpSelector \<Rightarrow> (nat \<Rightarrow> nat \<Rightarrow> call_env) \<Rightarrow> tcpSelector go" where
  "Tps_tick rps envs = Tps_scan (length (tps_Slist rps)) 0 envs rps"

primrec close_tcp_pools :: "tcpSvr list \<Rightarrow> tcpSvr list go" where
  "close_tcp_pools [] = Some []"
| "close_tcp_pools (s # ss) = do {
     (tp, err) \<leftarrow> Tcp_Close (ts_Gp s) None;
     ss \<leftarrow> close_tcp_pools ss;
     Some (s\<lparr>ts_Gp := tp\<rparr> # ss)
   }"

definition Tps_Close :: "tcpSelector \<Rightarrow> error option \<Rightarrow> error list \<Rightarrow> (tcpSelector \<times> error option) go" where
  "Tps_Close rps ctxErr poolErrs = do {
     ss \<leftarrow> close_tcp_pools (tps_Slist rps);
     Some (rps\<lparr>tps_closed := True, tps_healthCancel := False, tps_Slist := ss\<rparr>,
       case ctxErr of
         Some e \<Rightarrow> Some e
       | None \<Rightarrow> fold (\<lambda>e closeErr. errors_Join closeErr (Some e)) poolErrs None)
   }"

section \<open>The life of a selector\<close>

inductive tps_step :: "tcpSelector \<Rightarrow> tcpSelector \<Rightarrow> bool" where
  call: "length (snd pass1) \<le> length (tps_Slist rps) \<Longrightarrow> length (snd pass2) \<le> length (tps_Slist rps) \<Longrightarrow>
    Tps_Process rps pass1 pass2 envs closedAfter = Some (rps', err) \<Longrightarrow> tps_step rps rps'"
| notified: "Tps_notified rps envs = Some rps' \<Longrightarrow> tps_step rps rps'"
| tick: "Tps_tick rps envs' = Some rps' \<Longrightarrow> tps_step rps rps'"
| close: "Tps_Close rps ctxErr poolErrs = Some (rps', err) \<Longrightarrow> tps_step rps rps'"

inductive tps_reachable :: "tcpSelector \<Rightarrow> bool" where
  init: "NewTcpPoolSelector conf results nows = Some (Inr rps) \<Longrightarrow> tps_reachable rps"
| step: "tps_reachable rps \<Longrightarrow> tps_step rps rps' \<Longrightarrow> tps_reachable rps'"

definition tcp_ok :: "gTcpPool \<Rightarrow> bool" where
  "tcp_ok tp = (case tp_core tp of None \<Rightarrow> False | Some core \<Rightarrow> pool_ok core)"

definition tps_inv :: "tcpSelector \<Rightarrow> bool" where
  "tps_inv rps \<longleftrightarrow>
     (\<forall>s \<in> set (tps_Slist rps). tcp_ok (ts_Gp s) \<and> (bs_Valid s = SVR_VALID \<or> tcpPing rps \<and> bs_Valid s = SVR_NOTVALID)) \<and>
     tps_Slist rps \<noteq> [] \<and> length (tps_NotValid rps) \<le> tps_chanCap rps \<and>
     (\<forall>i \<in> set (tps_NotValid rps). i < length (tps_Slist rps))"

lemma Tcp_Process_ok:
  assumes "tcp_ok tp"
  obtains tp' err where "Tcp_Process envs tp = Some (tp', err)" "tcp_ok tp'"
proof -
  obtain core T ro where c: "tp_core tp = Some core" "pool_reachable (core, T, ro)"
    using assms by (auto simp: tcp_ok_def pool_ok_def split: option.splits)
  define m where "m = max 0 (tp_RPCMaxRetries tp)"
  have m: "int 0 \<le> m" "(if tp_RPCMaxRetries tp < 0 then 0 else tp_RPCMaxRetries tp) = m" by (simp_all add: m_def max_def)
  obtain core' k name err ro' where r:
    "retryLoop core_processOnce Tcp_isDisconnectedError envs m 0 '''' core = Some (core', k, name, err)"
    "pool_reachable (core', T, ro')"
    using tcp_retry.retry_reach [OF c(2) m(1), of envs "''''"] by blast
  have "Tcp_Process envs tp = Some (tp\<lparr>tp_core := Some core'\<rparr>, err)"
    using processLoop_core [OF c(1), of envs m 0 "''''"] r(1) m(2) by (simp add: Tcp_Process_def processWithRetry_def)
  moreover have "tcp_ok (tp\<lparr>tp_core := Some core'\<rparr>)" using r(2) by (auto simp: tcp_ok_def pool_ok_def)
  ultimately show thesis by (rule that)
qed

lemma tps_inv_upd:
  assumes "tps_inv rps" "tcp_ok (ts_Gp s)" "bs_Valid s = SVR_VALID \<or> tcpPing rps \<and> bs_Valid s = SVR_NOTVALID"
  shows "tps_inv (rps\<lparr>tps_Slist := (tps_Slist rps)[i := s]\<rparr>)"
  using assms set_update_subset_insert [of "tps_Slist rps" i s]
  by (auto simp: tps_inv_def tcpPing_def)

lemma server_ok:
  assumes "tps_inv rps" "i < length (tps_Slist rps)"
  shows "tcp_ok (ts_Gp (tps_Slist rps ! i))"
    "bs_Valid (tps_Slist rps ! i) = SVR_VALID \<or> tcpPing rps \<and> bs_Valid (tps_Slist rps ! i) = SVR_NOTVALID"
  using assms nth_mem [OF assms(2)] unfolding tps_inv_def by blast+

lemma Tps_RoundRobin_less:
  assumes "Tps_RoundRobin rps p1 p2 = Some (Some i, rps')" "length (snd p1) \<le> n" "length (snd p2) \<le> n"
  shows "i < n"
  using assms rr_passes_less [of "[p1, p2]" _ i _ n]
  by (auto simp: Tps_RoundRobin_def split: if_splits Option.bind_splits)

lemma Tps_RoundRobin_frame:
  assumes "Tps_RoundRobin rps p1 p2 = Some (r, rps')" shows "\<exists>pos. rps' = rps\<lparr>tps_Pos := pos\<rparr>"
  using assms by (auto simp: Tps_RoundRobin_def split: if_splits Option.bind_splits intro: exI [of _ "tps_Pos rps"])

lemma Tps_RoundRobin_total: "length (fst p1) < 2 ^ 32 \<Longrightarrow> length (fst p2) < 2 ^ 32 \<Longrightarrow> \<exists>r. Tps_RoundRobin rps p1 p2 = Some r"
  using rr_passes_total [of "[p1, p2]" "tps_Pos rps"] by (auto simp: Tps_RoundRobin_def)

lemma tps_inv_Pos: "tps_inv (rps\<lparr>tps_Pos := pos\<rparr>) = tps_inv rps"
  by (simp add: tps_inv_def tcpPing_def)

lemma tps_inv_push:
  "tps_inv rps \<Longrightarrow> i < length (tps_Slist rps) \<Longrightarrow> length (tps_NotValid rps) < tps_chanCap rps \<Longrightarrow>
   tps_inv (rps\<lparr>tps_NotValid := tps_NotValid rps @ [i]\<rparr>)"
  by (auto simp: tps_inv_def tcpPing_def)

lemma Tps_Process_ok:
  assumes inv: "tps_inv rps" and len: "length (snd p1) \<le> length (tps_Slist rps)" "length (snd p2) \<le> length (tps_Slist rps)"
    and Pair: "Tps_RoundRobin rps p1 p2 = Some (r, rps1)"
  shows "\<exists>rps' err. Tps_Process rps p1 p2 envs c = Some (rps', err) \<and> tps_inv rps'"
proof -
  obtain pos where r1: "rps1 = rps\<lparr>tps_Pos := pos\<rparr>" using Tps_RoundRobin_frame [OF Pair] ..
  have inv1: "tps_inv rps1" using inv by (simp add: r1 tps_inv_Pos)
  show ?thesis
  proof (cases r)
    case None
    then show ?thesis using Pair inv1 by (simp add: Tps_Process_def)
  next
    case (Some i)
    then have i: "i < length (tps_Slist rps1)" using Tps_RoundRobin_less Pair len r1 by simp
    obtain tp err where t: "Tcp_Process envs (ts_Gp (tps_Slist rps1 ! i)) = Some (tp, err)" "tcp_ok tp"
      by (rule Tcp_Process_ok [OF server_ok(1) [OF inv1 i]])
    let ?s = "(tps_Slist rps1 ! i)\<lparr>ts_Gp := tp\<rparr>"
    show ?thesis
    proof (cases "err \<noteq> None \<and> tcpPing rps1")
      case True
      let ?r = "rps1\<lparr>tps_Slist := (tps_Slist rps1)[i := SetStat ?s SVR_NOTVALID]\<rparr>"
      have "tps_inv ?r" by (rule tps_inv_upd [OF inv1]) (use t True in \<open>auto simp: SetStat_def\<close>)
      then show ?thesis
        using tps_inv_push [of ?r i] i Pair Some t True by (auto simp: Tps_Process_def Let_def)
    next
      case False
      have "tps_inv (rps1\<lparr>tps_Slist := (tps_Slist rps1)[i := ?s]\<rparr>)"
        by (rule tps_inv_upd [OF inv1]) (use t server_ok(2) [OF inv1 i] in auto)
      then show ?thesis using Pair Some t False by (auto simp: Tps_Process_def Let_def)
    qed
  qed
qed

lemma Tps_checkServerHealth_ok:
  assumes inv: "tps_inv rps" and i: "i < length (tps_Slist rps)"
  shows "\<exists>rps'. Tps_checkServerHealth rps i envs = Some rps' \<and> tps_inv rps' \<and> length (tps_Slist rps') = length (tps_Slist rps)"
proof (cases "bs_Valid (tps_Slist rps ! i) = SVR_VALID \<or> tps_closed rps")
  case True
  then show ?thesis using inv by (auto simp: Tps_checkServerHealth_def Let_def)
next
  case False
  let ?s = "tps_Slist rps ! i"
  obtain tp err where t: "Tcp_Process envs (ts_Gp ?s) = Some (tp, err)" "tcp_ok tp" by (rule Tcp_Process_ok [OF server_ok(1) [OF inv i]])
  define s' where "s' = (if err = None then SetStat (?s\<lparr>ts_Gp := tp\<rparr>) SVR_VALID else ?s\<lparr>ts_Gp := tp\<rparr>)"
  have "Tps_checkServerHealth rps i envs = Some (rps\<lparr>tps_Slist := (tps_Slist rps)[i := s']\<rparr>)"
    using False t by (simp add: Tps_checkServerHealth_def Let_def s'_def)
  moreover have "tps_inv (rps\<lparr>tps_Slist := (tps_Slist rps)[i := s']\<rparr>)"
    by (rule tps_inv_upd [OF inv]) (use server_ok(2) [OF inv i] t in \<open>auto simp: s'_def SetStat_def\<close>)
  ultimately show ?thesis by simp
qed

lemma Tps_scan_ok:
  "tps_inv rps \<Longrightarrow> i + n \<le> length (tps_Slist rps) \<Longrightarrow> \<exists>rps'. Tps_scan n i envs rps = Some rps' \<and> tps_inv rps'"
proof (induction n arbitrary: i rps)
  case (Suc n)
  show ?case
  proof (cases "bs_Valid (tps_Slist rps ! i) = SVR_NOTVALID")
    case True
    obtain rps1 where "Tps_checkServerHealth rps i (envs i) = Some rps1" "tps_inv rps1"
        "length (tps_Slist rps1) = length (tps_Slist rps)"
      using Tps_checkServerHealth_ok [OF Suc.prems(1), of i "envs i"] Suc.prems(2) by auto
    with True Suc.IH [of rps1 "Suc i"] Suc.prems(2) show ?thesis by simp
  next
    case False
    with Suc show ?thesis by simp
  qed
qed simp

lemma Tps_notified_ok:
  assumes inv: "tps_inv rps" and nv: "tps_NotValid rps \<noteq> []"
  shows "\<exists>rps'. Tps_notified rps envs = Some rps' \<and> tps_inv rps'"
proof -
  obtain i rest where nv: "tps_NotValid rps = i # rest" using nv by (cases "tps_NotValid rps") auto
  then have "tps_inv (rps\<lparr>tps_NotValid := rest\<rparr>)" "i < length (tps_Slist (rps\<lparr>tps_NotValid := rest\<rparr>))"
    using inv by (auto simp: tps_inv_def tcpPing_def)
  from Tps_checkServerHealth_ok [OF this, of envs] nv show ?thesis by (auto simp: Tps_notified_def)
qed

lemma Tcp_Close_ok:
  assumes "tcp_ok tp" shows "\<exists>tp' . Tcp_Close tp r = Some (tp', r) \<and> tcp_ok tp'"
proof -
  obtain core T ro where c: "tp_core tp = Some core" "pool_reachable (core, T, ro)"
    using assms by (auto simp: tcp_ok_def pool_ok_def split: option.splits)
  obtain ws where ws: "inv0 core ws T ro" "settled core ws" using pool_reachable_inv [OF c(2)] by (rule pool_invE)
  obtain gp cl where e: "Close_enter core = Some (gp, cl)" using Close_enter_ok [OF ws] by blast
  have "pool_ok gp" unfolding pool_ok_def using reach_step [OF c(2) pool_step.shutdown [OF e]] by blast
  with c e show ?thesis by (simp add: Tcp_Close_def tcp_ok_def)
qed

lemma close_tcp_pools_ok:
  "\<forall>s \<in> set ss. tcp_ok (ts_Gp s) \<and> Q (bs_Valid s) \<Longrightarrow>
   \<exists>ss'. close_tcp_pools ss = Some ss' \<and> length ss' = length ss \<and> (\<forall>s \<in> set ss'. tcp_ok (ts_Gp s) \<and> Q (bs_Valid s))"
proof (induction ss)
  case (Cons s ss)
  then obtain tp where "Tcp_Close (ts_Gp s) None = Some (tp, None)" "tcp_ok tp" using Tcp_Close_ok [of "ts_Gp s" None] by auto
  with Cons show ?case by fastforce
qed simp

lemma Tps_Close_ok:
  assumes "tps_inv rps"
  shows "\<exists>rps' err. Tps_Close rps ctxErr poolErrs = Some (rps', err) \<and> tps_inv rps' \<and> tps_closed rps'"
proof -
  have "\<forall>s \<in> set (tps_Slist rps). tcp_ok (ts_Gp s) \<and> (bs_Valid s = SVR_VALID \<or> tcpPing rps \<and> bs_Valid s = SVR_NOTVALID)"
    using assms unfolding tps_inv_def by blast
  from close_tcp_pools_ok [OF this] obtain ss where ss: "close_tcp_pools (tps_Slist rps) = Some ss"
      "length ss = length (tps_Slist rps)"
      "\<forall>s \<in> set ss. tcp_ok (ts_Gp s) \<and> (bs_Valid s = SVR_VALID \<or> tcpPing rps \<and> bs_Valid s = SVR_NOTVALID)"
    by blast
  moreover have "tps_inv (rps\<lparr>tps_closed := True, tps_healthCancel := False, tps_Slist := ss\<rparr>)"
    using ss(2,3) assms by (auto simp: tps_inv_def tcpPing_def)
  ultimately show ?thesis by (simp add: Tps_Close_def)
qed

lemma init_tcp_servers_ok:
  "\<exists>ss conf'. init_tcp_servers eps conf i results nows = Some (ss, conf') \<and> length ss = length eps \<and> tc_hasPing conf' = tc_hasPing conf \<and>
     (\<forall>s \<in> set ss. tcp_ok (ts_Gp s) \<and> bs_Valid s = SVR_VALID)"
proof (induction eps arbitrary: i conf)
  case (Cons ep eps)
  obtain gp where gp: "GpoolInit2 zeroGpool (ep_timeout ep) (coreConf conf) (results i) (nows i) = Some gp" "init_ok gp"
    using GpoolInit2_ok by blast
  then have "pool_ok gp" unfolding pool_ok_def using pool_reachable.init by blast
  then show ?case using gp(1) Cons [of "conf\<lparr>tc_MaxWaiters := gp_MaxWaiters gp\<rparr>" "Suc i"]
    by (auto simp: GTcpPoolInitWithContext_def tcp_ok_def)
qed simp

lemma NewTcpPoolSelector_ok:
  assumes "NewTcpPoolSelector conf results nows = Some (Inr rps)"
  shows "tps_inv rps"
proof -
  obtain cf eps where n: "conf = Some cf" "parseTcpPoolEndpoints conf = Inr eps" "eps \<noteq> []"
    using assms
    by (auto simp: NewTcpPoolSelector_def Tps_RpcPoolInit_def parseTcpPoolEndpoints_def split: sum.splits option.splits if_splits)
  obtain ss cf' where s: "init_tcp_servers eps cf 0 results nows = Some (ss, cf')" "length ss = length eps"
      "\<forall>s \<in> set ss. tcp_ok (ts_Gp s) \<and> bs_Valid s = SVR_VALID"
    using init_tcp_servers_ok [of eps cf 0 results nows] by blast
  then have "rps = (if tc_hasPing cf' then Tps_startHealthChecker else id) (zeroTps\<lparr>tps_closed := False, tps_Pos := 0,
      tps_Slist := ss, tps_Gpconf := Some cf', tps_NotValid := [], tps_chanCap := length eps\<rparr>)"
    using assms n by (auto simp: NewTcpPoolSelector_def Tps_RpcPoolInit_def Let_def)
  then show ?thesis using s n(3) by (auto simp: tps_inv_def Tps_startHealthChecker_def)
qed

lemma tps_reachable_inv: "tps_reachable rps \<Longrightarrow> tps_inv rps"
proof (induction rule: tps_reachable.induct)
  case (init conf results nows rps)
  then show ?case by (rule NewTcpPoolSelector_ok)
next
  case (step rps rps')
  from step.hyps(2) step.IH show ?case
  proof (induction rule: tps_step.induct)
    case (call p1 rps p2 envs c rps' err)
    then obtain r rps1 where "Tps_RoundRobin rps p1 p2 = Some (r, rps1)" by (auto simp: Tps_Process_def split: option.splits)
    with call Tps_Process_ok [of rps p1 p2 r rps1 envs c] show ?case by auto
  next
    case (notified rps envs rps')
    then show ?case using Tps_notified_ok [of rps envs] by (cases "tps_NotValid rps") (auto simp: Tps_notified_def)
  next
    case (tick rps envs rps')
    then show ?case using Tps_scan_ok [of rps 0 "length (tps_Slist rps)" envs] by (auto simp: Tps_tick_def)
  next
    case (close rps ctxErr poolErrs rps' err)
    then show ?case using Tps_Close_ok [of rps ctxErr poolErrs] by auto
  qed
qed


section \<open>Properties\<close>

lemma parseTcpEndpoint_eq:
  "(case parseTcpEndpoint raw of Inl _ \<Rightarrow> None | Inr ep \<Rightarrow> Some ep) = (case parseEndpoint raw of Inl _ \<Rightarrow> None | Inr ep \<Rightarrow> Some ep)"
  by (simp add: parseTcpEndpoint_def parseEndpoint_def Let_def split: prod.splits)

lemma parseTcpEndpoints_loop_eq:
  "(case parseTcpEndpoints_loop raws eps of Inl _ \<Rightarrow> None | Inr r \<Rightarrow> Some r) =
   (case parseEndpoints_loop raws eps of Inl _ \<Rightarrow> None | Inr r \<Rightarrow> Some r)"
proof (induction raws eps rule: parseTcpEndpoints_loop.induct)
  case (2 raw rest eps)
  then show ?case using parseTcpEndpoint_eq [of raw] by (auto split: sum.splits)
qed simp

text \<open>The TCP selector accepts the endpoint lists that the RPC selector accepts, with the same result; only the error texts differ.\<close>

lemma parseTcp_eq:
  assumes "tc_hasCfunc conf" "tc_MaxConns conf > 0" "0 \<le> tc_MaxIdleConns conf" "tc_MaxIdleConns conf \<le> tc_MaxConns conf"
  shows "(case parseTcpPoolEndpoints (Some conf) of Inl _ \<Rightarrow> None | Inr r \<Rightarrow> Some r) =
    (case parseRPCPoolEndpoints (tc_Addrs conf) of Inl _ \<Rightarrow> None | Inr r \<Rightarrow> Some r)"
  using assms parseTcpEndpoints_loop_eq [of "Split (tc_Addrs conf) CHR '',''" "[]"]
  by (auto simp: parseTcpPoolEndpoints_def parseRPCPoolEndpoints_def split: sum.splits)

text \<open>A selector over two endpoints, with a ping.\<close>

definition demo_tps_conf :: tcpPoolConfig where
  "demo_tps_conf = demo_tcp_conf\<lparr>tc_Addrs := Join (map showEndpoint demo_eps) CHR '','', tc_hasPing := True\<rparr>"

lemma demo_tcp_parse: "parseTcpPoolEndpoints (Some demo_tps_conf) = Inr demo_eps"
proof -
  have "\<forall>ep \<in> set demo_eps. goodEndpoint ep" by code_simp
  moreover have "demo_eps \<noteq> []" by (simp add: demo_eps_def)
  ultimately have "parseRPCPoolEndpoints (tc_Addrs demo_tps_conf) = Inr demo_eps"
    unfolding demo_tps_conf_def by (simp add: parse_show)
  then show ?thesis using parseTcp_eq [of demo_tps_conf]
    by (simp add: demo_tps_conf_def demo_tcp_conf_def split: sum.splits)
qed

lemma demo_tps:
  obtains rps where "tps_reachable rps" "length (tps_Slist rps) = 2" "\<not> tps_closed rps" "tcpPing rps" "tps_NotValid rps = []"
    "tps_chanCap rps = 2" "\<forall>s \<in> set (tps_Slist rps). bs_Valid s = SVR_VALID"
proof -
  obtain ss cf where s: "init_tcp_servers demo_eps demo_tps_conf 0 (\<lambda>_ _. Inr (0, 7)) (\<lambda>_ _. 0) = Some (ss, cf)"
      "length ss = length demo_eps" "tc_hasPing cf = tc_hasPing demo_tps_conf" "\<forall>s \<in> set ss. tcp_ok (ts_Gp s) \<and> bs_Valid s = SVR_VALID"
    using init_tcp_servers_ok [of demo_eps demo_tps_conf 0 "\<lambda>_ _. Inr (0, 7)" "\<lambda>_ _. 0"] by blast
  have p: "tc_hasPing cf" using s(3) by (simp add: demo_tps_conf_def)
  define rps where "rps = Tps_startHealthChecker (zeroTps\<lparr>tps_closed := False, tps_Pos := 0, tps_Slist := ss,
    tps_Gpconf := Some cf, tps_NotValid := [], tps_chanCap := length demo_eps\<rparr>)"
  have "NewTcpPoolSelector (Some demo_tps_conf) (\<lambda>_ _. Inr (0, 7)) (\<lambda>_ _. 0) = Some (Inr rps)"
    using s(1) p by (simp add: NewTcpPoolSelector_def Tps_RpcPoolInit_def demo_tcp_parse rps_def Let_def)
  then have "tps_reachable rps" by (rule tps_reachable.init)
  then show thesis by (rule that)
    (use s p in \<open>auto simp: rps_def Tps_startHealthChecker_def tcpPing_def demo_eps_def zeroTps_def\<close>)
qed

text \<open>
  C35: address lists are read back.  A non-empty list of endpoints, each with a host without commas and without space at its ends, a port from 1
  to 65535 and a positive 64-bit timeout, written as \<^verbatim>\<open>host:port/timeout\<close> and joined by commas, is parsed as exactly that list, by the RPC selector and,
  if the rest of the configuration is valid, by the TCP selector.  Hosts may contain colons.
\<close>

theorem endpoints_roundtrip:
  assumes "eps \<noteq> []" "\<forall>ep \<in> set eps. goodEndpoint ep" "tc_Addrs conf = Join (map showEndpoint eps) CHR '',''"
    and "tc_hasCfunc conf" "tc_MaxConns conf > 0" "0 \<le> tc_MaxIdleConns conf" "tc_MaxIdleConns conf \<le> tc_MaxConns conf"
  shows "parseRPCPoolEndpoints (tc_Addrs conf) = Inr eps \<and> parseTcpPoolEndpoints (Some conf) = Inr eps"
proof -
  have "parseRPCPoolEndpoints (tc_Addrs conf) = Inr eps" using parse_show [OF assms(1,2)] assms(3) by simp
  then show ?thesis using parseTcp_eq [OF assms(4-7)] by (simp split: sum.splits)
qed

theorem endpoints_roundtrip_witness:
  "parseTcpPoolEndpoints (Some (demo_tcp_conf\<lparr>tc_Addrs := ''::1:80/500,h:443/20''\<rparr>)) =
     Inr [\<lparr>ep_addr = ''::1'', ep_port = 80, ep_timeout = 500\<rparr>, \<lparr>ep_addr = ''h'', ep_port = 443, ep_timeout = 20\<rparr>]"
proof -
  let ?eps = "[\<lparr>ep_addr = ''::1'', ep_port = 80, ep_timeout = 500\<rparr>, \<lparr>ep_addr = ''h'', ep_port = 443, ep_timeout = 20\<rparr>]"
  have "Join (map showEndpoint ?eps) CHR '','' = ''::1:80/500,h:443/20''" by code_simp
  moreover have "\<forall>ep \<in> set ?eps. goodEndpoint ep" by code_simp
  ultimately show ?thesis using endpoints_roundtrip [of ?eps "demo_tcp_conf\<lparr>tc_Addrs := ''::1:80/500,h:443/20''\<rparr>"]
    by (simp add: demo_tcp_conf_def)
qed

text \<open>
  C33: A TCP selector of fewer than \<open>2 ^ 32\<close> servers never panics.  In every reachable selector a call, both cases of the health checker
  and \<^verbatim>\<open>Close\<close> return, whatever the scans of the round robin saw, so that it never divides by zero; after \<^verbatim>\<open>Close\<close> every call is refused with
  \<^verbatim>\<open>ErrTcpPoolClosed\<close> without touching a pool.
\<close>

theorem tcp_selector_total:
  assumes "tps_reachable rps" "length (snd p1) \<le> length (tps_Slist rps)" "length (snd p2) \<le> length (tps_Slist rps)"
    and "length (fst p1) < 2 ^ 32" "length (fst p2) < 2 ^ 32"
  shows "(\<exists>r. Tps_Process rps p1 p2 envs c = Some r) \<and> (tps_NotValid rps \<noteq> [] \<longrightarrow> (\<exists>r. Tps_notified rps envs = Some r)) \<and>
    (\<exists>r. Tps_tick rps envs' = Some r) \<and>
    (\<exists>rps' err. Tps_Close rps ctxErr poolErrs = Some (rps', err) \<and>
       Tps_Process rps' p1 p2 envs True = Some (rps', Some [ErrPoolClosed]))"
proof -
  note inv = tps_reachable_inv [OF assms(1)]
  have "\<exists>r. Tps_tick rps envs' = Some r" using Tps_scan_ok [OF inv, of 0] by (auto simp: Tps_tick_def)
  moreover have "\<exists>r. Tps_Process rps p1 p2 envs c = Some r"
    using Tps_RoundRobin_total [OF assms(4,5), of rps] Tps_Process_ok [OF inv assms(2,3)] by fast
  moreover have "tps_NotValid rps \<noteq> [] \<longrightarrow> (\<exists>r. Tps_notified rps envs = Some r)" using Tps_notified_ok [OF inv] by blast
  moreover obtain rps' err where "Tps_Close rps ctxErr poolErrs = Some (rps', err)" "tps_closed rps'"
    using Tps_Close_ok [OF inv] by blast
  moreover from this have "Tps_Process rps' p1 p2 envs True = Some (rps', Some [ErrPoolClosed])"
    by (simp add: Tps_Process_def Tps_RoundRobin_def)
  ultimately show ?thesis by blast
qed

theorem tcp_selector_total_witness:
  "\<exists>rps r. tps_reachable rps \<and> Tps_Process rps ([True, True], [True, True]) ([True, True], [True, True]) (\<lambda>_. env_ok) False = Some r"
proof -
  obtain rps where r: "tps_reachable rps" "length (tps_Slist rps) = 2" by (rule demo_tps)
  with tcp_selector_total [OF r(1), of "([True, True], [True, True])" "([True, True], [True, True])"] show ?thesis by simp blast
qed

end
