(* ===== verification/TcpConn.thy ===== *)
theory TcpConn
  imports Go_Prelude "HOL-Library.Monad_Syntax"
begin

text \<open>
  The TCP and TLS connections (\<^verbatim>\<open>network/tcp_conn.go\<close>, \<^verbatim>\<open>network/tcp_ssl_conn.go\<close>,
  \<^verbatim>\<open>network/tcp_conn_open_unix.go\<close>).  The socket is a parameter: the results of its calls are arguments, and
  what was sent through it and how often it was closed are recorded.
\<close>

section \<open>Sockets\<close>

record socket =
  so_sent :: string
  so_deadline :: "int option"
  so_closes :: nat

text \<open>
  The answers of the system calls of the connectivity probe.  \<open>PeekAgain\<close> stands for \<^verbatim>\<open>EAGAIN\<close> and
  \<^verbatim>\<open>EWOULDBLOCK\<close>.
\<close>

datatype peekErr = PeekNone | PeekAgain | PeekOther

record probe =
  pr_hasSyscall :: bool
  pr_deadlineFails :: bool
  pr_rawFails :: bool
  pr_readFails :: bool
  pr_n :: int
  pr_peekErr :: peekErr

definition isTCPConnOpen :: "socket option \<Rightarrow> probe \<Rightarrow> bool" where
  "isTCPConnOpen conn p =
     (if conn = None then False
      else if \<not> pr_hasSyscall p then True
      else if pr_deadlineFails p then False
      else if pr_rawFails p then False
      else if pr_readFails p then False
      else if pr_n p > 0 then True
      else if pr_peekErr p = PeekAgain then True
      else False)"

text \<open>
  \<^verbatim>\<open>io.ReadFull\<close> over a reader whose successive results are listed: the bytes and the error of each \<^verbatim>\<open>Read\<close>.
  The last component of the result is false when the list is used up.
\<close>

fun ReadFull :: "nat \<Rightarrow> (string \<times> error option) list \<Rightarrow> string \<Rightarrow> string \<times> error option \<times> bool" where
  "ReadFull want reads got =
     (if length got \<ge> want then (got, None, True)
      else case reads of
        [] \<Rightarrow> (got, None, False)
      | (bs, err) # rest \<Rightarrow>
          let got = got @ take (want - length got) bs in
          (case err of
             None \<Rightarrow> ReadFull want rest got
           | Some e \<Rightarrow>
               (if length got \<ge> want then (got, None, True)
                else if got \<noteq> '''' \<and> e = [IoEOF] then (got, Some [IoErrUnexpectedEOF], True)
                else (got, Some e, True))))"

declare ReadFull.simps [simp del]

text \<open>A slice of zero bytes of which a prefix is filled.\<close>

definition filled :: "nat \<Rightarrow> string \<Rightarrow> string" where
  "filled n got = got @ replicate (n - length got) (CHR 0x00)"

section \<open>Plain connections\<close>

record tcpConn =
  tcn_Conn :: "socket option"
  tcn_ConnectTimeout :: int
  tcn_ReadTimeout :: int
  tcn_WriteTimeout :: int
  tcn_Addr :: string
  tcn_Opened :: bool
  tcn_once :: bool

definition NewTcpConn :: "string \<Rightarrow> int \<Rightarrow> int \<Rightarrow> int \<Rightarrow> tcpConn" where
  "NewTcpConn addr cTimeout rTimeout wTimeout =
     \<lparr>tcn_Conn = None, tcn_ConnectTimeout = cTimeout, tcn_ReadTimeout = rTimeout, tcn_WriteTimeout = wTimeout,
      tcn_Addr = addr, tcn_Opened = False, tcn_once = False\<rparr>"

definition NewTcpFromConn :: "socket option \<Rightarrow> tcpConn" where
  "NewTcpFromConn c =
     \<lparr>tcn_Conn = c, tcn_ConnectTimeout = 0, tcn_ReadTimeout = 0, tcn_WriteTimeout = 0, tcn_Addr = '''',
      tcn_Opened = False, tcn_once = False\<rparr>"

definition IsOpen :: "tcpConn \<Rightarrow> probe \<Rightarrow> bool \<times> tcpConn" where
  "IsOpen conn p =
     (if \<not> tcn_Opened conn then (False, conn)
      else let opened = isTCPConnOpen (tcn_Conn conn) p in (opened, conn\<lparr>tcn_Opened := opened\<rparr>))"

definition SetRTimeout :: "tcpConn \<Rightarrow> int \<Rightarrow> tcpConn" where
  "SetRTimeout conn t = conn\<lparr>tcn_ReadTimeout := t\<rparr>"

definition SetWTimeout :: "tcpConn \<Rightarrow> int \<Rightarrow> tcpConn" where
  "SetWTimeout conn t = conn\<lparr>tcn_WriteTimeout := t\<rparr>"

text \<open>\<open>dial\<close> is the result of \<^verbatim>\<open>net.DialTimeout\<close>.\<close>

definition Open :: "tcpConn \<Rightarrow> error + socket \<Rightarrow> tcpConn \<times> error option" where
  "Open conn dial =
     (case dial of Inl e \<Rightarrow> (conn, Some e) | Inr c \<Rightarrow> (conn\<lparr>tcn_Conn := Some c, tcn_Opened := True\<rparr>, None))"

definition close_socket :: "socket option \<Rightarrow> socket option go" where
  "close_socket c = (case c of None \<Rightarrow> None | Some s \<Rightarrow> Some (Some (s\<lparr>so_closes := Suc (so_closes s)\<rparr>)))"

definition Close :: "tcpConn \<Rightarrow> tcpConn go" where
  "Close conn =
     (let conn = conn\<lparr>tcn_Opened := False\<rparr> in
      if tcn_once conn then Some conn
      else do {
        c \<leftarrow> close_socket (tcn_Conn conn);
        Some (conn\<lparr>tcn_Conn := c, tcn_once := True\<rparr>)
      })"

definition set_deadline :: "int \<Rightarrow> int \<Rightarrow> socket \<Rightarrow> socket" where
  "set_deadline now t s = (if t > 0 then s\<lparr>so_deadline := Some (now + t)\<rparr> else s)"

definition Readn :: "tcpConn \<Rightarrow> nat \<Rightarrow> int \<Rightarrow> (string \<times> error option) list \<Rightarrow> (tcpConn \<times> string \<times> error option \<times> bool) go" where
  "Readn conn n_byte now reads = do {
     s \<leftarrow> tcn_Conn conn;
     let s = set_deadline now (tcn_ReadTimeout conn) s;
     let (got, err, done) = ReadFull n_byte reads '''';
     let conn = conn\<lparr>tcn_Conn := Some s\<rparr>;
     let conn = (if err \<noteq> None then conn\<lparr>tcn_Opened := False\<rparr> else conn);
     Some (conn, filled n_byte got, err, done)
   }"

text \<open>
  The loop of \<^verbatim>\<open>Writen\<close>: call \<open>i\<close> of the socket's \<^verbatim>\<open>Write\<close> on the slice \<open>p\<close> answers \<open>wr i p\<close>, a number of bytes and
  an error.  A slice expression beyond the end panics.  \<open>fuel\<close> bounds the number of calls; the last
  component tells whether the loop ended.
\<close>

fun writen_loop ::
  "nat \<Rightarrow> nat \<Rightarrow> (nat \<Rightarrow> string \<Rightarrow> nat \<times> error option) \<Rightarrow> string \<Rightarrow> nat \<Rightarrow> string \<Rightarrow> (string \<times> error option \<times> bool) go" where
  "writen_loop 0 i wr b start sent = Some (sent, None, False)"
| "writen_loop (Suc fuel) i wr b start sent =
     (if start > length b then None
      else
        let (n, err) = wr i (drop start b);
            sent = sent @ take n (drop start b) in
        (case err of
           Some e \<Rightarrow> Some (sent, Some e, True)
         | None \<Rightarrow>
             let start = start + n in
             if start = length b then Some (sent, None, True)
             else writen_loop fuel (Suc i) wr b start sent))"

definition Writen ::
  "nat \<Rightarrow> tcpConn \<Rightarrow> int \<Rightarrow> (nat \<Rightarrow> string \<Rightarrow> nat \<times> error option) \<Rightarrow> string \<Rightarrow> (tcpConn \<times> error option \<times> bool) go" where
  "Writen fuel conn now wr b = do {
     s \<leftarrow> tcn_Conn conn;
     let s = set_deadline now (tcn_WriteTimeout conn) s;
     (sent, err, done) \<leftarrow> writen_loop fuel 0 wr b 0 (so_sent s);
     let conn = conn\<lparr>tcn_Conn := Some (s\<lparr>so_sent := sent\<rparr>)\<rparr>;
     Some (if err \<noteq> None then conn\<lparr>tcn_Opened := False\<rparr> else conn, err, done)
   }"

section \<open>TLS connections\<close>

text \<open>The TLS variant keeps its configuration and checks the connection for nil before probing.\<close>

record tcpSslConn = tcpConn +
  ssl_TlsConf :: bool

definition NewTcpSslConn :: "string \<Rightarrow> int \<Rightarrow> int \<Rightarrow> int \<Rightarrow> bool \<Rightarrow> tcpSslConn" where
  "NewTcpSslConn addr cTimeout rTimeout wTimeout tlsConf =
     \<lparr>tcn_Conn = None, tcn_ConnectTimeout = cTimeout, tcn_ReadTimeout = rTimeout, tcn_WriteTimeout = wTimeout,
      tcn_Addr = addr, tcn_Opened = False, tcn_once = False, ssl_TlsConf = tlsConf\<rparr>"

definition NewTcpSslFromConn :: "socket option \<Rightarrow> tcpSslConn" where
  "NewTcpSslFromConn c =
     \<lparr>tcn_Conn = c, tcn_ConnectTimeout = 0, tcn_ReadTimeout = 0, tcn_WriteTimeout = 0, tcn_Addr = '''',
      tcn_Opened = False, tcn_once = False, ssl_TlsConf = False\<rparr>"

definition Ssl_IsOpen :: "tcpSslConn \<Rightarrow> probe \<Rightarrow> bool \<times> tcpSslConn" where
  "Ssl_IsOpen conn p =
     (if \<not> tcn_Opened conn \<or> tcn_Conn conn = None then (False, conn)
      else let opened = isTCPConnOpen (tcn_Conn conn) p in (opened, conn\<lparr>tcn_Opened := opened\<rparr>))"

definition Ssl_Open :: "tcpSslConn \<Rightarrow> error + socket \<Rightarrow> tcpSslConn \<times> error option" where
  "Ssl_Open conn dial =
     (case dial of Inl e \<Rightarrow> (conn, Some e) | Inr c \<Rightarrow> (conn\<lparr>tcn_Conn := Some c, tcn_Opened := True\<rparr>, None))"

definition Ssl_Close :: "tcpSslConn \<Rightarrow> tcpSslConn go" where
  "Ssl_Close conn =
     (let conn = conn\<lparr>tcn_Opened := False\<rparr> in
      if tcn_once conn then Some conn
      else do {
        c \<leftarrow> close_socket (tcn_Conn conn);
        Some (conn\<lparr>tcn_Conn := c, tcn_once := True\<rparr>)
      })"

definition Ssl_Readn ::
  "tcpSslConn \<Rightarrow> nat \<Rightarrow> int \<Rightarrow> (string \<times> error option) list \<Rightarrow> (tcpSslConn \<times> string \<times> error option \<times> bool) go" where
  "Ssl_Readn conn n_byte now reads = do {
     s \<leftarrow> tcn_Conn conn;
     let s = set_deadline now (tcn_ReadTimeout conn) s;
     let (got, err, done) = ReadFull n_byte reads '''';
     let conn = conn\<lparr>tcn_Conn := Some s\<rparr>;
     let conn = (if err \<noteq> None then conn\<lparr>tcn_Opened := False\<rparr> else conn);
     Some (conn, filled n_byte got, err, done)
   }"

definition Ssl_Writen ::
  "nat \<Rightarrow> tcpSslConn \<Rightarrow> int \<Rightarrow> (nat \<Rightarrow> string \<Rightarrow> nat \<times> error option) \<Rightarrow> string \<Rightarrow> (tcpSslConn \<times> error option \<times> bool) go" where
  "Ssl_Writen fuel conn now wr b = do {
     s \<leftarrow> tcn_Conn conn;
     let s = set_deadline now (tcn_WriteTimeout conn) s;
     (sent, err, done) \<leftarrow> writen_loop fuel 0 wr b 0 (so_sent s);
     let conn = conn\<lparr>tcn_Conn := Some (s\<lparr>so_sent := sent\<rparr>)\<rparr>;
     Some (if err \<noteq> None then conn\<lparr>tcn_Opened := False\<rparr> else conn, err, done)
   }"

section \<open>Properties\<close>

text \<open>The contract of \<^verbatim>\<open>io.Writer\<close>: at most the bytes offered, and an error when fewer are taken.\<close>

definition io_writer :: "(nat \<Rightarrow> string \<Rightarrow> nat \<times> error option) \<Rightarrow> bool" where
  "io_writer wr \<longleftrightarrow> (\<forall>i p. fst (wr i p) \<le> length p \<and> (fst (wr i p) < length p \<longrightarrow> snd (wr i p) \<noteq> None))"

lemma writen_loop_one:
  assumes "io_writer wr"
  shows "writen_loop (Suc fuel) i wr b 0 sent = Some (sent @ take (fst (wr i b)) b, snd (wr i b), True)"
proof (cases "wr i b")
  case (Pair n err)
  then have "n \<le> length b" "n < length b \<Longrightarrow> err \<noteq> None" using assms unfolding io_writer_def by (metis fst_conv snd_conv)+
  then show ?thesis using Pair by (cases err) (auto simp: Let_def)
qed

lemma ReadFull_ok:
  assumes "ReadFull want reads got = (got', err, True)" "length got \<le> want"
  shows "(err = None \<longleftrightarrow> length got' = want) \<and> length got' \<le> want"
  using assms
proof (induction want reads got rule: ReadFull.induct)
  case (1 want reads got)
  show ?case
  proof (cases "length got \<ge> want \<or> reads = []")
    case True
    then show ?thesis using 1(2,3) by (subst (asm) ReadFull.simps) (auto split: if_splits)
  next
    case False
    then obtain bs e rest where r: "reads = (bs, e) # rest" by (cases reads) auto
    then show ?thesis
      using 1(1) [OF _ r refl refl, unfolded not_le] 1(2,3) False
      by (subst (asm) (2) ReadFull.simps) (auto simp: Let_def split: option.splits if_splits)
  qed
qed

text \<open>
  Writes are exact.  Over a socket that keeps the contract of \<^verbatim>\<open>io.Writer\<close>, one call suffices: \<^verbatim>\<open>Writen\<close>
  always returns, a nil error means that exactly the given bytes were sent after what was sent before,
  and on an error a prefix was sent and the connection is marked as not open.
\<close>

theorem Writen_exact:
  assumes "io_writer wr" "tcn_Conn conn = Some s" "fuel > 0"
  shows "\<exists>conn' s' n err. Writen fuel conn now wr b = Some (conn', err, True) \<and> tcn_Conn conn' = Some s' \<and>
    so_sent s' = so_sent s @ take n b \<and> (err = None \<longrightarrow> n = length b) \<and> (err \<noteq> None \<longrightarrow> \<not> tcn_Opened conn')"
proof -
  obtain f where f: "fuel = Suc f" using assms(3) by (cases fuel) auto
  have "fst (wr 0 b) = length b" if "snd (wr 0 b) = None"
    using assms(1) that unfolding io_writer_def by (metis le_neq_implies_less)
  then show ?thesis using writen_loop_one [OF assms(1), of f 0 b] assms(2)
    by (auto simp: Writen_def f set_deadline_def Let_def intro!: exI [of _ "fst (wr 0 b)"])
qed

theorem Writen_exact_witness:
  "\<exists>conn' s' n err. Writen 1 ((NewTcpConn ''h:1'' 1 1 1)\<lparr>tcn_Conn := Some \<lparr>so_sent = '''', so_deadline = None, so_closes = 0\<rparr>\<rparr>) 0
     (\<lambda>_ p. (length p, None)) ''abc'' = Some (conn', err, True) \<and> tcn_Conn conn' = Some s' \<and> so_sent s' = take n ''abc'' \<and>
     (err = None \<longrightarrow> n = 3)"
proof -
  let ?s = "\<lparr>so_sent = '''', so_deadline = None, so_closes = 0\<rparr>"
  let ?c = "(NewTcpConn ''h:1'' 1 1 1)\<lparr>tcn_Conn := Some ?s\<rparr>"
  have w: "io_writer (\<lambda>_ p. (length p, None))" by (simp add: io_writer_def)
  have c: "tcn_Conn ?c = Some ?s" "(0 :: nat) < 1" "so_sent ?s = ''''" "length ''abc'' = 3" by simp_all
  obtain conn' s' n err where
    "Writen 1 ?c 0 (\<lambda>_ p. (length p, None)) ''abc'' = Some (conn', err, True)" "tcn_Conn conn' = Some s'"
    "so_sent s' = so_sent ?s @ take n ''abc''" "err = None \<longrightarrow> n = length ''abc''"
    using Writen_exact [OF w c(1,2), of 0 "''abc''"] by blast
  then show ?thesis unfolding c(3,4) append_Nil by blast
qed

end
