(* ===== verification/ThriftExt.thy ===== *)
theory ThriftExt
  imports GpoolCall GoStrings
begin

text \<open>
  The extended thrift protocol (\<^verbatim>\<open>gpool/thrift_ext_proto.go\<close>): the client prefixes every message with a magic
  number, a version and a map of request data; the server recognises the magic, turns the map into
  context values and falls back to the standard protocol otherwise.

  The binary protocol is third-party code and a parameter, \<open>tproto\<close>; its documented behaviour (a value that
  was written is read back) is the hypothesis \<open>faithful\<close> of the properties.
\<close>

section \<open>Contexts\<close>

text \<open>A context is the chain of its values, innermost first; only string values matter here.\<close>

type_synonym goctx = "(string \<times> string) list"

definition WithValue :: "goctx \<Rightarrow> string \<Rightarrow> string \<Rightarrow> goctx" where
  "WithValue ctx k v = (k, v) # ctx"

definition ctx_Value :: "goctx \<Rightarrow> string \<Rightarrow> string option" where
  "ctx_Value ctx k = map_of ctx k"

definition GetRequestID :: "goctx \<Rightarrow> string" where
  "GetRequestID ctx = (case ctx_Value ctx ''request_id'' of Some rid \<Rightarrow> rid | None \<Rightarrow> '''')"

definition WithRequestID :: "goctx \<Rightarrow> string \<Rightarrow> goctx" where
  "WithRequestID ctx rid = WithValue ctx ''request_id'' rid"

record extContext =
  ec_Context :: goctx
  ec_ReqExtData :: "string \<rightharpoonup> string"

definition THRIFT_EXT_META_MAGIC :: "32 word" where "THRIFT_EXT_META_MAGIC = 0x7FFFFFFF"
definition THRIFT_EXT_META_VERSION :: "16 word" where "THRIFT_EXT_META_VERSION = 1"
definition THRIFT_EXT_CALL_CLIENT_SERVICE :: string where "THRIFT_EXT_CALL_CLIENT_SERVICE = ''call_client_service''"
definition THRIFT_EXT_CLIENT_SERVICE :: string where "THRIFT_EXT_CLIENT_SERVICE = ''client_service''"
definition THRIFT_EXT_DEPTH :: string where "THRIFT_EXT_DEPTH = ''trace_depth''"

text \<open>\<open>ctxValueKey\<close> is the logger's list of context keys.\<close>

definition NewExtContext :: "goctx \<Rightarrow> string \<Rightarrow> extContext" where
  "NewExtContext ctx ctxValueKey =
     \<lparr>ec_Context = ctx,
      ec_ReqExtData = fold (\<lambda>k m. case ctx_Value ctx k of Some v \<Rightarrow> m(k \<mapsto> v) | None \<Rightarrow> m) (Split ctxValueKey CHR '','') Map.empty\<rparr>"

text \<open>
  The setters write into the map they share with the context they return; both are given.  The \<^verbatim>\<open>ctx\<close> argument
  is the chain the new value is put in front of.
\<close>

definition SetReqExtData :: "extContext \<Rightarrow> goctx \<Rightarrow> string \<Rightarrow> string \<Rightarrow> extContext \<times> extContext" where
  "SetReqExtData ec ctx k v =
     (let m = (ec_ReqExtData ec)(k \<mapsto> v) in
      (ec\<lparr>ec_ReqExtData := m\<rparr>, \<lparr>ec_Context = WithValue ctx k v, ec_ReqExtData = m\<rparr>))"

definition SetReqExtCallClientService :: "extContext \<Rightarrow> goctx \<Rightarrow> string \<Rightarrow> extContext \<times> extContext" where
  "SetReqExtCallClientService ec ctx v = SetReqExtData ec ctx THRIFT_EXT_CALL_CLIENT_SERVICE v"

definition GetReqExtData :: "extContext \<Rightarrow> string \<Rightarrow> string" where
  "GetReqExtData ec k =
     (case ec_ReqExtData ec k of
        Some v \<Rightarrow> v
      | None \<Rightarrow> (case ctx_Value (ec_Context ec) k of Some m \<Rightarrow> m | None \<Rightarrow> ''''))"

text \<open>
  \<^verbatim>\<open>rpcExtensionContext\<close> of the RPC selector: a plain context is refused, a missing request id is generated
  (\<open>newID\<close>).
\<close>

definition rpcExtensionContext :: "extContext option \<Rightarrow> string \<Rightarrow> error + extContext" where
  "rpcExtensionContext ctx newID =
     (case ctx of
        None \<Rightarrow> Inl [ErrorText ''ctx format error'']
      | Some ec \<Rightarrow>
          if GetReqExtData ec ''request_id'' = ''''
          then Inr (snd (SetReqExtData ec (ec_Context ec) ''request_id'' newID))
          else Inr ec)"

text \<open>The preparation of the context in \<^verbatim>\<open>ThriftExtCall2\<close>; \<open>env\<close> is the environment's \<^verbatim>\<open>CLIENT_SERVICE\<close>.\<close>

definition extCallContext :: "extContext \<Rightarrow> string \<Rightarrow> extContext" where
  "extCallContext ec env =
     (if GetReqExtData ec THRIFT_EXT_CALL_CLIENT_SERVICE = ''''
      then snd (SetReqExtCallClientService ec (ec_Context ec) env)
      else ec)"

section \<open>The client\<close>

record tproto =
  w_I32 :: "32 word \<Rightarrow> string"
  w_I16 :: "16 word \<Rightarrow> string"
  w_MapBegin :: "int \<Rightarrow> string"
  w_String :: "string \<Rightarrow> string"
  w_MessageBegin :: "string \<Rightarrow> int \<Rightarrow> 32 word \<Rightarrow> string"
  r_I16 :: "string \<Rightarrow> error + 16 word \<times> string"
  r_MapBegin :: "string \<Rightarrow> error + int \<times> string"
  r_String :: "string \<Rightarrow> error + string \<times> string"

text \<open>
  The writes of one message, each with the bytes it puts on the wire; \<open>fails i\<close> is the error of the \<open>i\<close>-th.
  \<open>order\<close> is the order in which the map is traversed.
\<close>

fun write_all :: "string list \<Rightarrow> (nat \<Rightarrow> error option) \<Rightarrow> nat \<Rightarrow> string \<times> error option" where
  "write_all [] fails i = ('''', None)"
| "write_all (w # ws) fails i =
     (case fails i of
        Some e \<Rightarrow> ('''', Some e)
      | None \<Rightarrow> (case write_all ws fails (Suc i) of (out, err) \<Rightarrow> (w @ out, err)))"

definition ext_header :: "tproto \<Rightarrow> (string \<times> string) list \<Rightarrow> string list" where
  "ext_header p order =
     [w_I32 p THRIFT_EXT_META_MAGIC, w_I16 p THRIFT_EXT_META_VERSION, w_MapBegin p (int (length order))] @
     concat (map (\<lambda>(k, v). [w_String p k, w_String p v]) order)"

text \<open>The assertion that the context is an extended one comes after the first two writes.\<close>

definition WriteMessageBegin ::
  "tproto \<Rightarrow> extContext option \<Rightarrow> (string \<times> string) list \<Rightarrow> string \<Rightarrow> int \<Rightarrow> 32 word \<Rightarrow> (nat \<Rightarrow> error option) \<Rightarrow>
   (string \<times> error option) go" where
  "WriteMessageBegin p ctx order name typeId seqId fails =
     (case ctx of
        None \<Rightarrow> (case write_all (take 2 (ext_header p order)) fails 0 of
                   (out, Some e) \<Rightarrow> Some (out, Some e)
                 | (out, None) \<Rightarrow> None)
      | Some _ \<Rightarrow> Some (write_all (ext_header p order @ [w_MessageBegin p name typeId seqId]) fails 0))"

section \<open>The server\<close>

text \<open>
  \<^verbatim>\<open>err.(thrift.TProtocolException).TypeId()\<close>: transport and protocol exceptions have a type id, on any other
  error the assertion panics.
\<close>

fun typeId :: "error \<Rightarrow> int go" where
  "typeId (TProtocolException n # _) = Some n"
| "typeId (TTransportException t # _) =
     Some (case t of UNKNOWN_TRANSPORT_EXCEPTION \<Rightarrow> 0 | NOT_OPEN \<Rightarrow> 1 | ALREADY_OPEN \<Rightarrow> 2 | TIMED_OUT \<Rightarrow> 3
           | END_OF_FILE \<Rightarrow> 4 | OTHER_TRANSPORT n \<Rightarrow> n)"
| "typeId _ = None"

definition excEOF :: error where "excEOF = [TTransportException END_OF_FILE, ErrorText ''connection closed (EOF)'']"

text \<open>\<^verbatim>\<open>thrift.INVALID_DATA\<close>, a constant of the protocol exceptions, has the number of \<^verbatim>\<open>NOT_OPEN\<close>.\<close>

definition excInvalid :: error where "excInvalid = [TTransportException NOT_OPEN, ErrorText ''invalid data'']"

definition read_failed :: "error \<Rightarrow> error go" where
  "read_failed err = do { t \<leftarrow> typeId err; Some (if t = 4 then excEOF else excInvalid) }"

definition ReadMagic :: "tproto \<Rightarrow> string \<Rightarrow> (error + 16 word \<times> string \<times> string) go" where
  "ReadMagic p inp =
     (case r_I16 p inp of
        Inl e \<Rightarrow> map_option Inl (read_failed e)
      | Inr (magic, rest) \<Rightarrow> Some (Inr (magic, [char_of (unat magic div 256), char_of (unat magic)], rest)))"

definition ReadMetaVer :: "tproto \<Rightarrow> string \<Rightarrow> (error + 16 word \<times> string) go" where
  "ReadMetaVer p inp =
     (case r_I16 p inp of
        Inl e \<Rightarrow> map_option Inl (read_failed e)
      | Inr (ver, rest) \<Rightarrow> Some (Inr (ver, rest)))"

text \<open>The loop of \<^verbatim>\<open>ReadMetaMap\<close>; the third component is the calling service seen so far.\<close>

primrec metaMap_loop :: "nat \<Rightarrow> tproto \<Rightarrow> goctx \<Rightarrow> string \<Rightarrow> string \<Rightarrow> error + goctx \<times> string \<times> string" where
  "metaMap_loop 0 p ctx callClientService inp = Inr (ctx, callClientService, inp)"
| "metaMap_loop (Suc n) p ctx callClientService inp =
     (case r_String p inp of
        Inl e \<Rightarrow> Inl e
      | Inr (k, inp) \<Rightarrow>
          (case r_String p inp of
             Inl e \<Rightarrow> Inl e
           | Inr (v, inp) \<Rightarrow>
               if k = THRIFT_EXT_DEPTH
               then (case Atoi v of (iv, err) \<Rightarrow>
                       metaMap_loop n p (if err then ctx else WithValue ctx k (Itoa iv)) callClientService inp)
               else if k = THRIFT_EXT_CALL_CLIENT_SERVICE then metaMap_loop n p ctx v inp
               else metaMap_loop n p (WithValue ctx k v) callClientService inp))"

definition ReadMetaMap :: "tproto \<Rightarrow> goctx \<Rightarrow> string \<Rightarrow> error + goctx \<times> string" where
  "ReadMetaMap p ctx inp =
     (case r_MapBegin p inp of
        Inl e \<Rightarrow> Inl e
      | Inr (n, inp) \<Rightarrow>
          (case metaMap_loop (nat n) p (WithValue ctx THRIFT_EXT_DEPTH ''0'') '''' inp of
             Inl e \<Rightarrow> Inl e
           | Inr (ctx, callClientService, inp) \<Rightarrow>
               Inr (if callClientService \<noteq> '''' then WithValue ctx THRIFT_EXT_CLIENT_SERVICE callClientService else ctx, inp)))"

definition Uint32 :: "string \<Rightarrow> 32 word" where
  "Uint32 b = foldl (\<lambda>w c. w * 256 + word_of_nat (of_char c)) 0 b"

text \<open>
  \<^verbatim>\<open>Process\<close> up to the call of the inner processor: the context and the input it is called with.  \<open>readErr\<close> is
  the error of \<^verbatim>\<open>io.ReadFull\<close> when the transport has fewer than four bytes, \<open>newID\<close> the generated request id.
\<close>

definition Process :: "tproto \<Rightarrow> goctx \<Rightarrow> string \<Rightarrow> error \<Rightarrow> string \<Rightarrow> (error + goctx \<times> string) go" where
  "Process p ctx inp readErr newID =
     (if length inp < 4 then map_option Inl (read_failed readErr)
      else
        let preBuf = take 4 inp; inp = drop 4 inp in
        if Uint32 preBuf = THRIFT_EXT_META_MAGIC
        then do {
          ver \<leftarrow> ReadMetaVer p inp;
          (case ver of
             Inl ex \<Rightarrow> Some (Inl ex)
           | Inr (_, inp) \<Rightarrow>
               (case ReadMetaMap p ctx inp of
                  Inl errRM \<Rightarrow> map_option Inl (read_failed errRM)
                | Inr (ctx, inp) \<Rightarrow> Some (Inr (ctx, inp))))
        }
        else Some (Inr (WithValue ctx ''request_id'' newID, preBuf @ inp)))"

section \<open>Properties\<close>

text \<open>What the documentation of the binary protocol promises.\<close>

definition faithful :: "tproto \<Rightarrow> bool" where
  "faithful p \<longleftrightarrow>
     (\<forall>w rest. r_I16 p (w_I16 p w @ rest) = Inr (w, rest)) \<and>
     (\<forall>n rest. 0 \<le> n \<and> n < 2 ^ 31 \<longrightarrow> r_MapBegin p (w_MapBegin p n @ rest) = Inr (n, rest)) \<and>
     (\<forall>s rest. int (length s) < 2 ^ 31 \<longrightarrow> r_String p (w_String p s @ rest) = Inr (s, rest)) \<and>
     (\<forall>w. length (w_I32 p w) = 4 \<and> Uint32 (w_I32 p w) = w)"

definition strings_ok :: "(string \<times> string) list \<Rightarrow> bool" where
  "strings_ok order \<longleftrightarrow> int (length order) < 2 ^ 31 \<and>
     (\<forall>(k, v) \<in> set order. int (length k) < 2 ^ 31 \<and> int (length v) < 2 ^ 31)"

text \<open>What the server is meant to make of the map: a reference definition.\<close>

definition meta_value :: "(string \<times> string) list \<Rightarrow> string \<Rightarrow> string option" where
  "meta_value order k =
     (if k = THRIFT_EXT_DEPTH
      then Some (case map_of order k of
                   None \<Rightarrow> ''0''
                 | Some v \<Rightarrow> (case Atoi v of (iv, err) \<Rightarrow> if err then ''0'' else Itoa iv))
      else if k = THRIFT_EXT_CALL_CLIENT_SERVICE then None
      else if k = THRIFT_EXT_CLIENT_SERVICE
      then (case map_of order THRIFT_EXT_CALL_CLIENT_SERVICE of
              Some v \<Rightarrow> if v = '''' then map_of order k else Some v
            | None \<Rightarrow> map_of order k)
      else map_of order k)"

lemma write_all_ok: "(\<And>i. fails i = None) \<Longrightarrow> write_all ws fails i = (concat ws, None)"
  by (induction ws arbitrary: i) auto

lemma ext_names [simp]:
  "THRIFT_EXT_DEPTH \<noteq> THRIFT_EXT_CALL_CLIENT_SERVICE" "THRIFT_EXT_CALL_CLIENT_SERVICE \<noteq> THRIFT_EXT_DEPTH"
  "THRIFT_EXT_DEPTH \<noteq> THRIFT_EXT_CLIENT_SERVICE" "THRIFT_EXT_CLIENT_SERVICE \<noteq> THRIFT_EXT_DEPTH"
  "THRIFT_EXT_CALL_CLIENT_SERVICE \<noteq> THRIFT_EXT_CLIENT_SERVICE" "THRIFT_EXT_CLIENT_SERVICE \<noteq> THRIFT_EXT_CALL_CLIENT_SERVICE"
  by (simp_all add: THRIFT_EXT_DEPTH_def THRIFT_EXT_CALL_CLIENT_SERVICE_def THRIFT_EXT_CLIENT_SERVICE_def)

text \<open>The context after the loop, key by key.\<close>

fun meta_step :: "string \<times> string \<Rightarrow> goctx \<times> string \<Rightarrow> goctx \<times> string" where
  "meta_step (k, v) (ctx, ccs) =
     (if k = THRIFT_EXT_DEPTH then (case Atoi v of (iv, err) \<Rightarrow> if err then ctx else WithValue ctx k (Itoa iv), ccs)
      else if k = THRIFT_EXT_CALL_CLIENT_SERVICE then (ctx, v)
      else (WithValue ctx k v, ccs))"

lemma metaMap_loop_ok:
  assumes "faithful p" "\<forall>(k, v) \<in> set order. int (length k) < 2 ^ 31 \<and> int (length v) < 2 ^ 31"
  shows "metaMap_loop (length order) p ctx ccs (concat (map (\<lambda>(k, v). w_String p k @ w_String p v) order) @ rest) =
    (case fold meta_step order (ctx, ccs) of (ctx, ccs) \<Rightarrow> Inr (ctx, ccs, rest))"
  using assms(2)
proof (induction order arbitrary: ctx ccs)
  case (Cons kv order)
  obtain k v where kv: "kv = (k, v)" by (cases kv)
  have "r_String p (w_String p s @ r) = Inr (s, r)" if "int (length s) < 2 ^ 31" for s r
    using assms(1) that by (simp add: faithful_def)
  with Cons kv show ?case by (auto split: prod.splits)
qed simp

lemma fold_meta_other:
  assumes "k \<notin> fst ` set order"
  shows "ctx_Value (fst (fold meta_step order (ctx, ccs))) k = ctx_Value ctx k"
  using assms
proof (induction order arbitrary: ctx ccs)
  case (Cons kv order)
  obtain k' v where kv: "kv = (k', v)" by (cases kv)
  obtain ctx' ccs' where s: "meta_step kv (ctx, ccs) = (ctx', ccs')" by fastforce
  have "ctx_Value ctx' k = ctx_Value ctx k" using s Cons.prems kv by (auto simp: WithValue_def ctx_Value_def split: if_splits prod.splits)
  with Cons.IH [of ctx' ccs'] Cons.prems s show ?case by simp
qed simp

lemma fold_meta_ccs:
  assumes "distinct (map fst order)"
  shows "snd (fold meta_step order (ctx, ccs)) = (case map_of order THRIFT_EXT_CALL_CLIENT_SERVICE of Some v \<Rightarrow> v | None \<Rightarrow> ccs)"
  using assms
proof (induction order arbitrary: ctx ccs)
  case (Cons kv order)
  obtain k v where kv: "kv = (k, v)" by (cases kv)
  have "map_of order k = None" using Cons.prems kv by (simp add: map_of_eq_None_iff)
  with Cons kv show ?case by (auto split: prod.splits)
qed simp

lemma fold_meta_value:
  assumes "distinct (map fst order)" "k \<noteq> THRIFT_EXT_CALL_CLIENT_SERVICE"
  shows "ctx_Value (fst (fold meta_step order (ctx, ccs))) k =
    (case map_of order k of
       None \<Rightarrow> ctx_Value ctx k
     | Some v \<Rightarrow> if k = THRIFT_EXT_DEPTH then (case Atoi v of (iv, err) \<Rightarrow> if err then ctx_Value ctx k else Some (Itoa iv)) else Some v)"
  using assms
proof (induction order arbitrary: ctx ccs)
  case (Cons kv order)
  obtain k' v where kv: "kv = (k', v)" by (cases kv)
  obtain ctx' ccs' where s: "meta_step kv (ctx, ccs) = (ctx', ccs')" by fastforce
  show ?case
  proof (cases "k' = k")
    case True
    have "k \<notin> fst ` set order" using Cons.prems kv True by simp
    then show ?thesis using fold_meta_other [of k order ctx' ccs'] s kv True Cons.prems(2)
      by (auto simp: WithValue_def ctx_Value_def split: if_splits prod.splits)
  next
    case False
    have "ctx_Value ctx' k = ctx_Value ctx k" using s False kv by (auto simp: WithValue_def ctx_Value_def split: if_splits prod.splits)
    moreover have "map_of (kv # order) k = map_of order k" using kv False by simp
    moreover have "fold meta_step (kv # order) (ctx, ccs) = fold meta_step order (ctx', ccs')" using s by simp
    moreover have "distinct (map fst order)" using Cons.prems(1) by simp
    ultimately show ?thesis using Cons.IH [OF _ Cons.prems(2), of ctx' ccs'] by (simp only:)
  qed
qed simp


lemma ReadMetaMap_ok:
  assumes "faithful p" "strings_ok order" "distinct (map fst order)"
  obtains ctx' where "ReadMetaMap p ctx (w_MapBegin p (int (length order)) @ concat (map (\<lambda>(k, v). w_String p k @ w_String p v) order) @ rest) =
      Inr (ctx', rest)"
    "\<And>k. k \<noteq> THRIFT_EXT_CALL_CLIENT_SERVICE \<Longrightarrow> ctx_Value ctx' k = (case meta_value order k of Some v \<Rightarrow> Some v | None \<Rightarrow> ctx_Value ctx k)"
proof -
  obtain c ccs where f: "fold meta_step order (WithValue ctx THRIFT_EXT_DEPTH ''0'', '''') = (c, ccs)" by fastforce
  let ?c = "if ccs \<noteq> '''' then WithValue c THRIFT_EXT_CLIENT_SERVICE ccs else c"
  have m: "r_MapBegin p (w_MapBegin p (int (length order)) @ r) = Inr (int (length order), r)" for r
    using assms(1,2) by (simp add: faithful_def strings_ok_def)
  have l: "metaMap_loop (length order) p (WithValue ctx THRIFT_EXT_DEPTH ''0'') ''''
      (concat (map (\<lambda>(k, v). w_String p k @ w_String p v) order) @ rest) = Inr (c, ccs, rest)"
    using metaMap_loop_ok [OF assms(1), of order] assms(2) f by (simp add: strings_ok_def)
  have ccs: "ccs = (case map_of order THRIFT_EXT_CALL_CLIENT_SERVICE of Some v \<Rightarrow> v | None \<Rightarrow> '''')"
    using fold_meta_ccs [OF assms(3), of "WithValue ctx THRIFT_EXT_DEPTH ''0''" "''''"] f by simp
  have c: "ctx_Value c k = (case map_of order k of
       None \<Rightarrow> ctx_Value (WithValue ctx THRIFT_EXT_DEPTH ''0'') k
     | Some v \<Rightarrow> if k = THRIFT_EXT_DEPTH then (case Atoi v of (iv, err) \<Rightarrow> if err then ctx_Value (WithValue ctx THRIFT_EXT_DEPTH ''0'') k else Some (Itoa iv)) else Some v)"
    if "k \<noteq> THRIFT_EXT_CALL_CLIENT_SERVICE" for k
    using fold_meta_value [OF assms(3) that, of "WithValue ctx THRIFT_EXT_DEPTH ''0''" "''''"] f by simp
  have "ReadMetaMap p ctx (w_MapBegin p (int (length order)) @ concat (map (\<lambda>(k, v). w_String p k @ w_String p v) order) @ rest) =
      Inr (?c, rest)"
    using m l by (simp add: ReadMetaMap_def)
  moreover have "ctx_Value ?c k = (case meta_value order k of Some v \<Rightarrow> Some v | None \<Rightarrow> ctx_Value ctx k)"
    if k: "k \<noteq> THRIFT_EXT_CALL_CLIENT_SERVICE" for k
    using c [OF k] k ccs by (auto simp: meta_value_def WithValue_def ctx_Value_def split: option.splits prod.splits)
  ultimately show thesis by (rule that)
qed

text \<open>
  C29: the request data of a client reaches the handler.  A message written by the extended client is
  recognised by the server, whatever the order the map was traversed in; the handler's context has
  every entry (the depth normalised, the calling service under its server-side name) on top of the server's own
  context, and the handler reads exactly the message that follows the header.
\<close>

theorem ext_message_roundtrip:
  assumes "faithful p" "strings_ok order" "distinct (map fst order)" "map_of order = ec_ReqExtData ec"
    "WriteMessageBegin p (Some ec) order name tid seqId (\<lambda>_. None) = Some (out, None)"
  shows "\<exists>ctx'. Process p ctx (out @ body) readErr newID = Some (Inr (ctx', w_MessageBegin p name tid seqId @ body)) \<and>
    (\<forall>k. k \<noteq> THRIFT_EXT_CALL_CLIENT_SERVICE \<longrightarrow>
       ctx_Value ctx' k = (case meta_value order k of Some v \<Rightarrow> Some v | None \<Rightarrow> ctx_Value ctx k)) \<and>
    (\<forall>k v. ec_ReqExtData ec k = Some v \<longrightarrow>
       k \<notin> {THRIFT_EXT_DEPTH, THRIFT_EXT_CALL_CLIENT_SERVICE, THRIFT_EXT_CLIENT_SERVICE} \<longrightarrow> ctx_Value ctx' k = Some v)"
proof -
  let ?strs = "concat (map (\<lambda>(k, v). w_String p k @ w_String p v) order)"
  have cc: "concat (concat (map (\<lambda>(k, v). [w_String p k, w_String p v]) order)) = ?strs"
    by (induction order) auto
  have out: "out = w_I32 p THRIFT_EXT_META_MAGIC @ w_I16 p THRIFT_EXT_META_VERSION @ w_MapBegin p (int (length order)) @
      ?strs @ w_MessageBegin p name tid seqId"
    using assms(5) cc by (simp add: WriteMessageBegin_def write_all_ok ext_header_def)
  obtain ctx' where c: "ReadMetaMap p ctx (w_MapBegin p (int (length order)) @ ?strs @ w_MessageBegin p name tid seqId @ body) =
      Inr (ctx', w_MessageBegin p name tid seqId @ body)"
    "\<And>k. k \<noteq> THRIFT_EXT_CALL_CLIENT_SERVICE \<Longrightarrow> ctx_Value ctx' k = (case meta_value order k of Some v \<Rightarrow> Some v | None \<Rightarrow> ctx_Value ctx k)"
    using ReadMetaMap_ok [OF assms(1-3)] by metis
  have i32: "length (w_I32 p THRIFT_EXT_META_MAGIC) = 4" "Uint32 (w_I32 p THRIFT_EXT_META_MAGIC) = THRIFT_EXT_META_MAGIC"
    and i16: "r_I16 p (w_I16 p THRIFT_EXT_META_VERSION @ r) = Inr (THRIFT_EXT_META_VERSION, r)" for r
    using assms(1) by (simp_all add: faithful_def)
  have "Process p ctx (out @ body) readErr newID = Some (Inr (ctx', w_MessageBegin p name tid seqId @ body))"
    using c(1) i32 i16 by (simp add: Process_def out ReadMetaVer_def)
  moreover have "ctx_Value ctx' k = Some v" if "ec_ReqExtData ec k = Some v"
      "k \<notin> {THRIFT_EXT_DEPTH, THRIFT_EXT_CALL_CLIENT_SERVICE, THRIFT_EXT_CLIENT_SERVICE}" for k v
    using c(2) [of k] that assms(4) by (simp add: meta_value_def)
  ultimately show ?thesis using c(2) by blast
qed

text \<open>A binary protocol: numbers in big-endian order, strings with their length in front.\<close>

primrec be :: "nat \<Rightarrow> nat \<Rightarrow> string" where
  "be 0 x = ''''"
| "be (Suc n) x = be n (x div 256) @ [char_of x]"

definition from_be :: "string \<Rightarrow> nat" where
  "from_be s = foldl (\<lambda>x c. x * 256 + of_char c) 0 s"

definition demo_proto :: tproto where
  "demo_proto =
     \<lparr>w_I32 = (\<lambda>w. be 4 (unat w)), w_I16 = (\<lambda>w. be 2 (unat w)), w_MapBegin = (\<lambda>n. be 4 (nat n)),
      w_String = (\<lambda>s. be 4 (length s) @ s), w_MessageBegin = (\<lambda>name t q. name),
      r_I16 = (\<lambda>s. if length s < 2 then Inl [TTransportException END_OF_FILE] else Inr (word_of_nat (from_be (take 2 s)), drop 2 s)),
      r_MapBegin = (\<lambda>s. if length s < 4 then Inl [TTransportException END_OF_FILE] else Inr (int (from_be (take 4 s)), drop 4 s)),
      r_String = (\<lambda>s. if length s < 4 then Inl [TTransportException END_OF_FILE]
                      else let n = from_be (take 4 s) in
                           if length s < 4 + n then Inl [TTransportException END_OF_FILE] else Inr (take n (drop 4 s), drop (4 + n) s))\<rparr>"


lemma be_rt [simp]: "length (be k n) = k" "from_be (be k n) = n mod 256 ^ k"
  by (induction k arbitrary: n)
    (simp_all add: from_be_def mod_mult2_eq mult.commute add.commute)

lemma Uint32_from_be: "Uint32 s = word_of_nat (from_be s)"
proof -
  have "foldl (\<lambda>w c. w * 256 + word_of_nat (of_char c)) (word_of_nat a) s =
      (word_of_nat (foldl (\<lambda>x c. x * 256 + of_char c) a s) :: 32 word)" for a
  proof (induction s arbitrary: a)
    case (Cons c s)
    show ?case using Cons.IH [of "a * 256 + of_char c"] by simp
  qed simp
  from this [of 0] show ?thesis by (simp add: Uint32_def from_be_def)
qed

lemma demo_proto_faithful: "faithful demo_proto"
proof -
  have w: "unat w < 65536" for w :: "16 word" using unsigned_less [of w] by simp
  have d: "unat w < 4294967296" for w :: "32 word" using unsigned_less [of w] by simp
  show ?thesis
    by (simp add: faithful_def demo_proto_def Uint32_from_be Let_def nat_less_iff w d mod_less)
qed

theorem ext_message_roundtrip_witness:
  "\<exists>out ctx'.
     WriteMessageBegin demo_proto (Some \<lparr>ec_Context = [], ec_ReqExtData = [''request_id'' \<mapsto> ''a'']\<rparr>) [(''request_id'', ''a'')] ''m'' 1 0
       (\<lambda>_. None) = Some (out, None) \<and>
     Process demo_proto [] (out @ ''x'') [] ''n'' = Some (Inr (ctx', ''mx'')) \<and>
     ctx_Value ctx' ''request_id'' = Some ''a'' \<and> ctx_Value ctx' ''trace_depth'' = Some ''0''"
proof -
  let ?ec = "\<lparr>ec_Context = [], ec_ReqExtData = [''request_id'' \<mapsto> ''a'']\<rparr>"
  obtain out where w: "WriteMessageBegin demo_proto (Some ?ec) [(''request_id'', ''a'')] ''m'' 1 0 (\<lambda>_. None) = Some (out, None)"
    by (simp add: WriteMessageBegin_def write_all_ok)
  have m: "w_MessageBegin demo_proto ''m'' 1 0 = ''m''" by (simp add: demo_proto_def)
  from ext_message_roundtrip [OF demo_proto_faithful _ _ _ w, of "[]" "''x''" "[]" "''n''"]
  obtain ctx' where c: "Process demo_proto [] (out @ ''x'') [] ''n'' = Some (Inr (ctx', ''mx''))"
    "\<And>k. k \<noteq> THRIFT_EXT_CALL_CLIENT_SERVICE \<Longrightarrow>
       ctx_Value ctx' k = (case meta_value [(''request_id'', ''a'')] k of Some v \<Rightarrow> Some v | None \<Rightarrow> ctx_Value [] k)"
    by (auto simp: strings_ok_def m)
  have "ctx_Value ctx' ''request_id'' = Some ''a''" "ctx_Value ctx' ''trace_depth'' = Some ''0''"
    using c(2) [of "''request_id''"] c(2) [of "''trace_depth''"]
    by (auto simp: meta_value_def THRIFT_EXT_DEPTH_def THRIFT_EXT_CALL_CLIENT_SERVICE_def THRIFT_EXT_CLIENT_SERVICE_def)
  with c(1) w show ?thesis by blast
qed

end
