(* ===== verification/Dlock.thy ===== *)
theory Dlock
  imports Go_Prelude
begin

text \<open>
  The distributed lock (\<^verbatim>\<open>cluster_dlock/cluster_dlock.go\<close>): a lease on a Redis key, identified by a random token.

  Redis is a service: the four commands the lock and its two scripts use are a parameter (\<open>redis\<close>), and what their
  documentation promises is the hypothesis \<open>redis_ok\<close> of the properties.  The scripts are part of the source and are
  translated command by command.  Any number of lock objects, each used by any number of goroutines, work on
  one store; keys may vanish at any moment (expiry), and the answer to a command may be lost before or after the
  command took effect.
\<close>

section \<open>The store\<close>

record 'r redis =
  rd_GET :: "'r \<Rightarrow> string \<Rightarrow> string option"
  rd_SETNX :: "'r \<Rightarrow> string \<Rightarrow> string \<Rightarrow> int \<Rightarrow> 'r \<times> bool"
  rd_DEL :: "'r \<Rightarrow> string \<Rightarrow> 'r \<times> int"
  rd_PEXPIRE :: "'r \<Rightarrow> string \<Rightarrow> int \<Rightarrow> 'r \<times> int"

definition redis_ok :: "'r redis \<Rightarrow> bool" where
  "redis_ok rd \<longleftrightarrow>
     (\<forall>r k v ttl. case rd_SETNX rd r k v ttl of (r', ok) \<Rightarrow>
        ok = (rd_GET rd r k = None) \<and> rd_GET rd r' = (if ok then (rd_GET rd r)(k \<mapsto> v) else rd_GET rd r)) \<and>
     (\<forall>r k. case rd_DEL rd r k of (r', n) \<Rightarrow>
        n = (if rd_GET rd r k = None then 0 else 1) \<and> rd_GET rd r' = (rd_GET rd r)(k := None)) \<and>
     (\<forall>r k ms. 0 < ms \<longrightarrow> (case rd_PEXPIRE rd r k ms of (r', n) \<Rightarrow>
        n = (if rd_GET rd r k = None then 0 else 1) \<and> rd_GET rd r' = rd_GET rd r))"

definition unlockScript :: "'r redis \<Rightarrow> string \<Rightarrow> string \<Rightarrow> 'r \<Rightarrow> 'r \<times> int" where
  "unlockScript rd key token r =
     (case rd_GET rd r key of
        None \<Rightarrow> (r, 0)
      | Some value \<Rightarrow> if value \<noteq> token then (r, - 1) else rd_DEL rd r key)"

definition extendScript :: "'r redis \<Rightarrow> string \<Rightarrow> string \<Rightarrow> int \<Rightarrow> 'r \<Rightarrow> 'r \<times> int" where
  "extendScript rd key token ms r =
     (if rd_GET rd r key = Some token then rd_PEXPIRE rd r key ms else (r, 0))"

text \<open>
  A command as the client sees it: the answer, or an error after which the command was or was not executed.
\<close>

datatype fault = NoFault | NotSent error | ReplyLost error

fun exec :: "('r \<Rightarrow> 'r \<times> 'a) \<Rightarrow> fault \<Rightarrow> 'r \<Rightarrow> 'r \<times> (error + 'a)" where
  "exec cmd NoFault r = (case cmd r of (r', a) \<Rightarrow> (r', Inr a))"
| "exec cmd (NotSent e) r = (r, Inl e)"
| "exec cmd (ReplyLost e) r = (fst (cmd r), Inl e)"

section \<open>The lock object\<close>

text \<open>Durations are nanoseconds.\<close>

record dlock =
  dl_Key :: string
  dl_Ltime :: int
  dl_acquiring :: bool
  dl_token :: string
  dl_ttl :: int
  dl_minRetryDelay :: int
  dl_maxRetryDelay :: int

definition ErrAlreadyLocked :: error where "ErrAlreadyLocked = [ErrorText ''dlock instance already holds a lock'']"
definition ErrNotLocked :: error where "ErrNotLocked = [ErrorText ''dlock instance does not hold a lock'']"
definition ErrLockLost :: error where "ErrLockLost = [ErrorText ''distributed lock ownership lost'']"

record dl_options =
  op_ttl :: int
  op_minRetryDelay :: int
  op_maxRetryDelay :: int

definition defaultOptions :: dl_options where
  "defaultOptions = \<lparr>op_ttl = 30000000000, op_minRetryDelay = 10000000, op_maxRetryDelay = 200000000\<rparr>"

definition WithTTL :: "int \<Rightarrow> dl_options \<Rightarrow> dl_options" where
  "WithTTL ttl opts = opts\<lparr>op_ttl := ttl\<rparr>"

definition WithRetryBackoff :: "int \<Rightarrow> int \<Rightarrow> dl_options \<Rightarrow> dl_options" where
  "WithRetryBackoff minDelay maxDelay opts = opts\<lparr>op_minRetryDelay := minDelay, op_maxRetryDelay := maxDelay\<rparr>"

text \<open>A nil option is skipped.\<close>

definition DlockNew :: "string \<Rightarrow> (dl_options \<Rightarrow> dl_options) option list \<Rightarrow> dlock" where
  "DlockNew lkey option =
     (let opts = fold (\<lambda>apply opts. case apply of Some f \<Rightarrow> f opts | None \<Rightarrow> opts) option defaultOptions in
      \<lparr>dl_Key = lkey, dl_Ltime = 0, dl_acquiring = False, dl_token = '''', dl_ttl = op_ttl opts,
       dl_minRetryDelay = op_minRetryDelay opts, dl_maxRetryDelay = op_maxRetryDelay opts\<rparr>)"

definition validate :: "dlock \<Rightarrow> error option" where
  "validate dl =
     (if dl_Key dl = '''' then Some [ErrorText ''distributed lock key must not be empty'']
      else if dl_ttl dl \<le> 0 then Some [ErrorText ''distributed lock TTL must be positive'']
      else if dl_ttl dl < 1000000 then Some [ErrorText ''distributed lock TTL must be at least one millisecond'']
      else if dl_minRetryDelay dl \<le> 0 then Some [ErrorText ''distributed lock minimum retry delay must be positive'']
      else if dl_maxRetryDelay dl < dl_minRetryDelay dl
        then Some [ErrorText ''distributed lock maximum retry delay must not be less than minimum retry delay'']
      else None)"

definition beginAcquire :: "dlock \<Rightarrow> dlock \<times> bool" where
  "beginAcquire dl = (if dl_acquiring dl \<or> dl_token dl \<noteq> '''' then (dl, False) else (dl\<lparr>dl_acquiring := True\<rparr>, True))"

definition cancelAcquire :: "dlock \<Rightarrow> dlock" where
  "cancelAcquire dl = dl\<lparr>dl_acquiring := False\<rparr>"

definition finishAcquire :: "dlock \<Rightarrow> string \<Rightarrow> int \<Rightarrow> dlock" where
  "finishAcquire dl token now = dl\<lparr>dl_acquiring := False, dl_token := token, dl_Ltime := now\<rparr>"

definition clearAcquired :: "dlock \<Rightarrow> dlock" where
  "clearAcquired dl = dl\<lparr>dl_token := '''', dl_Ltime := 0\<rparr>"

text \<open>\<^verbatim>\<open>hex.EncodeToString\<close> of the sixteen random bytes.\<close>

definition hex_digit :: "nat \<Rightarrow> char" where
  "hex_digit d = ''0123456789abcdef'' ! d"

definition EncodeToString :: "8 word list \<Rightarrow> string" where
  "EncodeToString bs = concat (map (\<lambda>b. [hex_digit (unat b div 16), hex_digit (unat b mod 16)]) bs)"

definition newToken :: "error + 8 word list \<Rightarrow> error + string" where
  "newToken random = (case random of Inl e \<Rightarrow> Inl e | Inr bs \<Rightarrow> Inr (EncodeToString bs))"

section \<open>The retry delay\<close>

text \<open>64-bit signed arithmetic: the wrapped result, and the truncating division by two.\<close>

definition wrap64 :: "int \<Rightarrow> int" where
  "wrap64 x = (x + 2 ^ 63) mod 2 ^ 64 - 2 ^ 63"

definition half64 :: "int \<Rightarrow> int" where
  "half64 x = (if 0 \<le> x then x div 2 else - ((- x) div 2))"

text \<open>\<^verbatim>\<open>mathrand.Int64N\<close> panics unless its bound is positive; \<open>seed\<close> is the random number it draws from.\<close>

definition Int64N :: "int \<Rightarrow> int \<Rightarrow> int go" where
  "Int64N n seed = (if n \<le> 0 then None else Some (seed mod n))"

definition jitter :: "int \<Rightarrow> int \<Rightarrow> int go" where
  "jitter backoff seed =
     (if backoff \<le> 1 then Some backoff
      else let half = half64 backoff in map_option (\<lambda>d. wrap64 (half + d)) (Int64N (wrap64 (backoff - half)) seed))"

definition nextBackoff :: "int \<Rightarrow> int \<Rightarrow> int" where
  "nextBackoff current maximum =
     (if current \<ge> maximum \<or> current > half64 maximum then maximum else wrap64 (current * 2))"

section \<open>The operations\<close>

definition quote :: "string \<Rightarrow> string" where
  "quote s = [CHR 0x22] @ s @ [CHR 0x22]"

definition Errorf :: "string \<Rightarrow> string \<Rightarrow> error \<Rightarrow> error" where
  "Errorf what key e = ErrorText (what @ '' distributed lock '' @ quote key) # e"

definition Milliseconds :: "int \<Rightarrow> int" where
  "Milliseconds d = d div 1000000"

definition Extend :: "'r redis \<Rightarrow> fault \<Rightarrow> 'r \<Rightarrow> dlock \<Rightarrow> 'r \<times> dlock \<times> error option" where
  "Extend rd fault r dl =
     (case validate dl of
        Some err \<Rightarrow> (r, dl, Some err)
      | None \<Rightarrow>
          if dl_token dl = '''' then (r, dl, Some ErrNotLocked)
          else (case exec (extendScript rd (dl_Key dl) (dl_token dl) (Milliseconds (dl_ttl dl))) fault r of
                  (r, Inl err) \<Rightarrow> (r, dl, Some (Errorf ''extend'' (dl_Key dl) err))
                | (r, Inr ret) \<Rightarrow> if ret \<noteq> 1 then (r, clearAcquired dl, Some ErrLockLost) else (r, dl, None)))"

definition Unlock :: "'r redis \<Rightarrow> fault \<Rightarrow> 'r \<Rightarrow> dlock \<Rightarrow> 'r \<times> dlock \<times> error option" where
  "Unlock rd fault r dl =
     (case validate dl of
        Some err \<Rightarrow> (r, dl, Some err)
      | None \<Rightarrow>
          if dl_token dl = '''' then (r, dl, Some ErrNotLocked)
          else (case exec (unlockScript rd (dl_Key dl) (dl_token dl)) fault r of
                  (r, Inl err) \<Rightarrow> (r, dl, Some (Errorf ''unlock'' (dl_Key dl) err))
                | (r, Inr ret) \<Rightarrow>
                    (r, clearAcquired dl,
                     if ret = 1 then None
                     else if ret = 0 \<or> ret = - 1 then Some ErrLockLost
                     else Some [ErrorText (''unlock distributed lock '' @ quote (dl_Key dl) @ '': unexpected script result'')])))"

text \<open>
  \<^verbatim>\<open>Lock\<close> and \<^verbatim>\<open>TryLock\<close> release the mutex of the object between their parts, so they are sequences of sections: the
  entry, the choice of the token, an attempt, the wait after a failed attempt, and the end (the deferred
  \<^verbatim>\<open>cancelAcquire\<close>, or \<^verbatim>\<open>finishAcquire\<close>).  A phase is the place where a goroutine is; the flag tells
  \<^verbatim>\<open>TryLock\<close> from \<^verbatim>\<open>Lock\<close>.
\<close>

datatype phase =
    Outside
  | Choosing bool nat
  | Trying bool nat string int
  | Waiting nat string int
  | Got nat string
  | Failing nat "error option"

definition Lock_enter :: "bool \<Rightarrow> nat \<Rightarrow> dlock \<Rightarrow> dlock \<times> (error + phase)" where
  "Lock_enter try i dl =
     (case validate dl of
        Some err \<Rightarrow> (dl, Inl err)
      | None \<Rightarrow> (case beginAcquire dl of
                   (dl, False) \<Rightarrow> (dl, Inl ErrAlreadyLocked)
                 | (dl, True) \<Rightarrow> (dl, Inr (Choosing try i))))"

definition Lock_token :: "bool \<Rightarrow> nat \<Rightarrow> dlock \<Rightarrow> error + 8 word list \<Rightarrow> phase" where
  "Lock_token try i dl random =
     (case newToken random of
        Inl err \<Rightarrow> Failing i (Some (ErrorText ''generate lock token'' # err))
      | Inr token \<Rightarrow> Trying try i token (dl_minRetryDelay dl))"

definition Lock_attempt :: "'r redis \<Rightarrow> fault \<Rightarrow> bool \<Rightarrow> nat \<Rightarrow> string \<Rightarrow> int \<Rightarrow> 'r \<Rightarrow> dlock \<Rightarrow> 'r \<times> phase" where
  "Lock_attempt rd fault try i token backoff r dl =
     (case exec (\<lambda>r. rd_SETNX rd r (dl_Key dl) token (dl_ttl dl)) fault r of
        (r, Inl err) \<Rightarrow> (r, Failing i (Some (Errorf (if try then ''try'' else ''acquire'') (dl_Key dl) err)))
      | (r, Inr ok) \<Rightarrow> (r, if ok then Got i token else if try then Failing i None else Waiting i token backoff))"

text \<open>\<^verbatim>\<open>waitForRetry\<close> ends with the timer, or with the error of the context.\<close>

definition Lock_waited :: "error option \<Rightarrow> nat \<Rightarrow> string \<Rightarrow> int \<Rightarrow> dlock \<Rightarrow> phase" where
  "Lock_waited ctxErr i token backoff dl =
     (case ctxErr of
        Some err \<Rightarrow> Failing i (Some err)
      | None \<Rightarrow> Trying False i token (nextBackoff backoff (dl_maxRetryDelay dl)))"


section \<open>Any number of users\<close>

text \<open>
  \<open>ds_issued\<close> records the tokens drawn so far.  \<open>ds_lapsed\<close> records the tokens whose lease ended other than by
  an answered \<^verbatim>\<open>Unlock\<close>: the key vanished, or the answer to the release was lost.
\<close>

record 'r dsys =
  ds_store :: 'r
  ds_lock :: "nat \<Rightarrow> dlock"
  ds_thr :: "nat \<Rightarrow> phase"
  ds_issued :: "string list"
  ds_lapsed :: "string set"

definition vanished :: "'r redis \<Rightarrow> 'r \<Rightarrow> 'r \<Rightarrow> string set" where
  "vanished rd r r' = {v. \<exists>k. rd_GET rd r k = Some v \<and> rd_GET rd r' k \<noteq> Some v}"

inductive dl_step :: "'r redis \<Rightarrow> 'r dsys \<Rightarrow> 'r dsys \<Rightarrow> bool" for rd where
  enter: "\<lbrakk>ds_thr s g = Outside; Lock_enter try i (ds_lock s i) = (dl, Inr p)\<rbrakk> \<Longrightarrow>
    dl_step rd s (s\<lparr>ds_lock := (ds_lock s)(i := dl), ds_thr := (ds_thr s)(g := p)\<rparr>)"
| token: "\<lbrakk>ds_thr s g = Choosing try i; length bs = 16\<rbrakk> \<Longrightarrow>
    dl_step rd s (s\<lparr>ds_thr := (ds_thr s)(g := Lock_token try i (ds_lock s i) (Inr bs)), ds_issued := EncodeToString bs # ds_issued s\<rparr>)"
| no_token: "ds_thr s g = Choosing try i \<Longrightarrow>
    dl_step rd s (s\<lparr>ds_thr := (ds_thr s)(g := Lock_token try i (ds_lock s i) (Inl e))\<rparr>)"
| attempt: "\<lbrakk>ds_thr s g = Trying try i tok b; Lock_attempt rd fault try i tok b (ds_store s) (ds_lock s i) = (r, p)\<rbrakk> \<Longrightarrow>
    dl_step rd s (s\<lparr>ds_store := r, ds_thr := (ds_thr s)(g := p)\<rparr>)"
| waited: "ds_thr s g = Waiting i tok b \<Longrightarrow>
    dl_step rd s (s\<lparr>ds_thr := (ds_thr s)(g := Lock_waited ctxErr i tok b (ds_lock s i))\<rparr>)"
| finish: "ds_thr s g = Got i tok \<Longrightarrow>
    dl_step rd s (s\<lparr>ds_lock := (ds_lock s)(i := finishAcquire (ds_lock s i) tok now), ds_thr := (ds_thr s)(g := Outside)\<rparr>)"
| cancel: "ds_thr s g = Failing i e \<Longrightarrow>
    dl_step rd s (s\<lparr>ds_lock := (ds_lock s)(i := cancelAcquire (ds_lock s i)), ds_thr := (ds_thr s)(g := Outside)\<rparr>)"
| extend: "Extend rd fault (ds_store s) (ds_lock s i) = (r, dl, err) \<Longrightarrow>
    dl_step rd s (s\<lparr>ds_store := r, ds_lock := (ds_lock s)(i := dl)\<rparr>)"
| unlock: "Unlock rd fault (ds_store s) (ds_lock s i) = (r, dl, err) \<Longrightarrow>
    dl_step rd s (s\<lparr>ds_store := r, ds_lock := (ds_lock s)(i := dl),
      ds_lapsed := ds_lapsed s \<union> (if fault = NoFault then {} else vanished rd (ds_store s) r)\<rparr>)"
| expire: "\<forall>k. rd_GET rd r k \<in> {rd_GET rd (ds_store s) k, None} \<Longrightarrow>
    dl_step rd s (s\<lparr>ds_store := r, ds_lapsed := ds_lapsed s \<union> vanished rd (ds_store s) r\<rparr>)"

text \<open>The lock objects start as \<^verbatim>\<open>DlockNew\<close> makes them, with 64-bit durations, on a store whose keys others may already hold.\<close>

inductive dl_reachable :: "'r redis \<Rightarrow> 'r dsys \<Rightarrow> bool" for rd where
  init: "\<forall>i. (\<exists>key opts. locks i = DlockNew key opts) \<and> dl_maxRetryDelay (locks i) < 2 ^ 63 \<Longrightarrow>
    dl_reachable rd \<lparr>ds_store = r, ds_lock = locks, ds_thr = (\<lambda>_. Outside), ds_issued = [], ds_lapsed = {}\<rparr>"
| step: "\<lbrakk>dl_reachable rd s; dl_step rd s s'\<rbrakk> \<Longrightarrow> dl_reachable rd s'"

fun phase_lock :: "phase \<Rightarrow> nat option" where
  "phase_lock Outside = None"
| "phase_lock (Choosing try i) = Some i"
| "phase_lock (Trying try i tok b) = Some i"
| "phase_lock (Waiting i tok b) = Some i"
| "phase_lock (Got i tok) = Some i"
| "phase_lock (Failing i e) = Some i"

fun phase_token :: "phase \<Rightarrow> string option" where
  "phase_token (Trying try i tok b) = Some tok"
| "phase_token (Waiting i tok b) = Some tok"
| "phase_token (Got i tok) = Some tok"
| "phase_token _ = None"

fun phase_backoff :: "phase \<Rightarrow> int option" where
  "phase_backoff (Trying try i tok b) = Some b"
| "phase_backoff (Waiting i tok b) = Some b"
| "phase_backoff _ = None"

text \<open>
  A lock object holds a token from the successful attempt on: \<^verbatim>\<open>Lock\<close> has got it, or has returned and the token is in the
  object.
\<close>

definition holds :: "'r dsys \<Rightarrow> nat \<Rightarrow> string \<Rightarrow> bool" where
  "holds s i tok \<longleftrightarrow> tok \<noteq> '''' \<and> (dl_token (ds_lock s i) = tok \<or> (\<exists>g. ds_thr s g = Got i tok))"

definition uses_token :: "'r dsys \<Rightarrow> nat \<Rightarrow> string \<Rightarrow> bool" where
  "uses_token s i tok \<longleftrightarrow> tok \<noteq> '''' \<and>
     (dl_token (ds_lock s i) = tok \<or> (\<exists>g. phase_lock (ds_thr s g) = Some i \<and> phase_token (ds_thr s g) = Some tok))"

text \<open>One goroutine at a time acquires, and only for an object without a token.\<close>

definition acq_inv :: "'r dsys \<Rightarrow> bool" where
  "acq_inv s \<longleftrightarrow>
     (\<forall>g i. phase_lock (ds_thr s g) = Some i \<longrightarrow> dl_acquiring (ds_lock s i) \<and> dl_token (ds_lock s i) = '''') \<and>
     (\<forall>g h i. phase_lock (ds_thr s g) = Some i \<and> phase_lock (ds_thr s h) = Some i \<longrightarrow> g = h)"

definition tok_inv :: "'r dsys \<Rightarrow> bool" where
  "tok_inv s \<longleftrightarrow>
     (\<forall>i tok. uses_token s i tok \<longrightarrow> tok \<in> set (ds_issued s)) \<and>
     (\<forall>i j tok. uses_token s i tok \<and> uses_token s j tok \<longrightarrow> i = j) \<and>
     (\<forall>g. phase_token (ds_thr s g) \<noteq> Some '''')"

definition lease_inv :: "'r redis \<Rightarrow> 'r dsys \<Rightarrow> bool" where
  "lease_inv rd s \<longleftrightarrow>
     (\<forall>i tok. holds s i tok \<longrightarrow> rd_GET rd (ds_store s) (dl_Key (ds_lock s i)) = Some tok \<or> tok \<in> ds_lapsed s)"

definition delay_inv :: "'r dsys \<Rightarrow> bool" where
  "delay_inv s \<longleftrightarrow> (\<forall>i. dl_maxRetryDelay (ds_lock s i) < 2 ^ 63) \<and>
     (\<forall>g i b. phase_lock (ds_thr s g) = Some i \<longrightarrow> validate (ds_lock s i) = None \<and>
        (phase_backoff (ds_thr s g) = Some b \<longrightarrow> dl_minRetryDelay (ds_lock s i) \<le> b \<and> b \<le> dl_maxRetryDelay (ds_lock s i)))"


subsection \<open>What each section does\<close>

lemma conf_simps [simp]:
  "dl_Key (clearAcquired dl) = dl_Key dl" "dl_Key (cancelAcquire dl) = dl_Key dl" "dl_Key (finishAcquire dl tok now) = dl_Key dl"
  "dl_maxRetryDelay (clearAcquired dl) = dl_maxRetryDelay dl" "dl_maxRetryDelay (cancelAcquire dl) = dl_maxRetryDelay dl"
  "dl_maxRetryDelay (finishAcquire dl tok now) = dl_maxRetryDelay dl"
  "dl_minRetryDelay (clearAcquired dl) = dl_minRetryDelay dl" "dl_minRetryDelay (cancelAcquire dl) = dl_minRetryDelay dl"
  "dl_minRetryDelay (finishAcquire dl tok now) = dl_minRetryDelay dl"
  "validate (clearAcquired dl) = validate dl" "validate (cancelAcquire dl) = validate dl"
  "validate (finishAcquire dl tok now) = validate dl" "validate (dl\<lparr>dl_acquiring := a\<rparr>) = validate dl"
  "dl_token (clearAcquired dl) = ''''" "dl_token (cancelAcquire dl) = dl_token dl" "dl_token (finishAcquire dl tok now) = tok"
  "dl_acquiring (clearAcquired dl) = dl_acquiring dl" "\<not> dl_acquiring (cancelAcquire dl)" "\<not> dl_acquiring (finishAcquire dl tok now)"
  by (simp_all add: clearAcquired_def cancelAcquire_def finishAcquire_def validate_def)

lemma Lock_enter_eq:
  assumes "Lock_enter try i dl = (dl', Inr p)"
  shows "validate dl = None" "\<not> dl_acquiring dl" "dl_token dl = ''''" "dl' = dl\<lparr>dl_acquiring := True\<rparr>" "p = Choosing try i"
  using assms by (auto simp: Lock_enter_def beginAcquire_def split: option.splits if_splits)

lemma redis_SETNX:
  assumes "redis_ok rd" "rd_SETNX rd r k v ttl = (r', ok)"
  shows "ok = (rd_GET rd r k = None)" "rd_GET rd r' = (if ok then (rd_GET rd r)(k \<mapsto> v) else rd_GET rd r)"
  using assms(1) assms(2) [symmetric] unfolding redis_ok_def by (smt (verit) case_prod_conv)+

lemma redis_DEL:
  assumes "redis_ok rd" "rd_DEL rd r k = (r', n)"
  shows "n = (if rd_GET rd r k = None then 0 else 1)" "rd_GET rd r' = (rd_GET rd r)(k := None)"
  using assms(1) assms(2) [symmetric] unfolding redis_ok_def by (smt (verit) case_prod_conv)+

lemma redis_PEXPIRE:
  assumes "redis_ok rd" "0 < ms" "rd_PEXPIRE rd r k ms = (r', n)"
  shows "n = (if rd_GET rd r k = None then 0 else 1)" "rd_GET rd r' = rd_GET rd r"
  using assms(1,2) assms(3) [symmetric] unfolding redis_ok_def by (smt (verit) case_prod_conv)+

lemma exec_fst: "fst (exec cmd fault r) = (case fault of NotSent e \<Rightarrow> r | _ \<Rightarrow> fst (cmd r))"
  by (cases fault) (auto split: prod.splits)

lemma exec_Inr: "exec cmd fault r = (r', Inr a) \<longleftrightarrow> fault = NoFault \<and> cmd r = (r', a)"
  by (cases fault) (auto split: prod.splits)

lemma extendScript_ok:
  assumes "redis_ok rd" "0 < ms" "extendScript rd key tok ms r = (r', n)"
  shows "rd_GET rd r' = rd_GET rd r" "n = (if rd_GET rd r key = Some tok then 1 else 0)"
proof -
  have "rd_GET rd r' = rd_GET rd r \<and> n = (if rd_GET rd r key = Some tok then 1 else 0)"
  proof (cases "rd_GET rd r key = Some tok")
    case True
    then have "rd_PEXPIRE rd r key ms = (r', n)" using assms(3) by (simp add: extendScript_def)
    from redis_PEXPIRE [OF assms(1,2) this] True show ?thesis by simp
  qed (use assms(3) in \<open>simp add: extendScript_def\<close>)
  then show "rd_GET rd r' = rd_GET rd r" "n = (if rd_GET rd r key = Some tok then 1 else 0)" by simp_all
qed

lemma unlockScript_ok:
  assumes "redis_ok rd" "unlockScript rd key tok r = (r', n)"
  shows "rd_GET rd r' = (if rd_GET rd r key = Some tok then (rd_GET rd r)(key := None) else rd_GET rd r)"
    "n = (case rd_GET rd r key of None \<Rightarrow> 0 | Some v \<Rightarrow> if v = tok then 1 else - 1)"
  using assms(2) redis_DEL [OF assms(1), of r key r' n] by (auto simp: unlockScript_def split: option.splits if_splits)

lemma Milliseconds_pos: "validate dl = None \<Longrightarrow> 0 < Milliseconds (dl_ttl dl)"
  by (auto simp: validate_def Milliseconds_def split: if_splits)

lemma Extend_ok:
  assumes "redis_ok rd" "Extend rd fault r dl = (r', dl', err)"
  shows "rd_GET rd r' = rd_GET rd r" "dl' = dl \<or> dl' = clearAcquired dl"
proof -
  show "rd_GET rd r' = rd_GET rd r"
  proof (cases "validate dl = None \<and> dl_token dl \<noteq> ''''")
    case True
    obtain a b where c: "extendScript rd (dl_Key dl) (dl_token dl) (Milliseconds (dl_ttl dl)) r = (a, b)" by fastforce
    have "r' = fst (exec (extendScript rd (dl_Key dl) (dl_token dl) (Milliseconds (dl_ttl dl))) fault r)"
      using assms(2) True by (auto simp: Extend_def split: prod.splits sum.splits if_splits)
    then show ?thesis using extendScript_ok(1) [OF assms(1) _ c] Milliseconds_pos True c by (auto simp: exec_fst split: fault.splits)
  next
    case False
    then show ?thesis using assms(2) by (auto simp: Extend_def split: option.splits if_splits)
  qed
  show "dl' = dl \<or> dl' = clearAcquired dl"
    using assms(2) by (auto simp: Extend_def split: option.splits if_splits prod.splits sum.splits)
qed

lemma Unlock_ok:
  assumes "redis_ok rd" "Unlock rd fault r dl = (r', dl', err)"
  shows "dl' = dl \<or> dl' = clearAcquired dl"
    "rd_GET rd r' = rd_GET rd r \<or>
     dl_token dl \<noteq> '''' \<and> rd_GET rd r (dl_Key dl) = Some (dl_token dl) \<and> rd_GET rd r' = (rd_GET rd r)(dl_Key dl := None) \<and>
     (fault = NoFault \<longrightarrow> dl' = clearAcquired dl)"
proof -
  show "dl' = dl \<or> dl' = clearAcquired dl"
    using assms(2) by (auto simp: Unlock_def split: option.splits if_splits prod.splits sum.splits)
  show "rd_GET rd r' = rd_GET rd r \<or>
     dl_token dl \<noteq> '''' \<and> rd_GET rd r (dl_Key dl) = Some (dl_token dl) \<and> rd_GET rd r' = (rd_GET rd r)(dl_Key dl := None) \<and>
     (fault = NoFault \<longrightarrow> dl' = clearAcquired dl)"
  proof (cases "validate dl = None \<and> dl_token dl \<noteq> ''''")
    case True
    obtain a b where c: "unlockScript rd (dl_Key dl) (dl_token dl) r = (a, b)" by fastforce
    have "r' = fst (exec (unlockScript rd (dl_Key dl) (dl_token dl)) fault r)" "fault = NoFault \<longrightarrow> dl' = clearAcquired dl"
      using assms(2) True by (auto simp: Unlock_def split: prod.splits sum.splits)
    then show ?thesis using unlockScript_ok(1) [OF assms(1) c] True c by (auto simp: exec_fst split: fault.splits)
  next
    case False
    then show ?thesis using assms(2) by (auto simp: Unlock_def split: option.splits if_splits)
  qed
qed

lemma Lock_attempt_ok:
  assumes "redis_ok rd" "Lock_attempt rd fault try i tok b r dl = (r', p)"
  shows "rd_GET rd r' = rd_GET rd r \<or> rd_GET rd r (dl_Key dl) = None \<and> rd_GET rd r' = (rd_GET rd r)(dl_Key dl \<mapsto> tok)"
    "p = Got i tok \<and> rd_GET rd r' (dl_Key dl) = Some tok \<or> (\<exists>e. p = Failing i e) \<or> p = Waiting i tok b"
proof -
  obtain a ok where c: "rd_SETNX rd r (dl_Key dl) tok (dl_ttl dl) = (a, ok)" by fastforce
  have r': "r' = fst (exec (\<lambda>r. rd_SETNX rd r (dl_Key dl) tok (dl_ttl dl)) fault r)"
    using assms(2) by (auto simp: Lock_attempt_def split: prod.splits sum.splits)
  show "rd_GET rd r' = rd_GET rd r \<or> rd_GET rd r (dl_Key dl) = None \<and> rd_GET rd r' = (rd_GET rd r)(dl_Key dl \<mapsto> tok)"
    using redis_SETNX [OF assms(1) c] c r' by (auto simp: exec_fst split: fault.splits if_splits)
  show "p = Got i tok \<and> rd_GET rd r' (dl_Key dl) = Some tok \<or> (\<exists>e. p = Failing i e) \<or> p = Waiting i tok b"
    using assms(2) redis_SETNX [OF assms(1)]
    by (auto simp: Lock_attempt_def exec_Inr split: prod.splits sum.splits if_splits)
qed


subsection \<open>The invariants\<close>

lemma phase_after_simps [simp]:
  "phase_lock (Lock_token try i dl random) = Some i"
  "phase_lock (Lock_waited ctxErr i tok b dl) = Some i"
  "phase_token (Lock_token try i dl (Inr bs)) = Some (EncodeToString bs)"
  "phase_token (Lock_token try i dl (Inl e)) = None"
  "phase_token (Lock_waited ctxErr i tok b dl) = (if ctxErr = None then Some tok else None)"
  by (auto simp: Lock_token_def newToken_def Lock_waited_def split: option.splits sum.splits)

lemma attempt_phase:
  assumes "Lock_attempt rd fault try i tok b r dl = (r', p)"
  shows "phase_lock p = Some i" "phase_token p = Some tok \<or> phase_token p = None" "phase_backoff p = Some b \<or> phase_backoff p = None"
  using assms by (auto simp: Lock_attempt_def split: prod.splits sum.splits if_splits)

lemma acq_invD:
  assumes "acq_inv s" "phase_lock (ds_thr s g) = Some i"
  shows "dl_acquiring (ds_lock s i)" "dl_token (ds_lock s i) = ''''" "phase_lock (ds_thr s h) = Some i \<Longrightarrow> h = g"
  using assms by (auto simp: acq_inv_def)

lemma acq_inv_cong:
  assumes "acq_inv s" "ds_lock s' = ds_lock s" "\<And>h. phase_lock (ds_thr s' h) = phase_lock (ds_thr s h)"
  shows "acq_inv s'"
  using assms(1) unfolding acq_inv_def assms(2,3) .

lemma step_acq:
  assumes "dl_step rd s s'" "redis_ok rd" "acq_inv s"
  shows "acq_inv s'"
  using assms(1)
proof cases
  case (enter g tr i dl p)
  have "phase_lock (ds_thr s h) \<noteq> Some i" for h
    using acq_invD(1) [OF assms(3)] Lock_enter_eq(2) [OF enter(3)] by blast
  with assms(3) Lock_enter_eq [OF enter(3)] show ?thesis unfolding enter(1) acq_inv_def by auto
next
  case (token g tr i bs)
  then show ?thesis by (intro acq_inv_cong [OF assms(3)]) auto
next
  case (no_token g tr i e)
  then show ?thesis by (intro acq_inv_cong [OF assms(3)]) auto
next
  case (attempt g tr i tok b fault r p)
  then show ?thesis using attempt_phase(1) [OF attempt(3)] by (intro acq_inv_cong [OF assms(3)]) auto
next
  case (waited g i tok b ctxErr)
  then show ?thesis by (intro acq_inv_cong [OF assms(3)]) auto
next
  case (finish g i tok now)
  then have "phase_lock (ds_thr s h) = Some i \<Longrightarrow> h = g" for h using acq_invD(3) [OF assms(3), of g i] by simp
  with finish assms(3) show ?thesis unfolding acq_inv_def by auto
next
  case (cancel g i e)
  then have "phase_lock (ds_thr s h) = Some i \<Longrightarrow> h = g" for h using acq_invD(3) [OF assms(3), of g i] by simp
  with cancel assms(3) show ?thesis unfolding acq_inv_def by auto
next
  case (extend fault i r dl err)
  have "dl = ds_lock s i \<or> dl = clearAcquired (ds_lock s i)" using Extend_ok(2) [OF assms(2) extend(2)] .
  with extend assms(3) show ?thesis unfolding acq_inv_def by auto
next
  case (unlock fault i r dl err)
  have "dl = ds_lock s i \<or> dl = clearAcquired (ds_lock s i)" using Unlock_ok(1) [OF assms(2) unlock(2)] .
  with unlock assms(3) show ?thesis unfolding acq_inv_def by auto
next
  case (expire r)
  with assms(3) show ?thesis unfolding acq_inv_def by simp
qed

text \<open>A step that draws no token lets every object use only tokens it used before.\<close>

lemma tok_inv_sub:
  assumes "tok_inv s" "\<And>i tok. uses_token s' i tok \<Longrightarrow> uses_token s i tok" "ds_issued s' = ds_issued s"
    "\<And>g. phase_token (ds_thr s' g) \<noteq> Some ''''"
  shows "tok_inv s'"
  using assms unfolding tok_inv_def by metis

lemma EncodeToString_nonempty: "length bs = 16 \<Longrightarrow> EncodeToString bs \<noteq> ''''"
  by (cases bs) (auto simp: EncodeToString_def)

lemma step_tok:
  assumes "dl_step rd s s'" "redis_ok rd" "acq_inv s" "tok_inv s" "distinct (ds_issued s')"
  shows "tok_inv s'"
  using assms(1)
proof cases
  case (enter g tr i dl p)
  show ?thesis
    by (rule tok_inv_sub [OF assms(4)]) (use enter assms(4) Lock_enter_eq [OF enter(3)] in \<open>auto simp: uses_token_def tok_inv_def split: if_splits\<close>)
next
  case (token g tr i bs)
  let ?t = "EncodeToString bs"
  have fresh: "?t \<notin> set (ds_issued s)" using assms(5) token by simp
  have old: "\<not> uses_token s j ?t" for j using assms(4) fresh unfolding tok_inv_def by blast
  have u: "uses_token s j tok \<or> j = i \<and> tok = ?t" if "uses_token s' j tok" for j tok
    using that token by (auto simp: uses_token_def split: if_splits)
  have "phase_token (ds_thr s' h) \<noteq> Some ''''" for h
    using token assms(4) EncodeToString_nonempty [OF token(3)] by (auto simp: tok_inv_def)
  moreover have "ds_issued s' = ?t # ds_issued s" using token by simp
  moreover have "j = k" if "uses_token s' j tok" "uses_token s' k tok" for j k tok
    using u [OF that(1)] u [OF that(2)] old assms(4) unfolding tok_inv_def by blast
  moreover have "tok \<in> set (ds_issued s')" if "uses_token s' j tok" for j tok
    using u [OF that] assms(4) token unfolding tok_inv_def by auto
  ultimately show ?thesis unfolding tok_inv_def by blast
next
  case (no_token g tr i e)
  show ?thesis
    by (rule tok_inv_sub [OF assms(4)]) (use no_token assms(4) in \<open>auto simp: uses_token_def tok_inv_def split: if_splits\<close>)
next
  case (attempt g tr i tok b fault r p)
  have g: "phase_lock (ds_thr s g) = Some i" "phase_token (ds_thr s g) = Some tok" using attempt(2) by simp_all
  show ?thesis
    by (rule tok_inv_sub [OF assms(4)])
      (use attempt(1) g assms(4) attempt_phase [OF attempt(3)] in \<open>auto simp: uses_token_def tok_inv_def split: if_splits\<close>)
next
  case (waited g i tok b ctxErr)
  have g: "phase_lock (ds_thr s g) = Some i" "phase_token (ds_thr s g) = Some tok" using waited(2) by simp_all
  show ?thesis
    by (rule tok_inv_sub [OF assms(4)]) (use waited(1) g assms(4) in \<open>auto simp: uses_token_def tok_inv_def split: if_splits\<close>)
next
  case (finish g i tok now)
  have g: "phase_lock (ds_thr s g) = Some i" "phase_token (ds_thr s g) = Some tok" using finish(2) by simp_all
  show ?thesis
    by (rule tok_inv_sub [OF assms(4)]) (use finish(1) g assms(4) in \<open>auto simp: uses_token_def tok_inv_def split: if_splits\<close>)
next
  case (cancel g i e)
  show ?thesis
    by (rule tok_inv_sub [OF assms(4)]) (use cancel assms(4) in \<open>auto simp: uses_token_def tok_inv_def split: if_splits\<close>)
next
  case (extend fault i r dl err)
  have "dl = ds_lock s i \<or> dl = clearAcquired (ds_lock s i)" using Extend_ok(2) [OF assms(2) extend(2)] .
  then show ?thesis
    by (intro tok_inv_sub [OF assms(4)]) (use extend assms(4) in \<open>auto simp: uses_token_def tok_inv_def split: if_splits\<close>)
next
  case (unlock fault i r dl err)
  have "dl = ds_lock s i \<or> dl = clearAcquired (ds_lock s i)" using Unlock_ok(1) [OF assms(2) unlock(2)] .
  then show ?thesis
    by (intro tok_inv_sub [OF assms(4)]) (use unlock assms(4) in \<open>auto simp: uses_token_def tok_inv_def split: if_splits\<close>)
next
  case (expire r)
  show ?thesis
    by (rule tok_inv_sub [OF assms(4)]) (use expire assms(4) in \<open>auto simp: uses_token_def tok_inv_def\<close>)
qed


lemma holds_uses: "holds s i tok \<Longrightarrow> uses_token s i tok"
  unfolding holds_def uses_token_def by (metis phase_lock.simps(5) phase_token.simps(3))

lemma lease_sub:
  assumes "lease_inv rd s" "\<And>i tok. holds s' i tok \<Longrightarrow> holds s i tok" "\<And>i. dl_Key (ds_lock s' i) = dl_Key (ds_lock s i)"
    "ds_lapsed s \<subseteq> ds_lapsed s'"
    "\<And>i tok. \<lbrakk>holds s' i tok; rd_GET rd (ds_store s) (dl_Key (ds_lock s i)) = Some tok\<rbrakk> \<Longrightarrow>
       rd_GET rd (ds_store s') (dl_Key (ds_lock s i)) = Some tok \<or> tok \<in> ds_lapsed s'"
  shows "lease_inv rd s'"
  using assms unfolding lease_inv_def by (metis subsetD)

lemma step_lease:
  assumes "dl_step rd s s'" "redis_ok rd" "acq_inv s" "tok_inv s" "lease_inv rd s"
  shows "lease_inv rd s'"
  using assms(1)
proof cases
  case (enter g tr i dl p)
  show ?thesis
    by (rule lease_sub [OF assms(5)]) (use enter(1) Lock_enter_eq [OF enter(3)] in \<open>auto simp: holds_def split: if_splits\<close>)
next
  case (token g tr i bs)
  show ?thesis
    by (rule lease_sub [OF assms(5)])
      (use token(1) in \<open>auto simp: holds_def Lock_token_def newToken_def split: if_splits\<close>)
next
  case (no_token g tr i e)
  show ?thesis
    by (rule lease_sub [OF assms(5)])
      (use no_token(1) in \<open>auto simp: holds_def Lock_token_def newToken_def split: if_splits\<close>)
next
  case (attempt g tr i tok b fault r p)
  note a = Lock_attempt_ok [OF assms(2) attempt(3)]
  have keep: "rd_GET rd r k = Some v" if "rd_GET rd (ds_store s) k = Some v" for k v using a(1) that by auto
  have "rd_GET rd r (dl_Key (ds_lock s j)) = Some t \<or> t \<in> ds_lapsed s" if h: "holds s' j t" for j t
  proof (cases "holds s j t")
    case True
    then show ?thesis using assms(5) keep unfolding lease_inv_def by blast
  next
    case False
    then have "p = Got j t" using h attempt(1) by (auto simp: holds_def split: if_splits)
    then show ?thesis using a(2) by auto
  qed
  then show ?thesis using attempt(1) by (simp add: lease_inv_def)
next
  case (waited g i tok b ctxErr)
  show ?thesis
    by (rule lease_sub [OF assms(5)])
      (use waited(1) in \<open>auto simp: holds_def Lock_waited_def split: if_splits option.splits\<close>)
next
  case (finish g i tok now)
  have "\<exists>g. ds_thr s g = Got i tok" using finish(2) by blast
  then show ?thesis
    by (intro lease_sub [OF assms(5)]) (use finish(1) in \<open>auto simp: holds_def split: if_splits\<close>)
next
  case (cancel g i e)
  show ?thesis
    by (rule lease_sub [OF assms(5)]) (use cancel(1) in \<open>auto simp: holds_def split: if_splits\<close>)
next
  case (extend fault i r dl err)
  note x = Extend_ok [OF assms(2) extend(2)]
  show ?thesis
    by (rule lease_sub [OF assms(5)]) (use extend(1) x in \<open>auto simp: holds_def split: if_splits\<close>)
next
  case (unlock fault i r dl err)
  note u = Unlock_ok [OF assms(2) unlock(2)]
  have sub: "holds s j t" if "holds s' j t" for j t using that unlock(1) u(1) by (auto simp: holds_def split: if_splits)
  have "rd_GET rd r (dl_Key (ds_lock s j)) = Some t \<or> t \<in> ds_lapsed s'"
    if h: "holds s' j t" and get: "rd_GET rd (ds_store s) (dl_Key (ds_lock s j)) = Some t" for j t
  proof (rule ccontr)
    assume no: "\<not> ?thesis"
    with get have del: "dl_token (ds_lock s i) \<noteq> ''''" "rd_GET rd (ds_store s) (dl_Key (ds_lock s i)) = Some (dl_token (ds_lock s i))"
      "rd_GET rd r = (rd_GET rd (ds_store s))(dl_Key (ds_lock s i) := None)" and nf: "fault = NoFault \<longrightarrow> dl = clearAcquired (ds_lock s i)"
      using u(2) by auto
    have "t \<in> vanished rd (ds_store s) r" using get no by (auto simp: vanished_def)
    with no unlock(1) have c: "dl = clearAcquired (ds_lock s i)" using nf by (auto split: if_splits)
    have t: "t = dl_token (ds_lock s i)" using get no del(2,3) by (auto split: if_splits)
    have "uses_token s i t" using del(1) t by (simp add: uses_token_def)
    then have ji: "j = i" using holds_uses [OF sub [OF h]] assms(4) unfolding tok_inv_def by blast
    have "ds_thr s g \<noteq> Got i t" for g using acq_invD(2) [OF assms(3), of g i] del(1) by auto
    with h c t ji unlock(1) del(1) show False by (auto simp: holds_def)
  qed
  then show ?thesis
    by (intro lease_sub [OF assms(5)]) (use unlock(1) sub u(1) in auto)
next
  case (expire r)
  show ?thesis
    by (rule lease_sub [OF assms(5)]) (use expire in \<open>auto simp: holds_def vanished_def\<close>)
qed

lemma half64_double: "0 \<le> x \<Longrightarrow> y \<le> half64 x \<Longrightarrow> 2 * y \<le> x"
  by (simp add: half64_def)

lemma wrap64_id: "- (2 ^ 63) \<le> x \<Longrightarrow> x < 2 ^ 63 \<Longrightarrow> wrap64 x = x"
  by (simp add: wrap64_def)

lemma nextBackoff_bounds:
  assumes "0 < b" "b \<le> m" "m < 2 ^ 63"
  shows "b \<le> nextBackoff b m" "nextBackoff b m \<le> m"
  using assms half64_double [of m b] by (auto simp: nextBackoff_def wrap64_id not_less)

lemma jitter_bounds:
  assumes "0 < b" "b < 2 ^ 63"
  obtains d where "jitter b seed = Some d" "b div 2 \<le> d" "0 < d" "d \<le> b"
proof (cases "b = 1")
  case True
  then show ?thesis using that [of 1] by (simp add: jitter_def)
next
  case False
  let ?h = "b div 2" and ?d = "seed mod (b - b div 2)"
  have d: "0 \<le> ?d" "?d < b - ?h" using assms(1) by simp_all
  have "0 \<le> ?h" "?h < b" using assms(1) by simp_all
  then have w: "wrap64 (?h + ?d) = ?h + ?d" "wrap64 (b - ?h) = b - ?h"
    by (intro wrap64_id; use d assms(2) in linarith)+
  have "jitter b seed = Some (?h + ?d)"
    using assms False \<open>?h < b\<close> w by (simp add: jitter_def half64_def Int64N_def Let_def)
  moreover have "0 < ?h" using assms(1) False by (simp add: pos_imp_zdiv_pos_iff)
  ultimately show ?thesis using that [of "?h + ?d"] d by simp
qed


lemma phase_backoff_after:
  "phase_backoff (Lock_token tr i dl random) = Some b \<Longrightarrow> b = dl_minRetryDelay dl"
  "phase_backoff (Lock_waited ctxErr i tok c dl) = Some b \<Longrightarrow> b = nextBackoff c (dl_maxRetryDelay dl)"
  by (auto simp: Lock_token_def Lock_waited_def split: sum.splits option.splits)

lemma validate_delays: "validate dl = None \<Longrightarrow> 0 < dl_minRetryDelay dl \<and> dl_minRetryDelay dl \<le> dl_maxRetryDelay dl"
  by (auto simp: validate_def split: if_splits)

lemma delay_sub:
  assumes "delay_inv s" "\<And>i. dl_minRetryDelay (ds_lock s' i) = dl_minRetryDelay (ds_lock s i)"
    "\<And>i. dl_maxRetryDelay (ds_lock s' i) = dl_maxRetryDelay (ds_lock s i)" "\<And>i. validate (ds_lock s' i) = validate (ds_lock s i)"
    "\<And>g. ds_thr s' g = ds_thr s g \<or> ds_thr s' g = Outside"
  shows "delay_inv s'"
  using assms unfolding delay_inv_def by (metis option.distinct(1) phase_lock.simps(1))

lemma delay_upd:
  assumes "delay_inv s" "ds_lock s' = ds_lock s" "ds_thr s' = (ds_thr s)(g := p)"
    "phase_lock (ds_thr s g) = Some i" "phase_lock p = Some i"
    "\<And>b. phase_backoff p = Some b \<Longrightarrow> dl_minRetryDelay (ds_lock s i) \<le> b \<and> b \<le> dl_maxRetryDelay (ds_lock s i)"
  shows "delay_inv s'"
  using assms unfolding delay_inv_def by (auto split: if_splits)

lemma step_delay:
  assumes "dl_step rd s s'" "redis_ok rd" "delay_inv s"
  shows "delay_inv s'"
proof -
  have bounds: "0 < dl_minRetryDelay (ds_lock s i)" "dl_minRetryDelay (ds_lock s i) \<le> dl_maxRetryDelay (ds_lock s i)"
      "dl_maxRetryDelay (ds_lock s i) < 2 ^ 63"
      "phase_backoff (ds_thr s g) = Some b \<Longrightarrow> dl_minRetryDelay (ds_lock s i) \<le> b \<and> b \<le> dl_maxRetryDelay (ds_lock s i)"
    if "phase_lock (ds_thr s g) = Some i" for g i b
    using assms(3) that validate_delays [of "ds_lock s i"] unfolding delay_inv_def by auto
  from assms(1) show ?thesis
  proof cases
    case (enter g tr i dl p)
    with assms(3) Lock_enter_eq [OF enter(3)] show ?thesis by (auto simp: delay_inv_def split: if_splits)
  next
    case (token g tr i bs)
    then have g: "phase_lock (ds_thr s g) = Some i" by simp
    show ?thesis
      by (rule delay_upd [OF assms(3) _ _ g]) (use token(1) bounds [OF g] phase_backoff_after(1) in \<open>fastforce+\<close>)
  next
    case (no_token g tr i e)
    then have g: "phase_lock (ds_thr s g) = Some i" by simp
    show ?thesis
      by (rule delay_upd [OF assms(3) _ _ g]) (use no_token(1) bounds [OF g] phase_backoff_after(1) in \<open>fastforce+\<close>)
  next
    case (attempt g tr i tok b fault r p)
    then have g: "phase_lock (ds_thr s g) = Some i" "phase_backoff (ds_thr s g) = Some b" by simp_all
    show ?thesis
      by (rule delay_upd [OF assms(3) _ _ g(1) attempt_phase(1) [OF attempt(3)]])
        (use attempt(1) bounds(4) [OF g] attempt_phase(3) [OF attempt(3)] in auto)
  next
    case (waited g i tok b ctxErr)
    then have g: "phase_lock (ds_thr s g) = Some i" "phase_backoff (ds_thr s g) = Some b" by simp_all
    have "dl_minRetryDelay (ds_lock s i) \<le> nextBackoff b (dl_maxRetryDelay (ds_lock s i))"
        "nextBackoff b (dl_maxRetryDelay (ds_lock s i)) \<le> dl_maxRetryDelay (ds_lock s i)"
      using nextBackoff_bounds [of b "dl_maxRetryDelay (ds_lock s i)"] bounds(1-3) [OF g(1)] bounds(4) [OF g] by linarith+
    with phase_backoff_after(2) show ?thesis
      by (intro delay_upd [OF assms(3) _ _ g(1)]) (use waited(1) in \<open>fastforce+\<close>)
  next
    case (finish g i tok now)
    show ?thesis by (rule delay_sub [OF assms(3)]) (use finish(1) in auto)
  next
    case (cancel g i e)
    show ?thesis by (rule delay_sub [OF assms(3)]) (use cancel(1) in auto)
  next
    case (extend fault i r dl err)
    show ?thesis by (rule delay_sub [OF assms(3)]) (use extend(1) Extend_ok(2) [OF assms(2) extend(2)] in auto)
  next
    case (unlock fault i r dl err)
    show ?thesis by (rule delay_sub [OF assms(3)]) (use unlock(1) Unlock_ok(1) [OF assms(2) unlock(2)] in auto)
  next
    case (expire r)
    show ?thesis by (rule delay_sub [OF assms(3)]) (use expire(1) in auto)
  qed
qed

lemma step_issued: "dl_step rd s s' \<Longrightarrow> distinct (ds_issued s') \<Longrightarrow> distinct (ds_issued s)"
  by (erule dl_step.cases) auto

lemma DlockNew_fields [simp]: "dl_token (DlockNew key opts) = ''''" "\<not> dl_acquiring (DlockNew key opts)"
  by (simp_all add: DlockNew_def Let_def)

lemma dl_reachable_inv:
  assumes "dl_reachable rd s" "redis_ok rd"
  shows "acq_inv s" "delay_inv s" "distinct (ds_issued s) \<Longrightarrow> tok_inv s \<and> lease_inv rd s"
proof -
  have "acq_inv s \<and> delay_inv s \<and> (distinct (ds_issued s) \<longrightarrow> tok_inv s \<and> lease_inv rd s)"
    using assms(1)
  proof induction
    case (init locks r)
    then have "dl_token (locks i) = ''''" "dl_maxRetryDelay (locks i) < 2 ^ 63" for i using DlockNew_fields(1) by metis+
    then show ?case by (auto simp: acq_inv_def delay_inv_def tok_inv_def lease_inv_def uses_token_def holds_def)
  next
    case (step s s')
    then show ?case
      using step_acq [OF step(2) assms(2)] step_delay [OF step(2) assms(2)] step_tok [OF step(2) assms(2)]
        step_lease [OF step(2) assms(2)] step_issued [OF step(2)] by blast
  qed
  then show "acq_inv s" "delay_inv s" "distinct (ds_issued s) \<Longrightarrow> tok_inv s \<and> lease_inv rd s" by blast+
qed


section \<open>Properties\<close>

text \<open>
  C15: mutual exclusion.  Whatever the interleaving of any number of lock objects and goroutines, with
  lost requests, lost answers and keys that vanish: as long as tokens do not repeat, two objects that hold the lock on
  the same key and whose leases have not lapsed are the same object, and the store names exactly its token.
\<close>

theorem dlock_mutual_exclusion:
  assumes "dl_reachable rd s" "redis_ok rd" "distinct (ds_issued s)"
    "holds s i tok" "holds s j tok'" "dl_Key (ds_lock s i) = dl_Key (ds_lock s j)"
    "tok \<notin> ds_lapsed s" "tok' \<notin> ds_lapsed s"
  shows "i = j \<and> tok = tok' \<and> rd_GET rd (ds_store s) (dl_Key (ds_lock s i)) = Some tok"
proof -
  from dl_reachable_inv(3) [OF assms(1-3)] have inv: "tok_inv s" "lease_inv rd s" by simp_all
  have get: "rd_GET rd (ds_store s) (dl_Key (ds_lock s i)) = Some tok" "rd_GET rd (ds_store s) (dl_Key (ds_lock s j)) = Some tok'"
    using inv(2) assms(4,5,7,8) unfolding lease_inv_def by blast+
  then have "tok = tok'" using assms(6) by simp
  moreover have "i = j" using inv(1) holds_uses [OF assms(4)] holds_uses [OF assms(5)] \<open>tok = tok'\<close> unfolding tok_inv_def by blast
  ultimately show ?thesis using get(1) by simp
qed

text \<open>
  \<^verbatim>\<open>Unlock\<close> never takes the lock of another owner.  An answered \<^verbatim>\<open>Unlock\<close> always forgets the token; it succeeds
  exactly when the store still names this object's token, and then removes that key and nothing else;
  otherwise it reports the loss and leaves the store as it is.
\<close>

theorem Unlock_outcome:
  assumes "redis_ok rd" "validate dl = None" "dl_token dl \<noteq> ''''" "Unlock rd NoFault r dl = (r', dl', err)"
  shows "dl_token dl' = '''' \<and>
    (if rd_GET rd r (dl_Key dl) = Some (dl_token dl)
     then err = None \<and> rd_GET rd r' = (rd_GET rd r)(dl_Key dl := None)
     else err = Some ErrLockLost \<and> rd_GET rd r' = rd_GET rd r)"
proof -
  obtain a n where c: "unlockScript rd (dl_Key dl) (dl_token dl) r = (a, n)" by fastforce
  have "r' = a" "dl' = clearAcquired dl" "err = (if n = 1 then None else if n = 0 \<or> n = - 1 then Some ErrLockLost
      else Some [ErrorText (''unlock distributed lock '' @ quote (dl_Key dl) @ '': unexpected script result'')])"
    using assms(2-4) c by (auto simp: Unlock_def)
  with unlockScript_ok [OF assms(1) c] show ?thesis by (auto split: option.splits)
qed

text \<open>
  The waiting is neither a busy loop nor unbounded.  Every goroutine that waits after a failed attempt draws a
  positive delay without a panic, at least half the minimum and at most the maximum that was configured, and the next
  delay is in the same bounds; the 64-bit arithmetic never overflows.
\<close>

theorem dlock_backoff_bounds:
  assumes "dl_reachable rd s" "redis_ok rd" "ds_thr s g = Waiting i tok b"
  shows "(\<exists>d. jitter b seed = Some d \<and> 0 < d \<and> dl_minRetryDelay (ds_lock s i) div 2 \<le> d \<and> d \<le> dl_maxRetryDelay (ds_lock s i)) \<and>
    b \<le> nextBackoff b (dl_maxRetryDelay (ds_lock s i)) \<and> nextBackoff b (dl_maxRetryDelay (ds_lock s i)) \<le> dl_maxRetryDelay (ds_lock s i)"
proof -
  have g: "phase_lock (ds_thr s g) = Some i" "phase_backoff (ds_thr s g) = Some b" using assms(3) by simp_all
  then have b: "dl_minRetryDelay (ds_lock s i) \<le> b" "b \<le> dl_maxRetryDelay (ds_lock s i)" "dl_maxRetryDelay (ds_lock s i) < 2 ^ 63"
      "0 < dl_minRetryDelay (ds_lock s i)"
    using dl_reachable_inv(2) [OF assms(1,2)] validate_delays unfolding delay_inv_def by blast+
  have pos: "0 < b" "b < 2 ^ 63" using b by linarith+
  obtain d where d: "jitter b seed = Some d" "b div 2 \<le> d" "0 < d" "d \<le> b" by (rule jitter_bounds [OF pos])
  have "dl_minRetryDelay (ds_lock s i) div 2 \<le> b div 2" using b(1) by (simp add: zdiv_mono1)
  with d b have "0 < d \<and> dl_minRetryDelay (ds_lock s i) div 2 \<le> d \<and> d \<le> dl_maxRetryDelay (ds_lock s i)" by linarith
  with d(1) nextBackoff_bounds [OF pos(1) b(2,3)] show ?thesis by blast
qed

text \<open>A store that never forgets a key by itself.\<close>

definition demo_redis :: "(string \<rightharpoonup> string) redis" where
  "demo_redis =
     \<lparr>rd_GET = (\<lambda>r. r),
      rd_SETNX = (\<lambda>r k v ttl. if r k = None then (r(k \<mapsto> v), True) else (r, False)),
      rd_DEL = (\<lambda>r k. (r(k := None), if r k = None then 0 else 1)),
      rd_PEXPIRE = (\<lambda>r k ms. (r, if r k = None then 0 else 1))\<rparr>"

lemma demo_redis_ok: "redis_ok demo_redis"
  by (simp add: redis_ok_def demo_redis_def)

definition demo_locks :: "nat \<Rightarrow> dlock" where
  "demo_locks i = DlockNew ''job'' [Some (WithTTL 1000000)]"

definition demo_entered :: "(string \<rightharpoonup> string) \<Rightarrow> (string \<rightharpoonup> string) dsys" where
  "demo_entered r =
     \<lparr>ds_store = r, ds_lock = demo_locks(0 := (demo_locks 0)\<lparr>dl_acquiring := True\<rparr>),
      ds_thr = (\<lambda>_. Outside)(5 := Trying False 0 (EncodeToString (replicate 16 0)) 10000000),
      ds_issued = [EncodeToString (replicate 16 0)], ds_lapsed = {}\<rparr>"

lemma demo_entered_reachable: "dl_reachable demo_redis (demo_entered r)"
proof -
  let ?s0 = "\<lparr>ds_store = r, ds_lock = demo_locks, ds_thr = (\<lambda>_. Outside), ds_issued = [], ds_lapsed = {}\<rparr>"
  have c: "dl_maxRetryDelay (demo_locks i) < 2 ^ 63" "dl_minRetryDelay (demo_locks 0) = 10000000" for i
    by (simp_all add: demo_locks_def DlockNew_def defaultOptions_def WithTTL_def)
  then have 0: "dl_reachable demo_redis ?s0" by (intro dl_reachable.init) (auto simp: demo_locks_def)
  have e: "Lock_enter False 0 (ds_lock ?s0 0) = ((demo_locks 0)\<lparr>dl_acquiring := True\<rparr>, Inr (Choosing False 0))"
    by (simp add: Lock_enter_def validate_def beginAcquire_def demo_locks_def DlockNew_def defaultOptions_def WithTTL_def)
  from dl_reachable.step [OF 0 dl_step.enter [of ?s0 5, OF _ e]]
  have 1: "dl_reachable demo_redis (?s0\<lparr>ds_lock := demo_locks(0 := (demo_locks 0)\<lparr>dl_acquiring := True\<rparr>),
      ds_thr := (\<lambda>_. Outside)(5 := Choosing False 0)\<rparr>)" by simp
  have "(\<lambda>_. Outside)(5 := Choosing False 0, 5 := p) = (\<lambda>_. Outside)(5 := p)" for p by simp
  with dl_reachable.step [OF 1 dl_step.token [of _ 5 False 0 "replicate 16 0"]] c(2) show ?thesis
    by (simp add: demo_entered_def Lock_token_def newToken_def)
qed


theorem dlock_mutual_exclusion_witness:
  "\<exists>s. dl_reachable demo_redis s \<and> holds s 0 (EncodeToString (replicate 16 0)) \<and> ds_lapsed s = {} \<and>
     rd_GET demo_redis (ds_store s) ''job'' = Some (EncodeToString (replicate 16 0))"
proof -
  let ?t = "EncodeToString (replicate 16 0)" and ?s = "demo_entered Map.empty"
  have k: "dl_Key (ds_lock ?s 0) = ''job''" by (simp add: demo_entered_def demo_locks_def DlockNew_def Let_def)
  have "Lock_attempt demo_redis NoFault False 0 ?t 10000000 (ds_store ?s) (ds_lock ?s 0) = ([''job'' \<mapsto> ?t], Got 0 ?t)"
    using k by (simp add: Lock_attempt_def demo_redis_def demo_entered_def)
  from dl_step.attempt [OF _ this, of 5]
  have st: "dl_step demo_redis ?s (?s\<lparr>ds_store := [''job'' \<mapsto> ?t], ds_thr := (ds_thr ?s)(5 := Got 0 ?t)\<rparr>)" (is "dl_step _ _ ?s'")
    by (simp add: demo_entered_def)
  have r: "dl_reachable demo_redis ?s'" by (rule dl_reachable.step [OF demo_entered_reachable st])
  have h: "holds ?s' 0 ?t" using EncodeToString_nonempty [of "replicate 16 0"] by (auto simp: holds_def)
  have "ds_lapsed ?s' = {}" "distinct (ds_issued ?s')" by (simp_all add: demo_entered_def)
  with dlock_mutual_exclusion [OF r demo_redis_ok _ h h] r h k show ?thesis
    by (intro exI [of _ ?s']) simp
qed

theorem Unlock_outcome_witness:
  "\<exists>r' dl'. Unlock demo_redis NoFault [''job'' \<mapsto> ''other''] ((demo_locks 0)\<lparr>dl_token := ''mine''\<rparr>) = (r', dl', Some ErrLockLost) \<and>
     r' ''job'' = Some ''other'' \<and> dl_token dl' = ''''"
proof -
  let ?dl = "(demo_locks 0)\<lparr>dl_token := ''mine''\<rparr>"
  have v: "validate ?dl = None" "dl_Key ?dl = ''job''"
    by (simp_all add: validate_def demo_locks_def DlockNew_def defaultOptions_def WithTTL_def)
  have g: "rd_GET demo_redis r = r" for r by (simp add: demo_redis_def)
  obtain r' dl' err where u: "Unlock demo_redis NoFault [''job'' \<mapsto> ''other''] ?dl = (r', dl', err)" by (metis prod_cases3)
  from Unlock_outcome [OF demo_redis_ok v(1) _ u] v(2) u show ?thesis by (simp add: g)
qed

theorem dlock_backoff_bounds_witness:
  "\<exists>s d. dl_reachable demo_redis s \<and> ds_thr s 5 = Waiting 0 (EncodeToString (replicate 16 0)) 10000000 \<and>
     jitter 10000000 7 = Some d \<and> 5000000 \<le> d \<and> d \<le> 200000000"
proof -
  let ?t = "EncodeToString (replicate 16 0)" and ?s = "demo_entered [''job'' \<mapsto> ''other'']"
  have k: "dl_Key (ds_lock ?s 0) = ''job''" "dl_minRetryDelay (ds_lock ?s 0) = 10000000" "dl_maxRetryDelay (ds_lock ?s 0) = 200000000"
    by (simp_all add: demo_entered_def demo_locks_def DlockNew_def defaultOptions_def WithTTL_def)
  have "Lock_attempt demo_redis NoFault False 0 ?t 10000000 (ds_store ?s) (ds_lock ?s 0) = (ds_store ?s, Waiting 0 ?t 10000000)"
    using k(1) by (simp add: Lock_attempt_def demo_redis_def demo_entered_def)
  from dl_step.attempt [OF _ this, of 5]
  have st: "dl_step demo_redis ?s (?s\<lparr>ds_store := ds_store ?s, ds_thr := (ds_thr ?s)(5 := Waiting 0 ?t 10000000)\<rparr>)" (is "dl_step _ _ ?s'")
    by (simp add: demo_entered_def)
  have r: "dl_reachable demo_redis ?s'" by (rule dl_reachable.step [OF demo_entered_reachable st])
  have w: "ds_thr ?s' 5 = Waiting 0 ?t 10000000" by simp
  from dlock_backoff_bounds [OF r demo_redis_ok w, of 7] r w k show ?thesis by auto
qed

end
