(* ===== verification/Crypto.thy ===== *)
theory Crypto
  imports GoStrings "HOL-Library.List_Lexorder" "HOL-Library.Char_ord" "HOL-Library.Monad_Syntax"
begin

unbundle bit_operations_syntax

text \<open>
  The cryptographic helpers (\<^verbatim>\<open>util/util.go\<close>, \<^verbatim>\<open>util/cryptoutils.go\<close>): paddings, the AES modes, the X9.9
  checksum, and the signature of a parameter map.

  A byte is an \<open>8 word\<close>.  The encodings the code uses (base64, hex) and the chaining of blocks are defined here;
  the block ciphers and MD5 are parameters, with the documented contract of a block cipher (\<open>cipher_ok\<close>) as
  hypothesis.  Error messages are abbreviated to their subject.
\<close>

type_synonym bytes = "8 word list"

definition str_bytes :: "string \<Rightarrow> bytes" where
  "str_bytes s = map of_char s"

definition bytes_str :: "bytes \<Rightarrow> string" where
  "bytes_str b = map (\<lambda>w. char_of (unat w)) b"

lemma byte_less: "unat (w :: 8 word) < 256"
  using unsigned_less [of w] by simp

lemma bytes_str_bytes [simp]: "bytes_str (str_bytes s) = s" "str_bytes (bytes_str b) = b"
proof -
  have "char_of (unat (of_char c :: 8 word)) = c" for c :: char
  proof -
    have "unat (of_char c :: 8 word) = of_char c"
      using unat_of_nat [of "of_char c", where 'a = 8] by (simp add: of_nat_of_char)
    then show ?thesis by simp
  qed
  then show "bytes_str (str_bytes s) = s" by (simp add: bytes_str_def str_bytes_def map_idI)
  have "of_char (char_of (unat w)) = w" for w :: "8 word"
    using of_nat_of_char [of "char_of (unat w)", where 'a = "8 word"] byte_less [of w] by simp
  then show "str_bytes (bytes_str b) = b" by (simp add: bytes_str_def str_bytes_def map_idI)
qed

lemma length_str_bytes [simp]: "length (str_bytes s) = length s" "length (bytes_str b) = length b"
  by (simp_all add: str_bytes_def bytes_str_def)

section \<open>Blocks\<close>

fun chunks :: "nat \<Rightarrow> 'a list \<Rightarrow> 'a list list" where
  "chunks n [] = []"
| "chunks n (x # xs) = (if n = 0 then [] else take n (x # xs) # chunks n (drop n (x # xs)))"

lemma chunks_append:
  assumes "length a = n" "0 < n"
  shows "chunks n (a @ b) = a # chunks n b"
  using assms by (cases a) auto

lemma chunks_concat:
  assumes "\<forall>b \<in> set bs. length b = n" "0 < n"
  shows "chunks n (concat bs) = bs"
  using assms(1) by (induction bs) (auto simp: chunks_append [OF _ assms(2)])

lemma chunks_full:
  assumes "n dvd length xs" "0 < n"
  shows "concat (chunks n xs) = xs \<and> (\<forall>b \<in> set (chunks n xs). length b = n)"
  using assms
proof (induction n xs rule: chunks.induct)
  case (2 n x xs)
  have le: "n \<le> length (x # xs)" using 2(2) by (intro dvd_imp_le) simp_all
  have "n dvd length (drop n (x # xs))" using 2(2) le by (simp only: length_drop) (rule dvd_diff_nat, simp_all)
  with 2 have ih: "concat (chunks n (drop n (x # xs))) = drop n (x # xs)" "\<forall>b \<in> set (chunks n (drop n (x # xs))). length b = n"
    by blast+
  have c: "chunks n (x # xs) = take n (x # xs) # chunks n (drop n (x # xs))" using 2(3) by simp
  have "concat (chunks n (x # xs)) = x # xs" unfolding c concat.simps ih(1) by (rule append_take_drop_id)
  moreover have "length (take n (x # xs)) = n" using le by (simp only: length_take min_absorb2)
  ultimately show ?case using ih(2) c by (metis set_ConsD)
qed simp

definition xor_bytes :: "bytes \<Rightarrow> bytes \<Rightarrow> bytes" where
  "xor_bytes a b = map2 (XOR) a b"

lemma xor_bytes_cancel:
  assumes "length a = length b"
  shows "xor_bytes (xor_bytes a b) b = a" "xor_bytes b (xor_bytes b a) = a" "length (xor_bytes a b) = length a"
proof -
  have x: "(u XOR v) XOR v = u" "v XOR (v XOR u) = u" for u v :: "8 word"
    by (simp add: xor.assoc) (simp add: xor.assoc [symmetric])
  show "xor_bytes (xor_bytes a b) b = a" "xor_bytes b (xor_bytes b a) = a" "length (xor_bytes a b) = length a"
    using assms by (induction a b rule: list_induct2) (simp_all add: xor_bytes_def x)
qed


section \<open>Text encodings\<close>

definition b64_alphabet :: string where
  "b64_alphabet = ''ABCDEFGHIJKLMNOPQRSTUVWXYZabcdefghijklmnopqrstuvwxyz0123456789+/''"

definition b64_char :: "nat \<Rightarrow> char" where
  "b64_char i = b64_alphabet ! i"

primrec index_of :: "char \<Rightarrow> string \<Rightarrow> nat option" where
  "index_of c [] = None"
| "index_of c (d # ds) = (if c = d then Some 0 else map_option Suc (index_of c ds))"

definition b64_val :: "char \<Rightarrow> nat option" where
  "b64_val c = index_of c b64_alphabet"

text \<open>\<^verbatim>\<open>base64.StdEncoding\<close>: three bytes are four characters; the last group is padded.\<close>

fun b64_encode :: "bytes \<Rightarrow> string" where
  "b64_encode [] = ''''"
| "b64_encode [a] = (let n = unat a * 16 in [b64_char (n div 64), b64_char (n mod 64), CHR ''='', CHR ''=''])"
| "b64_encode [a, b] =
     (let n = (unat a * 256 + unat b) * 4 in [b64_char (n div 4096), b64_char (n div 64 mod 64), b64_char (n mod 64), CHR ''=''])"
| "b64_encode (a # b # c # rest) =
     (let n = unat a * 65536 + unat b * 256 + unat c in
      [b64_char (n div 262144), b64_char (n div 4096 mod 64), b64_char (n div 64 mod 64), b64_char (n mod 64)] @ b64_encode rest)"

text \<open>
  The decoder skips line breaks, insists on the padding and ignores the unused bits of the last group.
  The bytes decoded before an error are discarded by every caller.
\<close>

fun b64_quanta :: "string \<Rightarrow> bytes option" where
  "b64_quanta [] = Some []"
| "b64_quanta (a # b # c # d # rest) =
     do {
       x \<leftarrow> b64_val a;
       y \<leftarrow> b64_val b;
       if c = CHR ''='' then if d = CHR ''='' \<and> rest = [] then Some [word_of_nat ((x * 64 + y) div 16)] else None
       else do {
         z \<leftarrow> b64_val c;
         if d = CHR ''='' then let n = (x * 64 + y) * 64 + z in
           if rest = [] then Some [word_of_nat (n div 1024), word_of_nat (n div 4 mod 256)] else None
         else do {
           w \<leftarrow> b64_val d;
           let n = ((x * 64 + y) * 64 + z) * 64 + w in
           map_option (\<lambda>r. word_of_nat (n div 65536) # word_of_nat (n div 256 mod 256) # word_of_nat (n mod 256) # r) (b64_quanta rest)
         }
       }
     }"
| "b64_quanta _ = None"

definition DecodeString :: "string \<Rightarrow> bytes option" where
  "DecodeString s = b64_quanta (filter (\<lambda>c. c \<noteq> CHR 0x0A \<and> c \<noteq> CHR 0x0D) s)"

lemma index_of_nth: "distinct s \<Longrightarrow> i < length s \<Longrightarrow> index_of (s ! i) s = Some i"
  by (induction s arbitrary: i) (auto simp: nth_Cons' less_Suc_eq_0_disj)

lemma b64_alphabet_facts: "distinct b64_alphabet" "length b64_alphabet = 64"
  "set b64_alphabet \<inter> {CHR ''='', CHR ''-'', CHR ''_'', CHR 0x0A, CHR 0x0D} = {}"
  by (simp_all add: b64_alphabet_def)

lemma b64_val_char [simp]: "i < 64 \<Longrightarrow> b64_val (b64_char i) = Some i"
  by (simp add: b64_val_def b64_char_def index_of_nth b64_alphabet_facts)

lemma b64_char_other [simp]:
  assumes "i < 64"
  shows "b64_char i \<noteq> CHR ''=''" "b64_char i \<noteq> CHR 0x0A" "b64_char i \<noteq> CHR 0x0D" "b64_char i \<noteq> CHR ''-''" "b64_char i \<noteq> CHR ''_''"
proof -
  have "b64_char i \<in> set b64_alphabet" using assms by (simp add: b64_char_def b64_alphabet_facts)
  then show "b64_char i \<noteq> CHR ''=''" "b64_char i \<noteq> CHR 0x0A" "b64_char i \<noteq> CHR 0x0D" "b64_char i \<noteq> CHR ''-''" "b64_char i \<noteq> CHR ''_''"
    using b64_alphabet_facts(3) by (metis disjoint_insert(1) insertI1)+
qed



lemma base64_digits:
  fixes n :: nat
  shows "(n div 4096 * 64 + n div 64 mod 64) * 64 + n mod 64 = n"
    "((n div 262144 * 64 + n div 4096 mod 64) * 64 + n div 64 mod 64) * 64 + n mod 64 = n"
proof -
  have a: "n div 4096 = n div 64 div 64" "n div 262144 = n div 64 div 64 div 64" by (simp_all flip: div_mult2_eq)
  show "(n div 4096 * 64 + n div 64 mod 64) * 64 + n mod 64 = n"
    "((n div 262144 * 64 + n div 4096 mod 64) * 64 + n div 64 mod 64) * 64 + n mod 64 = n"
    unfolding a by (simp_all only: div_mult_mod_eq)
qed

lemma b64_quanta_encode: "b64_quanta (b64_encode bs) = Some bs"
proof (induction bs rule: b64_encode.induct)
  case (2 a)
  obtain n where n: "n = unat a * 16" by simp
  then have e: "b64_encode [a] = [b64_char (n div 64), b64_char (n mod 64), CHR ''='', CHR ''='']" by (simp add: Let_def)
  have "n div 64 < 64" "n div 16 = unat a" using byte_less [of a] by (simp_all add: n)
  moreover have "n div 64 * 64 + n mod 64 = n" by (rule div_mult_mod_eq)
  ultimately show ?case unfolding e by simp
next
  case (3 a b)
  obtain n where n: "n = (unat a * 256 + unat b) * 4" by simp
  then have e: "b64_encode [a, b] = [b64_char (n div 4096), b64_char (n div 64 mod 64), b64_char (n mod 64), CHR ''='']"
    by (simp add: Let_def)
  have "n div 4096 < 64" "n div 1024 = unat a" "n div 4 mod 256 = unat b"
    using byte_less [of a] byte_less [of b] by (simp_all add: n)
  then show ?case unfolding e using base64_digits(1) [of n] by (simp add: Let_def)
next
  case (4 a b c rest)
  obtain n where n: "n = unat a * 65536 + unat b * 256 + unat c" by simp
  then have e: "b64_encode (a # b # c # rest) = b64_char (n div 262144) # b64_char (n div 4096 mod 64) # b64_char (n div 64 mod 64) #
      b64_char (n mod 64) # b64_encode rest"
    by (simp add: Let_def)
  have "n div 262144 < 64" "n div 65536 = unat a" using byte_less [of a] byte_less [of b] byte_less [of c] by (simp_all add: n)
  moreover obtain m where m: "m = unat a * 256 + unat b" by simp
  then have "n = m * 256 + unat c" by (simp add: n)
  then have "n mod 256 = unat c" "n div 256 = m" using byte_less [of c] by simp_all
  moreover have "m mod 256 = unat b" using byte_less [of b] by (simp add: m)
  ultimately show ?case unfolding e using 4 [OF n] base64_digits(2) [of n] by (simp add: Let_def)
qed simp

lemma b64_encode_chars: "set (b64_encode bs) \<subseteq> set b64_alphabet \<union> {CHR ''=''}"
proof -
  have i: "b64_char i \<in> set b64_alphabet" if "i < 64" for i using that by (simp add: b64_char_def b64_alphabet_facts)
  show ?thesis
  proof (induction bs rule: b64_encode.induct)
    case (2 a)
    have "unat a * 16 div 64 < 64" using byte_less [of a] by simp
    then show ?case using i by (simp add: Let_def)
  next
    case (3 a b)
    have "(unat a * 256 + unat b) * 4 div 4096 < 64" using byte_less [of a] byte_less [of b] by simp
    then show ?case using i by (simp add: Let_def)
  next
    case (4 a b c rest)
    have "(unat a * 65536 + unat b * 256 + unat c) div 262144 < 64" using byte_less [of a] byte_less [of b] byte_less [of c] by simp
    then show ?case using i 4 by (simp add: Let_def)
  qed simp
qed

lemma DecodeString_encode [simp]: "DecodeString (b64_encode bs) = Some bs"
proof -
  have "c \<noteq> CHR 0x0A \<and> c \<noteq> CHR 0x0D" if "c \<in> set (b64_encode bs)" for c
    using that b64_encode_chars [of bs] b64_alphabet_facts(3) by auto
  then have "filter (\<lambda>c. c \<noteq> CHR 0x0A \<and> c \<noteq> CHR 0x0D) (b64_encode bs) = b64_encode bs" by (simp add: filter_id_conv)
  then show ?thesis by (simp add: DecodeString_def b64_quanta_encode)
qed

lemma length_b64_encode: "length (b64_encode bs) = 4 * ((length bs + 2) div 3)"
  by (induction bs rule: b64_encode.induct) (simp_all add: Let_def, presburger)

text \<open>\<^verbatim>\<open>encoding/hex\<close>; \<^verbatim>\<open>hex.DecodeString\<close> returns the bytes before the first error together with the error.\<close>

definition hex_alphabet :: string where
  "hex_alphabet = ''0123456789abcdef''"

definition hex_encode :: "bytes \<Rightarrow> string" where
  "hex_encode bs = concat (map (\<lambda>b. [hex_alphabet ! (unat b div 16), hex_alphabet ! (unat b mod 16)]) bs)"

definition hex_val :: "char \<Rightarrow> nat option" where
  "hex_val c = (case index_of c hex_alphabet of Some i \<Rightarrow> Some i | None \<Rightarrow> map_option (\<lambda>i. i + 10) (index_of c ''ABCDEF''))"

fun hex_decode :: "string \<Rightarrow> bytes \<times> bool" where
  "hex_decode [] = ([], True)"
| "hex_decode [c] = ([], False)"
| "hex_decode (a # b # rest) =
     (case (hex_val a, hex_val b) of
        (Some x, Some y) \<Rightarrow> (case hex_decode rest of (bs, ok) \<Rightarrow> (word_of_nat (x * 16 + y) # bs, ok))
      | _ \<Rightarrow> ([], False))"

section \<open>Block ciphers\<close>

text \<open>
  A block cipher for a key, as \<^verbatim>\<open>cipher.Block\<close>: the block size and the two directions.  \<open>None\<close> is the error of
  \<^verbatim>\<open>NewCipher\<close> for a key of a wrong size.
\<close>

record block =
  bl_size :: nat
  bl_Encrypt :: "bytes \<Rightarrow> bytes"
  bl_Decrypt :: "bytes \<Rightarrow> bytes"

definition block_ok :: "block \<Rightarrow> bool" where
  "block_ok bl \<longleftrightarrow> 0 < bl_size bl \<and>
     (\<forall>b. length b = bl_size bl \<longrightarrow>
        length (bl_Encrypt bl b) = bl_size bl \<and> length (bl_Decrypt bl b) = bl_size bl \<and> bl_Decrypt bl (bl_Encrypt bl b) = b)"

definition aes_ok :: "(bytes \<Rightarrow> block option) \<Rightarrow> bool" where
  "aes_ok aes \<longleftrightarrow>
     (\<forall>k. case aes k of None \<Rightarrow> length k \<notin> {16, 24, 32} | Some bl \<Rightarrow> length k \<in> {16, 24, 32} \<and> block_ok bl \<and> bl_size bl = 16)"

text \<open>The standard library's cipher block chaining, over whole blocks.\<close>

fun cbc_encrypt :: "(bytes \<Rightarrow> bytes) \<Rightarrow> bytes \<Rightarrow> bytes list \<Rightarrow> bytes list" where
  "cbc_encrypt E iv [] = []"
| "cbc_encrypt E iv (b # bs) = (let c = E (xor_bytes b iv) in c # cbc_encrypt E c bs)"

fun cbc_decrypt :: "(bytes \<Rightarrow> bytes) \<Rightarrow> bytes \<Rightarrow> bytes list \<Rightarrow> bytes list" where
  "cbc_decrypt D iv [] = []"
| "cbc_decrypt D iv (c # cs) = xor_bytes (D c) iv # cbc_decrypt D c cs"

definition CBC_Encrypt :: "block \<Rightarrow> bytes \<Rightarrow> bytes \<Rightarrow> bytes go" where
  "CBC_Encrypt bl iv src =
     (if length src mod bl_size bl \<noteq> 0 \<or> length iv \<noteq> bl_size bl then None
      else Some (concat (cbc_encrypt (bl_Encrypt bl) iv (chunks (bl_size bl) src))))"

definition CBC_Decrypt :: "block \<Rightarrow> bytes \<Rightarrow> bytes \<Rightarrow> bytes go" where
  "CBC_Decrypt bl iv src =
     (if length src mod bl_size bl \<noteq> 0 \<or> length iv \<noteq> bl_size bl then None
      else Some (concat (cbc_decrypt (bl_Decrypt bl) iv (chunks (bl_size bl) src))))"

text \<open>The electronic code book mode of the repository.\<close>

definition ECB_Encrypt :: "block \<Rightarrow> bytes \<Rightarrow> bytes go" where
  "ECB_Encrypt bl src =
     (if length src mod bl_size bl \<noteq> 0 then None else Some (concat (map (bl_Encrypt bl) (chunks (bl_size bl) src))))"

definition ECB_Decrypt :: "block \<Rightarrow> bytes \<Rightarrow> bytes go" where
  "ECB_Decrypt bl src =
     (if length src mod bl_size bl \<noteq> 0 then None else Some (concat (map (bl_Decrypt bl) (chunks (bl_size bl) src))))"

section \<open>Paddings\<close>

definition PKCS7Padding :: "bytes \<Rightarrow> nat \<Rightarrow> bytes" where
  "PKCS7Padding data blockSize =
     (let padding = blockSize - length data mod blockSize in data @ replicate padding (word_of_nat padding))"

text \<open>\<open>None\<close> is the nil slice.\<close>

definition PKCS7UnPadding :: "bytes \<Rightarrow> bytes option" where
  "PKCS7UnPadding data =
     (let length' = length data in
      if length' = 0 then None
      else let unpadding = unat (data ! (length' - 1)) in
        if unpadding > length' \<or> unpadding = 0 then None
        else if \<exists>i \<in> set [length' - unpadding..<length']. data ! i \<noteq> word_of_nat unpadding then None
        else Some (take (length' - unpadding) data))"

definition PKCS5Padding :: "bytes \<Rightarrow> nat \<Rightarrow> bytes" where
  "PKCS5Padding ciphertext blockSize =
     (let padding = blockSize - length ciphertext mod blockSize in ciphertext @ replicate padding (word_of_nat padding))"

text \<open>The index and the slice panic on an empty input and on a count that is too large.\<close>

definition PKCS5UnPadding :: "bytes \<Rightarrow> bytes go" where
  "PKCS5UnPadding origData =
     (if origData = [] then None
      else let unpadding = unat (last origData) in
        if unpadding > length origData then None else Some (take (length origData - unpadding) origData))"

definition PadBufferToNByteBlocks :: "bytes \<Rightarrow> 8 word \<Rightarrow> nat \<Rightarrow> bytes" where
  "PadBufferToNByteBlocks buffer filler n =
     (let paddingLen = n - length buffer mod n in if paddingLen = n then buffer else buffer @ replicate paddingLen filler)"


section \<open>AES in CBC mode\<close>

definition aes_key_error :: error where "aes_key_error = [ErrorText ''aes: invalid key size'']"
definition key32_error :: error where "key32_error = [ErrorText ''AES-256 key must have 32 bytes'']"
definition iv_error :: error where "iv_error = [ErrorText ''iv must have 16 bytes'']"
definition short_error :: error where "short_error = [ErrorText ''ciphertext too short'']"
definition blocks_error :: error where "blocks_error = [ErrorText ''ciphertext is not a multiple of the block size'']"
definition padding_error :: error where "padding_error = [ErrorText ''invalid padding'']"
definition base64_error :: error where "base64_error = [ErrorText ''illegal base64 data'']"

text \<open>\<open>aes\<close> is \<^verbatim>\<open>aes.NewCipher\<close>.\<close>

definition AESEncryptCBCWithNoBase64 :: "(bytes \<Rightarrow> block option) \<Rightarrow> bytes \<Rightarrow> bytes \<Rightarrow> bytes \<Rightarrow> (error + bytes) go" where
  "AESEncryptCBCWithNoBase64 aes plaintext key iv =
     (if length key \<noteq> 32 then Some (Inl key32_error)
      else if length iv \<noteq> 16 then Some (Inl iv_error)
      else (case aes key of
              None \<Rightarrow> Some (Inl aes_key_error)
            | Some bl \<Rightarrow> map_option Inr (CBC_Encrypt bl iv (PKCS7Padding plaintext (bl_size bl)))))"

definition AESEncryptCBC :: "(bytes \<Rightarrow> block option) \<Rightarrow> bytes \<Rightarrow> bytes \<Rightarrow> bytes \<Rightarrow> (error + string) go" where
  "AESEncryptCBC aes plaintext key iv =
     (if length key \<noteq> 32 then Some (Inl key32_error)
      else if length iv \<noteq> 16 then Some (Inl iv_error)
      else (case aes key of
              None \<Rightarrow> Some (Inl aes_key_error)
            | Some bl \<Rightarrow> map_option (\<lambda>c. Inr (b64_encode c)) (CBC_Encrypt bl iv (PKCS7Padding plaintext (bl_size bl)))))"

definition AESDecryptCBCWithNoBase64 :: "(bytes \<Rightarrow> block option) \<Rightarrow> bytes \<Rightarrow> bytes \<Rightarrow> bytes \<Rightarrow> (error + bytes) go" where
  "AESDecryptCBCWithNoBase64 aes ciphertext key iv =
     (if length key \<noteq> 32 then Some (Inl key32_error)
      else if length iv \<noteq> 16 then Some (Inl iv_error)
      else if length ciphertext < 16 then Some (Inl short_error)
      else (case aes key of
              None \<Rightarrow> Some (Inl aes_key_error)
            | Some bl \<Rightarrow>
                if length ciphertext mod 16 \<noteq> 0 then Some (Inl blocks_error)
                else do {
                  plaintext \<leftarrow> CBC_Decrypt bl iv ciphertext;
                  Some (case PKCS7UnPadding plaintext of None \<Rightarrow> Inl padding_error | Some p \<Rightarrow> Inr p)
                }))"

definition AESDecryptCBC :: "(bytes \<Rightarrow> block option) \<Rightarrow> string \<Rightarrow> bytes \<Rightarrow> bytes \<Rightarrow> (error + bytes) go" where
  "AESDecryptCBC aes ciphertextBase64 key iv =
     (if length key \<noteq> 32 then Some (Inl key32_error)
      else if length iv \<noteq> 16 then Some (Inl iv_error)
      else (case DecodeString ciphertextBase64 of
              None \<Rightarrow> Some (Inl base64_error)
            | Some ciphertext \<Rightarrow>
                if length ciphertext < 16 then Some (Inl short_error)
                else (case aes key of
                        None \<Rightarrow> Some (Inl aes_key_error)
                      | Some bl \<Rightarrow>
                          if length ciphertext mod 16 \<noteq> 0 then Some (Inl blocks_error)
                          else do {
                            plaintext \<leftarrow> CBC_Decrypt bl iv ciphertext;
                            Some (case PKCS7UnPadding plaintext of None \<Rightarrow> Inl padding_error | Some p \<Rightarrow> Inr p)
                          })))"

text \<open>The variant of the old tokens: the initial vector is zero, four bytes are skipped, the padding stays.\<close>

definition AESDecryptCBCSb :: "(bytes \<Rightarrow> block option) \<Rightarrow> string \<Rightarrow> bytes \<Rightarrow> (error + bytes) go" where
  "AESDecryptCBCSb aes ciphertextBase64 key =
     (if length key \<noteq> 32 then Some (Inl key32_error)
      else (case DecodeString ciphertextBase64 of
              None \<Rightarrow> Some (Inl base64_error)
            | Some ciphertext \<Rightarrow>
                if length ciphertext < 16 then Some (Inl short_error)
                else let ciphertext = drop 4 ciphertext in
                  (case aes key of
                     None \<Rightarrow> Some (Inl aes_key_error)
                   | Some bl \<Rightarrow>
                       if length ciphertext mod 16 \<noteq> 0 then Some (Inl blocks_error)
                       else map_option Inr (CBC_Decrypt bl (replicate 16 0) ciphertext))))"

definition AesCbcDec :: "(bytes \<Rightarrow> block option) \<Rightarrow> string \<Rightarrow> string \<Rightarrow> string \<Rightarrow> (error + bytes) go" where
  "AesCbcDec aes key enc iv =
     (let benc = fst (hex_decode (iv @ enc)) in
      case aes (str_bytes key) of
        None \<Rightarrow> Some (Inl aes_key_error)
      | Some bl \<Rightarrow>
          if length benc < 16 then Some (Inl short_error)
          else let ivc = take 16 benc; benc = drop 16 benc in
            if length benc mod 16 \<noteq> 0 then Some (Inl blocks_error)
            else map_option Inr (CBC_Decrypt bl ivc benc))"

section \<open>AES in ECB mode\<close>

definition AesEcbEncrypt :: "(bytes \<Rightarrow> block option) \<Rightarrow> bytes \<Rightarrow> bytes \<Rightarrow> (error + bytes) go" where
  "AesEcbEncrypt aes src key =
     (case aes key of
        None \<Rightarrow> Some (Inl aes_key_error)
      | Some bl \<Rightarrow> map_option Inr (ECB_Encrypt bl (PKCS5Padding src (bl_size bl))))"

definition AesEcbDecrypt :: "(bytes \<Rightarrow> block option) \<Rightarrow> bytes \<Rightarrow> bytes \<Rightarrow> (error + bytes) go" where
  "AesEcbDecrypt aes crypted key =
     (case aes key of
        None \<Rightarrow> Some (Inl aes_key_error)
      | Some bl \<Rightarrow> do { origData \<leftarrow> ECB_Decrypt bl crypted; map_option Inr (PKCS5UnPadding origData) })"

section \<open>The X9.9 checksum\<close>

text \<open>The second index panics when the second argument is shorter; the callers pass equal lengths.\<close>

definition ByteXor :: "bytes \<Rightarrow> bytes \<Rightarrow> bytes go" where
  "ByteXor a b = (if length b < length a then None else Some (xor_bytes a (take (length a) b)))"

text \<open>\<open>tdes\<close> is \<^verbatim>\<open>des.NewTripleDESCipher\<close>.\<close>

definition GenBlock :: "(bytes \<Rightarrow> block option) \<Rightarrow> bytes \<Rightarrow> error + block" where
  "GenBlock tdes key =
     (if length key \<noteq> 16 \<and> length key \<noteq> 24 then Inl [ErrorText ''key must have 16 or 24 bytes'']
      else let key = (if length key = 16 then take 16 key @ take 8 key else key) in
        (case tdes key of None \<Rightarrow> Inl [ErrorText ''des: invalid key size''] | Some bl \<Rightarrow> Inr bl))"

fun mac_loop :: "block \<Rightarrow> bytes \<Rightarrow> bytes list \<Rightarrow> bytes go" where
  "mac_loop bl prevEncrypted [] = Some prevEncrypted"
| "mac_loop bl prevEncrypted (currentBlock # blocks) =
     do { xorResult \<leftarrow> ByteXor prevEncrypted currentBlock; mac_loop bl (bl_Encrypt bl xorResult) blocks }"

definition ToUpper :: "string \<Rightarrow> string" where
  "ToUpper s = map (\<lambda>c. if CHR ''a'' \<le> c \<and> c \<le> CHR ''z'' then char_of (of_char c - 32 :: nat) else c) s"

definition CalcMac :: "(bytes \<Rightarrow> block option) \<Rightarrow> bytes \<Rightarrow> bytes \<Rightarrow> (error + string) go" where
  "CalcMac tdes key macData =
     (case GenBlock tdes key of
        Inl err \<Rightarrow> Some (Inl err)
      | Inr bl \<Rightarrow> do {
          prevEncrypted \<leftarrow> mac_loop bl (replicate 8 0) (chunks 8 (PadBufferToNByteBlocks macData 0 8));
          Some (Inr (ToUpper (hex_encode (take 4 prevEncrypted @ [0, 0, 0, 0]))))
        })"

section \<open>Signatures of parameter maps\<close>

text \<open>
  A map is the list of its entries in the order Go happens to traverse it.  \<^verbatim>\<open>sort.Strings\<close> orders by bytes.
\<close>

definition sign_items :: "(string \<times> string) list \<Rightarrow> string list \<Rightarrow> string" where
  "sign_items data keys = Join (map (\<lambda>k. k @ ''='' @ (case map_of data k of Some v \<Rightarrow> v | None \<Rightarrow> '''')) (sort keys)) CHR ''&''"

definition SvrSign :: "(bytes \<Rightarrow> bytes) \<Rightarrow> (string \<times> string) list \<Rightarrow> string \<Rightarrow> string" where
  "SvrSign md5 data key =
     (let sdata = sign_items data (map fst data) @ key in hex_encode (md5 (str_bytes sdata)))"

definition SvrVerify :: "(bytes \<Rightarrow> bytes) \<Rightarrow> (string \<times> string) list \<Rightarrow> string \<Rightarrow> error option" where
  "SvrVerify md5 data key =
     (let c_sign = (case map_of data ''sign'' of Some v \<Rightarrow> v | None \<Rightarrow> '''');
          sdata = sign_items data (filter (\<lambda>k. k \<noteq> ''sign'') (map fst data)) @ key;
          s_sign = hex_encode (md5 (str_bytes sdata)) in
      if c_sign \<noteq> s_sign then Some [ErrorText ''sever verify error''] else None)"


section \<open>Small helpers\<close>

definition Mapget :: "(string \<rightharpoonup> 'a) \<Rightarrow> string \<Rightarrow> 'a \<Rightarrow> 'a" where
  "Mapget m key defv = (case m key of Some val \<Rightarrow> val | None \<Rightarrow> defv)"

text \<open>\<open>env\<close> is the process environment.\<close>

definition GetEnv :: "(string \<rightharpoonup> string) \<Rightarrow> string \<Rightarrow> string \<Rightarrow> string" where
  "GetEnv env key defaultValue = (case env key of Some value \<Rightarrow> value | None \<Rightarrow> defaultValue)"

section \<open>Lemmas\<close>

lemma cbc_lengths:
  assumes "\<And>b. length b = n \<Longrightarrow> length (E b) = n" "\<forall>b \<in> set bs. length b = n" "length iv = n"
  shows "\<forall>c \<in> set (cbc_encrypt E iv bs). length c = n"
  using assms(2,3)
proof (induction bs arbitrary: iv)
  case (Cons b bs)
  have "length (xor_bytes b iv) = n" using Cons.prems xor_bytes_cancel(3) [of b iv] by simp
  then have c: "length (E (xor_bytes b iv)) = n" by (rule assms(1))
  have "\<forall>c \<in> set (cbc_encrypt E (E (xor_bytes b iv)) bs). length c = n" by (rule Cons.IH) (use Cons.prems c in simp_all)
  with c show ?case by (simp add: Let_def)
qed simp

lemma cbc_inverse:
  assumes "\<And>b. length b = n \<Longrightarrow> length (E b) = n \<and> D (E b) = b" "\<forall>b \<in> set bs. length b = n" "length iv = n"
  shows "cbc_decrypt D iv (cbc_encrypt E iv bs) = bs"
  using assms(2,3)
proof (induction bs arbitrary: iv)
  case (Cons b bs)
  have l: "length b = length iv" "length (xor_bytes b iv) = n" using Cons.prems xor_bytes_cancel(3) [of b iv] by simp_all
  note c = assms(1) [OF l(2)]
  have "cbc_decrypt D (E (xor_bytes b iv)) (cbc_encrypt E (E (xor_bytes b iv)) bs) = bs" by (rule Cons.IH) (use Cons.prems c in simp_all)
  with c xor_bytes_cancel(1) [OF l(1)] show ?case by (simp add: Let_def)
qed simp

lemma CBC_roundtrip:
  assumes "block_ok bl" "length iv = bl_size bl" "bl_size bl dvd length src"
  obtains c where "CBC_Encrypt bl iv src = Some c" "CBC_Decrypt bl iv c = Some src" "length c = length src"
proof -
  let ?n = "bl_size bl" and ?bs = "chunks (bl_size bl) src"
  let ?cs = "cbc_encrypt (bl_Encrypt bl) iv ?bs"
  have E: "length b = ?n \<Longrightarrow> length (bl_Encrypt bl b) = ?n \<and> bl_Decrypt bl (bl_Encrypt bl b) = b" for b
    using assms(1) by (simp add: block_ok_def)
  have n: "0 < ?n" using assms(1) by (simp add: block_ok_def)
  have bs: "concat ?bs = src" "\<forall>b \<in> set ?bs. length b = ?n" using chunks_full [OF assms(3) n] by simp_all
  have cs: "\<forall>c \<in> set ?cs. length c = ?n" by (rule cbc_lengths [OF _ bs(2) assms(2)]) (use E in blast)
  have len: "length ?cs = length ?bs" for bs
  proof -
    have "length (cbc_encrypt F v xs) = length xs" for F v xs by (induction xs arbitrary: v) (simp_all add: Let_def)
    then show ?thesis .
  qed
  have sum: "length (concat xs) = length xs * ?n" if "\<forall>x \<in> set xs. length x = ?n" for xs :: "bytes list"
    using that by (induction xs) auto
  have l: "length (concat ?cs) = length src" using sum [OF cs] sum [OF bs(2)] len bs(1) by simp
  have "CBC_Decrypt bl iv (concat ?cs) = Some src"
    using assms(2,3) l bs(1) by (simp add: CBC_Decrypt_def chunks_concat [OF cs n] cbc_inverse [OF E bs(2) assms(2)] dvd_imp_mod_0)
  moreover have "CBC_Encrypt bl iv src = Some (concat ?cs)" using assms(2,3) by (simp add: CBC_Encrypt_def dvd_imp_mod_0)
  ultimately show ?thesis using that l by blast
qed

lemma ECB_roundtrip:
  assumes "block_ok bl" "bl_size bl dvd length src"
  obtains c where "ECB_Encrypt bl src = Some c" "ECB_Decrypt bl c = Some src"
proof -
  let ?n = "bl_size bl" and ?bs = "chunks (bl_size bl) src"
  let ?cs = "map (bl_Encrypt bl) ?bs"
  have n: "0 < ?n" using assms(1) by (simp add: block_ok_def)
  have bs: "concat ?bs = src" "\<forall>b \<in> set ?bs. length b = ?n" using chunks_full [OF assms(2) n] by simp_all
  have cs: "\<forall>c \<in> set ?cs. length c = ?n" using bs(2) assms(1) by (simp add: block_ok_def)
  have sum: "length (concat xs) = length xs * ?n" if "\<forall>x \<in> set xs. length x = ?n" for xs :: "bytes list"
    using that by (induction xs) auto
  have "map (bl_Decrypt bl) ?cs = ?bs" using bs(2) assms(1) by (auto simp: block_ok_def intro!: map_idI)
  then have "ECB_Decrypt bl (concat ?cs) = Some src"
    using sum [OF cs] bs(1) by (simp add: ECB_Decrypt_def chunks_concat [OF cs n])
  moreover have "ECB_Encrypt bl src = Some (concat ?cs)" using assms(2) by (simp add: ECB_Encrypt_def dvd_imp_mod_0)
  ultimately show ?thesis using that by blast
qed

lemma padding_dvd:
  assumes "0 < n"
  shows "n dvd length (PKCS7Padding data n)" "length data < length (PKCS7Padding data n)"
    "PKCS5Padding data n = PKCS7Padding data n"
proof -
  have "length (PKCS7Padding data n) = length data + (n - length data mod n)" by (simp add: PKCS7Padding_def Let_def)
  also have "\<dots> = (length data div n + 1) * n"
    using mod_less_divisor [OF assms, of "length data"] div_mult_mod_eq [of "length data" n]
    by (simp only: add_mult_distrib mult_1)
  finally show "n dvd length (PKCS7Padding data n)" by simp
  have "0 < n - length data mod n" using mod_less_divisor [OF assms, of "length data"] by linarith
  then show "length data < length (PKCS7Padding data n)" unfolding PKCS7Padding_def Let_def length_append length_replicate by linarith
  show "PKCS5Padding data n = PKCS7Padding data n" by (simp add: PKCS5Padding_def PKCS7Padding_def)
qed

lemma unpadding:
  assumes "0 < n" "n < 256"
  shows "PKCS7UnPadding (PKCS7Padding data n) = Some data" "PKCS5UnPadding (PKCS5Padding data n) = Some data"
proof -
  obtain p where p: "p = n - length data mod n" by simp
  have b: "0 < p" "p < 256" using assms p by (simp_all add: less_imp_diff_less)
  have u: "unat (word_of_nat p :: 8 word) = p" using b(2) unat_of_nat [of p, where 'a = 8] by simp
  have i: "length data + p - 1 = length data + (p - 1)" using b(1) by simp
  have l: "last (data @ replicate p x) = x" "(data @ replicate p x) ! (length data + p - 1) = x" for x :: "8 word"
  proof -
    show "last (data @ replicate p x) = x" using b(1) by simp
    have "p - 1 < p" using b(1) by simp
    then show "(data @ replicate p x) ! (length data + p - 1) = x" unfolding i nth_append_length_plus by simp
  qed
  have d: "PKCS7Padding data n = data @ replicate p (word_of_nat p)" "PKCS5Padding data n = data @ replicate p (word_of_nat p)"
    by (simp_all add: PKCS7Padding_def PKCS5Padding_def Let_def p)
  show "PKCS7UnPadding (PKCS7Padding data n) = Some data"
  proof -
    have "(data @ replicate p x) ! j = x" if "j \<in> {length data..<length data + p}" for j and x :: "8 word"
      using that by (auto simp: nth_append)
    then show ?thesis unfolding d using b(1) u l(2) [of "word_of_nat p"] by (simp add: PKCS7UnPadding_def Let_def)
  qed
  show "PKCS5UnPadding (PKCS5Padding data n) = Some data"
    unfolding d using b(1) u l(1) [of "word_of_nat p"] by (simp add: PKCS5UnPadding_def Let_def)
qed


lemma aes_block:
  assumes "aes_ok aes" "length key \<in> {16, 24, 32}"
  obtains bl where "aes key = Some bl" "block_ok bl" "bl_size bl = 16"
proof -
  have "case aes key of None \<Rightarrow> length key \<notin> {16, 24, 32} | Some bl \<Rightarrow> length key \<in> {16, 24, 32} \<and> block_ok bl \<and> bl_size bl = 16"
    using assms(1) unfolding aes_ok_def by blast
  with assms(2) that show thesis by (cases "aes key") auto
qed

lemma AES_NoBase64_roundtrip:
  assumes "aes_ok aes" "length key = 32" "length iv = 16"
  obtains c where "AESEncryptCBCWithNoBase64 aes plaintext key iv = Some (Inr c)"
    "AESEncryptCBC aes plaintext key iv = Some (Inr (b64_encode c))"
    "AESDecryptCBCWithNoBase64 aes c key iv = Some (Inr plaintext)" "AESDecryptCBC aes (b64_encode c) key iv = Some (Inr plaintext)"
    "16 dvd length c" "length plaintext < length c" "length c \<le> length plaintext + 16"
proof -
  obtain bl where bl: "aes key = Some bl" "block_ok bl" "bl_size bl = 16" using aes_block [OF assms(1)] assms(2) by blast
  let ?p = "PKCS7Padding plaintext 16"
  have p: "16 dvd length ?p" "length plaintext < length ?p" using padding_dvd by simp_all
  have le: "length ?p \<le> length plaintext + 16" by (simp add: PKCS7Padding_def Let_def)
  obtain c where c: "CBC_Encrypt bl iv ?p = Some c" "CBC_Decrypt bl iv c = Some ?p" "length c = length ?p"
    using CBC_roundtrip [OF bl(2), of iv ?p] assms(3) bl(3) p(1) by metis
  have "16 \<le> length c" using p c(3) by (metis dvd_imp_le length_greater_0_conv list.size(3) not_less_zero)
  moreover have "length c mod 16 = 0" using p(1) c(3) by simp
  ultimately show thesis
    using that [of c] assms(2,3) bl c p le unpadding(1) [of 16 plaintext]
    by (simp add: AESEncryptCBCWithNoBase64_def AESEncryptCBC_def AESDecryptCBCWithNoBase64_def AESDecryptCBC_def)
qed

section \<open>Properties\<close>

text \<open>
  Every AES encoding is undone by its decoding.  With a key and an initial vector of the right length,
  CBC encryption (with and without base64) and ECB encryption of any plaintext succeed without a panic and the
  matching decryption returns the plaintext.
\<close>

theorem aes_roundtrip:
  assumes "aes_ok aes" "length key = 32" "length iv = 16"
  shows "(\<exists>c. AESEncryptCBC aes plaintext key iv = Some (Inr c) \<and> AESDecryptCBC aes c key iv = Some (Inr plaintext)) \<and>
    (\<exists>c. AESEncryptCBCWithNoBase64 aes plaintext key iv = Some (Inr c) \<and> AESDecryptCBCWithNoBase64 aes c key iv = Some (Inr plaintext)) \<and>
    (\<exists>c. AesEcbEncrypt aes plaintext key = Some (Inr c) \<and> AesEcbDecrypt aes c key = Some (Inr plaintext))"
proof -
  obtain c where c: "AESEncryptCBCWithNoBase64 aes plaintext key iv = Some (Inr c)"
    "AESEncryptCBC aes plaintext key iv = Some (Inr (b64_encode c))"
    "AESDecryptCBCWithNoBase64 aes c key iv = Some (Inr plaintext)" "AESDecryptCBC aes (b64_encode c) key iv = Some (Inr plaintext)"
    by (rule AES_NoBase64_roundtrip [OF assms])
  obtain bl where bl: "aes key = Some bl" "block_ok bl" "bl_size bl = 16" using aes_block [OF assms(1)] assms(2) by blast
  have "16 dvd length (PKCS5Padding plaintext 16)" using padding_dvd [of 16] by simp
  then obtain d where "ECB_Encrypt bl (PKCS5Padding plaintext 16) = Some d" "ECB_Decrypt bl d = Some (PKCS5Padding plaintext 16)"
    using ECB_roundtrip [OF bl(2)] bl(3) by metis
  then have "AesEcbEncrypt aes plaintext key = Some (Inr d)" "AesEcbDecrypt aes d key = Some (Inr plaintext)"
    using bl unpadding(2) [of 16 plaintext] by (simp_all add: AesEcbEncrypt_def AesEcbDecrypt_def)
  with c show ?thesis by blast
qed

text \<open>
  A signature is accepted exactly when it is the one of the other parameters.  The traversal orders of the two
  maps do not matter.
\<close>

theorem SvrVerify_exact:
  assumes "distinct (map fst data)" "''sign'' \<notin> fst ` set data" "mset params = mset ((''sign'', c_sign) # data)"
  shows "SvrVerify md5 params key = None \<longleftrightarrow> c_sign = SvrSign md5 data key"
proof -
  have keys: "mset (map fst params) = mset (''sign'' # map fst data)" using arg_cong [OF assms(3), of "image_mset fst"] by simp
  have "distinct (map fst params)" using mset_eq_imp_distinct_iff [OF keys] assms(1,2) by simp
  moreover have "set params = insert (''sign'', c_sign) (set data)" using mset_eq_setD [OF assms(3)] by simp
  ultimately have "map_of params = map_of ((''sign'', c_sign) # data)"
    using assms(1,2) by (subst map_of_inject_set) simp_all
  then have m: "map_of params k = (if k = ''sign'' then Some c_sign else map_of data k)" for k by simp
  have "mset (filter (\<lambda>k. k \<noteq> ''sign'') (map fst params)) = mset (filter (\<lambda>k. k \<noteq> ''sign'') (map fst data))"
    using arg_cong [OF keys, of "filter_mset (\<lambda>k. k \<noteq> ''sign'')"] by simp
  moreover have "filter (\<lambda>k. k \<noteq> ''sign'') (map fst data) = map fst data" using assms(2) by (intro filter_True) force
  ultimately have s: "sort (filter (\<lambda>k. k \<noteq> ''sign'') (map fst params)) = sort (map fst data)"
    by (metis mset_sort properties_for_sort sorted_sort)
  have "map (\<lambda>k. k @ ''='' @ (case map_of params k of Some v \<Rightarrow> v | None \<Rightarrow> '''')) (sort (map fst data)) =
      map (\<lambda>k. k @ ''='' @ (case map_of data k of Some v \<Rightarrow> v | None \<Rightarrow> '''')) (sort (map fst data))"
  proof (intro map_cong refl)
    fix k assume "k \<in> set (sort (map fst data))"
    then have "k \<noteq> ''sign''" using assms(2) by force
    then show "k @ ''='' @ (case map_of params k of Some v \<Rightarrow> v | None \<Rightarrow> []) = k @ ''='' @ (case map_of data k of Some v \<Rightarrow> v | None \<Rightarrow> [])"
      by (simp add: m)
  qed
  then have "sign_items params (filter (\<lambda>k. k \<noteq> ''sign'') (map fst params)) = sign_items data (map fst data)"
    unfolding sign_items_def s by (rule arg_cong)
  then show ?thesis using m [of "''sign''"] by (simp add: SvrVerify_def SvrSign_def Let_def)
qed


text \<open>
  The signed text does not delimit its fields: two different maps have the same signature under every key.
\<close>

lemma SvrSign_ambiguous:
  "SvrSign md5 [(''a'', ''1&b=2'')] key = SvrSign md5 [(''a'', ''1''), (''b'', ''2'')] key"
  by (simp add: SvrSign_def sign_items_def Let_def)

lemma pad_dvd: "8 dvd length (PadBufferToNByteBlocks macData x 8)"
proof -
  have "(l + (8 - l mod 8)) mod 8 = 0" for l :: nat by presburger
  moreover have "l mod 8 = 0" if "8 - l mod 8 = 8" for l :: nat using that by presburger
  ultimately show ?thesis
    unfolding PadBufferToNByteBlocks_def Let_def dvd_eq_mod_eq_0
    by (cases "8 - length macData mod 8 = 8") (simp_all only: if_True if_False length_append length_replicate simp_thms)
qed

lemma xor_bytes_commute: "xor_bytes a b = xor_bytes b a"
  unfolding xor_bytes_def by (induction a arbitrary: b) (auto simp: xor.commute split: list.splits, case_tac b, auto simp: xor.commute)

lemma mac_loop_cbc:
  assumes "\<And>b. length b = n \<Longrightarrow> length (bl_Encrypt bl b) = n" "\<forall>b \<in> set bs. length b = n" "length iv = n"
  shows "mac_loop bl iv bs = Some (last (iv # cbc_encrypt (bl_Encrypt bl) iv bs))"
  using assms(2,3)
proof (induction bs arbitrary: iv)
  case (Cons b bs)
  let ?c = "bl_Encrypt bl (xor_bytes b iv)"
  have l: "length b = length iv" "length (xor_bytes b iv) = n" using Cons.prems xor_bytes_cancel(3) [of b iv] by simp_all
  have "ByteXor iv b = Some (xor_bytes b iv)" using l(1) xor_bytes_commute [of iv b] by (simp add: ByteXor_def)
  moreover have "mac_loop bl ?c bs = Some (last (?c # cbc_encrypt (bl_Encrypt bl) ?c bs))"
    by (rule Cons.IH) (use Cons.prems assms(1) [OF l(2)] in simp_all)
  ultimately show ?case by (simp add: Let_def)
qed simp

lemma last_block:
  assumes "cs \<noteq> []" "\<forall>c \<in> set cs. length c = n"
  shows "drop (length (concat cs) - n) (concat cs) = last cs"
  using assms by (induction cs rule: rev_induct) simp_all

text \<open>
  C40: the checksum is the X9.9 one.  For every message the code computes the last block of the CBC encryption of the zero-padded
  message under a zero initial vector, keeps four bytes of it and appends four zero bytes.
\<close>

theorem CalcMac_is_cbc_mac:
  assumes "GenBlock tdes key = Inr bl" "block_ok bl" "bl_size bl = 8"
  shows "\<exists>c. CBC_Encrypt bl (replicate 8 0) (PadBufferToNByteBlocks macData 0 8) = Some c \<and>
    CalcMac tdes key macData =
      Some (Inr (ToUpper (hex_encode (take 4 (if macData = [] then replicate 8 0 else drop (length c - 8) c) @ [0, 0, 0, 0]))))"
proof -
  let ?p = "PadBufferToNByteBlocks macData 0 8"
  let ?bs = "chunks 8 ?p"
  let ?cs = "cbc_encrypt (bl_Encrypt bl) (replicate 8 0) ?bs"
  have bs: "\<forall>b \<in> set ?bs. length b = 8" using chunks_full [OF pad_dvd] by simp
  have E: "length (bl_Encrypt bl b) = 8" if "length b = 8" for b using assms(2,3) that by (simp add: block_ok_def)
  have cs: "\<forall>c \<in> set ?cs. length c = 8" by (rule cbc_lengths [OF E bs]) simp_all
  have m: "mac_loop bl (replicate 8 0) ?bs = Some (last (replicate 8 0 # ?cs))" by (rule mac_loop_cbc [OF E bs]) simp_all
  have "CBC_Encrypt bl (replicate 8 0) ?p = Some (concat ?cs)" using assms(3) pad_dvd [of macData] by (simp add: CBC_Encrypt_def)
  moreover have "last (replicate 8 0 # ?cs) = (if macData = [] then replicate 8 0 else drop (length (concat ?cs) - 8) (concat ?cs))"
  proof (cases "macData = []")
    case False
    then have "?p \<noteq> []" by (simp add: PadBufferToNByteBlocks_def Let_def)
    then have "?cs \<noteq> []" by (cases ?p) (simp_all add: Let_def)
    with cs False last_block [of ?cs 8] show ?thesis by simp
  qed (simp add: PadBufferToNByteBlocks_def)
  ultimately show ?thesis using assms(1) m by (simp add: CalcMac_def)
qed

definition demo_aes :: "bytes \<Rightarrow> block option" where
  "demo_aes k = (if length k \<in> {16, 24, 32} then Some \<lparr>bl_size = 16, bl_Encrypt = rev, bl_Decrypt = rev\<rparr> else None)"

lemma demo_aes_ok: "aes_ok demo_aes"
  by (simp add: aes_ok_def demo_aes_def block_ok_def)

theorem aes_roundtrip_witness:
  "\<exists>c. AESEncryptCBC demo_aes [1, 2] (replicate 32 0) (replicate 16 7) = Some (Inr c) \<and>
     AESDecryptCBC demo_aes c (replicate 32 0) (replicate 16 7) = Some (Inr [1, 2])"
  using aes_roundtrip [OF demo_aes_ok, of "replicate 32 0" "replicate 16 7" "[1, 2]"] by simp

theorem SvrVerify_exact_witness:
  "SvrVerify (\<lambda>b. b) [(''a'', ''1''), (''sign'', hex_encode (str_bytes ''a=1k''))] ''k'' = None"
  using SvrVerify_exact [of "[(''a'', ''1'')]" "[(''a'', ''1''), (''sign'', hex_encode (str_bytes ''a=1k''))]"
      "hex_encode (str_bytes ''a=1k'')" "\<lambda>b. b" "''k''"]
  by (simp add: SvrSign_def sign_items_def Let_def)


definition demo_des :: "bytes \<Rightarrow> block option" where
  "demo_des k = (if length k = 24 then Some \<lparr>bl_size = 8, bl_Encrypt = rev, bl_Decrypt = rev\<rparr> else None)"

theorem CalcMac_is_cbc_mac_witness:
  "CalcMac demo_des (replicate 16 0) [1, 2] = Some (Inr ''0000000000000000'') \<and>
   CalcMac demo_des (replicate 16 0) [1, 2, 3, 4, 5, 6, 7, 8] = Some (Inr ''0807060500000000'')"
proof -
  let ?bl = "\<lparr>bl_size = 8, bl_Encrypt = rev, bl_Decrypt = rev\<rparr> :: block"
  have g: "GenBlock demo_des (replicate 16 0) = Inr ?bl" by (simp add: GenBlock_def demo_des_def)
  have b: "block_ok ?bl" by (simp add: block_ok_def)
  note m = CalcMac_is_cbc_mac [OF g b, simplified]
  have "CBC_Encrypt ?bl (replicate 8 0) (PadBufferToNByteBlocks [1, 2] 0 8) = Some [0, 0, 0, 0, 0, 0, 2, 1]"
    "CBC_Encrypt ?bl (replicate 8 0) (PadBufferToNByteBlocks [1, 2, 3, 4, 5, 6, 7, 8] 0 8) = Some [8, 7, 6, 5, 4, 3, 2, 1]"
    by code_simp+
  with m [of "[1, 2]"] m [of "[1, 2, 3, 4, 5, 6, 7, 8]"]
  have "CalcMac demo_des (replicate 16 0) [1, 2] = Some (Inr (ToUpper (hex_encode [0, 0, 0, 0, 0, 0, 0, 0])))"
    "CalcMac demo_des (replicate 16 0) [1, 2, 3, 4, 5, 6, 7, 8] = Some (Inr (ToUpper (hex_encode [8, 7, 6, 5, 0, 0, 0, 0])))"
    by simp_all
  moreover have "ToUpper (hex_encode [0, 0, 0, 0, 0, 0, 0, 0]) = ''0000000000000000''"
    "ToUpper (hex_encode [8, 7, 6, 5, 0, 0, 0, 0]) = ''0807060500000000''"
    by code_simp+
  ultimately show ?thesis by simp
qed

end
