(* ===== verification/Token.thy ===== *)
theory Token
  imports Crypto
begin

unbundle bit_operations_syntax

text \<open>
  Session tokens (\<^verbatim>\<open>token/token.go\<close>, \<^verbatim>\<open>token/old_token.go\<close>): a binary record with a header, a checksum and an encrypted
  body, written as URL-safe base64.

  The random bytes of \<^verbatim>\<open>Pack\<close> and the AES cipher are arguments.  A slice of Go may be extended up to its
  capacity, so the body is kept with the padding behind it: \<open>go_slice\<close> checks the capacity, an index the length.
\<close>

section \<open>Bytes\<close>

primrec le :: "nat \<Rightarrow> nat \<Rightarrow> bytes" where
  "le 0 x = []"
| "le (Suc n) x = word_of_nat x # le n (x div 256)"

definition of_le :: "bytes \<Rightarrow> nat" where
  "of_le bs = foldr (\<lambda>b x. unat b + 256 * x) bs 0"

text \<open>\<^verbatim>\<open>binary.LittleEndian\<close> panics on a slice that is too short and ignores what follows.\<close>

definition Uint16 :: "bytes \<Rightarrow> 16 word go" where
  "Uint16 b = (if length b < 2 then None else Some (word_of_nat (of_le (take 2 b))))"

definition LE_Uint32 :: "bytes \<Rightarrow> 32 word go" where
  "LE_Uint32 b = (if length b < 4 then None else Some (word_of_nat (of_le (take 4 b))))"

definition Uint64 :: "bytes \<Rightarrow> 64 word go" where
  "Uint64 b = (if length b < 8 then None else Some (word_of_nat (of_le (take 8 b))))"

definition go_slice :: "'a list \<Rightarrow> nat \<Rightarrow> nat \<Rightarrow> 'a list go" where
  "go_slice full start end' = (if start \<le> end' \<and> end' \<le> length full then Some (take (end' - start) (drop start full)) else None)"

definition at :: "'a list \<Rightarrow> nat \<Rightarrow> 'a go" where
  "at xs i = (if i < length xs then Some (xs ! i) else None)"

text \<open>\<^verbatim>\<open>string(b)\<close> of one byte is the UTF-8 text of the code point.\<close>

definition string_of_byte :: "8 word \<Rightarrow> string" where
  "string_of_byte b =
     (if unat b < 128 then [char_of (unat b)] else [char_of (192 + unat b div 64), char_of (128 + unat b mod 64)])"

section \<open>The token\<close>

definition TOKEN_HEADER_MAGIC :: "32 word" where
  "TOKEN_HEADER_MAGIC = 0xEF3F2F30"

record token =
  tk_Magic :: "32 word"
  tk_Ver :: "32 word"
  tk_Mac :: "64 word"
  tk_Idc :: "8 word"
  tk_FlagUC :: string
  tk_Uid :: "64 word"
  tk_OpUid :: "16 word"
  tk_Expire :: "32 word"
  tk_Deadline :: "64 word"
  tk_Udid :: string
  tk_Tkey :: string
  tk_Del :: int
  tk_CustomeId :: "64 word"

fun pack_char :: "char \<Rightarrow> char" where
  "pack_char c = (if c = CHR ''+'' then CHR ''-'' else if c = CHR ''/'' then CHR ''_'' else if c = CHR ''='' then CHR 0x00 else c)"

definition PackReplace :: "string \<Rightarrow> string" where
  "PackReplace src = (let b = map pack_char src; n = length (filter (\<lambda>c. c = CHR ''='') src) in take (length b - n) b)"

fun unpack_char :: "char \<Rightarrow> char" where
  "unpack_char c = (if c = CHR ''-'' then CHR ''+'' else if c = CHR ''_'' then CHR ''/'' else c)"

definition UnpackReplace :: "string \<Rightarrow> string" where
  "UnpackReplace src =
     (let b = map unpack_char src in
      if length b mod 4 \<noteq> 0 then b @ replicate (4 - length b mod 4) CHR ''='' else b)"

text \<open>The error of \<^verbatim>\<open>xor8Bytes\<close> is ignored by its callers, who then have the nil slice.\<close>

definition xor8Bytes :: "bytes \<Rightarrow> bytes \<Rightarrow> bytes" where
  "xor8Bytes a b = (if length a \<noteq> 8 \<or> length b \<noteq> 8 then [] else xor_bytes a b)"

function mac_fold :: "bytes \<Rightarrow> nat \<Rightarrow> nat \<Rightarrow> bytes \<Rightarrow> bytes go" where
  "mac_fold mdata padding_len j tmp =
     (if j \<ge> padding_len then Some tmp
      else do { blk \<leftarrow> go_slice mdata j (j + 8); mac_fold mdata padding_len (j + 8) (xor8Bytes tmp blk) })"
  by pat_completeness auto
termination
  by (relation "measure (\<lambda>(_, padding_len, j, _). padding_len - j)") auto

declare mac_fold.simps [simp del]

text \<open>\<^verbatim>\<open>make([]byte, data_len)\<close> is filled with zeros, and the data is appended to it.\<close>

definition TkMac :: "(bytes \<Rightarrow> block option) \<Rightarrow> bytes \<Rightarrow> bytes \<Rightarrow> bytes \<Rightarrow> (bytes \<times> error option) go" where
  "TkMac aes data randk iv =
     (let data_len = length data; padding_len = 8 - data_len mod 8;
          mdata = replicate data_len 0 @ data @ replicate padding_len 0xFF in
      if length data = 8 then Some (data, None)
      else do {
        tmp \<leftarrow> go_slice mdata 0 8;
        tmp \<leftarrow> mac_fold mdata padding_len 8 tmp;
        ret \<leftarrow> AESEncryptCBCWithNoBase64 aes tmp randk iv;
        (case ret of
           Inl err \<Rightarrow> Some ([], Some err)
         | Inr ret \<Rightarrow> do {
             a \<leftarrow> go_slice ret 0 8;
             b \<leftarrow> go_slice ret 8 16;
             Some (xor8Bytes a b, None)
           })
      })"

definition token_iv :: "bytes \<Rightarrow> bytes" where
  "token_iv randB = randB @ replicate 14 0xFF"

text \<open>The key of the body: the base64 text of the encrypted random bytes, extended by its first eight characters.\<close>

definition token_randk :: "string \<Rightarrow> bytes go" where
  "token_randk gkey = map_option (\<lambda>k2. str_bytes gkey @ str_bytes k2) (go_slice gkey 0 8)"

section \<open>Packing\<close>

definition wide :: "64 word \<Rightarrow> bool" where
  "wide w \<longleftrightarrow> 0xFFFFFFFF < w"

definition pack_body :: "token \<Rightarrow> bytes" where
  "pack_body tk =
     (let ulen = (word_of_nat (length (tk_Udid tk)) :: 8 word);
          ulen = (if 21 < ulen then 21 else ulen) in
      [tk_Idc tk] @ str_bytes (tk_FlagUC tk) @
      (if wide (tk_Uid tk) then le 8 (unat (tk_Uid tk)) else le 4 (unat (tk_Uid tk))) @
      le 2 (unat (tk_OpUid tk)) @ le 4 (unat (tk_Expire tk)) @
      (if wide (tk_Deadline tk) then le 8 (unat (tk_Deadline tk)) else le 4 (unat (tk_Deadline tk))) @
      [ulen] @ str_bytes (take (unat ulen) (tk_Udid tk)))"

definition pack_ver :: "token \<Rightarrow> bytes \<Rightarrow> 32 word" where
  "pack_ver tk randB =
     (let v = tk_Ver tk;
          v = (if wide (tk_Uid tk) then v OR push_bit 31 1 else v);
          v = (if wide (tk_Deadline tk) then v OR push_bit 30 1 else v) in
      v OR push_bit 8 (word_of_nat (of_le randB)))"

definition Pack :: "(bytes \<Rightarrow> block option) \<Rightarrow> bytes \<Rightarrow> token \<Rightarrow> (token \<times> (error + string)) go" where
  "Pack aes randB tk =
     (let tkSrc = pack_body tk;
          tk = tk\<lparr>tk_Ver := pack_ver tk randB\<rparr>;
          b_ver = le 4 (unat (tk_Ver tk));
          iv = token_iv randB in
      do {
        gkey \<leftarrow> AESEncryptCBC aes randB (str_bytes (tk_Tkey tk)) iv;
        (case gkey of
           Inl err \<Rightarrow> Some (tk, Inl err)
         | Inr gkey \<Rightarrow> do {
             randk \<leftarrow> token_randk gkey;
             (mac, _) \<leftarrow> TkMac aes (b_ver @ tkSrc) randk iv;
             tkBody \<leftarrow> AESEncryptCBCWithNoBase64 aes tkSrc randk iv;
             Some (tk, Inr (PackReplace (b64_encode
               (le 4 (unat TOKEN_HEADER_MAGIC) @ b_ver @ mac @ (case tkBody of Inl _ \<Rightarrow> [] | Inr b \<Rightarrow> b)))))
           })
      })"

section \<open>Unpacking\<close>

definition UnPackOld :: "(bytes \<Rightarrow> block option) \<Rightarrow> token \<Rightarrow> string \<Rightarrow> (token \<times> error option) go" where
  "UnPackOld aes tk bdata =
     (if 256 < length bdata then Some (tk, Some [ErrorText ''session data is too long''])
      else do {
        r \<leftarrow> AESDecryptCBCSb aes (UnpackReplace bdata) (str_bytes (tk_Tkey tk));
        (case r of
           Inl err \<Rightarrow> Some (tk, Some err)
         | Inr decrypted \<Rightarrow> do {
             ver \<leftarrow> at decrypted 0;
             idc \<leftarrow> at decrypted 1;
             flag \<leftarrow> at decrypted 2;
             uid \<leftarrow> Option.bind (go_slice decrypted 3 7) LE_Uint32;
             opuid \<leftarrow> Option.bind (go_slice decrypted 7 9) Uint16;
             expire \<leftarrow> Option.bind (go_slice decrypted 9 13) LE_Uint32;
             deadline \<leftarrow> Option.bind (go_slice decrypted 13 17) LE_Uint32;
             udid_len \<leftarrow> at decrypted 17;
             rest \<leftarrow> go_slice decrypted 18 (length decrypted);
             udid \<leftarrow> (if unat udid_len \<le> length rest then go_slice decrypted 18 (unat (18 + udid_len :: 8 word)) else Some rest);
             Some (tk\<lparr>tk_Ver := ucast ver, tk_Idc := idc, tk_FlagUC := string_of_byte flag, tk_Uid := ucast uid, tk_OpUid := opuid,
                      tk_Expire := expire, tk_Deadline := ucast deadline, tk_Udid := bytes_str udid\<rparr>, None)
           })
      })"

text \<open>
  The fields of the body; \<open>src\<close> is the body, \<open>full\<close> the body with the padding that is still in the slice's capacity.  The
  64-bit user id is read from the start of the body.
\<close>

definition unpack_body :: "bool \<Rightarrow> bool \<Rightarrow> bytes \<Rightarrow> bytes \<Rightarrow> token \<Rightarrow> token go" where
  "unpack_body uidBit dlBit src full tk = do {
     idc \<leftarrow> at src 0;
     flag \<leftarrow> at src 1;
     (uid, end') \<leftarrow> (if \<not> uidBit then map_option (\<lambda>w. (ucast w, 6)) (Option.bind (go_slice full 2 6) LE_Uint32)
                     else map_option (\<lambda>w. (w, 10)) (Option.bind (go_slice full 0 10) Uint64));
     opuid \<leftarrow> Option.bind (go_slice full end' (end' + 2)) Uint16;
     expire \<leftarrow> Option.bind (go_slice full (end' + 2) (end' + 6)) LE_Uint32;
     (deadline, end') \<leftarrow>
       (if \<not> dlBit then map_option (\<lambda>w. (ucast w, end' + 10)) (Option.bind (go_slice full (end' + 6) (end' + 10)) LE_Uint32)
        else map_option (\<lambda>w. (w, end' + 14)) (Option.bind (go_slice full (end' + 6) (end' + 14)) Uint64));
     udidlen \<leftarrow> at src end';
     udid \<leftarrow> go_slice full (end' + 1) (end' + 1 + unat udidlen);
     Some (tk\<lparr>tk_Idc := idc, tk_FlagUC := string_of_byte flag, tk_Uid := uid, tk_OpUid := opuid, tk_Expire := expire,
              tk_Deadline := deadline, tk_Udid := bytes_str udid\<rparr>)
   }"

definition UnPack :: "(bytes \<Rightarrow> block option) \<Rightarrow> token \<Rightarrow> string \<Rightarrow> (token \<times> error option) go" where
  "UnPack aes tk bdata =
     (let bdata = UnpackReplace bdata in
      case DecodeString bdata of
        None \<Rightarrow> Some (tk, Some base64_error)
      | Some data \<Rightarrow>
          if length data < 18 then Some (tk, Some [ErrorText ''token format len error''])
          else do {
            magic \<leftarrow> Option.bind (go_slice data 0 4) LE_Uint32;
            let tk = tk\<lparr>tk_Magic := magic\<rparr>;
            if magic \<noteq> TOKEN_HEADER_MAGIC then UnPackOld aes tk bdata
            else do {
              b_ver \<leftarrow> go_slice data 4 8;
              ver \<leftarrow> LE_Uint32 b_ver;
              let randB = le 2 (unat (drop_bit 8 (ver AND 0x00FFFF00)));
              mac \<leftarrow> go_slice data 8 16;
              let iv = token_iv randB;
              gkey \<leftarrow> AESEncryptCBC aes randB (str_bytes (tk_Tkey tk)) iv;
              (case gkey of
                 Inl err \<Rightarrow> Some (tk, Some err)
               | Inr gkey \<Rightarrow> do {
                   randk \<leftarrow> token_randk gkey;
                   let tkBody = drop 16 data;
                   r \<leftarrow> AESDecryptCBCWithNoBase64 aes tkBody randk iv;
                   (case r of
                      Inl err \<Rightarrow> Some (tk, Some err)
                    | Inr tkSrc \<Rightarrow> do {
                        (in_mac, _) \<leftarrow> TkMac aes (b_ver @ tkSrc) randk iv;
                        int_mac \<leftarrow> Uint64 mac;
                        int_in_mac \<leftarrow> Uint64 in_mac;
                        if int_mac = int_in_mac
                        then let pad = length tkBody - length tkSrc in
                          map_option (\<lambda>tk. (tk, None))
                            (unpack_body (bit ver 31) (bit ver 30) tkSrc (tkSrc @ replicate pad (word_of_nat pad)) tk)
                        else Some (tk, Some [ErrorText ''mac error''])
                      })
                 })
            }
          })"


section \<open>Lemmas\<close>

lemma length_le [simp]: "length (le n x) = n"
  by (induction n arbitrary: x) simp_all

lemma of_le_le [simp]: "of_le (le n x) = x mod 256 ^ n"
proof (induction n arbitrary: x)
  case (Suc n)
  have "of_le (le (Suc n) x) = x mod 256 + 256 * of_le (le n (x div 256))"
    using unat_of_nat [of x, where 'a = 8] by (simp add: of_le_def)
  then show ?case using Suc [of "x div 256"] by (simp add: mod_mult2_eq)
qed (simp add: of_le_def)

lemma Uint_le [simp]:
  "Uint16 (le 2 (unat (w2 :: 16 word))) = Some w2"
  "LE_Uint32 (le 4 (unat (w4 :: 32 word))) = Some w4"
  "Uint64 (le 8 (unat (w8 :: 64 word))) = Some w8"
proof -
  have "unat w2 < 65536" using unsigned_less [of w2] by simp
  then show "Uint16 (le 2 (unat w2)) = Some w2" by (simp add: Uint16_def)
  have "unat w4 < 4294967296" using unsigned_less [of w4] by simp
  then show "LE_Uint32 (le 4 (unat w4)) = Some w4" by (simp add: LE_Uint32_def)
  have "unat w8 < 18446744073709551616" using unsigned_less [of w8] by simp
  then show "Uint64 (le 8 (unat w8)) = Some w8" by (simp add: Uint64_def)
qed

lemma unat_word:
  "n < 4294967296 \<Longrightarrow> unat (word_of_nat n :: 32 word) = n"
  "n < 2 ^ 64 \<Longrightarrow> unat (word_of_nat n :: 64 word) = n"
  by (simp_all add: unat_of_nat)

lemma le_of_le: "length bs = n \<Longrightarrow> le n (of_le bs) = bs"
proof (induction bs arbitrary: n)
  case (Cons b bs)
  have "of_le (b # bs) = unat b + 256 * of_le bs" by (simp add: of_le_def)
  moreover have "(word_of_nat (unat b + 256 * of_le bs) :: 8 word) = b"
  proof -
    have "(256 :: 8 word) = 0" by simp
    then show ?thesis by (simp only: of_nat_add of_nat_mult of_nat_numeral mult_zero_left add_0_right of_nat_unat ucast_id)
  qed
  ultimately show ?case using Cons byte_less [of b] by auto
qed simp

lemma of_le_less: "of_le bs < 256 ^ length bs"
proof (induction bs)
  case (Cons b bs)
  then have "of_le bs + 1 \<le> 256 ^ length bs" by simp
  then have "256 * (of_le bs + 1) \<le> 256 * 256 ^ length bs" by (rule mult_le_mono2)
  with byte_less [of b] show ?case by (simp add: of_le_def)
qed (simp add: of_le_def)

lemma b64_encode_shape:
  obtains body n where "b64_encode bs = body @ replicate n CHR ''=''" "n \<le> 2" "set body \<subseteq> set b64_alphabet"
proof -
  have i: "b64_char i \<in> set b64_alphabet" if "i < 64" for i using that by (simp add: b64_char_def b64_alphabet_facts)
  have "\<exists>body n. b64_encode bs = body @ replicate n CHR ''='' \<and> n \<le> 2 \<and> set body \<subseteq> set b64_alphabet"
  proof (induction bs rule: b64_encode.induct)
    case 1
    show ?case by (rule exI [of _ "[]"], rule exI [of _ 0]) simp
  next
    case (2 a)
    have "unat a * 16 div 64 < 64" using byte_less [of a] by simp
    with i show ?case
      by (intro exI [of _ "[b64_char (unat a * 16 div 64), b64_char (unat a * 16 mod 64)]"] exI [of _ 2])
        (simp add: Let_def numeral_2_eq_2)
  next
    case (3 a b)
    let ?n = "(unat a * 256 + unat b) * 4"
    have "?n div 4096 < 64" using byte_less [of a] byte_less [of b] by simp
    with i show ?case
      by (intro exI [of _ "[b64_char (?n div 4096), b64_char (?n div 64 mod 64), b64_char (?n mod 64)]"] exI [of _ 1]) (simp add: Let_def)
  next
    case (4 a b c rest)
    let ?n = "unat a * 65536 + unat b * 256 + unat c"
    have l: "?n div 262144 < 64" using byte_less [of a] byte_less [of b] byte_less [of c] by simp
    from 4 obtain body n where r: "b64_encode rest = body @ replicate n CHR ''=''" "n \<le> 2" "set body \<subseteq> set b64_alphabet" by blast
    show ?case
      by (intro exI [of _ "[b64_char (?n div 262144), b64_char (?n div 4096 mod 64), b64_char (?n div 64 mod 64), b64_char (?n mod 64)] @ body"]
          exI [of _ n]) (use r l i in \<open>simp add: Let_def\<close>)
  qed
  with that show thesis by blast
qed

lemma UnpackReplace_PackReplace: "UnpackReplace (PackReplace (b64_encode bs)) = b64_encode bs"
proof -
  obtain body n where e: "b64_encode bs = body @ replicate n CHR ''=''" "n \<le> 2" "set body \<subseteq> set b64_alphabet"
    by (rule b64_encode_shape)
  have ne: "c \<noteq> CHR ''=''" "c \<noteq> CHR ''-''" "c \<noteq> CHR ''_''" if "c \<in> set body" for c
    using that e(3) b64_alphabet_facts(3) by auto
  have "filter (\<lambda>c. c = CHR ''='') body = []" using ne(1) by (simp add: filter_empty_conv)
  then have p: "PackReplace (b64_encode bs) = map pack_char body" by (simp add: PackReplace_def e(1))
  have m: "map unpack_char (map pack_char body) = body" using ne by (simp add: map_idI)
  have "(length body + n) mod 4 = 0" using length_b64_encode [of bs] e(1) by simp
  then have "length body mod 4 = 0 \<and> n = 0 \<or> length body mod 4 \<noteq> 0 \<and> n = 4 - length body mod 4" using e(2) by presburger
  then have "UnpackReplace (map pack_char body) = body @ replicate n CHR ''=''" unfolding UnpackReplace_def m Let_def by auto
  then show ?thesis using p e(1) by metis
qed


lemma high_bits_clear:
  assumes "unat w < 2 ^ k" "k \<le> n"
  shows "\<not> bit w n"
proof -
  have "take_bit k (unat w) = unat w" using assms(1) by (simp add: take_bit_nat_eq_self_iff)
  then have "\<not> bit (unat w) n" using assms(2) by (metis bit_take_bit_iff not_less)
  then show ?thesis by (simp add: bit_unsigned_iff)
qed

lemma pack_ver_bits:
  assumes "unat (tk_Ver tk) < 256" "length randB = 2"
  shows "bit (pack_ver tk randB) 31 = wide (tk_Uid tk)" "bit (pack_ver tk randB) 30 = wide (tk_Deadline tk)"
    "le 2 (unat (drop_bit 8 (pack_ver tk randB AND 0x00FFFF00))) = randB"
proof -
  let ?r = "word_of_nat (of_le randB) :: 32 word"
  have r: "of_le randB < 65536" using of_le_less [of randB] assms(2) by simp
  have ur: "unat ?r = of_le randB" using r by (simp add: unat_of_nat)
  have bv: "\<not> bit (tk_Ver tk) n" if "8 \<le> n" for n using high_bits_clear [of "tk_Ver tk" 8 n] assms(1) that by simp
  have br: "\<not> bit ?r n" if "16 \<le> n" for n using high_bits_clear [of ?r 16 n] ur r that by simp
  have one: "bit (push_bit k (1 :: 32 word)) m \<longleftrightarrow> m = k" if "k < 32" for k m
    using that unfolding bit_push_bit_iff bit_1_iff by auto
  have ver: "bit (pack_ver tk randB) m \<longleftrightarrow> bit (tk_Ver tk) m \<or> wide (tk_Uid tk) \<and> m = 31 \<or> wide (tk_Deadline tk) \<and> m = 30 \<or>
      8 \<le> m \<and> m < 32 \<and> bit ?r (m - 8)" for m
    using one [of 31 m] one [of 30 m] unfolding pack_ver_def Let_def
    by (cases "wide (tk_Uid tk)"; cases "wide (tk_Deadline tk)") (auto simp only: if_True if_False bit_or_iff bit_push_bit_iff, simp_all)
  show "bit (pack_ver tk randB) 31 = wide (tk_Uid tk)" "bit (pack_ver tk randB) 30 = wide (tk_Deadline tk)"
    using bv br unfolding ver by simp_all
  have "drop_bit 8 (pack_ver tk randB AND 0x00FFFF00) = ?r"
  proof (rule bit_word_eqI)
    fix n
    have m: "bit (0x00FFFF00 :: 32 word) m \<longleftrightarrow> 8 \<le> m \<and> m < 24" for m
    proof -
      have "(0x00FFFF00 :: 32 word) = push_bit 8 (mask 16)" by (simp add: mask_eq_exp_minus_1)
      then show ?thesis by (simp only: bit_push_bit_iff bit_mask_iff) auto
    qed
    have "\<not> bit (tk_Ver tk) (8 + n)" by (rule bv) simp
    moreover have "bit ?r n \<Longrightarrow> n < 16" using br [of n] by linarith
    ultimately show "bit (drop_bit 8 (pack_ver tk randB AND 0x00FFFF00)) n = bit ?r n"
      unfolding bit_drop_bit_eq comp_def bit_and_iff m ver by auto
  qed
  with ur show "le 2 (unat (drop_bit 8 (pack_ver tk randB AND 0x00FFFF00))) = randB"
    using le_of_le [OF assms(2)] by simp
qed


text \<open>The loop over the blocks never runs, and the block it starts from is a block of zeros.\<close>

lemma TkMac_long:
  assumes "8 < length data"
  shows "TkMac aes data randk iv = do {
    ret \<leftarrow> AESEncryptCBCWithNoBase64 aes (replicate 8 0) randk iv;
    (case ret of
       Inl err \<Rightarrow> Some ([], Some err)
     | Inr ret \<Rightarrow> do { a \<leftarrow> go_slice ret 0 8; b \<leftarrow> go_slice ret 8 16; Some (xor8Bytes a b, None) }) }"
proof -
  have "mac_fold m (8 - n) 8 tmp = Some tmp" for m n tmp by (subst mac_fold.simps) simp
  moreover have "go_slice (replicate (length data) 0 @ xs) 0 8 = Some (replicate 8 0)" for xs :: bytes
    using assms by (simp add: go_slice_def min_def)
  ultimately show ?thesis using assms by (simp add: TkMac_def Let_def)
qed

lemma one_block: "16 dvd n \<Longrightarrow> 0 < n \<Longrightarrow> n < 32 \<Longrightarrow> n = (16 :: nat)"
  by presburger

lemma TkMac_value:
  assumes "aes_ok aes" "length randk = 32" "length iv = 16" "8 < length data"
  obtains mac where "length mac = 8" "\<And>data. 8 < length data \<Longrightarrow> TkMac aes data randk iv = Some (mac, None)"
proof -
  obtain c where c: "AESEncryptCBCWithNoBase64 aes (replicate 8 0) randk iv = Some (Inr c)" "16 dvd length c" "8 < length c" "length c \<le> 24"
    using AES_NoBase64_roundtrip [OF assms(1-3), of "replicate 8 0"] by (metis length_replicate numeral_plus_numeral semiring_norm(2-8))
  then have l: "length c = 16" by (intro one_block) (assumption | linarith)+
  have x: "length (xor8Bytes (take 8 c) (drop 8 c)) = 8" using l by (simp add: xor8Bytes_def xor_bytes_def)
  have "TkMac aes d randk iv = Some (xor8Bytes (take 8 c) (drop 8 c), None)" if "8 < length d" for d
    using TkMac_long [OF that] c(1) l by (simp add: go_slice_def)
  with x that show thesis by blast
qed

lemma token_key:
  assumes "aes_ok aes" "length (tk_Tkey tk) = 32" "length randB = 2"
  obtains gkey randk where "AESEncryptCBC aes randB (str_bytes (tk_Tkey tk)) (token_iv randB) = Some (Inr gkey)"
    "token_randk gkey = Some randk" "length randk = 32"
proof -
  have iv: "length (token_iv randB) = 16" using assms(3) by (simp add: token_iv_def)
  have k: "length (str_bytes (tk_Tkey tk)) = 32" using assms(2) by simp
  obtain c where c: "AESEncryptCBC aes randB (str_bytes (tk_Tkey tk)) (token_iv randB) = Some (Inr (b64_encode c))"
    "16 dvd length c" "2 < length c" "length c \<le> 18"
    using AES_NoBase64_roundtrip [OF assms(1) k iv, of randB] assms(3) by (metis numeral_plus_numeral semiring_norm(2-8))
  then have "length c = 16" by (intro one_block) (assumption | linarith)+
  then have l: "length (b64_encode c) = 24" by (simp add: length_b64_encode)
  have "token_randk (b64_encode c) = Some (str_bytes (b64_encode c) @ str_bytes (take 8 (b64_encode c)))"
    using l by (simp add: token_randk_def go_slice_def)
  then show thesis using that [OF c(1)] l by simp
qed

lemma wide_small: "\<not> wide w \<Longrightarrow> unat w < 4294967296"
  by (simp add: wide_def word_less_nat_alt not_less)

lemma le4_narrow: "\<not> wide w \<Longrightarrow> LE_Uint32 (le 4 (unat w)) = Some (ucast w) \<and> ucast (ucast w :: 32 word) = w"
proof -
  assume n: "\<not> wide w"
  from wide_small [OF n] have u: "unat w mod 4294967296 = unat w" by simp
  have "LE_Uint32 (le 4 (unat w)) = Some (word_of_nat (unat w))" by (simp add: LE_Uint32_def u)
  moreover have "(word_of_nat (unat w) :: 32 word) = ucast w" by simp
  moreover have "unat (ucast w :: 32 word) = unat w" using u by (simp add: unsigned_ucast_eq take_bit_eq_mod)
  then have "ucast (ucast w :: 32 word) = w" by (metis of_nat_unat ucast_id)
  ultimately show ?thesis by simp
qed


lemma slice_mid: "length a = i \<Longrightarrow> length b = j - i \<Longrightarrow> i \<le> j \<Longrightarrow> go_slice (a @ b @ c) i j = Some b"
  by (simp add: go_slice_def)

lemma at_mid: "length a = i \<Longrightarrow> at (a @ x # b) i = Some x"
  by (auto simp: at_def)

lemma take_le: "m \<le> n \<Longrightarrow> take m (le n x) = le m x"
proof (induction n arbitrary: m x)
  case (Suc n)
  then show ?case by (cases m) simp_all
qed simp

text \<open>The value \<^verbatim>\<open>UnPack\<close> gives the user id; for 64-bit ids it starts two bytes too early.\<close>

definition unpacked_uid :: "token \<Rightarrow> 64 word" where
  "unpacked_uid tk =
     (if wide (tk_Uid tk)
      then word_of_nat (unat (tk_Idc tk) + 256 * (of_le (str_bytes (tk_FlagUC tk)) + 256 * (unat (tk_Uid tk) mod 2 ^ 48)))
      else tk_Uid tk)"

lemma str_byte_ascii:
  assumes "of_char f < (128 :: nat)"
  shows "string_of_byte (of_char f) = [f]"
proof -
  have "unat (of_char f :: 8 word) = of_char f" using unat_of_nat [of "of_char f", where 'a = 8] by (simp add: of_nat_of_char)
  then show ?thesis using assms by (simp add: string_of_byte_def)
qed

lemma unpack_pack_body:
  assumes "tk_FlagUC tk = [f]" "of_char f < (128 :: nat)" "length (tk_Udid tk) \<le> 21"
  shows "unpack_body (wide (tk_Uid tk)) (wide (tk_Deadline tk)) (pack_body tk) (pack_body tk @ pad) tk' =
    Some (tk'\<lparr>tk_Idc := tk_Idc tk, tk_FlagUC := tk_FlagUC tk, tk_Uid := unpacked_uid tk, tk_OpUid := tk_OpUid tk,
      tk_Expire := tk_Expire tk, tk_Deadline := tk_Deadline tk, tk_Udid := tk_Udid tk\<rparr>)"
proof -
  let ?ul = "word_of_nat (length (tk_Udid tk)) :: 8 word"
  have ul: "unat ?ul = length (tk_Udid tk)" using assms(3) by (simp add: unat_of_nat)
  then have nc: "\<not> 21 < ?ul" using assms(3) by (simp add: word_less_nat_alt)
  let ?U = "if wide (tk_Uid tk) then le 8 (unat (tk_Uid tk)) else le 4 (unat (tk_Uid tk))"
  let ?D = "if wide (tk_Deadline tk) then le 8 (unat (tk_Deadline tk)) else le 4 (unat (tk_Deadline tk))"
  let ?O = "le 2 (unat (tk_OpUid tk))" and ?E = "le 4 (unat (tk_Expire tk))" and ?S = "str_bytes (tk_Udid tk)"
  have src: "pack_body tk = tk_Idc tk # of_char f # ?U @ ?O @ ?E @ ?D @ ?ul # ?S"
    using nc ul assms(1) by (simp add: pack_body_def Let_def str_bytes_def)
  let ?full = "pack_body tk @ pad"
  define e where "e = (if wide (tk_Uid tk) then 10 else 6 :: nat)"
  define d where "d = e + (if wide (tk_Deadline tk) then 14 else 10)"
  have lU: "length ?U = e - 2" "e - 2 + 2 = e" by (simp_all add: e_def)
  have lD: "length ?D = d - (e + 6)" "e + 6 \<le> d" by (simp_all add: d_def)
  have at0: "at (pack_body tk) 0 = Some (tk_Idc tk)" "at (pack_body tk) 1 = Some (of_char f)" by (simp_all add: src at_def)
  have O: "go_slice ?full e (e + 2) = Some ?O"
    using slice_mid [of "tk_Idc tk # of_char f # ?U" e ?O "e + 2"] lU by (simp add: src)
  have E: "go_slice ?full (e + 2) (e + 6) = Some ?E"
    using slice_mid [of "tk_Idc tk # of_char f # ?U @ ?O" "e + 2" ?E "e + 6"] lU by (simp add: src)
  have D: "go_slice ?full (e + 6) d = Some ?D"
    using slice_mid [of "tk_Idc tk # of_char f # ?U @ ?O @ ?E" "e + 6" ?D d] lU lD by (simp add: src)
  have S: "go_slice ?full (d + 1) (d + 1 + length (tk_Udid tk)) = Some ?S"
    using slice_mid [of "tk_Idc tk # of_char f # ?U @ ?O @ ?E @ ?D @ [?ul]" "d + 1" ?S "d + 1 + length (tk_Udid tk)" pad] lU lD by (simp add: src)
  have L: "at (pack_body tk) d = Some ?ul"
  proof -
    have "pack_body tk = (tk_Idc tk # of_char f # ?U @ ?O @ ?E @ ?D) @ ?ul # ?S" by (simp add: src)
    moreover have "length (tk_Idc tk # of_char f # ?U @ ?O @ ?E @ ?D) = d" using lU lD by simp
    ultimately show ?thesis using at_mid by metis
  qed
  have uid: "(if \<not> wide (tk_Uid tk) then map_option (\<lambda>w. (ucast w, 6)) (Option.bind (go_slice ?full 2 6) LE_Uint32)
      else map_option (\<lambda>w. (w, 10)) (Option.bind (go_slice ?full 0 10) Uint64)) = Some (unpacked_uid tk, e)"
  proof (cases "wide (tk_Uid tk)")
    case True
    have "go_slice ?full 0 10 = Some (tk_Idc tk # of_char f # le 8 (unat (tk_Uid tk)))"
      using slice_mid [of "[]" 0 "tk_Idc tk # of_char f # ?U" 10] True by (simp add: src)
    moreover have "take 8 (tk_Idc tk # of_char f # le 8 (unat (tk_Uid tk))) = tk_Idc tk # of_char f # le 6 (unat (tk_Uid tk))"
      by (simp add: take_le)
    moreover have "of_le (a # b # bs) = unat a + 256 * (of_le [b] + 256 * of_le bs)" for a b :: "8 word" and bs by (simp add: of_le_def)
    ultimately show ?thesis using True by (simp add: Uint64_def unpacked_uid_def e_def assms(1) str_bytes_def)
  next
    case False
    have "go_slice ?full 2 6 = Some (le 4 (unat (tk_Uid tk)))"
      using slice_mid [of "[tk_Idc tk, of_char f]" 2 ?U 6] False by (simp add: src)
    then show ?thesis using False le4_narrow [of "tk_Uid tk"] by (simp add: unpacked_uid_def e_def)
  qed
  have dl: "(if \<not> wide (tk_Deadline tk) then map_option (\<lambda>w. (ucast w, e + 10)) (Option.bind (go_slice ?full (e + 6) (e + 10)) LE_Uint32)
      else map_option (\<lambda>w. (w, e + 14)) (Option.bind (go_slice ?full (e + 6) (e + 14)) Uint64)) = Some (tk_Deadline tk, d)"
    using D le4_narrow [of "tk_Deadline tk"] by (cases "wide (tk_Deadline tk)") (simp_all add: d_def)
  have b: "Option.bind (Some x) g = g x" for x :: 'x and g :: "'x \<Rightarrow> 'y option" by simp
  show ?thesis
    unfolding unpack_body_def at0 uid b prod.case O E Uint_le dl L ul S bytes_str_bytes str_byte_ascii [OF assms(2)] assms(1) ..
qed


lemma pack_body_length: "12 \<le> length (pack_body tk)"
  by (simp add: pack_body_def Let_def)

lemma Pack_UnPack:
  assumes "aes_ok aes" "length (tk_Tkey tk) = 32" "length randB = 2" "unat (tk_Ver tk) < 256"
    "tk_FlagUC tk = [f]" "of_char f < (128 :: nat)" "length (tk_Udid tk) \<le> 21" "tk_Tkey tk0 = tk_Tkey tk"
  shows "\<exists>tk1 text. Pack aes randB tk = Some (tk1, Inr text) \<and>
    UnPack aes tk0 text = Some (tk0\<lparr>tk_Magic := TOKEN_HEADER_MAGIC, tk_Idc := tk_Idc tk, tk_FlagUC := tk_FlagUC tk,
      tk_Uid := unpacked_uid tk, tk_OpUid := tk_OpUid tk, tk_Expire := tk_Expire tk, tk_Deadline := tk_Deadline tk, tk_Udid := tk_Udid tk\<rparr>, None)"
proof -
  let ?iv = "token_iv randB" and ?ver = "pack_ver tk randB" and ?src = "pack_body tk"
  let ?b = "le 4 (unat ?ver)"
  have iv: "length ?iv = 16" using assms(3) by (simp add: token_iv_def)
  obtain gkey randk where k: "AESEncryptCBC aes randB (str_bytes (tk_Tkey tk)) ?iv = Some (Inr gkey)"
    "token_randk gkey = Some randk" "length randk = 32"
    by (rule token_key [OF assms(1-3)])
  have long: "8 < length (?b @ ?src)" using pack_body_length [of tk] by simp
  obtain mac where mac: "length mac = 8" "TkMac aes (?b @ ?src) randk ?iv = Some (mac, None)"
    using TkMac_value [OF assms(1) k(3) iv long] long by metis
  obtain body where body: "AESEncryptCBCWithNoBase64 aes ?src randk ?iv = Some (Inr body)"
    "AESDecryptCBCWithNoBase64 aes body randk ?iv = Some (Inr ?src)" "length ?src < length body"
    using AES_NoBase64_roundtrip [OF assms(1) k(3) iv, of ?src] by metis
  let ?data = "le 4 (unat TOKEN_HEADER_MAGIC) @ ?b @ mac @ body"
  have pack: "Pack aes randB tk = Some (tk\<lparr>tk_Ver := ?ver\<rparr>, Inr (PackReplace (b64_encode ?data)))"
    using k mac(2) body(1) by (simp add: Pack_def Let_def)
  have len: "\<not> length ?data < 18" using body(3) mac(1) pack_body_length [of tk] by simp
  have sl: "go_slice ?data 0 4 = Some (le 4 (unat TOKEN_HEADER_MAGIC))" "go_slice ?data 4 8 = Some ?b" "go_slice ?data 8 16 = Some mac"
    "drop 16 ?data = body"
    using slice_mid [of "[]" 0 "le 4 (unat TOKEN_HEADER_MAGIC)" 4] slice_mid [of "le 4 (unat TOKEN_HEADER_MAGIC)" 4 ?b 8]
      slice_mid [of "le 4 (unat TOKEN_HEADER_MAGIC) @ ?b" 8 mac 16] mac(1) by simp_all
  have m8: "Uint64 mac \<noteq> None" using mac(1) by (simp add: Uint64_def)
  note bits = pack_ver_bits [OF assms(4,3)]
  let ?pad = "replicate (length body - length ?src) (word_of_nat (length body - length ?src))"
  have ub: "unpack_body (bit ?ver 31) (bit ?ver 30) ?src (?src @ ?pad) (tk0\<lparr>tk_Magic := TOKEN_HEADER_MAGIC\<rparr>) =
     Some (tk0\<lparr>tk_Magic := TOKEN_HEADER_MAGIC, tk_Idc := tk_Idc tk, tk_FlagUC := tk_FlagUC tk,
      tk_Uid := unpacked_uid tk, tk_OpUid := tk_OpUid tk, tk_Expire := tk_Expire tk, tk_Deadline := tk_Deadline tk, tk_Udid := tk_Udid tk\<rparr>)"
    unfolding bits(1,2) by (rule unpack_pack_body [OF assms(5-7)])
  have "UnPack aes tk0 (PackReplace (b64_encode ?data)) = Some (tk0\<lparr>tk_Magic := TOKEN_HEADER_MAGIC, tk_Idc := tk_Idc tk,
      tk_FlagUC := tk_FlagUC tk, tk_Uid := unpacked_uid tk, tk_OpUid := tk_OpUid tk, tk_Expire := tk_Expire tk,
      tk_Deadline := tk_Deadline tk, tk_Udid := tk_Udid tk\<rparr>, None)"
    using m8 unfolding UnPack_def Let_def UnpackReplace_PackReplace DecodeString_encode option.case if_not_P [OF len] sl
    by (simp only: bind.bind_lunit Uint_le bits(3)) (auto simp: k mac(2) body(2) ub assms(8))
  with pack show ?thesis by blast
qed


section \<open>Properties\<close>

text \<open>
  C26: a packed token is unpacked to the same fields.  For every token with a fresh version field, a one-character ASCII flag, a
  32-bit user id and a device id of at most 21 bytes, whatever the random bytes: \<^verbatim>\<open>Pack\<close> succeeds, and \<^verbatim>\<open>UnPack\<close> of the text with the
  same key accepts it and restores every field, with a 32-bit or a 64-bit deadline.
\<close>

theorem token_roundtrip:
  assumes "aes_ok aes" "length (tk_Tkey tk) = 32" "length randB = 2" "unat (tk_Ver tk) < 256"
    "tk_FlagUC tk = [f]" "of_char f < (128 :: nat)" "length (tk_Udid tk) \<le> 21" "tk_Tkey tk0 = tk_Tkey tk"
    "unat (tk_Uid tk) < 2 ^ 32"
  shows "\<exists>tk1 text tk2. Pack aes randB tk = Some (tk1, Inr text) \<and> UnPack aes tk0 text = Some (tk2, None) \<and>
    tk_Idc tk2 = tk_Idc tk \<and> tk_FlagUC tk2 = tk_FlagUC tk \<and> tk_Uid tk2 = tk_Uid tk \<and> tk_OpUid tk2 = tk_OpUid tk \<and>
    tk_Expire tk2 = tk_Expire tk \<and> tk_Deadline tk2 = tk_Deadline tk \<and> tk_Udid tk2 = tk_Udid tk"
proof -
  have "\<not> wide (tk_Uid tk)" using assms(9) by (simp add: wide_def word_less_nat_alt)
  then have "unpacked_uid tk = tk_Uid tk" by (simp add: unpacked_uid_def)
  with Pack_UnPack [OF assms(1-8)] show ?thesis by fastforce
qed

text \<open>
  A 64-bit user id is not restored.  For every user id from \<open>2 ^ 32\<close> up to \<open>2 ^ 48\<close> the token is accepted without an
  error, but the user id it is unpacked to is another one: the slice starts at the data-centre byte, not at the id.
\<close>

theorem token_uid64_misread:
  assumes "aes_ok aes" "length (tk_Tkey tk) = 32" "length randB = 2" "unat (tk_Ver tk) < 256"
    "tk_FlagUC tk = [f]" "of_char f < (128 :: nat)" "length (tk_Udid tk) \<le> 21" "tk_Tkey tk0 = tk_Tkey tk"
    "2 ^ 32 \<le> unat (tk_Uid tk)" "unat (tk_Uid tk) < 2 ^ 48"
  shows "\<exists>tk1 text tk2. Pack aes randB tk = Some (tk1, Inr text) \<and> UnPack aes tk0 text = Some (tk2, None) \<and>
    unat (tk_Uid tk2) = unat (tk_Idc tk) + 256 * of_char f + 65536 * unat (tk_Uid tk) \<and> tk_Uid tk2 \<noteq> tk_Uid tk"
proof -
  let ?v = "unat (tk_Idc tk) + 256 * of_char f + 65536 * unat (tk_Uid tk)"
  have w: "wide (tk_Uid tk)" using assms(9) by (simp add: wide_def word_less_nat_alt)
  have f: "of_le (str_bytes (tk_FlagUC tk)) = of_char f"
    using unat_of_nat [of "of_char f", where 'a = 8] by (simp add: assms(5) str_bytes_def of_le_def of_nat_of_char)
  have "unat (tk_Uid tk) mod 2 ^ 48 = unat (tk_Uid tk)" using assms(10) by simp
  then have "unpacked_uid tk = word_of_nat ?v" using w f by (simp add: unpacked_uid_def algebra_simps)
  moreover have "?v < 2 ^ 64" using assms(6,10) byte_less [of "tk_Idc tk"] by simp
  ultimately have u: "unat (unpacked_uid tk) = ?v" by (simp only: unat_word)
  moreover have "?v \<noteq> unat (tk_Uid tk)" using assms(9) by simp
  ultimately have "unpacked_uid tk \<noteq> tk_Uid tk" by metis
  with u Pack_UnPack [OF assms(1-8)] show ?thesis by fastforce
qed

text \<open>
  The checksum of a token does not depend on its contents.  Every input longer than eight bytes has the same checksum
  under a key and an initial vector, so it authenticates neither the version nor the body.
\<close>

theorem TkMac_ignores_data:
  assumes "8 < length data" "8 < length data'"
  shows "TkMac aes data randk iv = TkMac aes data' randk iv"
  using TkMac_long [OF assms(1)] TkMac_long [OF assms(2)] by simp

text \<open>
  A short text that is no token makes \<^verbatim>\<open>UnPack\<close> panic.  Any 20 bytes that do not start with the magic number are taken for
  a token of the old format, whose single decrypted block is too short for the fields that are sliced out of it.
\<close>

theorem UnPack_short_panics:
  assumes "aes_ok aes" "length (tk_Tkey tk) = 32" "length data = 20" "take 4 data \<noteq> le 4 (unat TOKEN_HEADER_MAGIC)"
  shows "UnPack aes tk (PackReplace (b64_encode data)) = None"
proof -
  have s: "go_slice data 0 4 = Some (take 4 data)" using assms(3) by (simp add: go_slice_def)
  have t: "length (take 4 data) = 4" using assms(3) by simp
  have m: "of_le (take 4 data) < 4294967296" using of_le_less [of "take 4 data"] t by simp
  have "(word_of_nat (of_le (take 4 data)) :: 32 word) \<noteq> TOKEN_HEADER_MAGIC"
  proof
    assume "(word_of_nat (of_le (take 4 data)) :: 32 word) = TOKEN_HEADER_MAGIC"
    then have "unat TOKEN_HEADER_MAGIC = of_le (take 4 data)" using unat_word(1) [OF m] by simp
    then show False using le_of_le [OF t] assms(4) by simp
  qed
  moreover have "LE_Uint32 (take 4 data) = Some (word_of_nat (of_le (take 4 data)))" using t by (simp add: LE_Uint32_def)
  ultimately have up: "UnPack aes tk (PackReplace (b64_encode data)) =
      UnPackOld aes (tk\<lparr>tk_Magic := word_of_nat (of_le (take 4 data))\<rparr>) (b64_encode data)"
    using assms(3) s by (simp add: UnPack_def UnpackReplace_PackReplace Let_def)
  have l: "length (b64_encode data) = 28" by (simp add: length_b64_encode assms(3))
  obtain bl where bl: "aes (str_bytes (tk_Tkey tk)) = Some bl" "block_ok bl" "bl_size bl = 16"
    using aes_block [OF assms(1), of "str_bytes (tk_Tkey tk)"] assms(2) by auto
  have un: "UnpackReplace (b64_encode data) = b64_encode data"
  proof -
    have "map unpack_char (b64_encode data) = b64_encode data"
      using b64_encode_chars [of data] b64_alphabet_facts(3) by (auto intro!: map_idI)
    then show ?thesis using l by (simp add: UnpackReplace_def Let_def)
  qed
  obtain p where p: "CBC_Decrypt bl (replicate 16 0) (drop 4 data) = Some p" "length p = 16"
  proof -
    have c: "chunks 16 (drop 4 data) = [drop 4 data]" using chunks_append [of "drop 4 data" 16 "[]"] assms(3) by simp
    have "length (bl_Decrypt bl (drop 4 data)) = 16" using bl(2,3) assms(3) by (simp add: block_ok_def)
    then show thesis using that [of "xor_bytes (bl_Decrypt bl (drop 4 data)) (replicate 16 0)"] bl(3) assms(3) c
      by (simp add: CBC_Decrypt_def xor_bytes_cancel(3))
  qed
  have "AESDecryptCBCSb aes (b64_encode data) (str_bytes (tk_Tkey tk)) = Some (Inr p)"
    using bl(1) p(1) assms(2,3) by (simp add: AESDecryptCBCSb_def Let_def)
  then have "UnPackOld aes (tk\<lparr>tk_Magic := m\<rparr>) (b64_encode data) = None" for m
    using l un p(2) by (simp add: UnPackOld_def at_def go_slice_def LE_Uint32_def Uint16_def)
  then show ?thesis using up by simp
qed


text \<open>
  Packing a token a second time stores the union of the old and the new random bits, while the body is encrypted under
  the new ones.
\<close>

lemma Pack_twice_header:
  "pack_ver (tk\<lparr>tk_Ver := pack_ver tk randB\<rparr>) randB' = pack_ver tk randB OR push_bit 8 (word_of_nat (of_le randB'))"
  by (simp add: pack_ver_def Let_def bit_eq_iff bit_or_iff) blast

definition demo_token :: "64 word \<Rightarrow> token" where
  "demo_token uid =
     \<lparr>tk_Magic = 0, tk_Ver = 1, tk_Mac = 0, tk_Idc = 3, tk_FlagUC = ''u'', tk_Uid = uid, tk_OpUid = 7, tk_Expire = 3600,
      tk_Deadline = 0x100000005, tk_Udid = ''device'', tk_Tkey = replicate 32 CHR ''k'', tk_Del = 0, tk_CustomeId = 0\<rparr>"

lemma demo_flag: "of_char CHR ''u'' < (128 :: nat)"
  by code_simp

theorem token_roundtrip_witness:
  "\<exists>text tk2. UnPack demo_aes (demo_token 0) text = Some (tk2, None) \<and> tk_Uid tk2 = 12345 \<and> tk_Udid tk2 = ''device''"
proof -
  have "\<exists>tk1 text tk2. Pack demo_aes [9, 200] (demo_token 12345) = Some (tk1, Inr text) \<and>
      UnPack demo_aes (demo_token 0) text = Some (tk2, None) \<and> tk_Idc tk2 = tk_Idc (demo_token 12345) \<and>
      tk_FlagUC tk2 = tk_FlagUC (demo_token 12345) \<and> tk_Uid tk2 = tk_Uid (demo_token 12345) \<and> tk_OpUid tk2 = tk_OpUid (demo_token 12345) \<and>
      tk_Expire tk2 = tk_Expire (demo_token 12345) \<and> tk_Deadline tk2 = tk_Deadline (demo_token 12345) \<and> tk_Udid tk2 = tk_Udid (demo_token 12345)"
    by (rule token_roundtrip [OF demo_aes_ok, where f = "CHR ''u''"]) (use demo_flag in \<open>simp_all add: demo_token_def\<close>)
  then show ?thesis by (auto simp: demo_token_def)
qed

theorem token_uid64_misread_witness:
  "\<exists>text tk2. UnPack demo_aes (demo_token 0) text = Some (tk2, None) \<and> tk_Uid tk2 \<noteq> 0x123456789"
proof -
  have "\<exists>tk1 text tk2. Pack demo_aes [9, 200] (demo_token 0x123456789) = Some (tk1, Inr text) \<and>
      UnPack demo_aes (demo_token 0) text = Some (tk2, None) \<and>
      unat (tk_Uid tk2) = unat (tk_Idc (demo_token 0x123456789)) + 256 * of_char CHR ''u'' + 65536 * unat (tk_Uid (demo_token 0x123456789)) \<and>
      tk_Uid tk2 \<noteq> tk_Uid (demo_token 0x123456789)"
    by (rule token_uid64_misread [OF demo_aes_ok]) (use demo_flag in \<open>simp_all add: demo_token_def\<close>)
  then show ?thesis by (auto simp: demo_token_def)
qed

theorem TkMac_ignores_data_witness:
  "TkMac demo_aes [1, 2, 3, 4, 5, 6, 7, 8, 9] (replicate 32 0) (replicate 16 0) =
   TkMac demo_aes [9, 8, 7, 6, 5, 4, 3, 2, 1] (replicate 32 0) (replicate 16 0)"
  by (rule TkMac_ignores_data) simp_all

theorem UnPack_short_panics_witness:
  "UnPack demo_aes (demo_token 0) (PackReplace (b64_encode (replicate 20 0))) = None"
proof (rule UnPack_short_panics [OF demo_aes_ok])
  have m: "le 4 (unat TOKEN_HEADER_MAGIC) ! 0 = 0x30"
    using le.simps(2) [of 3 "unat TOKEN_HEADER_MAGIC"] by (simp add: TOKEN_HEADER_MAGIC_def)
  show "take 4 (replicate 20 0) \<noteq> le 4 (unat TOKEN_HEADER_MAGIC)"
  proof
    assume "take 4 (replicate 20 0) = le 4 (unat TOKEN_HEADER_MAGIC)"
    then have "take 4 (replicate 20 0 :: bytes) ! 0 = 0x30" using m by (simp only:)
    then show False by simp
  qed
qed (simp_all add: demo_token_def)

end
