(* ===== verification/YamlToken.thy ===== *)
theory YamlToken
  imports GoStrings "HOL-Library.Monad_Syntax"
begin

text \<open>
  Values of the configuration reader (\<^verbatim>\<open>gconfig_v2/token.go\<close>): the lexer and the recursive-descent parser of flow
  collections, and the classification of plain scalars.

  A lexer is the input it has not read yet and its error.  The parsers of floating-point numbers, times and durations
  of the standard library are parameters (\<open>std\<close>) whose results are opaque numbers; an \<^verbatim>\<open>any\<close> value is a \<open>yval\<close>, a map the list of its entries in the order
  they were added.  Error messages are abbreviated.
\<close>

section \<open>Values and tokens\<close>

datatype yval =
    VNull
  | VBool bool
  | VInt int
  | VFloat nat
  | VTime nat
  | VDuration int
  | VStr string
  | VArr "yval list"
  | VMap "(string \<times> yval) list"

datatype nodeKind =
    NODE_TYPE_UNKNOWN | NODE_TYPE_MAP | NODE_TYPE_SLICE | NODE_TYPE_STRING | NODE_TYPE_FLOAT | NODE_TYPE_INT
  | NODE_TYPE_TIMESTAMP | NODE_TYPE_BOOL | NODE_TYPE_NULL | NODE_TYPE_DURATION

datatype tokenType =
    TokenEOF | TokenLBrace | TokenRBrace | TokenLBracket | TokenRBracket | TokenColon | TokenComma | TokenString

record tokenNode =
  tn_line :: string
  tn_value :: string
  tn_key :: string
  tn_nodeType :: nodeKind
  tn_indent :: int
  tn_Obj :: "yval option"
  tn_rawStr :: bool

record ytoken =
  yt_Type :: tokenType
  yt_Value :: string
  yt_Quoted :: bool

record lexer =
  lx_rest :: string
  lx_err :: "error option"

record yparser =
  yp_lex :: lexer
  yp_tok :: ytoken

record std =
  st_ParseFloat :: "string \<Rightarrow> nat option"
  st_TimeParse :: "string \<Rightarrow> string \<Rightarrow> nat option"
  st_ParseDuration :: "string \<Rightarrow> int option"

text \<open>An instance that recognises no number, time or duration.\<close>

definition bare_std :: std where
  "bare_std = \<lparr>st_ParseFloat = (\<lambda>_. None), st_TimeParse = (\<lambda>_ _. None), st_ParseDuration = (\<lambda>_. None)\<rparr>"

abbreviation yerr :: "string \<Rightarrow> error" where
  "yerr s \<equiv> [ErrorText s]"

section \<open>The lexer\<close>

definition NewLexer :: "string \<Rightarrow> lexer" where
  "NewLexer input = \<lparr>lx_rest = input, lx_err = None\<rparr>"

definition skipWhitespace :: "lexer \<Rightarrow> lexer" where
  "skipWhitespace l = l\<lparr>lx_rest := dropWhile (\<lambda>c. c = CHR '' '') (lx_rest l)\<rparr>"

definition stops :: "bool \<Rightarrow> char \<Rightarrow> bool" where
  "stops stopAtColon c \<longleftrightarrow> c \<in> {CHR ''{'', CHR ''}'', CHR ''['', CHR '']'', CHR '','', CHR '' ''} \<or> c = CHR '':'' \<and> stopAtColon"

definition readString :: "bool \<Rightarrow> string \<Rightarrow> string \<times> string" where
  "readString stopAtColon s = (takeWhile (\<lambda>c. \<not> stops stopAtColon c) s, dropWhile (\<lambda>c. \<not> stops stopAtColon c) s)"

text \<open>After the opening quote: the text, the rest, and the error of a string that is not closed.\<close>

fun readSingleQuote :: "string \<Rightarrow> string \<times> string \<times> error option" where
  "readSingleQuote [] = ([], [], Some (yerr ''missing closing single quote''))"
| "readSingleQuote (c # cs) =
     (if c = CHR 0x27
      then (case cs of
              d # ds \<Rightarrow> if d = CHR 0x27 then (case readSingleQuote ds of (v, r, e) \<Rightarrow> (CHR 0x27 # v, r, e)) else ([], cs, None)
            | [] \<Rightarrow> ([], [], None))
      else (case readSingleQuote cs of (v, r, e) \<Rightarrow> (c # v, r, e)))"

fun readDoubleQuote :: "string \<Rightarrow> string \<times> string \<times> error option" where
  "readDoubleQuote [] = ([], [], Some (yerr ''missing closing double quote''))"
| "readDoubleQuote (c # cs) =
     (if c = CHR 0x5C
      then (case cs of
              [] \<Rightarrow> ([], [], Some (yerr ''escape without a character''))
            | d # ds \<Rightarrow> (case readDoubleQuote ds of (v, r, e) \<Rightarrow> (d # v, r, e)))
      else if c = CHR 0x22 then ([], cs, None)
      else (case readDoubleQuote cs of (v, r, e) \<Rightarrow> (c # v, r, e)))"

definition punct :: "char \<Rightarrow> tokenType option" where
  "punct c =
     (if c = CHR ''{'' then Some TokenLBrace else if c = CHR ''}'' then Some TokenRBrace
      else if c = CHR ''['' then Some TokenLBracket else if c = CHR '']'' then Some TokenRBracket
      else if c = CHR '':'' then Some TokenColon else if c = CHR '','' then Some TokenComma else None)"

definition set_err :: "error option \<Rightarrow> lexer \<Rightarrow> lexer" where
  "set_err e l = (case e of None \<Rightarrow> l | Some _ \<Rightarrow> l\<lparr>lx_err := e\<rparr>)"

definition nextToken :: "bool \<Rightarrow> lexer \<Rightarrow> ytoken \<times> lexer" where
  "nextToken stopAtColon l =
     (let l = skipWhitespace l in
      case lx_rest l of
        [] \<Rightarrow> (\<lparr>yt_Type = TokenEOF, yt_Value = [], yt_Quoted = False\<rparr>, l)
      | c # cs \<Rightarrow>
          (case punct c of
             Some t \<Rightarrow> (\<lparr>yt_Type = t, yt_Value = [c], yt_Quoted = False\<rparr>, l\<lparr>lx_rest := cs\<rparr>)
           | None \<Rightarrow>
               if c = CHR 0x27 then (case readSingleQuote cs of (s, rest, e) \<Rightarrow>
                 (\<lparr>yt_Type = TokenString, yt_Value = s, yt_Quoted = True\<rparr>, set_err e (l\<lparr>lx_rest := rest\<rparr>)))
               else if c = CHR 0x22 then (case readDoubleQuote cs of (s, rest, e) \<Rightarrow>
                 (\<lparr>yt_Type = TokenString, yt_Value = s, yt_Quoted = True\<rparr>, set_err e (l\<lparr>lx_rest := rest\<rparr>)))
               else (case readString stopAtColon (c # cs) of (s, rest) \<Rightarrow>
                 (\<lparr>yt_Type = TokenString, yt_Value = s, yt_Quoted = False\<rparr>, l\<lparr>lx_rest := rest\<rparr>))))"

definition NextToken :: "lexer \<Rightarrow> ytoken \<times> lexer" where "NextToken l = nextToken True l"
definition NextKeyToken :: "lexer \<Rightarrow> ytoken \<times> lexer" where "NextKeyToken l = nextToken True l"
definition NextValueToken :: "lexer \<Rightarrow> ytoken \<times> lexer" where "NextValueToken l = nextToken False l"

section \<open>Plain scalars\<close>

definition hasCRLF :: "string \<Rightarrow> bool" where
  "hasCRLF s \<longleftrightarrow> CHR 0x0D \<in> set s \<or> CHR 0x0A \<in> set s"

definition TrimPrefix :: "string \<Rightarrow> string \<Rightarrow> string" where
  "TrimPrefix s p = (if starts_with p s then drop (length p) s else s)"

definition ToLower :: "string \<Rightarrow> string" where
  "ToLower s = map (\<lambda>c. let n = of_char c :: nat in if 65 \<le> n \<and> n \<le> 90 then char_of (n + 32) else c) s"

definition unsupportedPlainScalar :: "string \<Rightarrow> string option" where
  "unsupportedPlainScalar s =
     (let s = TrimSpace s in
      if s = [] \<or> starts_with ''!!str'' s then None
      else if starts_with ''&'' s then Some ''anchor''
      else if starts_with ''*'' s then Some ''alias''
      else if starts_with ''!'' s then Some ''tag''
      else None)"

definition errUnsupportedYAMLFeature :: "string \<Rightarrow> error" where
  "errUnsupportedYAMLFeature feature = yerr (''unsupported yaml feature: '' @ feature)"

definition NewTokenNode :: "string \<Rightarrow> string \<Rightarrow> string \<Rightarrow> int \<Rightarrow> tokenNode" where
  "NewTokenNode line k v indent =
     \<lparr>tn_line = line, tn_value = v, tn_key = k, tn_nodeType = NODE_TYPE_UNKNOWN, tn_indent = indent, tn_Obj = None, tn_rawStr = False\<rparr>"

text \<open>The nil interface is the null value.\<close>

definition token_toAny :: "tokenNode \<Rightarrow> yval" where
  "token_toAny token =
     (if tn_value token = [] \<and> tn_Obj token = None \<and> tn_key token \<noteq> [] then VStr (tn_key token)
      else case tn_Obj token of Some v \<Rightarrow> v | None \<Rightarrow> VNull)"

definition sign_body :: "string \<Rightarrow> string" where
  "sign_body s = (if s \<noteq> [] \<and> (hd s = CHR ''+'' \<or> hd s = CHR ''-'') then tl s else s)"

definition IsInteger :: "string \<Rightarrow> bool" where
  "IsInteger s =
     (if hasCRLF s then False
      else let b = sign_body (TrimSpace s) in b \<noteq> [] \<and> list_all decimal b)"

text \<open>The loop of \<^verbatim>\<open>IsFloat\<close>, with the two flags it has set.\<close>

fun float_loop :: "bool \<Rightarrow> bool \<Rightarrow> string \<Rightarrow> bool" where
  "float_loop hasDot hasExp [] = (hasDot \<or> hasExp)"
| "float_loop hasDot hasExp (c # cs) =
     (if c = CHR ''.'' then if hasDot \<or> hasExp then False else float_loop True hasExp cs
      else if c = CHR ''e'' \<or> c = CHR ''E'' then
        if hasExp then False
        else (case cs of
                [] \<Rightarrow> False
              | d # ds \<Rightarrow>
                  if d = CHR ''+'' \<or> d = CHR ''-'' then (case ds of [] \<Rightarrow> False | _ # ds' \<Rightarrow> float_loop hasDot True ds')
                  else float_loop hasDot True ds)
      else if decimal c then float_loop hasDot hasExp cs
      else False)"

definition IsFloat :: "string \<Rightarrow> bool" where
  "IsFloat s = (if hasCRLF s then False else let b = sign_body (TrimSpace s) in b \<noteq> [] \<and> float_loop False False b)"

definition true_words :: "string list" where "true_words = [''true'', ''yes'', ''on'']"
definition false_words :: "string list" where "false_words = [''false'', ''no'', ''off'']"

definition IsBool :: "string \<Rightarrow> bool" where
  "IsBool s = (\<not> hasCRLF s \<and> ToLower (TrimSpace s) \<in> set (true_words @ false_words))"

definition IsNull :: "string \<Rightarrow> bool" where
  "IsNull s = (\<not> hasCRLF s \<and> (ToLower (TrimSpace s) = ''null'' \<or> TrimSpace s = ''~''))"

definition IsTimestamp :: "std \<Rightarrow> string \<Rightarrow> nat option" where
  "IsTimestamp st s =
     (if hasCRLF s then None
      else let s = TrimSpace s in
        case st_TimeParse st ''2006-01-02T15:04:05Z07:00'' s of
          Some t \<Rightarrow> Some t
        | None \<Rightarrow> (case st_TimeParse st ''2006-01-02 15:04:05'' s of Some t \<Rightarrow> Some t | None \<Rightarrow> st_TimeParse st ''2006-01-02'' s))"

definition IsDuration :: "std \<Rightarrow> string \<Rightarrow> int option" where
  "IsDuration st s =
     (if hasCRLF s then None
      else let s = TrimSpace s in if s = [] then None else st_ParseDuration st s)"

definition parseExplicitStringTag :: "string \<Rightarrow> string option" where
  "parseExplicitStringTag s =
     (let s = TrimSpace s in
      if s \<noteq> ''!!str'' \<and> \<not> starts_with ''!!str '' s then None
      else let value = TrimSpace (TrimPrefix s ''!!str'') in
        if value = [] then Some []
        else if hd value = CHR 0x27 \<or> hd value = CHR 0x22
        then (case NextToken (NewLexer value) of (tok, _) \<Rightarrow> if yt_Type tok = TokenString then Some (yt_Value tok) else Some value)
        else Some value)"

text \<open>\<^verbatim>\<open>strconv.ParseInt(s, 10, 0)\<close> is \<^verbatim>\<open>Atoi\<close> for a 64-bit \<^verbatim>\<open>int\<close>.\<close>

definition parseScalar :: "std \<Rightarrow> string \<Rightarrow> error + yval \<times> nodeKind" where
  "parseScalar st s =
     (let s = TrimSpace s in
      case parseExplicitStringTag s of
        Some value \<Rightarrow> Inr (VStr value, NODE_TYPE_STRING)
      | None \<Rightarrow>
          if IsNull s then Inr (VNull, NODE_TYPE_NULL)
          else if IsBool s then Inr (VBool (ToLower s \<in> set true_words), NODE_TYPE_BOOL)
          else if IsInteger s then
            (case Atoi s of (res, err) \<Rightarrow> if err then Inl (yerr ''invalid integer'') else Inr (VInt res, NODE_TYPE_INT))
          else if IsFloat s then
            (case st_ParseFloat st s of None \<Rightarrow> Inl (yerr ''invalid float'') | Some res \<Rightarrow> Inr (VFloat res, NODE_TYPE_FLOAT))
          else (case IsTimestamp st s of
                  Some t \<Rightarrow> Inr (VTime t, NODE_TYPE_TIMESTAMP)
                | None \<Rightarrow> (case IsDuration st s of
                            Some d \<Rightarrow> Inr (VDuration d, NODE_TYPE_DURATION)
                          | None \<Rightarrow> Inr (VStr s, NODE_TYPE_STRING))))"


section \<open>Progress of the lexer\<close>

lemma readSingleQuote_shrinks: "length (fst (snd (readSingleQuote s))) \<le> length s"
  by (induction s rule: readSingleQuote.induct) (auto simp: case_prod_beta le_Suc_eq split: list.split)

lemma readDoubleQuote_shrinks: "length (fst (snd (readDoubleQuote s))) \<le> length s"
  by (induction s rule: readDoubleQuote.induct) (auto simp: case_prod_beta le_Suc_eq split: list.split)

lemma plain_head_shrinks:
  "\<not> stops b c \<Longrightarrow> length (dropWhile (\<lambda>c. \<not> stops b c) (c # cs)) \<le> length cs"
  by (simp add: length_dropWhile_le)

lemma dropWhile_head: "dropWhile P xs = y # ys \<Longrightarrow> \<not> P y"
  by (induction xs) (auto split: if_splits)

lemma punct_stops: "punct c = None \<Longrightarrow> c \<noteq> CHR '' '' \<Longrightarrow> \<not> stops b c"
  by (auto simp: punct_def stops_def split: if_splits)

lemma set_err_rest [simp]: "lx_rest (set_err e l) = lx_rest l"
  by (simp add: set_err_def split: option.splits)

lemma nextToken_shrinks:
  assumes "nextToken b l = (t, l')"
  shows "length (lx_rest l') + (if yt_Type t = TokenEOF then 0 else 1) \<le> length (lx_rest l)"
proof -
  let ?s = "dropWhile (\<lambda>c. c = CHR '' '') (lx_rest l)"
  have le: "length ?s \<le> length (lx_rest l)" by (rule length_dropWhile_le)
  show ?thesis
  proof (cases ?s)
    case Nil
    have "nextToken b l = (\<lparr>yt_Type = TokenEOF, yt_Value = [], yt_Quoted = False\<rparr>, l\<lparr>lx_rest := []\<rparr>)"
      by (simp add: nextToken_def skipWhitespace_def Let_def Nil del: dropWhile_eq_Nil_conv)
    then show ?thesis using assms by auto
  next
    case (Cons c cs)
    then have nsp: "c \<noteq> CHR '' ''" by (rule dropWhile_head)
    have nt: "nextToken b l = (let l = skipWhitespace l in
        case punct c of
          Some t \<Rightarrow> (\<lparr>yt_Type = t, yt_Value = [c], yt_Quoted = False\<rparr>, l\<lparr>lx_rest := cs\<rparr>)
        | None \<Rightarrow>
           if c = CHR 0x27 then (case readSingleQuote cs of (s, rest, e) \<Rightarrow>
             (\<lparr>yt_Type = TokenString, yt_Value = s, yt_Quoted = True\<rparr>, set_err e (l\<lparr>lx_rest := rest\<rparr>)))
           else if c = CHR 0x22 then (case readDoubleQuote cs of (s, rest, e) \<Rightarrow>
             (\<lparr>yt_Type = TokenString, yt_Value = s, yt_Quoted = True\<rparr>, set_err e (l\<lparr>lx_rest := rest\<rparr>)))
           else (case readString b (c # cs) of (s, rest) \<Rightarrow>
             (\<lparr>yt_Type = TokenString, yt_Value = s, yt_Quoted = False\<rparr>, l\<lparr>lx_rest := rest\<rparr>)))"
      using Cons by (simp add: nextToken_def skipWhitespace_def Let_def)
    have "length (lx_rest l') \<le> length cs"
    proof (cases "punct c")
      case None
      have "length (snd (readString b (c # cs))) \<le> length cs"
        unfolding readString_def snd_conv by (rule plain_head_shrinks) (rule punct_stops [OF None nsp])
      moreover have "lx_rest l' \<in> {fst (snd (readSingleQuote cs)), fst (snd (readDoubleQuote cs)), snd (readString b (c # cs))}"
        using assms nt None by (auto simp: case_prod_beta Let_def split: if_splits)
      ultimately show ?thesis using readSingleQuote_shrinks [of cs] readDoubleQuote_shrinks [of cs] by auto
    next
      case (Some t)
      then show ?thesis using assms nt by (auto simp: Let_def)
    qed
    then show ?thesis using le Cons by simp
  qed
qed

end
