(* ===== verification/YamlFlow.thy ===== *)
theory YamlFlow
  imports YamlToken
begin

text \<open>
  Flow collections of the configuration reader (the second half of \<^verbatim>\<open>gconfig_v2/token.go\<close>): the recursive-descent
  parser of maps, arrays and scalars, and the parse of the value of one line.  Every value is parsed or refused within the fuel.
\<close>

section \<open>Flow collections\<close>

definition nextKey :: "yparser \<Rightarrow> yparser" where
  "nextKey p = (case NextKeyToken (yp_lex p) of (t, l) \<Rightarrow> p\<lparr>yp_lex := l, yp_tok := t\<rparr>)"

definition nextValue :: "yparser \<Rightarrow> yparser" where
  "nextValue p = (case NextValueToken (yp_lex p) of (t, l) \<Rightarrow> p\<lparr>yp_lex := l, yp_tok := t\<rparr>)"

definition NewParser :: "lexer \<Rightarrow> yparser" where
  "NewParser lx = nextValue \<lparr>yp_lex = lx, yp_tok = \<lparr>yt_Type = TokenEOF, yt_Value = [], yt_Quoted = False\<rparr>\<rparr>"

abbreviation ptype :: "yparser \<Rightarrow> tokenType" where
  "ptype p \<equiv> yt_Type (yp_tok p)"

text \<open>
  \<^verbatim>\<open>parseValue\<close> with its two loops.  The recursion carries fuel, and \<^const>\<open>None\<close> is running out of it; the node type is
  the one the token node was given last.
\<close>

type_synonym 'a parsed = "(error + 'a \<times> nodeKind \<times> yparser) option"

fun parseValue :: "std \<Rightarrow> nat \<Rightarrow> nodeKind \<Rightarrow> yparser \<Rightarrow> yval parsed"
  and map_loop :: "std \<Rightarrow> nat \<Rightarrow> nodeKind \<Rightarrow> (string \<times> yval) list \<Rightarrow> yparser \<Rightarrow> yval parsed"
  and array_loop :: "std \<Rightarrow> nat \<Rightarrow> nodeKind \<Rightarrow> yval list \<Rightarrow> yparser \<Rightarrow> yval parsed" where
  "parseValue st 0 nt p = None"
| "parseValue st (Suc n) nt p =
     (case ptype p of
        TokenLBrace \<Rightarrow> map_loop st n NODE_TYPE_MAP [] (nextKey p)
      | TokenLBracket \<Rightarrow> array_loop st n NODE_TYPE_SLICE [] (nextValue p)
      | TokenString \<Rightarrow>
          let s = yt_Value (yp_tok p) in
          if yt_Quoted (yp_tok p) then Some (Inr (VStr s, NODE_TYPE_STRING, nextValue p))
          else if s = ''!!str'' then
            (let q = nextValue p in
             if ptype q = TokenEOF then Some (Inr (VStr [], NODE_TYPE_STRING, q))
             else if ptype q \<noteq> TokenString then Some (Inl (yerr ''a string must follow !!str''))
             else Some (Inr (VStr (yt_Value (yp_tok q)), NODE_TYPE_STRING, nextValue q)))
          else (case unsupportedPlainScalar s of
                  Some feature \<Rightarrow> Some (Inl (errUnsupportedYAMLFeature feature))
                | None \<Rightarrow> (case parseScalar st s of
                            Inl e \<Rightarrow> Some (Inl e)
                          | Inr (v, k) \<Rightarrow> Some (Inr (v, k, nextValue p))))
      | _ \<Rightarrow> Some (Inl (yerr ''illegal token'')))"
| "map_loop st 0 nt m p = None"
| "map_loop st (Suc n) nt m p =
     (if ptype p = TokenRBrace then Some (Inr (VMap m, nt, nextValue p))
      else if ptype p = TokenEOF then Some (Inl (yerr ''the map is not closed''))
      else if ptype p \<noteq> TokenString then Some (Inl (yerr ''a key must be a string''))
      else let key = yt_Value (yp_tok p) in
        if key \<in> fst ` set m then Some (Inl (yerr (''duplicate key '' @ key)))
        else let q = nextValue p in
          if ptype q \<noteq> TokenColon then Some (Inl (yerr ''a colon must follow the key''))
          else (case parseValue st n nt (nextValue q) of
                  None \<Rightarrow> None
                | Some (Inl e) \<Rightarrow> Some (Inl e)
                | Some (Inr (val, nt', r)) \<Rightarrow>
                    let m' = m @ [(key, val)] in
                    if ptype r = TokenComma then map_loop st n nt' m' (nextKey r)
                    else if ptype r = TokenEOF \<or> ptype r = TokenRBrace then map_loop st n nt' m' r
                    else Some (Inl (yerr ''a comma or } must follow a map entry''))))"
| "array_loop st 0 nt arr p = None"
| "array_loop st (Suc n) nt arr p =
     (if ptype p = TokenRBracket then Some (Inr (VArr arr, nt, nextValue p))
      else if ptype p = TokenEOF then Some (Inl (yerr ''the array is not closed''))
      else (case parseValue st n nt p of
              None \<Rightarrow> None
            | Some (Inl e) \<Rightarrow> Some (Inl e)
            | Some (Inr (elem, nt', r)) \<Rightarrow>
                let arr' = arr @ [elem] in
                if ptype r = TokenComma then array_loop st n nt' arr' (nextValue r)
                else if ptype r = TokenEOF \<or> ptype r = TokenRBracket then array_loop st n nt' arr' r
                else Some (Inl (yerr ''a comma or ] must follow an array element''))))"

text \<open>The fuel of a parse: two calls per remaining character.\<close>

definition parse_fuel :: "string \<Rightarrow> nat" where
  "parse_fuel s = 2 * length s + 1"

definition starts_flow :: "string \<Rightarrow> bool" where
  "starts_flow value \<longleftrightarrow> starts_with ''{'' value \<or> starts_with ''['' value \<or> starts_with [CHR 0x27] value \<or> starts_with [CHR 0x22] value"

definition flow_kind :: "yval \<Rightarrow> nodeKind \<Rightarrow> nodeKind" where
  "flow_kind obj nt = (case obj of VMap _ \<Rightarrow> NODE_TYPE_MAP | VArr _ \<Rightarrow> NODE_TYPE_SLICE | _ \<Rightarrow> nt)"

text \<open>A null that was parsed is the nil interface, as a value that was never set is.\<close>

definition obj_of :: "yval \<Rightarrow> yval option" where
  "obj_of v = (if v = VNull then None else Some v)"

definition TokenParse :: "std \<Rightarrow> tokenNode \<Rightarrow> (error + tokenNode) option" where
  "TokenParse st tkn =
     (if tn_rawStr tkn then Some (Inr (tkn\<lparr>tn_nodeType := NODE_TYPE_STRING, tn_Obj := Some (VStr (tn_value tkn))\<rparr>))
      else let value = TrimSpace (tn_value tkn) in
        if value = [] then Some (Inr tkn)
        else (case unsupportedPlainScalar value of
                Some feature \<Rightarrow> Some (Inl (errUnsupportedYAMLFeature feature))
              | None \<Rightarrow>
                  if \<not> starts_flow value then
                    (case parseScalar st value of
                       Inl e \<Rightarrow> Some (Inl e)
                     | Inr (obj, k) \<Rightarrow> Some (Inr (tkn\<lparr>tn_nodeType := k, tn_Obj := obj_of obj\<rparr>)))
                  else (case parseValue st (parse_fuel value) (tn_nodeType tkn) (NewParser (NewLexer value)) of
                          None \<Rightarrow> None
                        | Some (Inl e) \<Rightarrow> Some (Inl e)
                        | Some (Inr (obj, k, p)) \<Rightarrow>
                            (case lx_err (yp_lex p) of
                               Some e \<Rightarrow> Some (Inl e)
                             | None \<Rightarrow>
                                 if ptype p \<noteq> TokenEOF then Some (Inl (yerr (''unexpected token after value: '' @ yt_Value (yp_tok p))))
                                 else Some (Inr (tkn\<lparr>tn_nodeType := flow_kind obj k, tn_Obj := obj_of obj\<rparr>))))))"

section \<open>Progress of the parser\<close>

definition psize :: "yparser \<Rightarrow> nat" where
  "psize p = length (lx_rest (yp_lex p)) + (if ptype p = TokenEOF then 0 else 1)"

lemma nextKey_shrinks: "ptype p \<noteq> TokenEOF \<Longrightarrow> psize (nextKey p) < psize p"
  by (cases "nextToken True (yp_lex p)") (auto dest: nextToken_shrinks simp: nextKey_def NextKeyToken_def psize_def)

lemma nextValue_shrinks: "ptype p \<noteq> TokenEOF \<Longrightarrow> psize (nextValue p) < psize p"
  by (cases "nextToken False (yp_lex p)") (auto dest: nextToken_shrinks simp: nextValue_def NextValueToken_def psize_def)

lemma nextValue_le: "psize (nextValue p) \<le> psize p"
  by (cases "nextToken False (yp_lex p)") (auto dest: nextToken_shrinks simp: nextValue_def NextValueToken_def psize_def)

lemmas parse_splits = if_splits option.splits sum.splits prod.splits tokenType.splits

lemma parseValue_shrinks:
  assumes "\<And>nt m p v k q. map_loop st n nt m p = Some (Inr (v, k, q)) \<Longrightarrow> psize q < psize p"
    and "\<And>nt a p v k q. array_loop st n nt a p = Some (Inr (v, k, q)) \<Longrightarrow> psize q < psize p"
    and "parseValue st (Suc n) nt p = Some (Inr (v, k, q))"
  shows "psize q < psize p"
proof (cases "ptype p")
  case TokenLBrace
  then have "psize q < psize (nextKey p)" using assms(1) [of NODE_TYPE_MAP "[]" "nextKey p"] assms(3) by simp
  then show ?thesis using nextKey_shrinks [of p] TokenLBrace by simp
next
  case TokenLBracket
  then have "psize q < psize (nextValue p)" using assms(2) [of NODE_TYPE_SLICE "[]" "nextValue p"] assms(3) by simp
  then show ?thesis using nextValue_shrinks [of p] TokenLBracket by simp
next
  case TokenString
  then have "q = nextValue p \<or> q = nextValue (nextValue p)"
    using assms(3) by (auto simp: Let_def split: if_splits option.splits sum.splits)
  then show ?thesis using nextValue_shrinks [of p] nextValue_le [of "nextValue p"] TokenString by auto
qed (use assms(3) in simp_all)

lemma map_loop_shrinks:
  assumes "\<And>nt p v k q. parseValue st n nt p = Some (Inr (v, k, q)) \<Longrightarrow> psize q < psize p"
    and "\<And>nt m p v k q. map_loop st n nt m p = Some (Inr (v, k, q)) \<Longrightarrow> psize q < psize p"
    and "map_loop st (Suc n) nt m p = Some (Inr (v, k, q))"
  shows "psize q < psize p"
proof (cases "ptype p = TokenRBrace")
  case True
  then show ?thesis using assms(3) nextValue_shrinks [of p] by simp
next
  case False
  let ?p2 = "nextValue (nextValue p)"
  obtain w k' r where p: "ptype p \<noteq> TokenEOF" and v: "parseValue st n nt ?p2 = Some (Inr (w, k', r))"
    and l: "\<exists>m'. (ptype r = TokenComma \<and> map_loop st n k' m' (nextKey r) = Some (Inr (v, k, q)))
              \<or> map_loop st n k' m' r = Some (Inr (v, k, q))"
    using assms(3) False by (auto simp: Let_def split: parse_splits)
  have "psize q < psize r" using l assms(2) nextKey_shrinks [of r] by fastforce
  also have "psize r < psize ?p2" by (rule assms(1) [OF v])
  also have "psize ?p2 < psize p" using nextValue_shrinks [OF p] nextValue_le [of "nextValue p"] by simp
  finally show ?thesis .
qed

lemma array_loop_shrinks:
  assumes "\<And>nt p v k q. parseValue st n nt p = Some (Inr (v, k, q)) \<Longrightarrow> psize q < psize p"
    and "\<And>nt m p v k q. array_loop st n nt m p = Some (Inr (v, k, q)) \<Longrightarrow> psize q < psize p"
    and "array_loop st (Suc n) nt a p = Some (Inr (v, k, q))"
  shows "psize q < psize p"
proof (cases "ptype p = TokenRBracket")
  case True
  then show ?thesis using assms(3) nextValue_shrinks [of p] by simp
next
  case False
  obtain w k' r where v: "parseValue st n nt p = Some (Inr (w, k', r))"
    and l: "\<exists>a'. (ptype r = TokenComma \<and> array_loop st n k' a' (nextValue r) = Some (Inr (v, k, q)))
              \<or> array_loop st n k' a' r = Some (Inr (v, k, q))"
    using assms(3) False by (auto simp: Let_def split: parse_splits)
  have "psize q < psize r" using l assms(2) nextValue_shrinks [of r] by fastforce
  also have "psize r < psize p" by (rule assms(1) [OF v])
  finally show ?thesis .
qed

lemma parse_progress:
  "parseValue st n nt p = Some (Inr (v, k, q)) \<Longrightarrow> psize q < psize p"
  "map_loop st n nt m p = Some (Inr (v, k, q)) \<Longrightarrow> psize q < psize p"
  "array_loop st n nt a p = Some (Inr (v, k, q)) \<Longrightarrow> psize q < psize p"
proof (induction n arbitrary: nt p v k q m a)
  case (Suc n)
  { case 1 show ?case by (rule parseValue_shrinks [OF _ _ 1]) (erule Suc.IH)+ }
  { case 2 show ?case by (rule map_loop_shrinks [OF _ _ 2]) (erule Suc.IH)+ }
  { case 3 show ?case by (rule array_loop_shrinks [OF _ _ 3]) (erule Suc.IH)+ }
qed simp_all

text \<open>Fuel of twice the remaining input is enough.\<close>

lemma parse_fuel_enough:
  "2 * psize p + 1 \<le> n \<Longrightarrow> parseValue st n nt p \<noteq> None"
  "2 * psize p + 2 \<le> n \<Longrightarrow> map_loop st n nt m p \<noteq> None"
  "2 * psize p + 2 \<le> n \<Longrightarrow> array_loop st n nt a p \<noteq> None"
proof (induction n arbitrary: nt p m a)
  case (Suc n)
  { case 1
    then have "ptype p \<noteq> TokenEOF \<Longrightarrow> map_loop st n NODE_TYPE_MAP [] (nextKey p) \<noteq> None"
      and "ptype p \<noteq> TokenEOF \<Longrightarrow> array_loop st n NODE_TYPE_SLICE [] (nextValue p) \<noteq> None"
      using nextKey_shrinks [of p] nextValue_shrinks [of p] by (auto intro!: Suc.IH simp del: not_None_eq)
    then show ?case by (cases "ptype p") (auto simp: Let_def split: option.splits sum.splits) }
  { case 2
    have v: "ptype p \<noteq> TokenEOF \<Longrightarrow> parseValue st n nt (nextValue (nextValue p)) \<noteq> None"
      using 2 nextValue_shrinks [of p] nextValue_le [of "nextValue p"] by (intro Suc.IH) simp
    have l: "map_loop st n k' m' r \<noteq> None" "ptype r \<noteq> TokenEOF \<Longrightarrow> map_loop st n k' m' (nextKey r) \<noteq> None"
      if "parseValue st n nt (nextValue (nextValue p)) = Some (Inr (w, k', r))" "ptype p \<noteq> TokenEOF" for w k' r m'
      using 2 that parse_progress(1) [OF that(1)] nextValue_shrinks [of p] nextValue_le [of "nextValue p"] nextKey_shrinks [of r]
      by (auto intro!: Suc.IH simp del: not_None_eq)
    show ?case using v l by (auto simp: Let_def simp del: not_None_eq split: parse_splits) }
  { case 3
    have v: "parseValue st n nt p \<noteq> None" using 3 by (intro Suc.IH) simp
    have l: "array_loop st n k' m' r \<noteq> None" "ptype r \<noteq> TokenEOF \<Longrightarrow> array_loop st n k' m' (nextValue r) \<noteq> None"
      if "parseValue st n nt p = Some (Inr (w, k', r))" for w k' r m'
      using 3 that parse_progress(1) [OF that(1)] nextValue_shrinks [of r]
      by (auto intro!: Suc.IH simp del: not_None_eq)
    show ?case using v l by (auto simp: Let_def simp del: not_None_eq split: parse_splits) }
qed simp_all

section \<open>The parse of a value returns\<close>

lemma NewParser_psize: "psize (NewParser (NewLexer s)) \<le> length s"
  by (cases "nextToken False (NewLexer s)")
    (auto dest: nextToken_shrinks simp: NewParser_def nextValue_def NextValueToken_def psize_def NewLexer_def)

lemma TokenParse_Some: "\<exists>r. TokenParse st tkn = Some r"
proof -
  let ?v = "TrimSpace (tn_value tkn)"
  have "parseValue st (parse_fuel ?v) (tn_nodeType tkn) (NewParser (NewLexer ?v)) \<noteq> None"
    using NewParser_psize [of ?v] by (intro parse_fuel_enough) (simp add: parse_fuel_def)
  then show ?thesis
    by (auto simp: TokenParse_def Let_def split: option.splits sum.splits)
qed

end
