(* ===== verification/YamlLines.thy ===== *)
theory YamlLines
  imports YamlToken
begin

text \<open>
  Lines of the configuration reader (\<^verbatim>\<open>gconfig_v2/gconfig.go\<close>): indentation, comments, the split of a line into key
  and value, list items, and block scalars.

  The three scans that skip quoted text are loops over the rest of the line with the text read so far; the two flags
  \<^verbatim>\<open>inSingle\<close> and \<^verbatim>\<open>inDouble\<close>, of which at most one is set, are the quote mode.
\<close>

section \<open>Trimming\<close>

definition TrimLeft :: "char set \<Rightarrow> string \<Rightarrow> string" where
  "TrimLeft cutset s = dropWhile (\<lambda>c. c \<in> cutset) s"

definition TrimRight :: "char set \<Rightarrow> string \<Rightarrow> string" where
  "TrimRight cutset s = rev (dropWhile (\<lambda>c. c \<in> cutset) (rev s))"

definition Trim :: "char set \<Rightarrow> string \<Rightarrow> string" where
  "Trim cutset s = TrimRight cutset (TrimLeft cutset s)"

abbreviation TAB :: char where "TAB \<equiv> CHR 0x09"
abbreviation LF :: char where "LF \<equiv> CHR 0x0A"
abbreviation CR :: char where "CR \<equiv> CHR 0x0D"

section \<open>Errors\<close>

definition errLine :: "string \<Rightarrow> error" where
  "errLine line = yerr (''line '' @ line @ '' format not surport'')"

definition errDuplicateKey :: "string \<Rightarrow> string \<Rightarrow> error" where
  "errDuplicateKey line key = yerr (''line '' @ line @ '' duplicate key '' @ key)"

definition errMixedNode :: "string \<Rightarrow> error" where
  "errMixedNode line = yerr (''line '' @ line @ '' can not mix map and slice items'')"

definition errUnexpectedIndent :: "string \<Rightarrow> error" where
  "errUnexpectedIndent line = yerr (''line '' @ line @ '' unexpected indent'')"

definition errBlockScalarHeader :: "string \<Rightarrow> error" where
  "errBlockScalarHeader line = yerr (''line '' @ line @ '' invalid block scalar header'')"

section \<open>Indentation\<close>

fun indent_loop :: "string \<Rightarrow> int \<Rightarrow> string \<Rightarrow> error + int" where
  "indent_loop line n [] = Inr n"
| "indent_loop line n (c # cs) =
     (if c = CHR '' '' then indent_loop line (n + 1) cs
      else if c = TAB then Inl (yerr (''line '' @ line @ '' tab indentation not supported''))
      else Inr n)"

definition lineIndent :: "string \<Rightarrow> error + int" where
  "lineIndent line = indent_loop line 0 line"

definition countIndent :: "string \<Rightarrow> int" where
  "countIndent line = int (length (takeWhile (\<lambda>c. c = CHR '' '') line))"

definition isSliceFlag :: "string \<Rightarrow> bool" where
  "isSliceFlag line = starts_with ''- '' line"

section \<open>Keys and values\<close>

datatype qmode = Unquoted | InSingle | InDouble

fun split_loop :: "qmode \<Rightarrow> string \<Rightarrow> string \<Rightarrow> (string \<times> string) option \<times> qmode" where
  "split_loop q pre [] = (None, q)"
| "split_loop InSingle pre (c # cs) =
     (if c = CHR 0x27
      then (case cs of
              d # ds \<Rightarrow> if d = CHR 0x27 then split_loop InSingle (pre @ [c, d]) ds else split_loop Unquoted (pre @ [c]) cs
            | [] \<Rightarrow> (None, Unquoted))
      else split_loop InSingle (pre @ [c]) cs)"
| "split_loop InDouble pre (c # cs) =
     (if c = CHR 0x5C then (case cs of d # ds \<Rightarrow> split_loop InDouble (pre @ [c, d]) ds | [] \<Rightarrow> (None, InDouble))
      else if c = CHR 0x22 then split_loop Unquoted (pre @ [c]) cs
      else split_loop InDouble (pre @ [c]) cs)"
| "split_loop Unquoted pre (c # cs) =
     (if c = CHR 0x27 then split_loop InSingle (pre @ [c]) cs
      else if c = CHR 0x22 then split_loop InDouble (pre @ [c]) cs
      else if c = CHR '':'' then (Some (pre, cs), Unquoted)
      else split_loop Unquoted (pre @ [c]) cs)"

definition splitMapLine :: "string \<Rightarrow> error + (string \<times> string) option" where
  "splitMapLine line =
     (case split_loop Unquoted [] line of
        (Some kv, _) \<Rightarrow> Inr (Some kv)
      | (None, q) \<Rightarrow> if q \<noteq> Unquoted then Inl (yerr (''line '' @ line @ '' key quote not closed'')) else Inr None)"

definition normalizeMapKey :: "string \<Rightarrow> error + string" where
  "normalizeMapKey key =
     (let k = TrimSpace key in
      if k = [] then Inr []
      else case
          (if starts_with [CHR 0x27] k \<or> starts_with [CHR 0x22] k
           then (case NextToken (NewLexer k) of (tok, l) \<Rightarrow>
                  case lx_err l of
                    Some e \<Rightarrow> Inl e
                  | None \<Rightarrow>
                      if yt_Type tok \<noteq> TokenString \<or> lx_rest (skipWhitespace l) \<noteq> [] then Inl (yerr (''invalid quoted key '' @ k))
                      else Inr (yt_Value tok))
           else Inr k) of
          Inl e \<Rightarrow> Inl e
        | Inr k \<Rightarrow> if TrimSpace k = [] then Inr [] else Inr k)"

definition matchMap :: "string \<Rightarrow> error + (string \<times> string) option" where
  "matchMap line =
     (case splitMapLine line of
        Inl e \<Rightarrow> Inl e
      | Inr None \<Rightarrow> Inr None
      | Inr (Some (k, v)) \<Rightarrow> (case normalizeMapKey k of Inl e \<Rightarrow> Inl e | Inr k \<Rightarrow> Inr (Some (k, TrimSpace v))))"

section \<open>List items\<close>

text \<open>The groups 2, 3 and 4 of a list item: the key or the whole item, the colon if there is one, and the value.\<close>

fun slice_loop :: "qmode \<Rightarrow> nat \<Rightarrow> string \<Rightarrow> string \<Rightarrow> (string \<times> string) option" where
  "slice_loop q depth pre [] = None"
| "slice_loop InSingle depth pre (c # cs) =
     (if c = CHR 0x27
      then (case cs of
              d # ds \<Rightarrow> if d = CHR 0x27 then slice_loop InSingle depth (pre @ [c, d]) ds else slice_loop Unquoted depth (pre @ [c]) cs
            | [] \<Rightarrow> None)
      else slice_loop InSingle depth (pre @ [c]) cs)"
| "slice_loop InDouble depth pre (c # cs) =
     (if c = CHR 0x5C then (case cs of d # ds \<Rightarrow> slice_loop InDouble depth (pre @ [c, d]) ds | [] \<Rightarrow> None)
      else if c = CHR 0x22 then slice_loop Unquoted depth (pre @ [c]) cs
      else slice_loop InDouble depth (pre @ [c]) cs)"
| "slice_loop Unquoted depth pre (c # cs) =
     (if c = CHR 0x27 then slice_loop InSingle depth (pre @ [c]) cs
      else if c = CHR 0x22 then slice_loop InDouble depth (pre @ [c]) cs
      else if c = CHR ''{'' \<or> c = CHR ''['' then slice_loop Unquoted (depth + 1) (pre @ [c]) cs
      else if c = CHR ''}'' \<or> c = CHR '']'' then slice_loop Unquoted (depth - 1) (pre @ [c]) cs
      else if c = CHR '':'' \<and> depth = 0 \<and> (cs = [] \<or> hd cs = CHR '' '' \<or> hd cs = TAB) then Some (pre, cs)
      else slice_loop Unquoted depth (pre @ [c]) cs)"

definition matchSlice :: "string \<Rightarrow> (string \<times> string \<times> string) option" where
  "matchSlice line =
     (if \<not> starts_with ''- '' line then None
      else let body = TrimSpace (TrimPrefix line ''- '') in
        if body = [] then None
        else case slice_loop Unquoted 0 [] body of
               Some (k, v) \<Rightarrow> Some (k, '':'', TrimSpace v)
             | None \<Rightarrow> Some (body, [], []))"

section \<open>Block scalars\<close>

definition block_header :: "string \<Rightarrow> string" where
  "block_header value =
     (let value = TrimSpace value in
      if starts_with ''!!str '' value then TrimSpace (TrimPrefix value ''!!str'') else value)"

text \<open>The indicators after the style: the chomping character (0 when absent) and the indentation digit.\<close>

fun header_loop :: "char \<Rightarrow> int \<Rightarrow> string \<Rightarrow> (char \<times> int) option" where
  "header_loop chomp ind [] = Some (chomp, ind)"
| "header_loop chomp ind (c # cs) =
     (if c = CHR ''-'' \<or> c = CHR ''+'' then if chomp \<noteq> CHR 0x00 then None else header_loop c ind cs
      else if (of_char CHR ''1'' :: nat) \<le> of_char c \<and> of_char c \<le> (of_char CHR ''9'' :: nat)
      then if ind \<noteq> 0 then None else header_loop chomp (int (of_char c - of_char CHR ''0'')) cs
      else None)"

definition parseBlockScalarHeader :: "string \<Rightarrow> (char \<times> char \<times> int) option" where
  "parseBlockScalarHeader value =
     (case block_header value of
        [] \<Rightarrow> None
      | style # inds \<Rightarrow>
          if style \<noteq> CHR ''|'' \<and> style \<noteq> CHR ''>'' then None
          else (case header_loop (CHR 0x00) 0 inds of None \<Rightarrow> None | Some (chomp, ind) \<Rightarrow> Some (style, chomp, ind)))"

definition isInvalidBlockScalarHeader :: "string \<Rightarrow> bool" where
  "isInvalidBlockScalarHeader value =
     (let value = block_header value in
      if value = [] \<or> (hd value \<noteq> CHR ''|'' \<and> hd value \<noteq> CHR ''>'') then False else parseBlockScalarHeader value = None)"

definition normalizeBlockLines :: "string list \<Rightarrow> int \<Rightarrow> string list" where
  "normalizeBlockLines lines minIndent =
     map (\<lambda>line. if TrimSpace line = [] then []
                else if minIndent \<le> int (length line) then drop (nat minIndent) line
                else TrimLeft {CHR '' ''} line) lines"

definition applyBlockChomp :: "string \<Rightarrow> char \<Rightarrow> string" where
  "applyBlockChomp value chomp =
     (if chomp = CHR ''-'' then TrimRight {LF} value
      else if chomp = CHR ''+'' then value
      else if value = [] then value
      else TrimRight {LF} value @ [LF])"

fun fold_lines :: "bool \<Rightarrow> string list \<Rightarrow> string" where
  "fold_lines prevText [] = []"
| "fold_lines prevText (line # ls) =
     (if line = [] then LF # fold_lines False ls
      else (if prevText then '' '' else []) @ line @ fold_lines True ls)"

definition renderBlockScalar :: "string list \<Rightarrow> char \<Rightarrow> char \<Rightarrow> string" where
  "renderBlockScalar lines style chomp =
     (if lines = [] then []
      else if style = CHR ''|'' then applyBlockChomp (Join lines LF @ [LF]) chomp
      else applyBlockChomp (fold_lines False lines @ [LF]) chomp)"

definition in_block :: "int \<Rightarrow> string \<Rightarrow> bool" where
  "in_block parentIndent line \<longleftrightarrow> \<not> (TrimSpace line \<noteq> [] \<and> countIndent line \<le> parentIndent)"

fun min_indent :: "int \<Rightarrow> string list \<Rightarrow> int" where
  "min_indent m [] = m"
| "min_indent m (line # ls) =
     min_indent (if TrimSpace line \<noteq> [] \<and> (m = -1 \<or> countIndent line < m) then countIndent line else m) ls"

text \<open>The value of the block and the lines after it, from the lines that follow its header.\<close>

definition collectBlockScalar :: "string list \<Rightarrow> int \<Rightarrow> char \<Rightarrow> char \<Rightarrow> int \<Rightarrow> string \<times> string list" where
  "collectBlockScalar lines parentIndent style chomp indentIndicator =
     (let blockLines = takeWhile (in_block parentIndent) lines;
          minIndent = min_indent (-1) blockLines;
          minIndent = (if minIndent = -1 then parentIndent + 1 else minIndent);
          minIndent = (if 0 < indentIndicator then parentIndent + indentIndicator else minIndent)
      in (renderBlockScalar (normalizeBlockLines blockLines minIndent) style chomp, dropWhile (in_block parentIndent) lines))"

section \<open>Features that are refused\<close>

definition unsupportedLineFeature :: "string \<Rightarrow> string option" where
  "unsupportedLineFeature trimmed =
     (if trimmed = ''---'' then Some ''document start''
      else if trimmed = ''...'' then Some ''document end''
      else if starts_with ''? '' trimmed then Some ''complex key''
      else None)"

definition unsupportedMapKey :: "string \<Rightarrow> string option" where
  "unsupportedMapKey key =
     (let k = TrimSpace key in
      if k = ''<<'' then Some ''merge key''
      else if starts_with ''&'' k then Some ''anchor''
      else if starts_with ''*'' k then Some ''alias''
      else if starts_with ''!'' k then Some ''tag''
      else None)"

section \<open>Lines and comments\<close>

fun crlf :: "string \<Rightarrow> string" where
  "crlf [] = []"
| "crlf (c # cs) = (if c = CR \<and> cs \<noteq> [] \<and> hd cs = LF then LF # crlf (tl cs) else c # crlf cs)"

definition splitYamlLines :: "string \<Rightarrow> string list" where
  "splitYamlLines content = Split (map (\<lambda>c. if c = CR then LF else c) (crlf content)) LF"

fun strip_loop :: "qmode \<Rightarrow> string \<Rightarrow> string \<Rightarrow> string" where
  "strip_loop q pre [] = pre"
| "strip_loop InSingle pre (c # cs) =
     (if c = CHR 0x27
      then (case cs of
              d # ds \<Rightarrow> if d = CHR 0x27 then strip_loop InSingle (pre @ [c, d]) ds else strip_loop Unquoted (pre @ [c]) cs
            | [] \<Rightarrow> pre @ [c])
      else strip_loop InSingle (pre @ [c]) cs)"
| "strip_loop InDouble pre (c # cs) =
     (if c = CHR 0x5C then (case cs of d # ds \<Rightarrow> strip_loop InDouble (pre @ [c, d]) ds | [] \<Rightarrow> pre @ [c])
      else if c = CHR 0x22 then strip_loop Unquoted (pre @ [c]) cs
      else strip_loop InDouble (pre @ [c]) cs)"
| "strip_loop Unquoted pre (c # cs) =
     (if c = CHR 0x27 then strip_loop InSingle (pre @ [c]) cs
      else if c = CHR 0x22 then strip_loop InDouble (pre @ [c]) cs
      else if c = CHR ''#'' \<and> (pre = [] \<or> last pre = CHR '' '' \<or> last pre = TAB) then TrimRight {CHR '' '', TAB} pre
      else strip_loop Unquoted (pre @ [c]) cs)"

definition stripInlineComment :: "string \<Rightarrow> string" where
  "stripInlineComment line = strip_loop Unquoted [] line"

end
