(* ===== verification/GoReflect.thy ===== *)
theory GoReflect
  imports YamlToken
begin

text \<open>
  What the configuration readers see of Go types and values by reflection, as data: struct fields with their tags, types, values, zero
  values, the widths of integers, and the typing of values.
\<close>

section \<open>Types and values\<close>

record gfield =
  gf_Name :: string
  gf_Tag :: "(string \<times> string) list"
  gf_exported :: bool
  gf_Anonymous :: bool

datatype gkey = KString | KNamedString | KOther

datatype gtype =
    TString
  | TBool
  | TInt nat
  | TUint nat
  | TFloat nat
  | TTime
  | TDuration
  | TAny
  | TPtr gtype
  | TMap gkey gtype
  | TSlice gtype
  | TArray nat gtype
  | TStruct "(gfield \<times> gtype) list"
  | TOther

datatype gval =
    XString string
  | XBool bool
  | XInt int
  | XUint int
  | XFloat nat
  | XTime nat
  | XDuration int
  | XAny "yval option"
  | XPtr "gval option"
  | XMap "(string \<times> gval) list option"
  | XSlice "gval list option"
  | XArray "gval list"
  | XStruct "gval list"
  | XOther

fun zero :: "gtype \<Rightarrow> gval" where
  "zero TString = XString []"
| "zero TBool = XBool False"
| "zero (TInt n) = XInt 0"
| "zero (TUint n) = XUint 0"
| "zero (TFloat n) = XFloat 0"
| "zero TTime = XTime 0"
| "zero TDuration = XDuration 0"
| "zero TAny = XAny None"
| "zero (TPtr t) = XPtr None"
| "zero (TMap k t) = XMap None"
| "zero (TSlice t) = XSlice None"
| "zero (TArray n t) = XArray (replicate n (zero t))"
| "zero (TStruct fs) = XStruct (map (\<lambda>(f, t). zero t) fs)"
| "zero TOther = XOther"

definition any_of :: "yval \<Rightarrow> yval option" where
  "any_of y = (if y = VNull then None else Some y)"

section \<open>Tags, widths and maps\<close>

definition Tag_Get :: "gfield \<Rightarrow> string \<Rightarrow> string" where
  "Tag_Get f name = (case map_of (gf_Tag f) name of Some v \<Rightarrow> v | None \<Rightarrow> [])"

definition OverflowInt :: "nat \<Rightarrow> int \<Rightarrow> bool" where
  "OverflowInt n i \<longleftrightarrow> i < - (2 ^ (n - 1)) \<or> 2 ^ (n - 1) \<le> i"

definition OverflowUint :: "nat \<Rightarrow> int \<Rightarrow> bool" where
  "OverflowUint n i \<longleftrightarrow> 2 ^ n \<le> i"

definition assoc_put :: "string \<Rightarrow> 'a \<Rightarrow> (string \<times> 'a) list \<Rightarrow> (string \<times> 'a) list" where
  "assoc_put k v m =
     (if k \<in> fst ` set m then map (\<lambda>(k', v'). if k' = k then (k', v) else (k', v')) m else m @ [(k, v)])"

section \<open>Typed values\<close>

fun has_type :: "gtype \<Rightarrow> gval \<Rightarrow> bool"
  and has_types :: "(gfield \<times> gtype) list \<Rightarrow> gval list \<Rightarrow> bool" where
  "has_type TString v = (case v of XString _ \<Rightarrow> True | _ \<Rightarrow> False)"
| "has_type TBool v = (case v of XBool _ \<Rightarrow> True | _ \<Rightarrow> False)"
| "has_type (TInt n) v = (case v of XInt i \<Rightarrow> \<not> OverflowInt n i | _ \<Rightarrow> False)"
| "has_type (TUint n) v = (case v of XUint i \<Rightarrow> 0 \<le> i \<and> \<not> OverflowUint n i | _ \<Rightarrow> False)"
| "has_type (TFloat n) v = (case v of XFloat _ \<Rightarrow> True | _ \<Rightarrow> False)"
| "has_type TTime v = (case v of XTime _ \<Rightarrow> True | _ \<Rightarrow> False)"
| "has_type TDuration v = (case v of XDuration _ \<Rightarrow> True | _ \<Rightarrow> False)"
| "has_type TAny v = (case v of XAny y \<Rightarrow> y \<noteq> Some VNull | _ \<Rightarrow> False)"
| "has_type (TPtr t) v = (case v of XPtr None \<Rightarrow> True | XPtr (Some x) \<Rightarrow> has_type t x | _ \<Rightarrow> False)"
| "has_type (TMap k t) v =
     (case v of XMap None \<Rightarrow> True | XMap (Some m) \<Rightarrow> list_all (\<lambda>e. has_type t (snd e)) m | _ \<Rightarrow> False)"
| "has_type (TSlice t) v = (case v of XSlice None \<Rightarrow> True | XSlice (Some xs) \<Rightarrow> list_all (has_type t) xs | _ \<Rightarrow> False)"
| "has_type (TArray n t) v = (case v of XArray xs \<Rightarrow> length xs = n \<and> list_all (has_type t) xs | _ \<Rightarrow> False)"
| "has_type (TStruct fs) v = (case v of XStruct vs \<Rightarrow> has_types fs vs | _ \<Rightarrow> False)"
| "has_type TOther v = (v = XOther)"
| "has_types [] vs = (vs = [])"
| "has_types ((f, t) # fs) vs = (case vs of [] \<Rightarrow> False | v # vs' \<Rightarrow> has_type t v \<and> has_types fs vs')"

lemma has_types_iff: "has_types fs vs \<longleftrightarrow> list_all2 (\<lambda>ft. has_type (snd ft)) fs vs"
  by (induction fs arbitrary: vs) (auto split: list.splits)

lemma zero_typed: "has_type t (zero t)"
proof (induction t)
  case (TStruct fs)
  then have "has_type (snd ft) (zero (snd ft))" if "ft \<in> set fs" for ft using that by (cases ft) auto
  then show ?case by (auto simp: has_types_iff list_all2_map2 case_prod_beta intro: list.rel_refl_strong)
qed (auto simp: OverflowInt_def OverflowUint_def list_all_iff)

section \<open>Results\<close>

text \<open>The result of a conversion: \<^const>\<open>None\<close> is no result, a panic or, where the conversion has fuel, running out of it.\<close>

type_synonym 'a conv = "(error + 'a) option"

fun conv_all :: "'a conv list \<Rightarrow> 'a list conv" where
  "conv_all [] = Some (Inr [])"
| "conv_all (x # xs) =
     (case x of
        None \<Rightarrow> None
      | Some (Inl e) \<Rightarrow> Some (Inl e)
      | Some (Inr v) \<Rightarrow> (case conv_all xs of None \<Rightarrow> None | Some (Inl e) \<Rightarrow> Some (Inl e) | Some (Inr vs) \<Rightarrow> Some (Inr (v # vs))))"

definition conv_map :: "('a \<Rightarrow> 'b) \<Rightarrow> 'a conv \<Rightarrow> 'b conv" where
  "conv_map f x = (case x of None \<Rightarrow> None | Some (Inl e) \<Rightarrow> Some (Inl e) | Some (Inr v) \<Rightarrow> Some (Inr (f v)))"

lemma conv_map_simps [simp]:
  "conv_map f (Some (Inr v)) = Some (Inr (f v))" "conv_map f (Some (Inl e)) = Some (Inl e)" "conv_map f None = None"
  by (simp_all add: conv_map_def)

end
