(* ===== verification/YamlParse.thy ===== *)
theory YamlParse
  imports YamlFlow YamlLines GoReflect
begin

text \<open>
  The document parser of the configuration reader (\<^verbatim>\<open>gconfig_v2/gconfig.go\<close>): a stack of open nodes, driven by the
  indentation of the lines, and the conversion of the tree to values.

  The nodes are shared between the stack, their parents and the parser, which mutates them through any of these:
  they live in a heap, a list whose indices are the addresses; node 0 is the root.  The stack has its top first.  A function that
  changes nodes returns the new state with the error, since one caller goes on after an error.  \<^const>\<open>None\<close> is a panic.
  Logging is left out.
\<close>

section \<open>Nodes\<close>

datatype item = Tok tokenNode | Ref nat

record astNode =
  an_line :: string
  an_m :: "(string \<times> item) list"
  an_s :: "item list"
  an_indent :: int
  an_nodeName :: string
  an_nodeType :: nodeKind

record pyaml =
  py_heap :: "astNode list"
  py_stack :: "nat list"

abbreviation node :: "pyaml \<Rightarrow> nat \<Rightarrow> astNode" where
  "node py a \<equiv> py_heap py ! a"

definition put_node :: "nat \<Rightarrow> astNode \<Rightarrow> pyaml \<Rightarrow> pyaml" where
  "put_node a n py = py\<lparr>py_heap := (py_heap py)[a := n]\<rparr>"

text \<open>\<^verbatim>\<open>&AstNode{...}\<close> with empty collections: the state and the address.\<close>

definition new_node :: "string \<Rightarrow> int \<Rightarrow> string \<Rightarrow> nodeKind \<Rightarrow> pyaml \<Rightarrow> pyaml \<times> nat" where
  "new_node line ind name kind py =
     (py\<lparr>py_heap := py_heap py @ [\<lparr>an_line = line, an_m = [], an_s = [], an_indent = ind, an_nodeName = name, an_nodeType = kind\<rparr>]\<rparr>,
      length (py_heap py))"

definition push :: "nat \<Rightarrow> pyaml \<Rightarrow> pyaml" where
  "push a py = py\<lparr>py_stack := a # py_stack py\<rparr>"

definition set_type :: "nat \<Rightarrow> nodeKind \<Rightarrow> pyaml \<Rightarrow> pyaml" where
  "set_type a k py = put_node a ((node py a)\<lparr>an_nodeType := k\<rparr>) py"

definition append_s :: "nat \<Rightarrow> item \<Rightarrow> pyaml \<Rightarrow> pyaml" where
  "append_s a x py = put_node a ((node py a)\<lparr>an_s := an_s (node py a) @ [x]\<rparr>) py"

definition putMapItem :: "string \<Rightarrow> string \<Rightarrow> nat \<Rightarrow> item \<Rightarrow> pyaml \<Rightarrow> pyaml \<times> error option" where
  "putMapItem line key a value py =
     (if key \<in> fst ` set (an_m (node py a)) then (py, Some (errDuplicateKey line key))
      else (put_node a ((node py a)\<lparr>an_m := an_m (node py a) @ [(key, value)]\<rparr>) py, None))"

definition effectiveNodeType :: "astNode \<Rightarrow> nodeKind" where
  "effectiveNodeType n =
     (if an_nodeType n \<noteq> NODE_TYPE_UNKNOWN then an_nodeType n
      else if an_m n \<noteq> [] then NODE_TYPE_MAP
      else if an_s n \<noteq> [] then NODE_TYPE_SLICE
      else NODE_TYPE_UNKNOWN)"

section \<open>Feeding a line to its parent node\<close>

text \<open>
  From here on \<^const>\<open>None\<close> is a panic or a parse of a value that does not end (it has run out of its fuel, \<open>TokenParse\<close>); it is handed
  on by every caller.
\<close>

definition newParsedToken :: "std \<Rightarrow> string \<Rightarrow> string \<Rightarrow> string \<Rightarrow> int \<Rightarrow> bool \<Rightarrow> (error + tokenNode) go" where
  "newParsedToken st line k v ind rawStr = TokenParse st ((NewTokenNode line k v ind)\<lparr>tn_rawStr := rawStr\<rparr>)"

type_synonym fed = "(pyaml \<times> error option) go"

definition feedSliceScalar :: "std \<Rightarrow> string \<Rightarrow> string \<Rightarrow> nat \<Rightarrow> int \<Rightarrow> bool \<Rightarrow> pyaml \<Rightarrow> fed" where
  "feedSliceScalar st line v p ind rawStr py =
     (let k = an_nodeType (node py p) in
      if k \<noteq> NODE_TYPE_UNKNOWN \<and> k \<noteq> NODE_TYPE_SLICE then Some (py, Some (errMixedNode line))
      else let py = (if k = NODE_TYPE_UNKNOWN then set_type p NODE_TYPE_SLICE py else py) in
        case newParsedToken st line [] v ind rawStr of
          None \<Rightarrow> None
        | Some (Inl e) \<Rightarrow> Some (py, Some e)
        | Some (Inr token) \<Rightarrow> Some (append_s p (Tok token) py, None))"

definition deeper_than_token :: "int \<Rightarrow> item list \<Rightarrow> bool" where
  "deeper_than_token ind s \<longleftrightarrow> s \<noteq> [] \<and> (case last s of Tok t \<Rightarrow> tn_indent t < ind | Ref _ \<Rightarrow> False)"

definition feedSlice :: "std \<Rightarrow> string \<Rightarrow> string \<times> string \<times> string \<Rightarrow> nat \<Rightarrow> int \<Rightarrow> pyaml \<Rightarrow> fed" where
  "feedSlice st line grp p ind py =
     (case grp of (g2, g3, g4) \<Rightarrow>
      let k = Trim {CHR '' ''} g2; v = Trim {CHR '' ''} g4; split = TrimSpace g3 in
      if k = [] then Some (py, Some (yerr (''parse line:'' @ line @ '' key is empty'')))
      else let t = an_nodeType (node py p) in
        if t \<noteq> NODE_TYPE_UNKNOWN \<and> t \<noteq> NODE_TYPE_SLICE then Some (py, Some (errMixedNode line))
        else let py = (if t = NODE_TYPE_UNKNOWN then set_type p NODE_TYPE_SLICE py else py) in
          if deeper_than_token ind (an_s (node py p)) then Some (py, Some (errUnexpectedIndent line))
          else if v = [] \<and> split \<noteq> [] then
            (case new_node line ind k NODE_TYPE_UNKNOWN py of (py, a) \<Rightarrow> Some (append_s p (Ref a) (push a py), None))
          else if v \<noteq> [] \<and> split \<noteq> [] then
            (case newParsedToken st line k v (ind + 2) False of
               None \<Rightarrow> None
             | Some (Inl e) \<Rightarrow> Some (py, Some e)
             | Some (Inr token) \<Rightarrow>
                 (case new_node line ind k NODE_TYPE_MAP py of (py, a) \<Rightarrow>
                    Some (append_s p (Ref a) (put_node a ((node py a)\<lparr>an_m := [(k, Tok token)]\<rparr>) py), None)))
          else if v = [] \<and> split = [] then
            (case newParsedToken st line [] k ind False of
               None \<Rightarrow> None
             | Some (Inl e) \<Rightarrow> Some (py, Some e)
             | Some (Inr token) \<Rightarrow> Some (append_s p (Tok token) py, None))
          else Some (py, Some (errLine line)))"

text \<open>The map that receives an entry under a parent: its own, or the one of its last element when the parent is a list.\<close>

definition map_target :: "string \<Rightarrow> nat \<Rightarrow> int \<Rightarrow> pyaml \<Rightarrow> error + nat" where
  "map_target line p ind py =
     (if an_s (node py p) = [] then Inl (errLine line)
      else case last (an_s (node py p)) of
             Tok _ \<Rightarrow> Inl (errMixedNode line)
           | Ref s \<Rightarrow> if ind \<le> an_indent (node py s) then Inl (errMixedNode line) else Inr s)"

definition feedMapValue :: "std \<Rightarrow> string \<Rightarrow> string \<Rightarrow> string \<Rightarrow> nat \<Rightarrow> int \<Rightarrow> bool \<Rightarrow> pyaml \<Rightarrow> fed" where
  "feedMapValue st line k v p ind rawStr py =
     (case newParsedToken st line k v ind rawStr of
        None \<Rightarrow> None
      | Some (Inl e) \<Rightarrow> Some (py, Some e)
      | Some (Inr token) \<Rightarrow>
          Some (case an_nodeType (node py p) of
             NODE_TYPE_UNKNOWN \<Rightarrow> putMapItem line k p (Tok token) (set_type p NODE_TYPE_MAP py)
           | NODE_TYPE_MAP \<Rightarrow> putMapItem line k p (Tok token) py
           | NODE_TYPE_SLICE \<Rightarrow>
               (case map_target line p ind py of
                  Inl e \<Rightarrow> (py, Some e)
                | Inr s \<Rightarrow> putMapItem line k s (Tok token) py)
           | _ \<Rightarrow> (py, Some (errLine line))))"

text \<open>A node that no map accepted stays unreachable.\<close>

definition feedMap :: "std \<Rightarrow> string \<Rightarrow> string \<Rightarrow> string \<Rightarrow> nat \<Rightarrow> int \<Rightarrow> pyaml \<Rightarrow> fed" where
  "feedMap st line k v p ind py =
     (if k = [] then Some (py, Some (yerr (''parse line:'' @ line @ '' key is empty'')))
      else case unsupportedMapKey k of
        Some feature \<Rightarrow> Some (py, Some (errUnsupportedYAMLFeature feature))
      | None \<Rightarrow>
          let k = TrimSpace k; v = TrimSpace v in
          if k \<noteq> [] \<and> v = [] then
            (case new_node line ind k NODE_TYPE_UNKNOWN py of (py, a) \<Rightarrow>
              Some (case (case an_nodeType (node py p) of
                      NODE_TYPE_UNKNOWN \<Rightarrow> putMapItem line k p (Ref a) (set_type p NODE_TYPE_MAP py)
                    | NODE_TYPE_MAP \<Rightarrow> putMapItem line k p (Ref a) py
                    | NODE_TYPE_SLICE \<Rightarrow>
                        (case map_target line p ind py of
                           Inl e \<Rightarrow> (py, Some e)
                         | Inr s \<Rightarrow> putMapItem line k s (Ref a) py)
                    | _ \<Rightarrow> (py, Some (errLine line))) of
                (py, None) \<Rightarrow> (push a py, None)
              | (py, Some e) \<Rightarrow> (py, Some e)))
          else if k \<noteq> [] \<and> v \<noteq> [] then feedMapValue st line k v p ind False py
          else Some (py, Some (errLine line)))"

section \<open>One line\<close>

record ystate =
  ys_py :: pyaml
  ys_lastIndent :: int
  ys_lastMayNest :: bool

text \<open>What the body of the loop does: it leaves with an error, or goes on with the lines that are left.\<close>

type_synonym line_result = "(error + ystate \<times> string list) go"

definition close_to :: "int \<Rightarrow> pyaml \<Rightarrow> pyaml" where
  "close_to ind py = py\<lparr>py_stack := dropWhile (\<lambda>a. ind \<le> an_indent (node py a)) (py_stack py)\<rparr>"

text \<open>The end of the loop body, after the line was fed.\<close>

definition line_done :: "int \<Rightarrow> bool \<Rightarrow> string list \<Rightarrow> fed \<Rightarrow> line_result" where
  "line_done ind mayNest rest r =
     (case r of
        None \<Rightarrow> None
      | Some (py, Some e) \<Rightarrow> Some (Inl e)
      | Some (py, None) \<Rightarrow> Some (Inr (\<lparr>ys_py = py, ys_lastIndent = ind, ys_lastMayNest = mayNest\<rparr>, rest)))"

definition map_line :: "std \<Rightarrow> string \<Rightarrow> string list \<Rightarrow> nat \<Rightarrow> int \<Rightarrow> pyaml \<Rightarrow> line_result" where
  "map_line st line rest p ind py =
     (case matchMap line of
        Inl e \<Rightarrow> Some (Inl e)
      | Inr None \<Rightarrow> Some (Inl (errLine line))
      | Inr (Some (lk, lv)) \<Rightarrow>
          (case unsupportedMapKey lk of
             Some feature \<Rightarrow> Some (Inl (errUnsupportedYAMLFeature feature))
           | None \<Rightarrow>
          case unsupportedPlainScalar lv of
             Some feature \<Rightarrow> Some (Inl (errUnsupportedYAMLFeature feature))
           | None \<Rightarrow>
          case parseBlockScalarHeader lv of
             Some (style, chomp, indentIndicator) \<Rightarrow>
               (case collectBlockScalar rest ind style chomp indentIndicator of (value, rest') \<Rightarrow>
                  line_done ind False rest' (feedMapValue st line lk value p ind True py))
           | None \<Rightarrow>
               if isInvalidBlockScalarHeader lv then Some (Inl (errBlockScalarHeader line))
               else line_done ind (TrimSpace lv = []) rest (feedMap st line lk lv p ind py)))"

text \<open>A list item whose value is a block scalar: the item is added whatever the parent is.\<close>

definition block_entry :: "std \<Rightarrow> string \<Rightarrow> string \<Rightarrow> string \<Rightarrow> nat \<Rightarrow> int \<Rightarrow> pyaml \<Rightarrow> fed" where
  "block_entry st line name value p ind py =
     (let py = (if an_nodeType (node py p) = NODE_TYPE_UNKNOWN then set_type p NODE_TYPE_SLICE py else py);
          k = Trim {CHR '' ''} name
      in case newParsedToken st line k value (ind + 2) True of
           None \<Rightarrow> None
         | Some (Inl e) \<Rightarrow> Some (py, Some e)
         | Some (Inr token) \<Rightarrow>
             (case new_node line ind k NODE_TYPE_MAP py of (py, a) \<Rightarrow>
                Some (append_s p (Ref a) (put_node a ((node py a)\<lparr>an_m := [(k, Tok token)]\<rparr>) py), None)))"

definition slice_line :: "std \<Rightarrow> string \<Rightarrow> string \<Rightarrow> string list \<Rightarrow> nat \<Rightarrow> int \<Rightarrow> pyaml \<Rightarrow> line_result" where
  "slice_line st line trimmed rest p ind py =
     (let body = TrimSpace (TrimPrefix trimmed ''- '') in
      case parseBlockScalarHeader body of
        Some (style, chomp, indentIndicator) \<Rightarrow>
          (case collectBlockScalar rest ind style chomp indentIndicator of (value, rest') \<Rightarrow>
             line_done ind False rest' (map_option (\<lambda>(py, err). (py, None)) (feedSliceScalar st line value p ind True py)))
      | None \<Rightarrow>
          if isInvalidBlockScalarHeader body then Some (Inl (errBlockScalarHeader line))
          else (case unsupportedPlainScalar body of
             Some feature \<Rightarrow> Some (Inl (errUnsupportedYAMLFeature feature))
           | None \<Rightarrow>
          case matchSlice trimmed of
             None \<Rightarrow> Some (Inl (errLine line))
           | Some (g2, g3, g4) \<Rightarrow>
          (case unsupportedMapKey (TrimSpace g2) of
             Some feature \<Rightarrow> Some (Inl (errUnsupportedYAMLFeature feature))
           | None \<Rightarrow>
          case unsupportedPlainScalar (TrimSpace g4) of
             Some feature \<Rightarrow> Some (Inl (errUnsupportedYAMLFeature feature))
           | None \<Rightarrow>
          case parseBlockScalarHeader (TrimSpace g4) of
             Some (style, chomp, indentIndicator) \<Rightarrow>
               (case collectBlockScalar rest ind style chomp indentIndicator of (value, rest') \<Rightarrow>
                  line_done ind False rest' (block_entry st line g2 value p ind py))
           | None \<Rightarrow>
               if isInvalidBlockScalarHeader (TrimSpace g4) then Some (Inl (errBlockScalarHeader line))
               else line_done ind (TrimSpace g3 = '':'') rest (feedSlice st line (g2, g3, g4) p ind py))))"

definition parse_line :: "std \<Rightarrow> ystate \<Rightarrow> string \<Rightarrow> string list \<Rightarrow> line_result" where
  "parse_line st ys raw rest =
     (let line = stripInlineComment raw; trimmed = TrimSpace line in
      if trimmed = [] \<or> starts_with ''#'' trimmed then Some (Inr (ys, rest))
      else case unsupportedLineFeature trimmed of
        Some feature \<Rightarrow> Some (Inl (errUnsupportedYAMLFeature feature))
      | None \<Rightarrow>
          (case lineIndent line of
             Inl e \<Rightarrow> Some (Inl e)
           | Inr ind \<Rightarrow>
               if ys_lastIndent ys < 0 \<and> 0 < ind then Some (Inl (errUnexpectedIndent line))
               else if 0 \<le> ys_lastIndent ys \<and> ys_lastIndent ys < ind \<and> \<not> ys_lastMayNest ys then Some (Inl (errUnexpectedIndent line))
               else let py = close_to ind (ys_py ys) in
                 (case py_stack py of
                    [] \<Rightarrow> None
                  | p # _ \<Rightarrow>
                      (if \<not> isSliceFlag trimmed then map_line st line rest p ind py
                       else slice_line st line trimmed rest p ind py))))"

section \<open>The document\<close>

lemma collectBlockScalar_shrinks: "length (snd (collectBlockScalar rest i s c d)) \<le> length rest"
  by (simp add: collectBlockScalar_def Let_def length_dropWhile_le)

lemma line_done_rest: "line_done ind b rest r = Some (Inr (ys, rest')) \<Longrightarrow> rest' = rest"
  by (auto simp: line_done_def split: prod.splits option.splits)

lemma block_rest:
  "(case collectBlockScalar rest i s c d of (value, rest') \<Rightarrow> line_done ind b rest' (f value)) = Some (Inr (ys, rest''))
     \<Longrightarrow> length rest'' \<le> length rest"
  using collectBlockScalar_shrinks [of rest i s c d] by (auto simp: case_prod_beta dest: line_done_rest)

lemma map_line_rest: "map_line st line rest p ind py = Some (Inr (ys, rest')) \<Longrightarrow> length rest' \<le> length rest"
  by (auto simp: map_line_def split: sum.splits option.splits if_splits dest: line_done_rest block_rest)

lemma slice_line_rest: "slice_line st line trimmed rest p ind py = Some (Inr (ys, rest')) \<Longrightarrow> length rest' \<le> length rest"
  by (auto simp: slice_line_def Let_def split: sum.splits option.splits if_splits dest: line_done_rest block_rest)

lemma parse_line_rest: "parse_line st ys raw rest = Some (Inr (ys', rest')) \<Longrightarrow> length rest' \<le> length rest"
  by (auto simp: parse_line_def Let_def split: sum.splits option.splits if_splits list.splits dest: map_line_rest slice_line_rest)


function parse_loop :: "std \<Rightarrow> ystate \<Rightarrow> string list \<Rightarrow> (error + ystate) go" where
  "parse_loop st ys [] = Some (Inr ys)"
| "parse_loop st ys (raw # rest) =
     (case parse_line st ys raw rest of
        None \<Rightarrow> None
      | Some (Inl e) \<Rightarrow> Some (Inl e)
      | Some (Inr (ys', rest')) \<Rightarrow> parse_loop st ys' rest')"
  by pat_completeness auto
termination
  by (relation "measure (\<lambda>(st, ys, ls). length ls)") (auto dest: parse_line_rest)

definition rootNode :: astNode where
  "rootNode = \<lparr>an_line = [], an_m = [], an_s = [], an_indent = -1, an_nodeName = ''root'', an_nodeType = NODE_TYPE_MAP\<rparr>"

definition start :: ystate where
  "start = \<lparr>ys_py = \<lparr>py_heap = [rootNode], py_stack = [0]\<rparr>, ys_lastIndent = -1, ys_lastMayNest = False\<rparr>"

text \<open>The map that \<^verbatim>\<open>parse\<close> returns has the root node as its only entry: here it is the heap.\<close>

definition parse :: "std \<Rightarrow> string \<Rightarrow> (error + pyaml) go" where
  "parse st content = (case parse_loop st start (splitYamlLines content) of
     None \<Rightarrow> None | Some (Inl e) \<Rightarrow> Some (Inl e) | Some (Inr ys) \<Rightarrow> Some (Inr (ys_py ys)))"

section \<open>The tree as a value\<close>

definition ends_with :: "string \<Rightarrow> string \<Rightarrow> bool" where
  "ends_with suf s = starts_with (rev suf) (rev s)"

definition TrimSuffix :: "string \<Rightarrow> string \<Rightarrow> string" where
  "TrimSuffix s suf = (if ends_with suf s then take (length s - length suf) s else s)"

definition isNamedSliceNode :: "astNode \<Rightarrow> bool" where
  "isNamedSliceNode n =
     (let line = TrimSpace (an_line n) in
      if \<not> starts_with ''- '' line then False
      else let body = TrimSpace (TrimPrefix line ''- '') in
        ends_with '':'' body \<and> TrimSpace (TrimSuffix body '':'') = an_nodeName n)"

definition toMap :: "(nat \<Rightarrow> yval conv) \<Rightarrow> astNode \<Rightarrow> yval conv" where
  "toMap to_any n = conv_map VMap (conv_all (map (\<lambda>(k, x).
     conv_map (Pair k) (case x of Tok t \<Rightarrow> Some (Inr (token_toAny t)) | Ref a \<Rightarrow> to_any a)) (an_m n)))"

definition toSlice :: "(nat \<Rightarrow> yval conv) \<Rightarrow> astNode list \<Rightarrow> astNode \<Rightarrow> yval conv" where
  "toSlice to_any h n = conv_map VArr (conv_all (map (\<lambda>x.
     case x of
       Tok t \<Rightarrow> Some (Inr (token_toAny t))
     | Ref a \<Rightarrow> conv_map (\<lambda>val. if isNamedSliceNode (h ! a) then VMap [(an_nodeName (h ! a), val)] else val) (to_any a)) (an_s n)))"

primrec node_toAny :: "astNode list \<Rightarrow> nat \<Rightarrow> nat \<Rightarrow> yval conv" where
  "node_toAny h 0 a = None"
| "node_toAny h (Suc d) a =
     (let n = h ! a in
      case an_nodeType n of
        NODE_TYPE_MAP \<Rightarrow> toMap (node_toAny h d) n
      | NODE_TYPE_SLICE \<Rightarrow> toSlice (node_toAny h d) h n
      | NODE_TYPE_UNKNOWN \<Rightarrow>
          if an_m n \<noteq> [] then toMap (node_toAny h d) n
          else if an_s n \<noteq> [] then toSlice (node_toAny h d) h n
          else Some (Inr VNull)
      | _ \<Rightarrow> Some (Inl (yerr ''unsupported ast node type'')))"

text \<open>A tree is no deeper than its number of nodes.\<close>

definition parseToMap :: "std \<Rightarrow> string \<Rightarrow> (error + (string \<times> yval) list) go" where
  "parseToMap st content =
     (case parse st content of
        None \<Rightarrow> None
      | Some (Inl e) \<Rightarrow> Some (Inl e)
      | Some (Inr py) \<Rightarrow>
          (case node_toAny (py_heap py) (length (py_heap py)) 0 of
             None \<Rightarrow> None
           | Some (Inl e) \<Rightarrow> Some (Inl e)
           | Some (Inr (VMap m)) \<Rightarrow> Some (Inr m)
           | Some (Inr _) \<Rightarrow> Some (Inl (yerr ''root ast node is not map''))))"

end
