(* ===== verification/YamlDecode.thy ===== *)
theory YamlDecode
  imports YamlParse
begin

text \<open>
  Decoding a configuration into a Go value (the last part of \<^verbatim>\<open>gconfig_v2/gconfig.go\<close>).

  What the code learns by reflection is data here: a Go type is a \<open>gtype\<close>, a Go value a \<open>gval\<close>.  A defined type behaves as its
  underlying type, except as the key of a map, where only \<^verbatim>\<open>string\<close> itself makes the map assignable.  Interfaces are the
  empty interface.  Types are finite trees, so a struct that contains itself through a pointer is not covered.  On an
  error the destination is left partly written, and the result is the error alone.  \<^const>\<open>None\<close> is a panic of the reflection package.  A map is
  traversed in the order of its list.  The two operations on floating-point numbers are the parameter \<open>floats\<close>.
\<close>

section \<open>Floating-point numbers\<close>

record floats =
  fl_overflow :: "nat \<Rightarrow> nat \<Rightarrow> bool"
  fl_of_int :: "int \<Rightarrow> nat"

section \<open>Keys\<close>

definition tagNames :: "string list" where
  "tagNames = [''gconfig'', ''yaml'', ''json'']"

text \<open>The key of a field, \<^const>\<open>None\<close> for a field that is skipped.\<close>

fun key_loop :: "gfield \<Rightarrow> string list \<Rightarrow> string option" where
  "key_loop f [] = Some (gf_Name f)"
| "key_loop f (tagName # tags) =
     (let tag = Tag_Get f tagName in
      if tag = [] then key_loop f tags
      else let name = hd (Split tag CHR '','') in
        if name = ''-'' then None
        else if name \<noteq> [] then Some name
        else key_loop f tags)"

definition fieldKey :: "gfield \<Rightarrow> string option" where
  "fieldKey f = key_loop f tagNames"

text \<open>\<^verbatim>\<open>strings.ToLower\<close> of the first byte: half of a longer character is replaced by the replacement character.\<close>

definition lower_first :: "string \<Rightarrow> string" where
  "lower_first key =
     (if 128 \<le> (of_char (hd key) :: nat) then [CHR 0xEF, CHR 0xBF, CHR 0xBD] else ToLower [hd key]) @ tl key"

definition lookupMapValue :: "(string \<times> yval) list \<Rightarrow> string \<Rightarrow> yval option" where
  "lookupMapValue m key =
     (case map_of m key of
        Some v \<Rightarrow> Some v
      | None \<Rightarrow> if key = [] then None else map_of m (lower_first key))"

section \<open>Numbers\<close>

text \<open>A source value has one of the types the parser makes, so the branches for unsigned sources do not arise.\<close>

definition setIntValue :: "string \<Rightarrow> nat \<Rightarrow> yval \<Rightarrow> error + gval" where
  "setIntValue path n src =
     (case src of
        VDuration d \<Rightarrow> Inl (yerr (path @ '' got time.Duration''))
      | VInt i \<Rightarrow> if OverflowInt n i then Inl (yerr (path @ '' value overflows'')) else Inr (XInt i)
      | _ \<Rightarrow> Inl (yerr (path @ '' want integer'')))"

definition setUintValue :: "string \<Rightarrow> nat \<Rightarrow> yval \<Rightarrow> error + gval" where
  "setUintValue path n src =
     (case src of
        VDuration d \<Rightarrow> Inl (yerr (path @ '' got time.Duration''))
      | VInt i \<Rightarrow> if i < 0 \<or> OverflowUint n i then Inl (yerr (path @ '' value overflows'')) else Inr (XUint i)
      | _ \<Rightarrow> Inl (yerr (path @ '' want unsigned integer'')))"

text \<open>A duration has an integer kind and is converted.\<close>

definition setFloatValue :: "floats \<Rightarrow> string \<Rightarrow> nat \<Rightarrow> yval \<Rightarrow> error + gval" where
  "setFloatValue fl path n src =
     (case src of
        VFloat f \<Rightarrow> if fl_overflow fl n f then Inl (yerr (path @ '' value overflows'')) else Inr (XFloat f)
      | VInt i \<Rightarrow> Inr (XFloat (fl_of_int fl i))
      | VDuration d \<Rightarrow> Inr (XFloat (fl_of_int fl d))
      | _ \<Rightarrow> Inl (yerr (path @ '' want float'')))"

section \<open>Values\<close>

definition index_path :: "string \<Rightarrow> nat \<Rightarrow> string" where
  "index_path path i = path @ ''['' @ Itoa (int i) @ '']''"

text \<open>The loop over the entries of a source map, with the function that decodes an element.\<close>

fun put_entries :: "(string \<Rightarrow> yval \<Rightarrow> gval conv) \<Rightarrow> string \<Rightarrow> (string \<times> gval) list \<Rightarrow> (string \<times> yval) list \<Rightarrow> gval conv" where
  "put_entries elem path m [] = Some (Inr (XMap (Some m)))"
| "put_entries elem path m ((key, value) # es) =
     (case elem (path @ ''.'' @ key) value of
        None \<Rightarrow> None
      | Some (Inl e) \<Rightarrow> Some (Inl e)
      | Some (Inr v) \<Rightarrow> put_entries elem path (assoc_put key v m) es)"

definition setMapValue :: "(string \<Rightarrow> yval \<Rightarrow> gval conv) \<Rightarrow> string \<Rightarrow> gkey \<Rightarrow> gval \<Rightarrow> yval \<Rightarrow> gval conv" where
  "setMapValue elem path k dst src =
     (case src of
        VMap es \<Rightarrow>
          if k = KOther then Some (Inl (yerr (path @ '' map key must be string'')))
          else (case dst of
                  XMap (Some m) \<Rightarrow> put_entries elem path m es
                | _ \<Rightarrow> put_entries elem path [] es)
      | _ \<Rightarrow> Some (Inl (yerr (path @ '' want map''))))"

definition setSliceValue :: "(string \<Rightarrow> yval \<Rightarrow> gval conv) \<Rightarrow> string \<Rightarrow> yval \<Rightarrow> gval conv" where
  "setSliceValue elem path src =
     (case src of
        VArr vs \<Rightarrow> conv_map (\<lambda>xs. XSlice (Some xs)) (conv_all (map (\<lambda>(i, v). elem (index_path path i) v) (enumerate 0 vs)))
      | _ \<Rightarrow> Some (Inl (yerr (path @ '' want slice''))))"

text \<open>The elements past the input keep what they have.\<close>

definition setArrayValue :: "(string \<Rightarrow> gval \<Rightarrow> yval \<Rightarrow> gval conv) \<Rightarrow> string \<Rightarrow> nat \<Rightarrow> gval \<Rightarrow> yval \<Rightarrow> gval conv" where
  "setArrayValue elem path n dst src =
     (case src of
        VArr vs \<Rightarrow>
          if n < length vs then Some (Inl (yerr (path @ '' array is smaller than the input'')))
          else (case dst of
                  XArray xs \<Rightarrow> conv_map (\<lambda>ys. XArray (ys @ drop (length vs) xs))
                    (conv_all (map (\<lambda>(i, x, v). elem (index_path path i) x v) (enumerate 0 (zip xs vs))))
                | _ \<Rightarrow> None)
      | _ \<Rightarrow> Some (Inl (yerr (path @ '' want array''))))"

text \<open>
  \<^verbatim>\<open>setValue\<close> and \<^verbatim>\<open>setStructValue\<close>.  The flag is \<^verbatim>\<open>dst.CanSet()\<close>; below a pointer, and for the elements of
  slices and arrays, it is set.  The value of a field is decoded by \<open>set_field\<close>, which is the body of the loop over the fields.
\<close>

function setValue :: "floats \<Rightarrow> string \<Rightarrow> bool \<Rightarrow> gtype \<Rightarrow> gval \<Rightarrow> yval \<Rightarrow> gval conv"
  and set_field :: "floats \<Rightarrow> string \<Rightarrow> gfield \<Rightarrow> gtype \<Rightarrow> gval \<Rightarrow> (string \<times> yval) list \<Rightarrow> gval conv"
  and setStructValue :: "floats \<Rightarrow> string \<Rightarrow> (gfield \<times> gtype) list \<Rightarrow> gval list \<Rightarrow> (string \<times> yval) list \<Rightarrow> gval list conv" where
  "setValue fl path canSet t dst src =
     (if \<not> canSet then Some (Inl (yerr (path @ '' can not be set'')))
      else if src = VNull then Some (Inr (zero t))
      else case t of
        TPtr t' \<Rightarrow>
          conv_map (\<lambda>v. XPtr (Some v))
            (setValue fl path True t' (case dst of XPtr (Some v) \<Rightarrow> v | _ \<Rightarrow> zero t') src)
      | TTime \<Rightarrow> (case src of VTime x \<Rightarrow> Some (Inr (XTime x)) | _ \<Rightarrow> Some (Inl (yerr (path @ '' want time.Time''))))
      | TDuration \<Rightarrow> (case src of VDuration d \<Rightarrow> Some (Inr (XDuration d)) | _ \<Rightarrow> Some (Inl (yerr (path @ '' want time.Duration''))))
      | TAny \<Rightarrow> Some (Inr (XAny (any_of src)))
      | TStruct fs \<Rightarrow>
          (case src of
             VMap m \<Rightarrow> (case dst of XStruct vs \<Rightarrow> conv_map XStruct (setStructValue fl path fs vs m) | _ \<Rightarrow> None)
           | _ \<Rightarrow> Some (Inl (yerr (path @ '' want struct map''))))
      | TMap k t' \<Rightarrow>
          (case src of
             VMap es \<Rightarrow>
               if k = KString \<and> t' = TAny then Some (Inr (XMap (Some (map (\<lambda>(key, y). (key, XAny (any_of y))) es))))
               else setMapValue (\<lambda>p. setValue fl p True t' (zero t')) path k dst src
           | _ \<Rightarrow> setMapValue (\<lambda>p. setValue fl p True t' (zero t')) path k dst src)
      | TSlice t' \<Rightarrow>
          (case src of
             VArr vs \<Rightarrow>
               if t' = TAny then Some (Inr (XSlice (Some (map (\<lambda>y. XAny (any_of y)) vs))))
               else setSliceValue (\<lambda>p. setValue fl p True t' (zero t')) path src
           | _ \<Rightarrow> setSliceValue (\<lambda>p. setValue fl p True t' (zero t')) path src)
      | TArray n t' \<Rightarrow> setArrayValue (\<lambda>p. setValue fl p True t') path n dst src
      | TString \<Rightarrow> (case src of VStr s \<Rightarrow> Some (Inr (XString s)) | _ \<Rightarrow> Some (Inl (yerr (path @ '' want string''))))
      | TBool \<Rightarrow> (case src of VBool b \<Rightarrow> Some (Inr (XBool b)) | _ \<Rightarrow> Some (Inl (yerr (path @ '' want bool''))))
      | TInt n \<Rightarrow> Some (setIntValue path n src)
      | TUint n \<Rightarrow> Some (setUintValue path n src)
      | TFloat n \<Rightarrow> Some (setFloatValue fl path n src)
      | TOther \<Rightarrow> Some (Inl (yerr (path @ '' unsupported field type''))))"
| "set_field fl path f t dst m =
     (if \<not> gf_exported f \<and> \<not> gf_Anonymous f then Some (Inr dst)
      else case fieldKey f of
        None \<Rightarrow> Some (Inr dst)
      | Some key \<Rightarrow>
          let fpath = path @ ''.'' @ gf_Name f;
              other = (case lookupMapValue m key of
                         None \<Rightarrow> Some (Inr dst)
                       | Some value \<Rightarrow> setValue fl fpath (gf_exported f) t dst value)
          in if gf_Anonymous f \<and> key = gf_Name f then
               (case t of
                  TStruct fs \<Rightarrow> (case dst of XStruct vs \<Rightarrow> conv_map XStruct (setStructValue fl fpath fs vs m) | _ \<Rightarrow> None)
                | TPtr t' \<Rightarrow>
                    if dst = XPtr None \<and> \<not> gf_exported f then None
                    else let target = (case dst of XPtr (Some v) \<Rightarrow> v | _ \<Rightarrow> zero t') in
                      (case t' of
                         TStruct fs \<Rightarrow>
                           (case target of XStruct vs \<Rightarrow> conv_map (\<lambda>vs. XPtr (Some (XStruct vs))) (setStructValue fl fpath fs vs m) | _ \<Rightarrow> None)
                       | _ \<Rightarrow>
                           (case lookupMapValue m key of
                              None \<Rightarrow> Some (Inr (XPtr (Some target)))
                            | Some value \<Rightarrow> setValue fl fpath (gf_exported f) t (XPtr (Some target)) value))
                | _ \<Rightarrow> other)
             else other)"
| "setStructValue fl path [] vs m = Some (Inr vs)"
| "setStructValue fl path ((f, t) # fs) vs m =
     (case vs of
        [] \<Rightarrow> None
      | v # vs' \<Rightarrow>
          (case set_field fl path f t v m of
             None \<Rightarrow> None
           | Some (Inl e) \<Rightarrow> Some (Inl e)
           | Some (Inr v') \<Rightarrow> conv_map (Cons v') (setStructValue fl path fs vs' m)))"

  by pat_completeness auto

termination
  by (relation "measure (\<lambda>x. case x of
        Inl (_, _, _, t, _) \<Rightarrow> 2 * size t
      | Inr (Inl (_, _, _, t, _)) \<Rightarrow> 2 * size t + 1
      | Inr (Inr (_, _, fs, _)) \<Rightarrow> 2 * size_list (size_prod (\<lambda>x. 0) size) fs + 1)") simp_all

declare setValue.simps [simp del] set_field.simps [simp del]

section \<open>Documents\<close>

text \<open>The destination is an interface value: \<^const>\<open>None\<close> is nil.  The fields of \<^verbatim>\<open>time.Time\<close> are not exported, so none is written.\<close>

definition decode :: "floats \<Rightarrow> (gtype \<times> gval) option \<Rightarrow> (string \<times> yval) list \<Rightarrow> gval conv" where
  "decode fl data m =
     (case data of
        None \<Rightarrow> Some (Inl (yerr ''data must not be nil''))
      | Some (TPtr t, XPtr (Some elem)) \<Rightarrow>
          (case t of
             TMap k t' \<Rightarrow> setMapValue (\<lambda>p. setValue fl p True t' (zero t')) ''root'' k elem (VMap m)
           | TStruct fs \<Rightarrow> (case elem of XStruct vs \<Rightarrow> conv_map XStruct (setStructValue fl ''root'' fs vs m) | _ \<Rightarrow> None)
           | TTime \<Rightarrow> Some (Inr elem)
           | _ \<Rightarrow> Some (Inl (yerr ''data must point to map or struct'')))
      | Some _ \<Rightarrow> Some (Inl (yerr ''data must be a non-nil pointer'')))"

definition Unmarshal :: "std \<Rightarrow> floats \<Rightarrow> string \<Rightarrow> (gtype \<times> gval) option \<Rightarrow> gval conv" where
  "Unmarshal st fl content data =
     (case parseToMap st content of
        None \<Rightarrow> None
      | Some (Inl e) \<Rightarrow> Some (Inl e)
      | Some (Inr m) \<Rightarrow> decode fl data m)"

text \<open>\<^verbatim>\<open>NewParseYaml\<close> reads the file: \<^const>\<open>None\<close> is a file that cannot be read.\<close>

definition UnmarshalFile :: "std \<Rightarrow> floats \<Rightarrow> string option \<Rightarrow> (gtype \<times> gval) option \<Rightarrow> gval conv" where
  "UnmarshalFile st fl file data =
     (case file of None \<Rightarrow> Some (Inl (yerr ''read yaml file failed'')) | Some content \<Rightarrow> Unmarshal st fl content data)"

section \<open>Embedded pointers\<close>

text \<open>An embedded pointer of a type that is not exported cannot be allocated by reflection.\<close>

fun embeds_ok :: "gtype \<Rightarrow> bool"
  and fields_ok :: "(gfield \<times> gtype) list \<Rightarrow> bool" where
  "embeds_ok (TPtr t) = embeds_ok t"
| "embeds_ok (TMap k t) = embeds_ok t"
| "embeds_ok (TSlice t) = embeds_ok t"
| "embeds_ok (TArray n t) = embeds_ok t"
| "embeds_ok (TStruct fs) = fields_ok fs"
| "embeds_ok _ = True"
| "fields_ok [] = True"
| "fields_ok ((f, t) # fs) =
     (embeds_ok t \<and> \<not> (gf_Anonymous f \<and> \<not> gf_exported f \<and> (case t of TPtr _ \<Rightarrow> True | _ \<Rightarrow> False)) \<and> fields_ok fs)"

section \<open>Decoding keeps the type\<close>

text \<open>The code returned, without a panic, and a value it stored has the type of its place.\<close>

definition sound :: "('a \<Rightarrow> bool) \<Rightarrow> 'a conv \<Rightarrow> bool" where
  "sound P r \<longleftrightarrow> (case r of None \<Rightarrow> False | Some (Inl e) \<Rightarrow> True | Some (Inr v) \<Rightarrow> P v)"

lemma sound_simps [simp]:
  "\<not> sound P None" "sound P (Some (Inl e))" "sound P (Some (Inr v)) = P v"
  by (simp_all add: sound_def)

lemma soundE: assumes "sound P r" obtains e where "r = Some (Inl e)" | v where "r = Some (Inr v)" "P v"
  using assms by (auto simp: sound_def split: option.splits sum.splits)

lemma sound_conv_map: "sound Q x \<Longrightarrow> (\<And>v. Q v \<Longrightarrow> P (f v)) \<Longrightarrow> sound P (conv_map f x)"
  by (auto simp: sound_def conv_map_def split: option.splits sum.splits)

lemma sound_conv_all: "(\<And>x. x \<in> set xs \<Longrightarrow> sound P x) \<Longrightarrow> sound (\<lambda>vs. list_all P vs \<and> length vs = length xs) (conv_all xs)"
proof (induction xs)
  case (Cons x xs)
  then have "sound P x" "sound (\<lambda>vs. list_all P vs \<and> length vs = length xs) (conv_all xs)" by simp_all
  then show ?case by (auto elim!: soundE)
qed simp

lemma put_entries_sound:
  assumes "\<And>p y. sound P (elem p y)" "list_all (\<lambda>e. P (snd e)) m"
  shows "sound (\<lambda>v. \<exists>m. v = XMap (Some m) \<and> list_all (\<lambda>e. P (snd e)) m) (put_entries elem path m es)"
  using assms(2)
proof (induction es arbitrary: m)
  case (Cons e es)
  obtain key y where e: "e = (key, y)" by (cases e)
  have "list_all (\<lambda>e. P (snd e)) (assoc_put key v m)" if "P v" for v
    using Cons.prems that by (auto simp: assoc_put_def list_all_iff)
  then show ?case using assms(1) [of "path @ ''.'' @ key" y] Cons.IH by (auto simp: e elim!: soundE)
qed simp

lemma setMapValue_sound:
  assumes "\<And>p y. sound (has_type t) (elem p y)" "has_type (TMap k t) dst"
  shows "sound (has_type (TMap k t)) (setMapValue elem path k dst src)"
proof -
  have "sound (has_type (TMap k t)) (put_entries elem path m es)" if "list_all (\<lambda>e. has_type t (snd e)) m" for m es
    using put_entries_sound [of "has_type t" elem m path es] assms(1) that by (auto elim!: soundE)
  then show ?thesis using assms(2)
    by (auto simp: setMapValue_def split: yval.split gval.splits option.splits)
qed

lemma setSliceValue_sound:
  assumes "\<And>p y. sound (has_type t) (elem p y)" shows "sound (has_type (TSlice t)) (setSliceValue elem path src)"
proof -
  have "sound (\<lambda>vs. list_all (has_type t) vs \<and> length vs = length (map (\<lambda>(i, v). elem (index_path path i) v) (enumerate 0 ys)))
      (conv_all (map (\<lambda>(i, v). elem (index_path path i) v) (enumerate 0 ys)))" for ys
    using assms by (intro sound_conv_all) auto
  note s = this
  have "sound (has_type (TSlice t)) (conv_map (\<lambda>xs. XSlice (Some xs))
      (conv_all (map (\<lambda>(i, v). elem (index_path path i) v) (enumerate 0 ys))))" for ys
    by (rule sound_conv_map [OF s]) simp
  then show ?thesis by (auto simp: setSliceValue_def split: yval.split)
qed

lemma setArrayValue_sound:
  assumes "\<And>p x y. has_type t x \<Longrightarrow> sound (has_type t) (elem p x y)" "has_type (TArray n t) dst"
  shows "sound (has_type (TArray n t)) (setArrayValue elem path n dst src)"
proof -
  obtain xs where xs: "dst = XArray xs" "length xs = n" "list_all (has_type t) xs" using assms(2) by (auto split: gval.splits)
  have "sound (has_type (TArray n t)) (conv_map (\<lambda>ys. XArray (ys @ drop (length vs) xs))
      (conv_all (map (\<lambda>(i, x, v). elem (index_path path i) x v) (enumerate 0 (zip xs vs)))))" if "length vs \<le> n" for vs
  proof (rule sound_conv_map)
    show "sound (\<lambda>ws. list_all (has_type t) ws \<and> length ws = length (map (\<lambda>(i, x, v). elem (index_path path i) x v) (enumerate 0 (zip xs vs))))
        (conv_all (map (\<lambda>(i, x, v). elem (index_path path i) x v) (enumerate 0 (zip xs vs))))"
    proof (rule sound_conv_all)
      fix r assume "r \<in> set (map (\<lambda>(i, x, v). elem (index_path path i) x v) (enumerate 0 (zip xs vs)))"
      then obtain i x y where r: "r = elem (index_path path i) x y" and "(i, x, y) \<in> set (enumerate 0 (zip xs vs))" by auto
      from imageI [OF this(2), of snd] have "(x, y) \<in> set (map snd (enumerate 0 (zip xs vs)))" by (simp only: set_map snd_conv)
      then have "(x, y) \<in> set (zip xs vs)" by (simp only: map_snd_enumerate)
      then show "sound (has_type t) r" using assms(1) xs(3) by (auto simp: r list_all_iff dest: set_zip_leftD)
    qed
  qed (use that xs in \<open>auto simp: list_all_iff dest: in_set_dropD\<close>)
  then show ?thesis by (auto simp: setArrayValue_def xs(1) split: yval.split)
qed

lemma number_sound:
  "sound (has_type (TInt n)) (Some (setIntValue path n src))"
  "sound (has_type (TUint n)) (Some (setUintValue path n src))"
  "sound (has_type (TFloat n)) (Some (setFloatValue fl path n src))"
  by (auto simp: setIntValue_def setUintValue_def setFloatValue_def split: yval.split)


text \<open>The three functions, for a type and for the fields of a struct.\<close>

definition keeps :: "floats \<Rightarrow> gtype \<Rightarrow> bool" where
  "keeps fl t \<longleftrightarrow> (\<forall>path c dst src. has_type t dst \<longrightarrow> sound (has_type t) (setValue fl path c t dst src))"

definition keeps_field :: "floats \<Rightarrow> gfield \<Rightarrow> gtype \<Rightarrow> bool" where
  "keeps_field fl f t \<longleftrightarrow> (\<forall>path dst m. has_type t dst \<longrightarrow> sound (has_type t) (set_field fl path f t dst m))"

definition keeps_fields :: "floats \<Rightarrow> (gfield \<times> gtype) list \<Rightarrow> bool" where
  "keeps_fields fl fs \<longleftrightarrow> (\<forall>path vs m. has_types fs vs \<longrightarrow> sound (has_types fs) (setStructValue fl path fs vs m))"

lemma keeps_fieldsI: "(\<And>f t. (f, t) \<in> set fs \<Longrightarrow> keeps_field fl f t) \<Longrightarrow> keeps_fields fl fs"
proof (induction fs)
  case (Cons ft fs)
  obtain f t where ft: "ft = (f, t)" by (cases ft)
  show ?case unfolding keeps_fields_def
  proof (intro allI impI)
    fix path vs m assume "has_types (ft # fs) vs"
    then obtain v vs' where vs: "vs = v # vs'" "has_type t v" "has_types fs vs'" by (auto simp: ft split: list.splits)
    have "sound (has_type t) (set_field fl path f t v m)" using Cons.prems vs(2) by (auto simp: ft keeps_field_def)
    moreover have "sound (has_types fs) (setStructValue fl path fs vs' m)" using Cons vs(3) by (auto simp: keeps_fields_def)
    ultimately show "sound (has_types (ft # fs)) (setStructValue fl path (ft # fs) vs m)"
      by (auto simp: ft vs(1) elim!: soundE)
  qed
qed (simp add: keeps_fields_def)

lemma keeps_struct:
  assumes "keeps_fields fl fs" "has_type (TStruct fs) dst"
  shows "sound (has_type (TStruct fs)) (case dst of XStruct vs \<Rightarrow> conv_map XStruct (setStructValue fl path fs vs m) | _ \<Rightarrow> None)"
proof -
  obtain vs where vs: "dst = XStruct vs" "has_types fs vs" using assms(2) by (auto split: gval.splits)
  have "sound (has_types fs) (setStructValue fl path fs vs m)" using assms(1) vs(2) by (simp add: keeps_fields_def)
  then show ?thesis by (auto simp: vs(1) elim!: soundE)
qed

lemma setValue_guards:
  "keeps fl t \<longleftrightarrow> (\<forall>path dst src. has_type t dst \<longrightarrow> src \<noteq> VNull \<longrightarrow> sound (has_type t) (setValue fl path True t dst src))"
  unfolding keeps_def using zero_typed [of t] by (auto simp: setValue.simps [of fl _ _ t])

text \<open>A field keeps its type when its type does, and, if it is embedded, the fields below it do.\<close>

definition struct_below :: "gtype \<Rightarrow> (gfield \<times> gtype) list option" where
  "struct_below t = (case t of TStruct fs \<Rightarrow> Some fs | TPtr (TStruct fs) \<Rightarrow> Some fs | _ \<Rightarrow> None)"

lemma keeps_fieldI:
  assumes "keeps fl t" "\<And>fs. struct_below t = Some fs \<Longrightarrow> keeps_fields fl fs" "fields_ok [(f, t)]"
  shows "keeps_field fl f t"
  unfolding keeps_field_def
proof (intro allI impI)
  fix path dst m assume dst: "has_type t dst"
  have set: "sound (has_type t) (setValue fl p c t d v)" if "has_type t d" for p c d v using assms(1) that by (simp add: keeps_def)
  then have other: "sound (has_type t) (case lookupMapValue m key of None \<Rightarrow> Some (Inr d) | Some v \<Rightarrow> setValue fl p c t d v)"
    if "has_type t d" for p c d key using that by (auto split: option.split)
  show "sound (has_type t) (set_field fl path f t dst m)"
  proof (cases t)
    case (TStruct fs)
    then have "keeps_fields fl fs" using assms(2) by (simp add: struct_below_def)
    from keeps_struct [OF this dst [unfolded TStruct]] show ?thesis using dst
      by (simp add: set_field.simps TStruct Let_def set [OF dst, unfolded TStruct] split: option.split)
  next
    case (TPtr t')
    let ?target = "case dst of XPtr (Some v) \<Rightarrow> v | _ \<Rightarrow> zero t'"
    have target: "has_type t' ?target" using dst zero_typed [of t'] by (auto simp: TPtr split: gval.splits option.splits)
    have low: "sound (has_type t) (case t' of
        TStruct fs \<Rightarrow> (case ?target of XStruct vs \<Rightarrow> conv_map (\<lambda>vs. XPtr (Some (XStruct vs))) (setStructValue fl p fs vs m) | _ \<Rightarrow> None)
      | _ \<Rightarrow> (case lookupMapValue m key of None \<Rightarrow> Some (Inr (XPtr (Some ?target))) | Some v \<Rightarrow> setValue fl p c t (XPtr (Some ?target)) v))" for p c key
    proof (cases "\<exists>fs. t' = TStruct fs")
      case True
      then obtain fs where fs: "t' = TStruct fs" by blast
      then obtain vs where vs: "?target = XStruct vs" "has_types fs vs" using target by (auto split: gval.splits)
      have "keeps_fields fl fs" using assms(2) by (simp add: struct_below_def TPtr fs)
      then have "sound (has_types fs) (setStructValue fl p fs vs m)" using vs(2) by (simp add: keeps_fields_def)
      then show ?thesis unfolding vs(1) by (auto simp: fs TPtr elim!: soundE)
    next
      case False
      have "has_type t (XPtr (Some ?target))" using target by (simp add: TPtr)
      have "sound (has_type t) (case lookupMapValue m key of None \<Rightarrow> Some (Inr (XPtr (Some ?target))) | Some v \<Rightarrow> setValue fl p c t (XPtr (Some ?target)) v)"
        by (rule other) fact
      with False show ?thesis by (cases t') auto
    qed
    show ?thesis
    proof (cases "gf_Anonymous f \<and> fieldKey f = Some (gf_Name f)")
      case True
      then have "gf_exported f" using assms(3) by (simp add: TPtr)
      then show ?thesis using True low [of "path @ ''.'' @ gf_Name f" True "gf_Name f"]
        by (simp only: set_field.simps TPtr Let_def gtype.case option.case simp_thms if_True if_False)
    next
      case False
      then show ?thesis using dst [unfolded TPtr]
        by (auto simp: set_field.simps TPtr Let_def set [unfolded TPtr] simp del: has_type.simps split: option.split)
    qed
  qed (use dst set [OF dst] in \<open>auto simp: set_field.simps Let_def split: option.split\<close>)
qed


lemma fields_ok_iff:
  "fields_ok fs \<longleftrightarrow> (\<forall>(f, t) \<in> set fs. embeds_ok t \<and> fields_ok [(f, t)])"
  by (induction fs) (auto split: gtype.splits)

lemma decode_keeps: "embeds_ok t \<Longrightarrow> keeps fl t \<and> (\<forall>fs. struct_below t = Some fs \<longrightarrow> keeps_fields fl fs)"
proof (induction t)
  case (TPtr t)
  then have IH: "keeps fl t" "\<And>fs. t = TStruct fs \<Longrightarrow> keeps_fields fl fs" by (auto simp: struct_below_def)
  have "sound (has_type (TPtr t)) (setValue fl path True (TPtr t) dst src)" if "has_type (TPtr t) dst" "src \<noteq> VNull" for path dst src
  proof -
    have "has_type t (case dst of XPtr (Some v) \<Rightarrow> v | _ \<Rightarrow> zero t)"
      using that zero_typed [of t] by (auto split: gval.splits option.splits)
    then have "sound (has_type t) (setValue fl path True t (case dst of XPtr (Some v) \<Rightarrow> v | _ \<Rightarrow> zero t) src)"
      using IH(1) by (simp add: keeps_def)
    then show ?thesis using that by (subst setValue.simps) (auto elim!: soundE)
  qed
  then show ?case using IH(2) by (auto simp: setValue_guards struct_below_def split: gtype.splits)
next
  case (TMap k t)
  then have elem: "sound (has_type t) (setValue fl p True t (zero t) y)" for p y using zero_typed by (auto simp: keeps_def)
  have "sound (has_type (TMap k t)) (setValue fl path True (TMap k t) dst src)" if "has_type (TMap k t) dst" "src \<noteq> VNull" for path dst src
    using that setMapValue_sound [OF elem that(1)]
    by (subst setValue.simps) (auto simp: list_all_iff any_of_def split: yval.split)
  then show ?case by (simp add: setValue_guards struct_below_def)
next
  case (TSlice t)
  then have elem: "sound (has_type t) (setValue fl p True t (zero t) y)" for p y using zero_typed by (auto simp: keeps_def)
  have "sound (has_type (TSlice t)) (setValue fl path True (TSlice t) dst src)" if "src \<noteq> VNull" for path dst src
    using that setSliceValue_sound [OF elem]
    by (subst setValue.simps) (auto simp: list_all_iff any_of_def split: yval.split)
  then show ?case by (simp add: setValue_guards struct_below_def)
next
  case (TArray n t)
  then have elem: "sound (has_type t) (setValue fl p True t x y)" if "has_type t x" for p x y using that by (auto simp: keeps_def)
  have "sound (has_type (TArray n t)) (setValue fl path True (TArray n t) dst src)" if "has_type (TArray n t) dst" "src \<noteq> VNull" for path dst src
    using that setArrayValue_sound [OF elem that(1)] by (subst setValue.simps) auto
  then show ?case by (simp add: setValue_guards struct_below_def)
next
  case (TStruct fs)
  have "keeps_field fl f t" if "(f, t) \<in> set fs" for f t
  proof (rule keeps_fieldI)
    have "embeds_ok t" "fields_ok [(f, t)]" using TStruct.prems that fields_ok_iff [of fs] by auto
    then show "keeps fl t" "\<And>fs. struct_below t = Some fs \<Longrightarrow> keeps_fields fl fs" "fields_ok [(f, t)]"
      using TStruct.IH [OF that, of t] by auto
  qed
  then have k: "keeps_fields fl fs" by (rule keeps_fieldsI)
  have "sound (has_type (TStruct fs)) (setValue fl path True (TStruct fs) dst src)" if "has_type (TStruct fs) dst" "src \<noteq> VNull" for path dst src
    using that(2) keeps_struct [OF k that(1)] by (subst setValue.simps) (auto split: yval.split)
  then show ?case using k by (simp add: setValue_guards struct_below_def)
qed (auto simp: setValue_guards struct_below_def setValue.simps any_of_def number_sound simp del: sound_simps(3) split: yval.split
    intro: sound_simps(3) [THEN iffD2])

end
