(* ===== verification/YamlTree.thy ===== *)
theory YamlTree
  imports YamlParse
begin

text \<open>
  The invariant of the document parser: what is on the stack and what hangs in the tree, kept by every line, and
  what follows from it: no document makes the parser panic, and the tree is always converted to a value.
\<close>

section \<open>The invariant\<close>

definition refs :: "astNode \<Rightarrow> nat set" where
  "refs n = {a. Ref a \<in> set (an_s n) \<union> snd ` set (an_m n)}"

text \<open>A node of a heap of \<open>N\<close> nodes: its children come after it, its keys are distinct, and it is a map, a list or undecided.\<close>

definition node_ok :: "nat \<Rightarrow> nat \<Rightarrow> astNode \<Rightarrow> bool" where
  "node_ok N i n \<longleftrightarrow> (\<forall>a \<in> refs n. i < a \<and> a < N) \<and> distinct (map fst (an_m n))
     \<and> an_nodeType n \<in> {NODE_TYPE_UNKNOWN, NODE_TYPE_MAP, NODE_TYPE_SLICE}"

definition heap_ok :: "astNode list \<Rightarrow> bool" where
  "heap_ok h \<longleftrightarrow> (\<forall>i < length h. node_ok (length h) i (h ! i))"

definition root_ok :: "astNode list \<Rightarrow> bool" where
  "root_ok h \<longleftrightarrow> h \<noteq> [] \<and> an_indent (h ! 0) = -1 \<and> an_nodeType (h ! 0) = NODE_TYPE_MAP"

text \<open>The open nodes, innermost first, are nested by indentation and end in the root.\<close>

definition stack_ok :: "astNode list \<Rightarrow> nat list \<Rightarrow> bool" where
  "stack_ok h s \<longleftrightarrow> s \<noteq> [] \<and> last s = 0 \<and> (\<forall>a \<in> set s. a < length h)
     \<and> sorted_wrt (\<lambda>a b. an_indent (h ! b) < an_indent (h ! a)) s"

definition tree_ok :: "pyaml \<Rightarrow> bool" where
  "tree_ok py \<longleftrightarrow> heap_ok (py_heap py) \<and> root_ok (py_heap py) \<and> stack_ok (py_heap py) (py_stack py)"

lemma node_ok_mono: "node_ok N i n \<Longrightarrow> N \<le> M \<Longrightarrow> node_ok M i n"
  by (auto simp: node_ok_def)

lemma heap_okD: "heap_ok h \<Longrightarrow> i < length h \<Longrightarrow> node_ok (length h) i (h ! i)"
  by (simp add: heap_ok_def)

lemma node_of: "tree_ok py \<Longrightarrow> a < length (py_heap py) \<Longrightarrow> node_ok (length (py_heap py)) a (node py a)"
  by (simp add: tree_ok_def heap_okD)

lemma root_of: "tree_ok py \<Longrightarrow> an_nodeType (node py 0) = NODE_TYPE_MAP"
  by (simp add: tree_ok_def root_ok_def)

section \<open>The elementary updates keep it\<close>

lemma put_node_ok:
  assumes "tree_ok py" "a < length (py_heap py)" "node_ok (length (py_heap py)) a n"
    "an_indent n = an_indent (node py a)" "a = 0 \<Longrightarrow> an_nodeType n = NODE_TYPE_MAP"
  shows "tree_ok (put_node a n py)"
proof -
  let ?h = "(py_heap py)[a := n]"
  have ind: "an_indent (?h ! b) = an_indent (node py b)" for b
    using assms(2,4) by (cases "b = a") auto
  have "node_ok (length (py_heap py)) i (?h ! i)" if "i < length (py_heap py)" for i
    using node_of [OF assms(1) that] assms(2,3) by (cases "i = a") auto
  then have "heap_ok ?h" by (simp add: heap_ok_def)
  moreover have "root_ok ?h"
    using assms(1,2,5) ind [of 0] by (cases "a = 0") (auto simp: tree_ok_def root_ok_def)
  moreover have "stack_ok ?h (py_stack py)" using assms(1) by (simp add: tree_ok_def stack_ok_def ind)
  ultimately show ?thesis by (simp add: tree_ok_def put_node_def)
qed


lemma put_node_frame [simp]:
  "length (py_heap (put_node a n py)) = length (py_heap py)" "py_stack (put_node a n py) = py_stack py"
  by (simp_all add: put_node_def)

lemma set_type_ok:
  assumes "tree_ok py" "a < length (py_heap py)" "k \<in> {NODE_TYPE_MAP, NODE_TYPE_SLICE}" "an_nodeType (node py a) = NODE_TYPE_UNKNOWN"
  shows "tree_ok (set_type a k py)"
proof -
  have "a \<noteq> 0" using root_of [OF assms(1)] assms(4) by (metis nodeKind.distinct(1))
  then show ?thesis unfolding set_type_def using node_of [OF assms(1,2)] assms(1,2,3)
    by (intro put_node_ok) (auto simp: node_ok_def refs_def)
qed

lemma append_s_ok:
  assumes "tree_ok py" "a < length (py_heap py)" "\<And>b. x = Ref b \<Longrightarrow> a < b \<and> b < length (py_heap py)"
  shows "tree_ok (append_s a x py)"
  unfolding append_s_def using node_of [OF assms(1,2)] root_of [OF assms(1)] assms
  by (intro put_node_ok) (auto simp: node_ok_def refs_def)

lemma putMapItem_ok:
  assumes "tree_ok py" "a < length (py_heap py)" "\<And>b. x = Ref b \<Longrightarrow> a < b \<and> b < length (py_heap py)"
  shows "tree_ok (fst (putMapItem line key a x py))"
proof (cases "key \<in> fst ` set (an_m (node py a))")
  case False
  then have "tree_ok (put_node a ((node py a)\<lparr>an_m := an_m (node py a) @ [(key, x)]\<rparr>) py)"
    using node_of [OF assms(1,2)] root_of [OF assms(1)] assms
    by (intro put_node_ok) (auto simp: node_ok_def refs_def)
  then show ?thesis using False by (simp add: putMapItem_def)
qed (use assms in \<open>simp add: putMapItem_def\<close>)

lemma new_node_ok:
  assumes "tree_ok py" "k \<in> {NODE_TYPE_UNKNOWN, NODE_TYPE_MAP}" "new_node line ind name k py = (py', a)"
  shows "tree_ok py'" "a = length (py_heap py)" "length (py_heap py') = Suc (length (py_heap py))" "py_stack py' = py_stack py"
    "an_indent (node py' a) = ind" "an_m (node py' a) = []" "an_s (node py' a) = []" "an_nodeType (node py' a) = k"
    "\<And>b. b < length (py_heap py) \<Longrightarrow> node py' b = node py b"
proof -
  let ?n = "\<lparr>an_line = line, an_m = [], an_s = [], an_indent = ind, an_nodeName = name, an_nodeType = k\<rparr>"
  let ?h = "py_heap py @ [?n]"
  have py': "py' = py\<lparr>py_heap := ?h\<rparr>" "a = length (py_heap py)" using assms(3) by (simp_all add: new_node_def)
  have "node_ok (length ?h) i (?h ! i)" if "i < length ?h" for i
  proof (cases "i = length (py_heap py)")
    case True
    then show ?thesis using assms(2) by (auto simp: node_ok_def refs_def)
  next
    case False
    then have "i < length (py_heap py)" using that by simp
    then show ?thesis using node_ok_mono [OF node_of [OF assms(1)], of i "length ?h"] by (simp add: nth_append)
  qed
  then have "heap_ok ?h" by (simp add: heap_ok_def)
  moreover have "root_ok ?h" using assms(1) by (auto simp: tree_ok_def root_ok_def nth_append)
  moreover have "stack_ok ?h (py_stack py)"
  proof -
    have "sorted_wrt (\<lambda>a b. an_indent (?h ! b) < an_indent (?h ! a)) (py_stack py)"
      using assms(1) by (auto simp: tree_ok_def stack_ok_def nth_append intro: sorted_wrt_mono_rel [rotated])
    then show ?thesis using assms(1) by (auto simp: tree_ok_def stack_ok_def less_SucI)
  qed
  ultimately show "tree_ok py'" by (simp add: tree_ok_def py')
qed (use assms(3) in \<open>auto simp: new_node_def nth_append\<close>)

lemma push_ok:
  assumes "tree_ok py" "a < length (py_heap py)" "an_indent (node py (hd (py_stack py))) < an_indent (node py a)"
  shows "tree_ok (push a py)"
proof -
  obtain p s where s: "py_stack py = p # s" using assms(1) by (cases "py_stack py") (auto simp: tree_ok_def stack_ok_def)
  then show ?thesis using assms by (auto simp: tree_ok_def stack_ok_def push_def)
qed

lemma close_to_ok:
  assumes "tree_ok py" "0 \<le> ind"
  shows "tree_ok (close_to ind py)" "py_stack (close_to ind py) \<noteq> []" "py_heap (close_to ind py) = py_heap py"
    "an_indent (node py (hd (py_stack (close_to ind py)))) < ind"
proof -
  let ?P = "\<lambda>a. ind \<le> an_indent (node py a)"
  have root: "0 \<in> set (py_stack py)" "\<not> ?P 0" using assms by (auto simp: tree_ok_def stack_ok_def root_ok_def dest: last_in_set)
  then have ne: "dropWhile ?P (py_stack py) \<noteq> []" by auto
  then have "last (dropWhile ?P (py_stack py)) = last (py_stack py)" by (metis dropWhile_eq_drop last_drop length_drop length_greater_0_conv zero_less_diff)
  moreover have "set (dropWhile ?P (py_stack py)) \<subseteq> set (py_stack py)" by (auto dest: set_dropWhileD)
  moreover have "sorted_wrt (\<lambda>a b. an_indent (node py b) < an_indent (node py a)) (dropWhile ?P (py_stack py))"
    using assms(1) by (auto simp: tree_ok_def stack_ok_def dropWhile_eq_drop intro: sorted_wrt_drop)
  ultimately show "tree_ok (close_to ind py)" using assms(1) ne by (auto simp: tree_ok_def stack_ok_def close_to_def)
  show "py_stack (close_to ind py) \<noteq> []" using ne by (simp add: close_to_def)
  show "an_indent (node py (hd (py_stack (close_to ind py)))) < ind" using hd_dropWhile [OF ne] by (simp add: close_to_def)
qed (simp add: close_to_def)


section \<open>Every line keeps it\<close>

text \<open>The node on top of the stack, shallower than the line that is fed to it.\<close>

definition open_at :: "pyaml \<Rightarrow> nat \<Rightarrow> int \<Rightarrow> bool" where
  "open_at py p ind \<longleftrightarrow> tree_ok py \<and> p = hd (py_stack py) \<and> an_indent (node py p) < ind"

lemma open_atD:
  assumes "open_at py p ind" shows "tree_ok py" "p < length (py_heap py)" "p = hd (py_stack py)" "an_indent (node py p) < ind"
  using assms by (auto simp: open_at_def tree_ok_def stack_ok_def)

lemma open_as_slice:
  assumes "open_at py p ind"
  shows "open_at (if an_nodeType (node py p) = NODE_TYPE_UNKNOWN then set_type p NODE_TYPE_SLICE py else py) p ind"
  using assms open_atD [OF assms] set_type_ok [of py p NODE_TYPE_SLICE]
  by (auto simp: open_at_def) (simp_all add: set_type_def put_node_def)

lemma open_new_node:
  assumes "open_at py p ind" "k \<in> {NODE_TYPE_UNKNOWN, NODE_TYPE_MAP}" "new_node line ind name k py = (py', a)"
  shows "open_at py' p ind" "p < a" "a < length (py_heap py')" "a \<noteq> 0"
  using open_atD [OF assms(1)] new_node_ok [OF open_atD(1) [OF assms(1)] assms(2,3)] by (auto simp: open_at_def)

text \<open>Feeding a line returns, and leaves a tree.\<close>

definition fed_ok :: "fed \<Rightarrow> bool" where
  "fed_ok r \<longleftrightarrow> (case r of None \<Rightarrow> False | Some (py, err) \<Rightarrow> tree_ok py)"

lemma fed_ok_simps [simp]: "\<not> fed_ok None" "fed_ok (Some r) = tree_ok (fst r)"
  by (simp_all add: fed_ok_def split: prod.split)

lemma newParsedToken_returns:
  "fed_ok (case newParsedToken st line k v ind raw of None \<Rightarrow> None | Some (Inl e) \<Rightarrow> f e | Some (Inr t) \<Rightarrow> g t) \<longleftrightarrow>
   (case the (newParsedToken st line k v ind raw) of Inl e \<Rightarrow> fed_ok (f e) | Inr t \<Rightarrow> fed_ok (g t))"
  using TokenParse_Some [of st "(NewTokenNode line k v ind)\<lparr>tn_rawStr := raw\<rparr>"]
  by (auto simp: newParsedToken_def split: sum.split)

lemma feedSliceScalar_ok: "open_at py p ind \<Longrightarrow> fed_ok (feedSliceScalar st line v p ind raw py)"
  using open_as_slice [of py p ind]
  by (auto simp: feedSliceScalar_def Let_def newParsedToken_returns dest: open_atD intro!: append_s_ok split: sum.split if_splits)

text \<open>A node with one entry, added to the list of its parent.\<close>

lemma add_entry_ok:
  assumes "open_at py p ind" "new_node line ind name NODE_TYPE_MAP py = (py', a)"
  shows "tree_ok (append_s p (Ref a) (put_node a ((node py' a)\<lparr>an_m := [(k, Tok t)]\<rparr>) py'))"
proof -
  note o = open_new_node [OF assms(1) _ assms(2), simplified]
  have "tree_ok (put_node a ((node py' a)\<lparr>an_m := [(k, Tok t)]\<rparr>) py')"
    using o node_of [OF open_atD(1) [OF o(1)] o(3)] open_atD(1) [OF o(1)] by (intro put_node_ok) (auto simp: node_ok_def refs_def)
  then show ?thesis using o open_atD(2) [OF o(1)] by (intro append_s_ok) auto
qed

lemma add_open_ok:
  assumes "open_at py p ind" "new_node line ind name NODE_TYPE_UNKNOWN py = (py', a)"
  shows "tree_ok (append_s p (Ref a) (push a py'))"
proof -
  note o = open_new_node [OF assms(1) _ assms(2), simplified]
  have "tree_ok (push a py')"
    using o new_node_ok(5) [OF open_atD(1) [OF assms(1)] _ assms(2)] open_atD [OF o(1)] by (intro push_ok) auto
  then show ?thesis using o open_atD(2) [OF o(1)] by (intro append_s_ok) (auto simp: push_def)
qed

lemma feedSlice_ok:
  assumes "open_at py p ind" shows "fed_ok (feedSlice st line grp p ind py)"
proof -
  let ?py = "if an_nodeType (node py p) = NODE_TYPE_UNKNOWN then set_type p NODE_TYPE_SLICE py else py"
  have o: "open_at ?py p ind" by (rule open_as_slice [OF assms])
  have "tree_ok (append_s p (Tok t) ?py)" for t using open_atD [OF o] by (intro append_s_ok) auto
  then show ?thesis
    using open_atD(1) [OF o] open_atD(1) [OF assms] add_entry_ok [OF o] add_open_ok [OF o]
    by (auto simp: feedSlice_def Let_def newParsedToken_returns simp del: if_split split: prod.split sum.split if_splits)
qed

lemma block_entry_ok: "open_at py p ind \<Longrightarrow> fed_ok (block_entry st line name v p ind py)"
  using open_as_slice [of py p ind] add_entry_ok
  by (auto simp: block_entry_def Let_def newParsedToken_returns simp del: if_split split: prod.split sum.split dest: open_atD)

lemma map_target_ok:
  assumes "tree_ok py" "p < length (py_heap py)" "map_target line p ind py = Inr s"
  shows "p < s" "s < length (py_heap py)"
proof -
  have "Ref s \<in> set (an_s (node py p))"
    using assms(3) by (auto simp: map_target_def split: if_splits item.splits) (metis last_in_set)
  then show "p < s" "s < length (py_heap py)" using node_of [OF assms(1,2)] by (auto simp: node_ok_def refs_def)
qed


lemma put_node_indent:
  assumes "an_indent n = an_indent (node py a)" shows "an_indent (node (put_node a n py) b) = an_indent (node py b)"
proof (cases "b = a")
  case True
  then show ?thesis using assms by (cases "a < length (py_heap py)") (simp_all add: put_node_def list_update_beyond)
qed (simp add: put_node_def)

lemma putMapItem_frame [simp]:
  "py_stack (fst (putMapItem line key a x py)) = py_stack py"
  "length (py_heap (fst (putMapItem line key a x py))) = length (py_heap py)"
  "an_indent (node (fst (putMapItem line key a x py)) b) = an_indent (node py b)"
  by (simp_all add: putMapItem_def put_node_indent)

lemma set_type_frame [simp]:
  "py_stack (set_type a k py) = py_stack py"
  "length (py_heap (set_type a k py)) = length (py_heap py)"
  "an_indent (node (set_type a k py) b) = an_indent (node py b)"
  by (simp_all add: set_type_def put_node_indent)

lemma feedMapValue_ok:
  assumes "open_at py p ind" shows "fed_ok (feedMapValue st line k v p ind raw py)"
proof -
  note o = open_atD [OF assms]
  have "tree_ok (fst (putMapItem line k p (Tok t) (set_type p NODE_TYPE_MAP py)))" if "an_nodeType (node py p) = NODE_TYPE_UNKNOWN" for t
    using set_type_ok [OF o(1,2) _ that] o(2) by (intro putMapItem_ok) auto
  moreover have "tree_ok (fst (putMapItem line k p (Tok t) py))" for t using o by (intro putMapItem_ok) auto
  moreover have "tree_ok (fst (putMapItem line k s (Tok t) py))" if "map_target line p ind py = Inr s" for s t
    using map_target_ok [OF o(1,2) that] o by (intro putMapItem_ok) auto
  ultimately show ?thesis using o(1) by (simp add: feedMapValue_def newParsedToken_returns split: sum.split nodeKind.split)
qed

text \<open>Where an entry that opens a node goes.\<close>

definition open_entry :: "string \<Rightarrow> string \<Rightarrow> nat \<Rightarrow> int \<Rightarrow> nat \<Rightarrow> pyaml \<Rightarrow> pyaml \<times> error option" where
  "open_entry line k p ind a py =
     (case an_nodeType (node py p) of
        NODE_TYPE_UNKNOWN \<Rightarrow> putMapItem line k p (Ref a) (set_type p NODE_TYPE_MAP py)
      | NODE_TYPE_MAP \<Rightarrow> putMapItem line k p (Ref a) py
      | NODE_TYPE_SLICE \<Rightarrow> (case map_target line p ind py of Inl e \<Rightarrow> (py, Some e) | Inr s \<Rightarrow> putMapItem line k s (Ref a) py)
      | _ \<Rightarrow> (py, Some (errLine line)))"

lemma open_entry_frame:
  "py_stack (fst (open_entry line k p ind a py)) = py_stack py"
  "length (py_heap (fst (open_entry line k p ind a py))) = length (py_heap py)"
  "an_indent (node (fst (open_entry line k p ind a py)) b) = an_indent (node py b)"
  by (simp_all add: open_entry_def split: nodeKind.split sum.split)

lemma open_entry_ok:
  assumes "open_at py p ind" "new_node line ind name NODE_TYPE_UNKNOWN py = (py', a)"
  shows "tree_ok (fst (open_entry line k p ind a py'))"
proof -
  note o = open_new_node [OF assms(1) _ assms(2), simplified]
  note o' = open_atD [OF o(1)]
  note new = new_node_ok [OF open_atD(1) [OF assms(1)] _ assms(2), simplified]
  have "tree_ok (fst (putMapItem line k p (Ref a) (set_type p NODE_TYPE_MAP py')))" if "an_nodeType (node py' p) = NODE_TYPE_UNKNOWN"
    using set_type_ok [OF o'(1,2) _ that] o o'(2) by (intro putMapItem_ok) auto
  moreover have "tree_ok (fst (putMapItem line k p (Ref a) py'))" using o o' by (intro putMapItem_ok) auto
  moreover have "tree_ok (fst (putMapItem line k s (Ref a) py'))" if "map_target line p ind py' = Inr s" for s
  proof (rule putMapItem_ok)
    have "Ref s \<in> set (an_s (node py' p))"
      using that by (auto simp: map_target_def split: if_splits item.splits) (metis last_in_set)
    then have "s < length (py_heap py)"
      using new(9) [OF open_atD(2) [OF assms(1)]] node_of [OF open_atD(1,2) [OF assms(1)]] by (auto simp: node_ok_def refs_def)
    then show "s < b \<and> b < length (py_heap py')" if "Ref a = Ref b" for b using that new(2,3) by simp
  qed (use o' map_target_ok [OF o'(1,2) that] in auto)
  ultimately show ?thesis using o'(1) by (simp add: open_entry_def split: sum.split nodeKind.split)
qed

lemma feedMap_ok:
  assumes "open_at py p ind" shows "fed_ok (feedMap st line k v p ind py)"
proof -
  have "tree_ok (fst (case open_entry line key p ind a py' of (py, None) \<Rightarrow> (push a py, None) | (py, Some e) \<Rightarrow> (py, Some e)))"
    if "new_node line ind key NODE_TYPE_UNKNOWN py = (py', a)" for key py' a
  proof -
    note o = open_new_node [OF assms _ that, simplified]
    have "an_indent (node py' a) = ind" using new_node_ok(5) [OF open_atD(1) [OF assms] _ that] by simp
    moreover have "an_indent (node py' (hd (py_stack py'))) < ind" using open_atD(3,4) [OF o(1)] by simp
    ultimately have "tree_ok (push a (fst (open_entry line key p ind a py')))"
      using open_entry_ok [OF assms that] o(3) by (intro push_ok) (simp_all add: open_entry_frame)
    then show ?thesis using open_entry_ok [OF assms that, of key] by (auto split: prod.split option.split)
  qed
  then show ?thesis
    using open_atD(1) [OF assms] feedMapValue_ok [OF assms]
    by (auto simp: feedMap_def Let_def open_entry_def [symmetric] split: option.split prod.split)
qed


text \<open>A line returns, and if it is accepted it leaves a tree.\<close>

definition line_ok :: "line_result \<Rightarrow> bool" where
  "line_ok r \<longleftrightarrow> (case r of None \<Rightarrow> False | Some (Inl e) \<Rightarrow> True | Some (Inr (ys, rest)) \<Rightarrow> tree_ok (ys_py ys))"

lemma line_ok_simps [simp]: "\<not> line_ok None" "line_ok (Some (Inl e))" "line_ok (Some (Inr (ys, rest))) = tree_ok (ys_py ys)"
  by (simp_all add: line_ok_def)

lemma line_done_ok: "fed_ok r \<Longrightarrow> line_ok (line_done ind b rest r)"
  by (auto simp: line_done_def fed_ok_def split: prod.splits option.splits)

lemma block_done_ok:
  "(\<And>value. fed_ok (f value)) \<Longrightarrow>
   line_ok (case collectBlockScalar rest i s c d of (value, rest') \<Rightarrow> line_done ind b rest' (f value))"
  by (auto intro: line_done_ok split: prod.split)

lemma fed_ok_drop: "fed_ok r \<Longrightarrow> fed_ok (map_option (\<lambda>(py, err). (py, None)) r)"
  by (auto simp: fed_ok_def split: option.splits prod.splits)

lemma map_line_ok: "open_at py p ind \<Longrightarrow> line_ok (map_line st line rest p ind py)"
  using feedMapValue_ok [of py p ind] feedMap_ok [of py p ind]
  by (auto simp: map_line_def split: sum.split option.split intro!: line_done_ok block_done_ok)

lemma slice_line_ok: "open_at py p ind \<Longrightarrow> line_ok (slice_line st line trimmed rest p ind py)"
  using feedSliceScalar_ok [of py p ind] feedSlice_ok [of py p ind] block_entry_ok [of py p ind]
  by (auto simp: slice_line_def Let_def split: sum.split option.split intro!: line_done_ok block_done_ok fed_ok_drop)

lemma lineIndent_nonneg: "lineIndent line = Inr ind \<Longrightarrow> 0 \<le> ind"
proof -
  have "indent_loop l n s = Inr ind \<Longrightarrow> 0 \<le> n \<Longrightarrow> 0 \<le> ind" for l n s
    by (induction s arbitrary: n) (auto split: if_splits)
  then show "lineIndent line = Inr ind \<Longrightarrow> 0 \<le> ind" unfolding lineIndent_def by blast
qed

lemma close_open_at:
  assumes "tree_ok py" "0 \<le> ind" "py_stack (close_to ind py) = p # s" shows "open_at (close_to ind py) p ind"
  using close_to_ok [OF assms(1,2)] assms(3) by (simp add: open_at_def)

lemma parse_line_ok: "tree_ok (ys_py ys) \<Longrightarrow> line_ok (parse_line st ys raw rest)"
  using close_to_ok(2) [OF _ lineIndent_nonneg, of "ys_py ys" "stripInlineComment raw"]
    close_open_at [OF _ lineIndent_nonneg, of "ys_py ys" "stripInlineComment raw"]
  by (auto simp: parse_line_def Let_def split: option.split sum.split list.split intro!: map_line_ok slice_line_ok)

lemma parse_loop_ok:
  assumes "tree_ok (ys_py ys)"
  shows "parse_loop st ys ls \<noteq> None \<and> (\<forall>ys'. parse_loop st ys ls = Some (Inr ys') \<longrightarrow> tree_ok (ys_py ys'))"
  using assms
proof (induction st ys ls rule: parse_loop.induct)
  case (2 st ys raw rest)
  note ok = parse_line_ok [OF 2(2), of st raw rest]
  then obtain r where r: "parse_line st ys raw rest = Some r" by (auto simp: line_ok_def split: option.splits)
  show ?case
  proof (cases r)
    case (Inr x)
    obtain ys' rest' where x: "x = (ys', rest')" by fastforce
    have l: "parse_line st ys raw rest = Some (Inr (ys', rest'))" using r Inr x by simp
    then have "tree_ok (ys_py ys')" using ok by simp
    then show ?thesis using 2(1) [OF l refl refl] by (simp add: l)
  qed (simp add: r)
qed simp_all

lemma start_ok: "tree_ok (ys_py start)"
  by (simp add: start_def rootNode_def tree_ok_def heap_ok_def node_ok_def refs_def root_ok_def stack_ok_def)

lemma parse_cases:
  obtains e where "parse st content = Some (Inl e)" | py where "parse st content = Some (Inr py)" "tree_ok py"
proof -
  note l = parse_loop_ok [OF start_ok, of st "splitYamlLines content"]
  then obtain r where r: "parse_loop st start (splitYamlLines content) = Some r" by blast
  show thesis
  proof (cases r)
    case (Inl e)
    then show thesis using that(1) r by (simp add: parse_def)
  next
    case (Inr ys)
    then show thesis using that(2) r l by (simp add: parse_def)
  qed
qed

section \<open>The tree is converted\<close>

lemma conv_all_ok: "(\<And>x. x \<in> set xs \<Longrightarrow> \<exists>v. x = Some (Inr v)) \<Longrightarrow> \<exists>vs. conv_all xs = Some (Inr vs)"
  by (induction xs) fastforce+

lemma toMap_ok:
  assumes "\<And>a. a \<in> refs n \<Longrightarrow> \<exists>v. f a = Some (Inr v)" shows "\<exists>m. toMap f n = Some (Inr (VMap m))"
proof -
  have "\<exists>v. conv_map (Pair k) (case x of Tok t \<Rightarrow> Some (Inr (token_toAny t)) | Ref a \<Rightarrow> f a) = Some (Inr v)"
    if "(k, x) \<in> set (an_m n)" for k x
  proof (cases x)
    case (Ref a)
    then have "a \<in> refs n" using that by (force simp: refs_def)
    then show ?thesis using assms Ref by fastforce
  qed simp
  then have "\<exists>vs. conv_all (map (\<lambda>(k, x). conv_map (Pair k) (case x of Tok t \<Rightarrow> Some (Inr (token_toAny t)) | Ref a \<Rightarrow> f a)) (an_m n)) = Some (Inr vs)"
    by (intro conv_all_ok) auto
  then show ?thesis by (auto simp: toMap_def)
qed

lemma toSlice_ok:
  assumes "\<And>a. a \<in> refs n \<Longrightarrow> \<exists>v. f a = Some (Inr v)" shows "\<exists>v. toSlice f h n = Some (Inr v)"
proof -
  let ?g = "\<lambda>x. case x of Tok t \<Rightarrow> Some (Inr (token_toAny t)) | Ref a \<Rightarrow>
      conv_map (\<lambda>val. if isNamedSliceNode (h ! a) then VMap [(an_nodeName (h ! a), val)] else val) (f a)"
  have "\<exists>v. ?g x = Some (Inr v)" if "x \<in> set (an_s n)" for x
  proof (cases x)
    case (Ref a)
    then have "a \<in> refs n" using that by (simp add: refs_def)
    then show ?thesis using assms Ref by fastforce
  qed simp
  then have "\<exists>vs. conv_all (map ?g (an_s n)) = Some (Inr vs)"
    by (intro conv_all_ok) auto
  then show ?thesis by (auto simp: toSlice_def)
qed

lemma node_toAny_ok: "heap_ok h \<Longrightarrow> a < length h \<Longrightarrow> length h - a \<le> d \<Longrightarrow> \<exists>v. node_toAny h d a = Some (Inr v)"
proof (induction d arbitrary: a)
  case (Suc d)
  note ok = heap_okD [OF Suc.prems(1,2)]
  have "\<exists>v. node_toAny h d b = Some (Inr v)" if "b \<in> refs (h ! a)" for b
    using ok that Suc.prems by (intro Suc.IH) (auto simp: node_ok_def)
  then show ?case using ok toMap_ok [of "h ! a" "node_toAny h d"] toSlice_ok [of "h ! a" "node_toAny h d" h]
    by (auto simp: node_ok_def Let_def)
qed simp

lemma root_toAny: "tree_ok py \<Longrightarrow> \<exists>m. node_toAny (py_heap py) (length (py_heap py)) 0 = Some (Inr (VMap m))"
proof -
  assume ok: "tree_ok py"
  obtain d where d: "length (py_heap py) = Suc d" using ok by (cases "py_heap py") (auto simp: tree_ok_def root_ok_def)
  have "\<exists>v. node_toAny (py_heap py) d b = Some (Inr v)" if "b \<in> refs (node py 0)" for b
    using that node_of [OF ok, of 0] ok d by (intro node_toAny_ok) (auto simp: tree_ok_def node_ok_def)
  then show ?thesis using toMap_ok [of "node py 0" "node_toAny (py_heap py) d"] root_of [OF ok] by (simp add: d)
qed

section \<open>Properties\<close>

text \<open>C23: the tree of every document that is accepted is well formed: the children of a node come after it, so that the tree has
  no cycle, no map has a key twice, every node is a map, a list or undecided, the root is a map, and the nodes left open are
  nested by indentation with the root outermost.\<close>

theorem parse_tree_ok: "parse st content = Some (Inr py) \<Longrightarrow> tree_ok py"
  by (rule parse_cases [of st content]) auto

theorem parse_tree_ok_witness:
  "\<exists>py. parse bare_std (''a:'' @ [LF] @ ''  - x'') = Some (Inr py) \<and> tree_ok py \<and> length (py_heap py) = 2"
proof -
  have "case parse bare_std (''a:'' @ [LF] @ ''  - x'') of Some (Inr py) \<Rightarrow> length (py_heap py) = 2 | _ \<Rightarrow> False"
    by code_simp
  then obtain py where "parse bare_std (''a:'' @ [LF] @ ''  - x'') = Some (Inr py)" "length (py_heap py) = 2"
    by (auto split: option.splits sum.splits)
  then show ?thesis using parse_tree_ok [of bare_std "''a:'' @ [LF] @ ''  - x''" py] by blast
qed

lemma parseToMap_Some: "\<exists>r. parseToMap st content = Some r"
proof (rule parse_cases [of st content])
  fix py assume "parse st content = Some (Inr py)" "tree_ok py"
  then show ?thesis using root_toAny [of py] by (auto simp: parseToMap_def)
qed (simp add: parseToMap_def)


text \<open>C21: reading a document never panics and always ends: for every byte string the result is a map or an error, so that no
  indentation empties the stack of open nodes, the recursive descent into the value of a line ends within two calls per character of
  the value, and the recursion over the tree within its number of nodes.\<close>

theorem parseToMap_total: "\<exists>r. parseToMap st content = Some r"
  by (rule parseToMap_Some)

text \<open>A block scalar as a list item under a map is dropped without an error: a line whose item is a block header, fed to a
  node that is already a map, is accepted, its text is skipped, and nothing of it is in the tree.\<close>

theorem block_item_in_map_dropped:
  assumes "an_nodeType (node py p) = NODE_TYPE_MAP"
    and "parseBlockScalarHeader (TrimSpace (TrimPrefix trimmed ''- '')) = Some (style, chomp, ii)"
  shows "slice_line st line trimmed rest p ind py =
    Some (Inr (\<lparr>ys_py = py, ys_lastIndent = ind, ys_lastMayNest = False\<rparr>, dropWhile (in_block ind) rest))"
  using assms by (simp add: slice_line_def Let_def feedSliceScalar_def collectBlockScalar_def line_done_def)

theorem block_item_in_map_dropped_witness:
  "slice_line bare_std ''- |'' ''- |'' [''  lost'', ''b: x''] 0 0 (ys_py start) =
    Some (Inr (\<lparr>ys_py = ys_py start, ys_lastIndent = 0, ys_lastMayNest = False\<rparr>, [''b: x'']))"
proof -
  have "an_nodeType (node (ys_py start) 0) = NODE_TYPE_MAP" by (simp add: start_def rootNode_def)
  moreover have "parseBlockScalarHeader (TrimSpace (TrimPrefix ''- |'' ''- '')) = Some (CHR ''|'', CHR 0x00, 0)" by code_simp
  moreover have "dropWhile (in_block 0) [''  lost'', ''b: x''] = [''b: x'']" by code_simp
  ultimately show ?thesis using block_item_in_map_dropped [of "ys_py start" 0 "''- |''" "CHR ''|''" "CHR 0x00" 0 bare_std "''- |''" "[''  lost'', ''b: x'']" 0]
    by (simp del: dropWhile.simps)
qed

text \<open>The same through the whole reader, for an item and for an entry of an item: the document is accepted without them.\<close>

lemma block_items_lost:
  "parseToMap bare_std (''a: x'' @ [LF] @ ''- |'' @ [LF] @ ''  lost'') = Some (Inr [(''a'', VStr ''x'')])"
  "parseToMap bare_std (''a: x'' @ [LF] @ ''- k: |'' @ [LF] @ ''  lost'') = Some (Inr [(''a'', VStr ''x'')])"
  by code_simp+

text \<open>An indentation indicator beyond the real indentation cuts text off.\<close>

lemma block_indicator_cuts:
  "parseToMap bare_std (''a: |4'' @ [LF] @ ''  text'') = Some (Inr [(''a'', VStr (''xt'' @ [LF]))])"
  by code_simp

end
