(* ===== verification/YamlRender.thy ===== *)
theory YamlRender
  imports YamlFlow
begin

text \<open>
  Correctness of the flow parser: a value written as a flow literal is read back as it was.
\<close>

section \<open>Flow literals\<close>

fun esc :: "string \<Rightarrow> string" where
  "esc [] = []"
| "esc (c # cs) = (if c = CHR 0x22 \<or> c = CHR 0x5C then CHR 0x5C # c # esc cs else c # esc cs)"

definition quoted :: "string \<Rightarrow> string" where
  "quoted s = CHR 0x22 # esc s @ [CHR 0x22]"

fun commas :: "string list \<Rightarrow> string" where
  "commas [] = []"
| "commas [w] = w"
| "commas (w # v # ws) = w @ '', '' @ commas (v # ws)"

fun render :: "yval \<Rightarrow> string" where
  "render VNull = ''null''"
| "render (VBool b) = (if b then ''true'' else ''false'')"
| "render (VInt i) = Itoa i"
| "render (VStr s) = quoted s"
| "render (VArr vs) = ''['' @ commas (map render vs) @ '']''"
| "render (VMap m) = ''{'' @ commas (map (\<lambda>(k, v). quoted k @ '': '' @ render v) m) @ ''}''"
| "render (VFloat f) = []"
| "render (VTime t) = []"
| "render (VDuration d) = []"

text \<open>The values that have a literal: integers of 64 bits, maps with distinct keys, and no opaque numbers.\<close>

fun literal :: "yval \<Rightarrow> bool" where
  "literal VNull = True"
| "literal (VBool b) = True"
| "literal (VInt i) = (- (2 ^ 63) \<le> i \<and> i < 2 ^ 63)"
| "literal (VStr s) = True"
| "literal (VArr vs) = list_all literal vs"
| "literal (VMap m) = (distinct (map fst m) \<and> list_all (\<lambda>(k, v). literal v) m)"
| "literal (VFloat f) = False"
| "literal (VTime t) = False"
| "literal (VDuration d) = False"

fun kind_of :: "yval \<Rightarrow> nodeKind" where
  "kind_of VNull = NODE_TYPE_NULL"
| "kind_of (VBool b) = NODE_TYPE_BOOL"
| "kind_of (VInt i) = NODE_TYPE_INT"
| "kind_of (VStr s) = NODE_TYPE_STRING"
| "kind_of (VArr vs) = NODE_TYPE_SLICE"
| "kind_of (VMap m) = NODE_TYPE_MAP"
| "kind_of (VFloat f) = NODE_TYPE_FLOAT"
| "kind_of (VTime t) = NODE_TYPE_TIMESTAMP"
| "kind_of (VDuration d) = NODE_TYPE_DURATION"

section \<open>The tokens of a literal\<close>

text \<open>The parser that is about to look at the next token of a text.\<close>

definition at_value :: "string \<Rightarrow> yparser" where
  "at_value s = nextValue \<lparr>yp_lex = \<lparr>lx_rest = s, lx_err = None\<rparr>, yp_tok = \<lparr>yt_Type = TokenEOF, yt_Value = [], yt_Quoted = False\<rparr>\<rparr>"

definition at_key :: "string \<Rightarrow> yparser" where
  "at_key s = nextKey \<lparr>yp_lex = \<lparr>lx_rest = s, lx_err = None\<rparr>, yp_tok = \<lparr>yt_Type = TokenEOF, yt_Value = [], yt_Quoted = False\<rparr>\<rparr>"

abbreviation seen :: "tokenType \<Rightarrow> string \<Rightarrow> bool \<Rightarrow> string \<Rightarrow> yparser" where
  "seen t v q rest \<equiv> \<lparr>yp_lex = \<lparr>lx_rest = rest, lx_err = None\<rparr>, yp_tok = \<lparr>yt_Type = t, yt_Value = v, yt_Quoted = q\<rparr>\<rparr>"

lemma NewParser_at: "NewParser (NewLexer s) = at_value s"
  unfolding NewParser_def NewLexer_def at_value_def ..

lemma at_psize: "psize (at_value s) \<le> length s" "psize (at_key s) \<le> length s"
  using NewParser_psize [of s] unfolding NewParser_at
  by simp (cases "nextToken True (NewLexer s)",
    auto dest: nextToken_shrinks simp: at_key_def nextKey_def NextKeyToken_def psize_def NewLexer_def)

lemma next_looking [simp]:
  "nextValue (seen t v q rest) = at_value rest" "nextKey (seen t v q rest) = at_key rest"
  by (simp_all add: at_value_def at_key_def nextValue_def nextKey_def split: prod.splits)

lemmas token_defs = at_value_def at_key_def nextValue_def nextKey_def NextValueToken_def NextKeyToken_def nextToken_def
  skipWhitespace_def Let_def

lemma at_value_space [simp]: "at_value (CHR '' '' # s) = at_value s"
  by (simp add: token_defs)

lemma at_key_space [simp]: "at_key (CHR '' '' # s) = at_key s"
  by (simp add: token_defs)

lemma at_value_Nil [simp]: "at_value [] = seen TokenEOF [] False []"
  by (simp add: token_defs)

lemma at_value_punct [simp]: "punct c = Some t \<Longrightarrow> at_value (c # s) = seen t [c] False s"
  by (auto simp: token_defs punct_def split: if_splits)

lemma at_key_punct [simp]: "punct c = Some t \<Longrightarrow> at_key (c # s) = seen t [c] False s"
  by (auto simp: token_defs punct_def split: if_splits)

lemma punct_eval [simp]:
  "punct CHR ''{'' = Some TokenLBrace" "punct CHR ''}'' = Some TokenRBrace" "punct CHR ''['' = Some TokenLBracket"
  "punct CHR '']'' = Some TokenRBracket" "punct CHR '':'' = Some TokenColon" "punct CHR '','' = Some TokenComma"
  "punct CHR 0x22 = None"
  by (simp_all add: punct_def)

lemma readDoubleQuote_esc: "readDoubleQuote (esc s @ CHR 0x22 # r) = (s, r, None)"
  by (induction s) auto

lemma at_quoted [simp]:
  "at_value (quoted s @ r) = seen TokenString s True r" "at_key (quoted s @ r) = seen TokenString s True r"
  by (simp_all add: token_defs quoted_def readDoubleQuote_esc set_err_def)

text \<open>A plain word ends where a delimiter begins.\<close>

definition delim :: "string \<Rightarrow> bool" where
  "delim s \<longleftrightarrow> s = [] \<or> stops False (hd s)"

definition plain :: "string \<Rightarrow> bool" where
  "plain w \<longleftrightarrow> w \<noteq> [] \<and> list_all (\<lambda>c. \<not> stops True c \<and> c \<noteq> CHR 0x27 \<and> c \<noteq> CHR 0x22) w"

lemma at_plain:
  assumes "plain w" "delim r" shows "at_value (w @ r) = seen TokenString w False r"
proof -
  obtain c cs where w: "w = c # cs" using assms by (cases w) (auto simp: plain_def)
  have c: "punct c = None" "c \<noteq> CHR '' ''" "c \<noteq> CHR 0x27" "c \<noteq> CHR 0x22"
    using assms w by (auto simp: plain_def stops_def punct_def)
  have "\<And>x. x \<in> set w \<Longrightarrow> \<not> stops False x" using assms by (auto simp: plain_def list_all_iff stops_def)
  then have "takeWhile (\<lambda>x. \<not> stops False x) (w @ r) = w \<and> dropWhile (\<lambda>x. \<not> stops False x) (w @ r) = r"
    using assms(2) by (cases r) (auto simp: delim_def takeWhile_append dropWhile_append)
  then show ?thesis using c by (simp add: token_defs w readString_def)
qed


section \<open>The scalars of a literal\<close>

lemma Itoa_shape:
  obtains n where "Itoa i = CHR ''-'' # nat_str n" | n where "Itoa i = nat_str n"
  by (cases "i < 0") (simp_all add: Itoa_def)

lemma nat_str_head: "decimal (hd (nat_str n))"
  by (rule nat_str_decimal [of _ n]) simp

lemma Itoa_char: "c \<in> set (Itoa i) \<Longrightarrow> c = CHR ''-'' \<or> decimal c"
  by (rule Itoa_shape [of i]) (auto dest: nat_str_decimal)

lemma Itoa_nonempty: "Itoa i \<noteq> []"
  by (rule Itoa_shape [of i]) auto

lemma number_char_facts:
  assumes "c = CHR ''-'' \<or> decimal c"
  shows "\<not> stops True c" "c \<noteq> CHR 0x27" "c \<noteq> CHR 0x22" "c \<noteq> CHR 0x0D" "c \<noteq> CHR 0x0A" "c \<noteq> CHR ''!''" "c \<noteq> CHR ''&''"
    "c \<noteq> CHR ''*''" "c \<noteq> CHR ''~''" "\<not> space_byte c"
    "c \<notin> hd ` set (''null'' # true_words @ false_words)" "ToLower [c] = [c]"
proof -
  have "list_all (\<lambda>c. \<not> decimal c) ([CHR '' '', CHR ''{'', CHR ''}'', CHR ''['', CHR '']'', CHR '','', CHR '':'', CHR 0x27, CHR 0x22, CHR 0x0D,
    CHR 0x0A, CHR ''!'', CHR ''&'', CHR ''*'', CHR ''~''] @ map hd (''null'' # true_words @ false_words))" by code_simp
  moreover have "\<not> space_byte CHR ''-''" by code_simp
  moreover have "ToLower [CHR ''-''] = [CHR ''-'']" by code_simp
  moreover have "decimal c \<Longrightarrow> ToLower [c] = [c]" by (auto simp: ToLower_def decimal_def digit_val_def Let_def split: if_splits)
  ultimately show "\<not> stops True c" "c \<noteq> CHR 0x27" "c \<noteq> CHR 0x22" "c \<noteq> CHR 0x0D" "c \<noteq> CHR 0x0A" "c \<noteq> CHR ''!''" "c \<noteq> CHR ''&''"
    "c \<noteq> CHR ''*''" "c \<noteq> CHR ''~''" "\<not> space_byte c"
    "c \<notin> hd ` set (''null'' # true_words @ false_words)" "ToLower [c] = [c]"
    using assms by (auto simp: stops_def true_words_def false_words_def dest: space_not_decimal)
qed

lemmas number_facts = number_char_facts [OF Itoa_char]

lemma Itoa_ends: "hd (Itoa i) \<in> set (Itoa i)" "last (Itoa i) \<in> set (Itoa i)"
  using Itoa_nonempty by simp_all

lemma TrimSpace_number: "TrimSpace (Itoa i) = Itoa i"
  by (rule TrimSpace_id) (use number_facts(10) Itoa_ends in blast)

lemma Itoa_starts: "starts_with (c # cs) (Itoa i) \<Longrightarrow> c = CHR ''-'' \<or> decimal c"
  using Itoa_ends(1) [of i] Itoa_char [of c i] by (cases "Itoa i") auto

lemma Itoa_not_tagged:
  "c \<in> {CHR ''!'', CHR ''&'', CHR ''*''} \<Longrightarrow> \<not> starts_with (c # cs) (Itoa i)"
  using number_char_facts(6-8) [OF Itoa_starts [of c cs i]] by blast

lemma ToLower_number: "ToLower (Itoa i) \<notin> set (''null'' # true_words @ false_words)"
proof
  assume w: "ToLower (Itoa i) \<in> set (''null'' # true_words @ false_words)"
  obtain c cs where s: "Itoa i = c # cs" using Itoa_nonempty [of i] by (cases "Itoa i") auto
  then have c: "c = CHR ''-'' \<or> decimal c" using Itoa_char [of c i] by simp
  then have "hd (ToLower (Itoa i)) = c" using number_char_facts(12) [OF c] by (simp add: s ToLower_def)
  then show False using number_char_facts(11) [OF c] w by (metis image_eqI)
qed

lemma sign_body_number: "sign_body (Itoa i) \<noteq> [] \<and> list_all decimal (sign_body (Itoa i))"
proof (rule Itoa_shape [of i])
  fix n assume "Itoa i = nat_str n"
  moreover have "hd (nat_str n) \<noteq> CHR ''-'' \<and> hd (nat_str n) \<noteq> CHR ''+''" using nat_str_head [of n] by auto
  ultimately show ?thesis by (auto simp: sign_body_def list_all_iff dest: nat_str_decimal)
qed (auto simp: sign_body_def list_all_iff dest: nat_str_decimal)

lemma hasCRLF_number: "\<not> hasCRLF (Itoa i)"
  using number_facts(4,5) [of _ i] by (auto simp: hasCRLF_def)

lemma parseScalar_number:
  assumes "- (2 ^ 63) \<le> i" "i < 2 ^ 63" shows "parseScalar st (Itoa i) = Inr (VInt i, NODE_TYPE_INT)"
proof -
  have "Itoa i \<noteq> ''!!str''" using number_facts(6) [of "CHR ''!''" i] by auto
  then have "parseExplicitStringTag (Itoa i) = None"
    using Itoa_not_tagged [of "CHR ''!''" "''!str ''" i] by (simp add: parseExplicitStringTag_def TrimSpace_number Let_def)
  moreover have "\<not> IsNull (Itoa i)"
    using ToLower_number [of i] number_facts(9) [of "CHR ''~''" i] by (auto simp: IsNull_def TrimSpace_number)
  moreover have "\<not> IsBool (Itoa i)" using ToLower_number [of i] by (simp add: IsBool_def TrimSpace_number)
  moreover have "IsInteger (Itoa i)" using sign_body_number hasCRLF_number by (simp add: IsInteger_def TrimSpace_number Let_def)
  ultimately show ?thesis using Atoi_Itoa [OF assms] by (simp add: parseScalar_def TrimSpace_number)
qed

lemma plain_number: "plain (Itoa i)"
  using Itoa_nonempty number_facts(1-3) by (simp add: plain_def list_all_iff)

lemma unsupported_number: "unsupportedPlainScalar (Itoa i) = None"
  using Itoa_not_tagged [of _ _ i] by (auto simp: unsupportedPlainScalar_def TrimSpace_number Let_def)

text \<open>The plain scalars of a literal: what the parser makes of each.\<close>

definition scalar_text :: "std \<Rightarrow> yval \<Rightarrow> bool" where
  "scalar_text st v \<longleftrightarrow> plain (render v) \<and> render v \<noteq> ''!!str'' \<and> unsupportedPlainScalar (render v) = None
     \<and> parseScalar st (render v) = Inr (v, kind_of v) \<and> TrimSpace (render v) = render v \<and> \<not> starts_flow (render v)"

lemma Itoa_starts_flow: "\<not> starts_flow (Itoa i)"
  using number_char_facts(1) [OF Itoa_starts [of "CHR ''{''" "[]" i]] number_char_facts(1) [OF Itoa_starts [of "CHR ''[''" "[]" i]]
    number_char_facts(2) [OF Itoa_starts [of "CHR 0x27" "[]" i]] number_char_facts(3) [OF Itoa_starts [of "CHR 0x22" "[]" i]]
  by (auto simp: starts_flow_def stops_def)

lemma scalar_text_number: "literal (VInt i) \<Longrightarrow> scalar_text st (VInt i)"
  using number_facts(6) [of "CHR ''!''" i]
  by (auto simp: scalar_text_def plain_number unsupported_number parseScalar_number TrimSpace_number Itoa_starts_flow)

lemma word_scalars: "scalar_text st VNull" "scalar_text st (VBool b)"
proof -
  have "plain ''null'' \<and> unsupportedPlainScalar ''null'' = None \<and> TrimSpace ''null'' = ''null'' \<and> \<not> starts_flow ''null''
      \<and> parseExplicitStringTag ''null'' = None \<and> IsNull ''null''" by code_simp
  then show "scalar_text st VNull" by (simp add: scalar_text_def parseScalar_def)
  have "plain ''true'' \<and> unsupportedPlainScalar ''true'' = None \<and> TrimSpace ''true'' = ''true'' \<and> \<not> starts_flow ''true''
      \<and> parseExplicitStringTag ''true'' = None \<and> \<not> IsNull ''true'' \<and> IsBool ''true'' \<and> ToLower ''true'' \<in> set true_words" by code_simp
  moreover have "plain ''false'' \<and> unsupportedPlainScalar ''false'' = None \<and> TrimSpace ''false'' = ''false'' \<and> \<not> starts_flow ''false''
      \<and> parseExplicitStringTag ''false'' = None \<and> \<not> IsNull ''false'' \<and> IsBool ''false'' \<and> ToLower ''false'' \<notin> set true_words" by code_simp
  ultimately show "scalar_text st (VBool b)" by (cases b) (simp_all add: scalar_text_def parseScalar_def)
qed


section \<open>Reading a literal back\<close>

definition reads :: "std \<Rightarrow> yval \<Rightarrow> bool" where
  "reads st v \<longleftrightarrow> (\<forall>nt n r. delim r \<longrightarrow> 2 * psize (at_value (render v @ r)) + 1 \<le> n \<longrightarrow>
     (\<exists>k. parseValue st n nt (at_value (render v @ r)) = Some (Inr (v, k, at_value r)) \<and> flow_kind v k = kind_of v))"

lemma readsE:
  assumes "reads st v" "delim r" "2 * psize (at_value (render v @ r)) + 1 \<le> n"
  obtains k where "parseValue st n nt (at_value (render v @ r)) = Some (Inr (v, k, at_value r))" "flow_kind v k = kind_of v"
  using assms unfolding reads_def by blast

lemma parsed_head: "parseValue st n nt p = Some (Inr x) \<Longrightarrow> ptype p \<in> {TokenLBrace, TokenLBracket, TokenString}"
  by (cases n; cases "ptype p") simp_all

lemma delim_punct [simp]: "delim (CHR '','' # s)" "delim (CHR '']'' # s)" "delim (CHR ''}'' # s)" "delim []"
  by (simp_all add: delim_def stops_def)

lemma scalar_reads: "scalar_text st v \<Longrightarrow> v \<in> range VInt \<union> range VBool \<union> {VNull} \<Longrightarrow> reads st v"
proof -
  assume s: "scalar_text st v" and v: "v \<in> range VInt \<union> range VBool \<union> {VNull}"
  have "parseValue st n nt (at_value (render v @ r)) = Some (Inr (v, kind_of v, at_value r))" if "delim r" "0 < n" for n nt r
    using that s at_plain [of "render v" r] by (cases n) (simp_all add: scalar_text_def)
  moreover have "flow_kind v (kind_of v) = kind_of v" using v by (auto simp: flow_kind_def)
  ultimately show ?thesis unfolding reads_def by (metis Suc_le_eq add.commute plus_1_eq_Suc zero_less_Suc order_less_le_trans)
qed

lemma string_reads: "reads st (VStr s)"
  unfolding reads_def
proof (intro allI impI)
  fix nt n r assume "2 * psize (at_value (render (VStr s) @ r)) + 1 \<le> n"
  then show "\<exists>k. parseValue st n nt (at_value (render (VStr s) @ r)) = Some (Inr (VStr s, k, at_value r)) \<and> flow_kind (VStr s) k = kind_of (VStr s)"
    by (cases n) (simp_all add: flow_kind_def)
qed

lemma array_reads:
  assumes "\<And>v. v \<in> set vs \<Longrightarrow> reads st v" "vs \<noteq> []"
    and "2 * psize (at_value (commas (map render vs) @ CHR '']'' # r)) + 2 \<le> n"
  shows "\<exists>k. array_loop st n nt acc (at_value (commas (map render vs) @ CHR '']'' # r)) = Some (Inr (VArr (acc @ vs), k, at_value r))"
  using assms
proof (induction vs arbitrary: n nt acc rule: induct_list012)
  case (2 v)
  let ?p = "at_value (render v @ CHR '']'' # r)"
  obtain m where n: "n = Suc (Suc m)" using 2(3) by (cases n; cases "n - 1") auto
  obtain k where k: "parseValue st (Suc m) nt ?p = Some (Inr (v, k, at_value (CHR '']'' # r)))"
    by (rule readsE [of st v "CHR '']'' # r" "Suc m" nt]) (use 2 n in auto)
  from parsed_head [OF k] have "ptype ?p \<noteq> TokenRBracket" "ptype ?p \<noteq> TokenEOF" by auto
  then show ?case using k by (simp add: n)
next
  case (3 v w ws)
  let ?rest = "commas (map render (w # ws)) @ CHR '']'' # r" and ?s = "'', '' @ commas (map render (w # ws)) @ CHR '']'' # r"
  let ?p = "at_value (render v @ ?s)"
  obtain m where n: "n = Suc m" using 3(5) by (cases n) auto
  obtain k where k: "parseValue st m nt ?p = Some (Inr (v, k, at_value ?s))"
    by (rule readsE [of st v ?s m nt]) (use 3 n in auto)
  from parsed_head [OF k] have h: "ptype ?p \<noteq> TokenRBracket" "ptype ?p \<noteq> TokenEOF" by auto
  have "psize (at_value ?rest) < psize (at_value ?s)" using nextValue_shrinks [of "at_value ?s"] by simp
  also have "\<dots> < psize ?p" by (rule parse_progress(1) [OF k])
  finally have "2 * psize (at_value ?rest) + 2 \<le> m" using 3(5) n by simp
  then obtain k' where "array_loop st m k (acc @ [v]) (at_value ?rest) = Some (Inr (VArr ((acc @ [v]) @ w # ws), k', at_value r))"
    using 3(2) [of m k "acc @ [v]"] 3(3) by auto
  then show ?case using k h by (simp add: n)
qed simp

definition entry :: "string \<times> yval \<Rightarrow> string" where
  "entry e = (case e of (k, v) \<Rightarrow> quoted k @ '': '' @ render v)"

lemma at_key_commas:
  "at_key (commas (map entry ((key, v) # m)) @ s) =
     seen TokenString key True ('': '' @ render v @ (if m = [] then s else '', '' @ commas (map entry m) @ s))"
  by (cases m) (simp_all add: entry_def)

lemma map_step:
  assumes "key \<notin> fst ` set acc" "parseValue st n nt (at_value s) = Some (Inr (v, k, p))" "ptype p \<in> {TokenComma, TokenRBrace}"
  shows "map_loop st (Suc n) nt acc (seen TokenString key q ('': '' @ s))
    = map_loop st n k (acc @ [(key, v)]) (if ptype p = TokenComma then nextKey p else p)"
  using assms by auto

lemma map_reads:
  assumes "\<And>key v. (key, v) \<in> set m \<Longrightarrow> reads st v" "m \<noteq> []" "distinct (map fst (acc @ m))"
    and "2 * psize (at_key (commas (map entry m) @ CHR ''}'' # r)) + 2 \<le> n"
  shows "\<exists>k. map_loop st n nt acc (at_key (commas (map entry m) @ CHR ''}'' # r)) = Some (Inr (VMap (acc @ m), k, at_value r))"
  using assms
proof (induction m arbitrary: n nt acc)
  case (Cons e m)
  obtain key v where e: "e = (key, v)" by (cases e)
  let ?s = "if m = [] then CHR ''}'' # r else '', '' @ commas (map entry m) @ CHR ''}'' # r"
  let ?p = "at_value (render v @ ?s)"
  note first = at_key_commas [of key v m "CHR ''}'' # r", folded e]
  have lt: "psize ?p < psize (at_key (commas (map entry (e # m)) @ CHR ''}'' # r))"
    unfolding first using nextValue_shrinks [of "seen TokenColon '':'' False (CHR '' '' # render v @ ?s)"] by (simp add: psize_def)
  obtain n' where n: "n = Suc (Suc n')" using Cons(5) by (cases n; cases "n - 1") auto
  have "reads st v" using Cons(2) [of key v] e by simp
  moreover have "delim ?s" by simp
  moreover have "2 * psize ?p + 1 \<le> Suc n'" using Cons(5) lt n by linarith
  ultimately obtain k where k: "parseValue st (Suc n') nt ?p = Some (Inr (v, k, at_value ?s))"
    by (rule readsE)
  have fresh: "key \<notin> fst ` set acc" using Cons(4) e by auto
  show ?case
  proof (cases "m = []")
    case True
    then have "map_loop st n nt acc (at_key (commas (map entry (e # m)) @ CHR ''}'' # r)) = map_loop st (Suc n') k (acc @ [(key, v)]) (seen TokenRBrace ''}'' False r)"
      unfolding n first using map_step [OF fresh k] by simp
    then show ?thesis using True e by simp
  next
    case False
    let ?rest = "commas (map entry m) @ CHR ''}'' # r"
    have "psize (at_key ?rest) < psize (at_value ?s)" using nextKey_shrinks [of "at_value ?s"] False by simp
    also have "\<dots> < psize ?p" by (rule parse_progress(1) [OF k])
    finally have "2 * psize (at_key ?rest) + 2 \<le> Suc n'" using Cons(5) lt n by simp
    then obtain k' where "map_loop st (Suc n') k (acc @ [e]) (at_key ?rest) = Some (Inr (VMap ((acc @ [e]) @ m), k', at_value r))"
      using Cons.IH [of "acc @ [e]" "Suc n'" k] Cons.prems(1,3) False by auto
    moreover have "map_loop st n nt acc (at_key (commas (map entry (e # m)) @ CHR ''}'' # r)) = map_loop st (Suc n') k (acc @ [(key, v)]) (at_key ?rest)"
      unfolding n first using map_step [OF fresh k] False by simp
    ultimately show ?thesis using e by simp
  qed
qed simp

lemma literal_reads: "literal v \<Longrightarrow> reads st v"
proof (induction v)
  case (VArr vs)
  then have rd: "\<And>v. v \<in> set vs \<Longrightarrow> reads st v" by (simp add: list_all_iff)
  show ?case unfolding reads_def
  proof (intro allI impI)
    fix nt n r assume "2 * psize (at_value (render (VArr vs) @ r)) + 1 \<le> n"
    then obtain m where n: "n = Suc m" and m: "2 * Suc (length (commas (map render vs) @ CHR '']'' # r)) \<le> m"
      by (cases n) (auto simp: psize_def)
    have "\<exists>k. array_loop st m NODE_TYPE_SLICE [] (at_value (commas (map render vs) @ CHR '']'' # r)) = Some (Inr (VArr vs, k, at_value r))"
    proof (cases "vs = []")
      case True
      then show ?thesis using m by (cases m) auto
    next
      case False
      have "2 * psize (at_value (commas (map render vs) @ CHR '']'' # r)) + 2 \<le> m"
        using m at_psize(1) [of "commas (map render vs) @ CHR '']'' # r"] by simp
      from array_reads [OF rd False this, of NODE_TYPE_SLICE "[]"] show ?thesis unfolding append_Nil .
    qed
    then show "\<exists>k. parseValue st n nt (at_value (render (VArr vs) @ r)) = Some (Inr (VArr vs, k, at_value r)) \<and> flow_kind (VArr vs) k = kind_of (VArr vs)"
      by (auto simp: n flow_kind_def)
  qed
next
  case (VMap e)
  then have rd: "\<And>key v. (key, v) \<in> set e \<Longrightarrow> reads st v" and d: "distinct (map fst ([] @ e))" by (auto simp: list_all_iff)
  have entries: "map (\<lambda>(k, v). quoted k @ CHR '':'' # CHR '' '' # render v) e = map entry e" by (simp add: entry_def fun_eq_iff)
  show ?case unfolding reads_def
  proof (intro allI impI)
    fix nt n r assume "2 * psize (at_value (render (VMap e) @ r)) + 1 \<le> n"
    then obtain m where n: "n = Suc m" and m: "2 * Suc (length (commas (map entry e) @ CHR ''}'' # r)) \<le> m"
      by (cases n) (auto simp: psize_def entries)
    have "\<exists>k. map_loop st m NODE_TYPE_MAP [] (at_key (commas (map entry e) @ CHR ''}'' # r)) = Some (Inr (VMap e, k, at_value r))"
    proof (cases "e = []")
      case True
      then show ?thesis using m by (cases m) auto
    next
      case False
      have "2 * psize (at_key (commas (map entry e) @ CHR ''}'' # r)) + 2 \<le> m"
        using m at_psize(2) [of "commas (map entry e) @ CHR ''}'' # r"] by simp
      from map_reads [OF rd False d this, where nt = NODE_TYPE_MAP] show ?thesis unfolding append_Nil .
    qed
    then show "\<exists>k. parseValue st n nt (at_value (render (VMap e) @ r)) = Some (Inr (VMap e, k, at_value r)) \<and> flow_kind (VMap e) k = kind_of (VMap e)"
      by (auto simp: n flow_kind_def entries)
  qed
qed (auto intro: scalar_reads word_scalars scalar_text_number string_reads simp del: literal.simps(3) simp: literal.simps(7-9))


lemma flow_text:
  assumes "v \<notin> range VInt \<union> range VBool \<union> {VNull}" "literal v"
  shows "TrimSpace (render v) = render v" "starts_flow (render v)" "unsupportedPlainScalar (render v) = None"
proof -
  obtain c s d where r: "render v = c # s @ [d]" and c: "c \<in> {CHR 0x22, CHR ''['', CHR ''{''}" and d: "d \<in> {CHR 0x22, CHR '']'', CHR ''}''}"
    using assms by (cases v) (auto simp: quoted_def)
  have "list_all (\<lambda>c. \<not> space_byte c) [CHR 0x22, CHR ''['', CHR ''{'', CHR '']'', CHR ''}'']" by code_simp
  then have "\<not> space_byte (hd (render v))" "\<not> space_byte (last (render v))" using c d by (auto simp: r)
  then show t: "TrimSpace (render v) = render v" by (simp add: TrimSpace_id)
  show "starts_flow (render v)" using c by (auto simp: r starts_flow_def)
  show "unsupportedPlainScalar (render v) = None" using c by (auto simp: unsupportedPlainScalar_def t Let_def) (auto simp: r)
qed

lemma flow_parsed:
  assumes "literal v"
  shows "\<exists>t. TokenParse st (NewTokenNode line key (render v) ind) = Some (Inr t) \<and> token_toAny t = v \<and> tn_nodeType t = kind_of v"
proof (cases "v \<in> range VInt \<union> range VBool \<union> {VNull}")
  case True
  then have "scalar_text st v" using assms word_scalars scalar_text_number by auto
  then show ?thesis
    by (auto simp: TokenParse_def NewTokenNode_def scalar_text_def plain_def token_toAny_def obj_of_def)
next
  case False
  note ft = flow_text [OF False assms]
  obtain k where "parseValue st (parse_fuel (render v)) NODE_TYPE_UNKNOWN (at_value (render v)) = Some (Inr (v, k, at_value []))"
    and "flow_kind v k = kind_of v"
    using readsE [OF literal_reads [OF assms], of "[]" "parse_fuel (render v)" st NODE_TYPE_UNKNOWN] at_psize(1) [of "render v"]
    by (auto simp: parse_fuel_def)
  moreover have "render v \<noteq> []" using ft(2) by (auto simp: starts_flow_def)
  moreover have "v \<noteq> VNull" using False by auto
  ultimately show ?thesis using ft
    by (simp add: TokenParse_def NewTokenNode_def NewParser_at token_toAny_def obj_of_def)
qed

text \<open>A value written as a flow literal (strings quoted with the quote and the backslash escaped, integers of 64 bits in
  decimal, true, false and null, arrays and maps of these with distinct keys, to any depth) is read back by the parse of
  a line as that value, with the node type that belongs to it.\<close>

theorem flow_roundtrip:
  assumes "literal v"
  shows "\<exists>t. TokenParse st (NewTokenNode line key (render v) ind) = Some (Inr t) \<and> token_toAny t = v \<and> tn_nodeType t = kind_of v"
  by (rule flow_parsed [OF assms])

theorem flow_roundtrip_witness:
  "\<exists>t. TokenParse bare_std (NewTokenNode [] ''k'' (render (VMap [(''a'', VArr [VInt (-3), VNull, VStr [CHR 0x22]]), (''b'', VBool True)])) 0) = Some (Inr t)
      \<and> token_toAny t = VMap [(''a'', VArr [VInt (-3), VNull, VStr [CHR 0x22]]), (''b'', VBool True)]
      \<and> tn_nodeType t = NODE_TYPE_MAP"
  using flow_roundtrip [of "VMap [(''a'', VArr [VInt (-3), VNull, VStr [CHR 0x22]]), (''b'', VBool True)]"] by (simp del: render.simps)


section \<open>Words that are taken for numbers\<close>

lemma e_words:
  "list_all (\<lambda>c. let w = [CHR ''e'', c] in parseExplicitStringTag w = None \<and> \<not> IsNull w \<and> \<not> IsBool w \<and> \<not> IsInteger w \<and> IsFloat w
      \<and> unsupportedPlainScalar w = None \<and> TrimSpace w = w \<and> \<not> starts_flow w)
    ''abcdefghijklmnopqrstuvwxyz''"
  by code_simp

text \<open>The test for floating-point numbers takes every two-letter word that begins with e for a number, since it does not look at
  the character after the exponent sign: where \<^verbatim>\<open>strconv.ParseFloat\<close> refuses the word, as it does for \<^verbatim>\<open>en\<close> or \<^verbatim>\<open>eu\<close>, the
  line is an error and not a string.\<close>

theorem e_word_refused:
  assumes "c \<in> set ''abcdefghijklmnopqrstuvwxyz''" "st_ParseFloat st [CHR ''e'', c] = None"
  shows "TokenParse st (NewTokenNode line key [CHR ''e'', c] ind) = Some (Inl (yerr ''invalid float''))"
proof -
  have "list_all (\<lambda>c. let w = [CHR ''e'', c] in parseExplicitStringTag w = None \<and> \<not> IsNull w \<and> \<not> IsBool w \<and> \<not> IsInteger w \<and> IsFloat w
      \<and> unsupportedPlainScalar w = None \<and> TrimSpace w = w \<and> \<not> starts_flow w) ''abcdefghijklmnopqrstuvwxyz''" by (rule e_words)
  with assms(1) have "parseExplicitStringTag [CHR ''e'', c] = None" "\<not> IsNull [CHR ''e'', c]" "\<not> IsBool [CHR ''e'', c]"
    "\<not> IsInteger [CHR ''e'', c]" "IsFloat [CHR ''e'', c]" "unsupportedPlainScalar [CHR ''e'', c] = None"
    "TrimSpace [CHR ''e'', c] = [CHR ''e'', c]" "\<not> starts_flow [CHR ''e'', c]"
    unfolding list_all_iff Let_def by blast+
  then show ?thesis using assms(2) by (simp add: TokenParse_def NewTokenNode_def parseScalar_def)
qed

theorem e_word_refused_witness:
  "TokenParse bare_std (NewTokenNode ''lang: en'' ''lang'' ''en'' 0) = Some (Inl (yerr ''invalid float''))"
  using e_word_refused [of "CHR ''n''" bare_std "''lang: en''" "''lang''" 0] by (simp add: bare_std_def)

end
