(* ===== verification/YamlDoc.thy ===== *)
theory YamlDoc
  imports YamlTree YamlRender
begin

text \<open>
  Reading a document: a file with one \<^verbatim>\<open>key: value\<close> line for each entry, the values flow literals, is read as the map
  of its entries.  The proof runs the whole reader: lines, comments, keys, values, tree and conversion.
\<close>

section \<open>Documents\<close>

definition word_char :: "char \<Rightarrow> bool" where
  "word_char c \<longleftrightarrow> c \<in> set ''abcdefghijklmnopqrstuvwxyzABCDEFGHIJKLMNOPQRSTUVWXYZ0123456789_''"

definition word_key :: "string \<Rightarrow> bool" where
  "word_key k \<longleftrightarrow> k \<noteq> [] \<and> list_all word_char k"

definition doc_line :: "string \<times> yval \<Rightarrow> string" where
  "doc_line e = fst e @ '': '' @ render (snd e)"

definition document :: "(string \<times> yval) list \<Rightarrow> string" where
  "document m = concat (map (\<lambda>e. doc_line e @ [LF]) m)"

definition doc_entry :: "string \<times> yval \<Rightarrow> bool" where
  "doc_entry e \<longleftrightarrow> word_key (fst e) \<and> literal (snd e) \<and> LF \<notin> set (render (snd e)) \<and> CR \<notin> set (render (snd e))"

section \<open>Keys\<close>

lemma word_char_facts:
  assumes "word_char c"
  shows "c \<notin> {CHR 0x27, CHR 0x22, CHR '':'', CHR ''#'', CHR '' '', TAB, LF, CR, CHR ''-'', CHR ''.'', CHR ''?'', CHR ''<'', CHR ''&'', CHR ''*'', CHR ''!''}"
    and "\<not> space_byte c"
proof -
  have "list_all (\<lambda>c. \<not> word_char c) ([CHR 0x27, CHR 0x22, CHR '':'', CHR ''#'', CHR '' '', TAB, LF, CR, CHR ''-'', CHR ''.'', CHR ''?'', CHR ''<'', CHR ''&'', CHR ''*'', CHR ''!''] @ concat space_seqs)"
    by code_simp
  then show "c \<notin> {CHR 0x27, CHR 0x22, CHR '':'', CHR ''#'', CHR '' '', TAB, LF, CR, CHR ''-'', CHR ''.'', CHR ''?'', CHR ''<'', CHR ''&'', CHR ''*'', CHR ''!''}"
    and "\<not> space_byte c" using assms by (auto simp: space_byte_def list_all_iff)
qed

lemma word_keyE:
  assumes "word_key k" obtains c cs where "k = c # cs" "word_char c" "\<And>x. x \<in> set k \<Longrightarrow> word_char x"
  using assms by (cases k) (auto simp: word_key_def list_all_iff)

lemma TrimSpace_key: "word_key k \<Longrightarrow> TrimSpace k = k"
  by (rule TrimSpace_id) (auto simp: word_key_def list_all_iff dest: word_char_facts(2))

lemma word_key_starts: "word_key k \<Longrightarrow> \<not> word_char c \<Longrightarrow> \<not> starts_with (c # cs) (k @ s)"
  by (auto elim: word_keyE)

lemma normalize_key: "word_key k \<Longrightarrow> normalizeMapKey k = Inr k"
proof -
  assume k: "word_key k"
  then obtain c cs where c: "k = c # cs" "word_char c" by (rule word_keyE)
  have "c \<noteq> CHR 0x27" "c \<noteq> CHR 0x22" using word_char_facts(1) [OF c(2)] by auto
  then show ?thesis using TrimSpace_key [OF k] by (simp add: normalizeMapKey_def c)
qed

lemma supported_key: "word_key k \<Longrightarrow> unsupportedMapKey k = None"
proof -
  assume k: "word_key k"
  then obtain c cs where c: "k = c # cs" "word_char c" by (rule word_keyE)
  show ?thesis using word_char_facts(1) [OF c(2)] TrimSpace_key [OF k] by (auto simp: unsupportedMapKey_def c)
qed

lemma split_key: "word_key k \<Longrightarrow> splitMapLine (k @ CHR '':'' # s) = Inr (Some (k, s))"
proof -
  assume "word_key k"
  then have "list_all word_char k" by (simp add: word_key_def)
  then have "split_loop Unquoted pre (k @ CHR '':'' # s) = (Some (pre @ k, s), Unquoted)" for pre
  proof (induction k arbitrary: pre)
    case (Cons c k)
    then show ?case using word_char_facts(1) [of c] by simp
  qed simp
  from this [of "[]"] show ?thesis by (simp add: splitMapLine_def)
qed

section \<open>Comments\<close>

text \<open>Text in which no comment starts and in which quotes are closed.\<close>

definition transparent :: "string \<Rightarrow> bool" where
  "transparent w \<longleftrightarrow> (\<forall>pre r. strip_loop Unquoted pre (w @ r) = strip_loop Unquoted (pre @ w) r)"

lemma transparent_append: "transparent u \<Longrightarrow> transparent w \<Longrightarrow> transparent (u @ w)"
  by (simp add: transparent_def)

lemma transparent_Cons: "c \<notin> {CHR 0x27, CHR 0x22, CHR ''#''} \<Longrightarrow> transparent w \<Longrightarrow> transparent (c # w)"
  by (simp add: transparent_def)

lemma transparent_Nil: "transparent []"
  by (simp add: transparent_def)

lemmas transparent_intros = transparent_append transparent_Cons transparent_Nil

lemma transparent_plain: "(\<And>c. c \<in> set w \<Longrightarrow> c \<notin> {CHR 0x27, CHR 0x22, CHR ''#''}) \<Longrightarrow> transparent w"
  by (induction w) (auto intro: transparent_intros)

lemma strip_esc: "strip_loop InDouble pre (esc s @ CHR 0x22 # r) = strip_loop Unquoted (pre @ esc s @ [CHR 0x22]) r"
  by (induction s arbitrary: pre) auto

lemma transparent_quoted: "transparent (quoted s)"
  by (simp add: transparent_def quoted_def strip_esc)

lemma transparent_commas: "(\<And>w. w \<in> set ws \<Longrightarrow> transparent w) \<Longrightarrow> transparent (commas ws)"
  by (induction ws rule: commas.induct) (auto intro!: transparent_intros)

lemma transparent_number: "transparent (Itoa i)"
proof (rule transparent_plain)
  fix c assume "c \<in> set (Itoa i)"
  moreover have "\<not> decimal CHR ''#''" by code_simp
  ultimately show "c \<notin> {CHR 0x27, CHR 0x22, CHR ''#''}" using number_facts(2,3) [of c i] Itoa_char [of c i] by auto
qed

lemma transparent_render: "transparent (render v)"
proof (induction v)
  case (VArr vs)
  then show ?case by (auto intro!: transparent_intros transparent_commas)
next
  case (VMap m)
  then show ?case by (force intro!: transparent_intros transparent_commas transparent_quoted)
qed (auto intro!: transparent_intros transparent_number transparent_quoted)

lemma transparent_key: "word_key k \<Longrightarrow> transparent k"
  by (rule transparent_plain) (auto simp: word_key_def list_all_iff dest: word_char_facts(1))

lemma strip_doc_line: "word_key (fst e) \<Longrightarrow> stripInlineComment (doc_line e) = doc_line e"
proof -
  assume "word_key (fst e)"
  then have "transparent (doc_line e)"
    unfolding doc_line_def
    using transparent_append [OF transparent_key, of "fst e" "'': '' @ render (snd e)"] transparent_render [of "snd e"]
    by (simp add: transparent_Cons)
  then show ?thesis unfolding transparent_def stripInlineComment_def by (metis append_Nil append_Nil2 strip_loop.simps(1))
qed


section \<open>Lines\<close>

lemma TrimLeft_space: "TrimLeftSpace (CHR '' '' # s) = TrimLeftSpace s"
proof -
  have "first_match space_seqs (CHR '' '' # s) = 1" by (simp add: first_match_def space_seqs_def)
  then show ?thesis unfolding TrimLeftSpace_def by (subst trim_seqs.simps) simp
qed

lemma literal_text:
  assumes "literal v"
  shows "TrimSpace (render v) = render v" "render v \<noteq> []" "unsupportedPlainScalar (render v) = None"
    "parseBlockScalarHeader (render v) = None" "\<not> isInvalidBlockScalarHeader (render v)"
proof -
  have cases: "scalar_text st v \<or> v \<notin> range VInt \<union> range VBool \<union> {VNull}" for st
    using assms word_scalars scalar_text_number by auto
  show t: "TrimSpace (render v) = render v" and ne: "render v \<noteq> []" and "unsupportedPlainScalar (render v) = None"
    using cases [of bare_std] flow_text [OF _ assms] by (auto simp: scalar_text_def plain_def starts_flow_def)
  obtain c s where r: "render v = c # s" using ne by (cases "render v") auto
  have "c \<noteq> CHR ''|'' \<and> c \<noteq> CHR ''>'' \<and> c \<noteq> CHR ''!''"
  proof (cases v)
    case (VInt i)
    have "\<not> decimal CHR ''|''" "\<not> decimal CHR ''>''" "\<not> decimal CHR ''!''" by code_simp+
    then show ?thesis using Itoa_char [of c i] r VInt by auto
  next
    case (VBool b)
    then show ?thesis using r by (cases b) auto
  qed (use r assms in \<open>auto simp: quoted_def\<close>)
  then show "parseBlockScalarHeader (render v) = None" "\<not> isInvalidBlockScalarHeader (render v)"
    using t by (auto simp: parseBlockScalarHeader_def isInvalidBlockScalarHeader_def block_header_def Let_def r)
qed

lemma last_literal: "literal v \<Longrightarrow> \<not> space_byte (last (render v))"
proof -
  assume l: "literal v"
  have ends: "list_all (\<lambda>c. \<not> space_byte c) [CHR 0x22, CHR '']'', CHR ''}'', CHR ''l'', CHR ''e'']" by code_simp
  show ?thesis
  proof (cases v)
    case (VInt i)
    then show ?thesis using number_facts(10) [OF Itoa_ends(2)] by simp
  qed (use l ends in \<open>auto simp: quoted_def\<close>)
qed

lemma TrimSpace_doc_line:
  assumes "word_key (fst e)" "literal (snd e)" shows "TrimSpace (doc_line e) = doc_line e"
proof (rule TrimSpace_id)
  obtain c cs where c: "fst e = c # cs" "word_char c" by (rule word_keyE [OF assms(1)])
  then have "\<not> space_byte (hd (doc_line e))" using word_char_facts(2) by (simp add: doc_line_def)
  moreover have "last (doc_line e) = last (render (snd e))" using literal_text(2) [OF assms(2)] by (simp add: doc_line_def)
  ultimately show "doc_line e = [] \<or> \<not> space_byte (hd (doc_line e)) \<and> \<not> space_byte (last (doc_line e))"
    using last_literal [OF assms(2)] by simp
qed

lemma match_doc_line:
  assumes "word_key (fst e)" "literal (snd e)" shows "matchMap (doc_line e) = Inr (Some (fst e, render (snd e)))"
proof -
  have "TrimSpace (CHR '' '' # render (snd e)) = render (snd e)"
    using literal_text(1) [OF assms(2)] by (simp add: TrimSpace_def TrimLeft_space)
  then show ?thesis using split_key [OF assms(1), of "CHR '' '' # render (snd e)"] normalize_key [OF assms(1)]
    by (simp add: matchMap_def doc_line_def)
qed

section \<open>The run of the parser\<close>

text \<open>The root with the entries read so far.\<close>

definition root_with :: "(string \<times> item) list \<Rightarrow> pyaml" where
  "root_with m = \<lparr>py_heap = [rootNode\<lparr>an_m := m\<rparr>], py_stack = [0]\<rparr>"

definition read_as :: "string \<times> item \<Rightarrow> string \<times> yval \<Rightarrow> bool" where
  "read_as x e \<longleftrightarrow> fst x = fst e \<and> (\<exists>t. snd x = Tok t \<and> token_toAny t = snd e)"

lemma new_token_literal:
  assumes "literal v" obtains t where "newParsedToken st line k (render v) ind False = Some (Inr t)" "token_toAny t = v"
proof -
  have "(NewTokenNode line k (render v) ind)\<lparr>tn_rawStr := False\<rparr> = NewTokenNode line k (render v) ind"
    by (simp add: NewTokenNode_def)
  then show thesis using flow_parsed [OF assms, of st line k ind] that by (auto simp: newParsedToken_def)
qed

lemma doc_line_fed:
  assumes "doc_entry e" "fst e \<notin> fst ` set m"
  shows "\<exists>x. map_line st (doc_line e) rest 0 0 (root_with m) =
      Some (Inr (\<lparr>ys_py = root_with (m @ [x]), ys_lastIndent = 0, ys_lastMayNest = False\<rparr>, rest)) \<and> read_as x e"
proof -
  have k: "word_key (fst e)" and v: "literal (snd e)" using assms(1) by (simp_all add: doc_entry_def)
  note lit = literal_text [OF v]
  obtain t where t: "newParsedToken st (doc_line e) (fst e) (render (snd e)) 0 False = Some (Inr t)" "token_toAny t = snd e"
    by (rule new_token_literal [OF v])
  have "fst e \<noteq> []" using k by (simp add: word_key_def)
  then have "feedMap st (doc_line e) (fst e) (render (snd e)) 0 0 (root_with m) = Some (root_with (m @ [(fst e, Tok t)]), None)"
    using t assms(2) lit TrimSpace_key [OF k] supported_key [OF k]
    by (simp add: feedMap_def feedMapValue_def putMapItem_def put_node_def root_with_def rootNode_def)
  then show ?thesis using match_doc_line [OF k v] supported_key [OF k] lit t(2)
    by (auto simp: map_line_def line_done_def read_as_def)
qed

lemma doc_line_parsed:
  assumes "doc_entry e" "fst e \<notin> fst ` set m" "li \<in> {-1, 0}"
  shows "\<exists>x. parse_line st \<lparr>ys_py = root_with m, ys_lastIndent = li, ys_lastMayNest = b\<rparr> (doc_line e) rest =
      Some (Inr (\<lparr>ys_py = root_with (m @ [x]), ys_lastIndent = 0, ys_lastMayNest = False\<rparr>, rest)) \<and> read_as x e"
proof -
  have k: "word_key (fst e)" and v: "literal (snd e)" using assms(1) by (simp_all add: doc_entry_def)
  obtain c cs where c: "fst e = c # cs" "word_char c" by (rule word_keyE [OF k])
  have l: "doc_line e = c # cs @ '': '' @ render (snd e)" by (simp add: doc_line_def c)
  have "lineIndent (doc_line e) = Inr 0" "unsupportedLineFeature (doc_line e) = None" "\<not> isSliceFlag (doc_line e)"
    "\<not> starts_with ''#'' (doc_line e)" "doc_line e \<noteq> []"
    using word_char_facts(1) [OF c(2)] by (auto simp: l lineIndent_def unsupportedLineFeature_def isSliceFlag_def)
  moreover have "close_to 0 (root_with m) = root_with m" by (simp add: close_to_def root_with_def rootNode_def)
  moreover have "py_stack (root_with m) = [0]" by (simp add: root_with_def)
  moreover have "\<not> (0 \<le> li \<and> li < 0 \<and> \<not> b)" by simp
  ultimately have "parse_line st \<lparr>ys_py = root_with m, ys_lastIndent = li, ys_lastMayNest = b\<rparr> (doc_line e) rest =
      map_line st (doc_line e) rest 0 0 (root_with m)"
    using strip_doc_line [OF k] TrimSpace_doc_line [OF k v] by (auto simp: parse_line_def Let_def)
  then show ?thesis using doc_line_fed [OF assms(1,2), of st rest] by simp
qed

lemma doc_parsed:
  assumes "list_all doc_entry es" "distinct (map fst m @ map fst es)" "li \<in> {-1, 0}"
  shows "\<exists>ys xs. parse_loop st \<lparr>ys_py = root_with m, ys_lastIndent = li, ys_lastMayNest = b\<rparr> (map doc_line es @ [[]]) = Some (Inr ys)
      \<and> ys_py ys = root_with (m @ xs) \<and> list_all2 read_as xs es"
  using assms
proof (induction es arbitrary: m li b)
  case Nil
  have "TrimSpace [] = []" by (rule TrimSpace_id) simp
  then show ?case by (auto simp: parse_line_def stripInlineComment_def)
next
  case (Cons e es)
  obtain x where x: "parse_line st \<lparr>ys_py = root_with m, ys_lastIndent = li, ys_lastMayNest = b\<rparr> (doc_line e) (map doc_line es @ [[]]) =
      Some (Inr (\<lparr>ys_py = root_with (m @ [x]), ys_lastIndent = 0, ys_lastMayNest = False\<rparr>, map doc_line es @ [[]]))" "read_as x e"
    using doc_line_parsed [of e m li st b "map doc_line es @ [[]]"] Cons.prems by auto
  have "distinct (map fst (m @ [x]) @ map fst es)" using Cons.prems(2) x(2) by (auto simp: read_as_def)
  then obtain ys xs where "parse_loop st \<lparr>ys_py = root_with (m @ [x]), ys_lastIndent = 0, ys_lastMayNest = False\<rparr> (map doc_line es @ [[]]) = Some (Inr ys)"
    and "ys_py ys = root_with ((m @ [x]) @ xs)" "list_all2 read_as xs es"
    using Cons.IH [of "m @ [x]" 0 False] Cons.prems(1) by auto
  then show ?case using x by (intro exI [of _ ys] exI [of _ "x # xs"]) simp
qed

lemma doc_lines:
  assumes "list_all doc_entry es" shows "splitYamlLines (document es) = map doc_line es @ [[]]"
proof -
  have clean: "LF \<notin> set (doc_line e) \<and> CR \<notin> set (doc_line e)" if "e \<in> set es" for e
    using assms that word_char_facts(1) by (fastforce simp: list_all_iff doc_entry_def doc_line_def word_key_def)
  have "crlf s = s \<and> map (\<lambda>c. if c = CR then LF else c) s = s" if "CR \<notin> set s" for s
    using that by (induction s rule: crlf.induct) auto
  moreover have "CR \<notin> set (document es)" using clean by (auto simp: document_def)
  ultimately have "splitYamlLines (document es) = Split (document es) LF" by (simp add: splitYamlLines_def)
  also have "\<dots> = map doc_line es @ [[]]"
    using clean by (induction es) (simp_all add: document_def Split_append_sep)
  finally show ?thesis .
qed

lemma toMap_read:
  "list_all2 read_as xs es \<Longrightarrow>
    conv_all (map (\<lambda>(k, x). conv_map (Pair k) (case x of Tok t \<Rightarrow> Some (Inr (token_toAny t)) | Ref a \<Rightarrow> f a)) xs) = Some (Inr es)"
  by (induction rule: list_all2_induct) (auto simp: read_as_def)

lemma document_read:
  assumes "list_all doc_entry es" "distinct (map fst es)"
  shows "parseToMap st (document es) = Some (Inr es)"
proof -
  have "start = \<lparr>ys_py = root_with [], ys_lastIndent = -1, ys_lastMayNest = False\<rparr>"
    by (simp add: start_def root_with_def rootNode_def)
  then obtain ys xs where ys: "parse_loop st start (map doc_line es @ [[]]) = Some (Inr ys)"
    "ys_py ys = root_with xs" "list_all2 read_as xs es"
    using doc_parsed [of es "[]" "-1" st False] assms by auto
  then have "parse st (document es) = Some (Inr (root_with xs))"
    using doc_lines [OF assms(1)] by (simp add: parse_def)
  then show ?thesis using toMap_read [OF ys(3)]
    by (simp add: parseToMap_def root_with_def rootNode_def toMap_def)
qed

text \<open>C17: a document with one \<^verbatim>\<open>key: value\<close> line for each entry, the keys distinct words and the values flow literals without line
  breaks, is read as exactly the map of its entries, in their order, whatever else is in the quoted strings
  (colons, hash signs, brackets, quotes).\<close>

theorem document_roundtrip:
  assumes "list_all doc_entry es" "distinct (map fst es)"
  shows "parseToMap st (document es) = Some (Inr es)"
  by (rule document_read [OF assms])

theorem document_roundtrip_witness:
  "parseToMap bare_std (document [(''a'', VStr ''x: # y''), (''b'', VArr [VInt (-7), VNull]), (''c'', VMap [(''d'', VBool False)])])
     = Some (Inr [(''a'', VStr ''x: # y''), (''b'', VArr [VInt (-7), VNull]), (''c'', VMap [(''d'', VBool False)])])"
proof (rule document_roundtrip)
  have "list_all (\<lambda>c. word_char c) ''abc''" by code_simp
  moreover have "\<not> decimal LF" "\<not> decimal CR" by code_simp+
  then have "LF \<notin> set (Itoa (-7)) \<and> CR \<notin> set (Itoa (-7))" using Itoa_char [of _ "-7"] by auto
  ultimately show "list_all doc_entry [(''a'', VStr ''x: # y''), (''b'', VArr [VInt (-7), VNull]), (''c'', VMap [(''d'', VBool False)])]"
    by (simp add: doc_entry_def word_key_def quoted_def)
qed simp

end
