(* ===== verification/YamlUnmarshal.thy ===== *)
theory YamlUnmarshal
  imports YamlDecode YamlDoc
begin

text \<open>
  From a file to a Go value: what decoding stores has the type of its place, and a struct whose fields are written as a
  document is read back.
\<close>

section \<open>Types are kept\<close>

lemma decode_sound:
  assumes "has_type t v" "embeds_ok t"
  shows "sound (has_type t) (decode fl (Some (TPtr t, XPtr (Some v))) m)"
proof -
  have below: "keeps_fields fl fs" if "t = TStruct fs" for fs
    using decode_keeps [OF assms(2), of fl] that by (simp add: struct_below_def)
  have elem: "sound (has_type t') (setValue fl p True t' (zero t') y)" if "t = TMap k t'" for k t' p y
    using decode_keeps [of t' fl] assms(2) zero_typed [of t'] that by (simp add: keeps_def)
  show ?thesis
  proof (cases t)
    case (TStruct fs)
    then show ?thesis using keeps_struct [OF below [OF TStruct] assms(1) [unfolded TStruct]] by (simp add: decode_def)
  next
    case (TMap k t')
    then show ?thesis using setMapValue_sound [OF elem [OF TMap] assms(1) [unfolded TMap]] by (simp add: decode_def)
  qed (use assms in \<open>simp_all add: decode_def\<close>)
qed

text \<open>C16: reading a configuration into a typed destination never panics and leaves a value of the same type: every integer that is
  stored fits the width of its field (there is no wrap-around), arrays keep their length, and every document gives a value or
  an error.  The destination has no embedded pointer to a type that is not exported.\<close>

theorem Unmarshal_typed:
  assumes "has_type t v" "embeds_ok t"
  shows "(\<exists>e. Unmarshal st fl content (Some (TPtr t, XPtr (Some v))) = Some (Inl e))
    \<or> (\<exists>v'. Unmarshal st fl content (Some (TPtr t, XPtr (Some v))) = Some (Inr v') \<and> has_type t v')"
proof -
  obtain r where r: "parseToMap st content = Some r" using parseToMap_Some by blast
  show ?thesis
  proof (cases r)
    case (Inr m)
    from decode_sound [OF assms, of fl m] show ?thesis by (auto simp: Unmarshal_def r Inr elim!: soundE)
  qed (simp add: Unmarshal_def r)
qed

text \<open>A struct with an 8-bit field.\<close>

definition port_field :: gfield where
  "port_field = \<lparr>gf_Name = ''Port'', gf_Tag = [(''yaml'', ''port,omitempty'')], gf_exported = True, gf_Anonymous = False\<rparr>"

definition some_floats :: floats where
  "some_floats = \<lparr>fl_overflow = (\<lambda>_ _. False), fl_of_int = nat\<rparr>"

theorem Unmarshal_typed_witness:
  "(\<exists>e. Unmarshal bare_std some_floats ''port: 300'' (Some (TPtr (TStruct [(port_field, TUint 8)]), XPtr (Some (XStruct [XUint 7])))) = Some (Inl e))
    \<or> (\<exists>v'. Unmarshal bare_std some_floats ''port: 300'' (Some (TPtr (TStruct [(port_field, TUint 8)]), XPtr (Some (XStruct [XUint 7])))) = Some (Inr v')
        \<and> has_type (TStruct [(port_field, TUint 8)]) v')"
  by (rule Unmarshal_typed) (simp_all add: OverflowUint_def)

section \<open>Embedded pointers\<close>

text \<open>A destination struct whose first field is a nil embedded pointer to a type that is not exported makes reading panic, for every document that
  can be parsed, even an empty one: the pointer is allocated before any key is looked up, and reflection may not set it.\<close>

lemma embedded_pointer_panics:
  assumes "gf_Anonymous f" "\<not> gf_exported f" "fieldKey f = Some (gf_Name f)"
    and "parseToMap st content = Some (Inr m)"
  shows "Unmarshal st fl content (Some (TPtr (TStruct ((f, TPtr t) # fs)), XPtr (Some (XStruct (XPtr None # vs))))) = None"
  using assms by (simp add: Unmarshal_def decode_def set_field.simps)

section \<open>Writing a value\<close>

definition key_of :: "gfield \<Rightarrow> string" where
  "key_of f = (case fieldKey f of Some k \<Rightarrow> k | None \<Rightarrow> [])"

fun as_yaml :: "gtype \<Rightarrow> gval \<Rightarrow> yval"
  and as_fields :: "(gfield \<times> gtype) list \<Rightarrow> gval list \<Rightarrow> (string \<times> yval) list" where
  "as_yaml TString v = (case v of XString s \<Rightarrow> VStr s | _ \<Rightarrow> VNull)"
| "as_yaml TBool v = (case v of XBool b \<Rightarrow> VBool b | _ \<Rightarrow> VNull)"
| "as_yaml (TInt n) v = (case v of XInt i \<Rightarrow> VInt i | _ \<Rightarrow> VNull)"
| "as_yaml (TUint n) v = (case v of XUint i \<Rightarrow> VInt i | _ \<Rightarrow> VNull)"
| "as_yaml TAny v = (case v of XAny (Some y) \<Rightarrow> y | _ \<Rightarrow> VNull)"
| "as_yaml (TPtr t) v = (case v of XPtr (Some x) \<Rightarrow> as_yaml t x | _ \<Rightarrow> VNull)"
| "as_yaml (TMap k t) v = (case v of XMap (Some m) \<Rightarrow> VMap (map (\<lambda>e. (fst e, as_yaml t (snd e))) m) | _ \<Rightarrow> VNull)"
| "as_yaml (TSlice t) v = (case v of XSlice (Some xs) \<Rightarrow> VArr (map (as_yaml t) xs) | _ \<Rightarrow> VNull)"
| "as_yaml (TArray n t) v = (case v of XArray xs \<Rightarrow> VArr (map (as_yaml t) xs) | _ \<Rightarrow> VNull)"
| "as_yaml (TStruct fs) v = (case v of XStruct vs \<Rightarrow> VMap (as_fields fs vs) | _ \<Rightarrow> VNull)"
| "as_yaml _ v = VNull"
| "as_fields [] vs = []"
| "as_fields ((f, t) # fs) vs = (case vs of [] \<Rightarrow> [] | v # vs' \<Rightarrow> (key_of f, as_yaml t v) # as_fields fs vs')"

text \<open>The values that can be written: fields are exported, have distinct keys and are not embedded, maps have distinct
  keys, no pointer leads to a nil value, and there are no floating-point numbers, times and durations.\<close>

fun encodable :: "gtype \<Rightarrow> gval \<Rightarrow> bool"
  and encodables :: "(gfield \<times> gtype) list \<Rightarrow> gval list \<Rightarrow> bool" where
  "encodable TString v = has_type TString v"
| "encodable TBool v = has_type TBool v"
| "encodable (TInt n) v = has_type (TInt n) v"
| "encodable (TUint n) v = has_type (TUint n) v"
| "encodable TAny v = has_type TAny v"
| "encodable (TPtr t) v = (case v of XPtr None \<Rightarrow> True | XPtr (Some x) \<Rightarrow> encodable t x \<and> as_yaml t x \<noteq> VNull | _ \<Rightarrow> False)"
| "encodable (TMap k t) v =
     (case v of XMap None \<Rightarrow> True
      | XMap (Some m) \<Rightarrow> k \<noteq> KOther \<and> distinct (map fst m) \<and> list_all (\<lambda>e. encodable t (snd e)) m | _ \<Rightarrow> False)"
| "encodable (TSlice t) v = (case v of XSlice None \<Rightarrow> True | XSlice (Some xs) \<Rightarrow> list_all (encodable t) xs | _ \<Rightarrow> False)"
| "encodable (TArray n t) v = (case v of XArray xs \<Rightarrow> length xs = n \<and> list_all (encodable t) xs | _ \<Rightarrow> False)"
| "encodable (TStruct fs) v =
     (case v of XStruct vs \<Rightarrow> encodables fs vs \<and> distinct (map (\<lambda>ft. key_of (fst ft)) fs) | _ \<Rightarrow> False)"
| "encodable _ v = False"
| "encodables [] vs = (vs = [])"
| "encodables ((f, t) # fs) vs =
     (case vs of
        [] \<Rightarrow> False
      | v # vs' \<Rightarrow> encodable t v \<and> gf_exported f \<and> \<not> gf_Anonymous f \<and> fieldKey f \<noteq> None \<and> encodables fs vs')"

definition read_back :: "floats \<Rightarrow> gtype \<Rightarrow> gval \<Rightarrow> bool" where
  "read_back fl t v \<longleftrightarrow> (\<forall>path. setValue fl path True t (zero t) (as_yaml t v) = Some (Inr v))"

lemma null_zero: "encodable t v \<Longrightarrow> as_yaml t v = VNull \<Longrightarrow> v = zero t"
  by (cases t) (auto split: gval.splits option.splits)

lemma read_backI:
  assumes "encodable t v" "\<And>path. as_yaml t v \<noteq> VNull \<Longrightarrow> setValue fl path True t (zero t) (as_yaml t v) = Some (Inr v)"
  shows "read_back fl t v"
  unfolding read_back_def
proof
  fix path
  show "setValue fl path True t (zero t) (as_yaml t v) = Some (Inr v)"
  proof (cases "as_yaml t v = VNull")
    case True
    then show ?thesis using null_zero [OF assms(1)] by (simp add: setValue.simps)
  qed (rule assms(2))
qed

lemma conv_all_Inr: "conv_all (map (\<lambda>x. Some (Inr (f x))) xs) = Some (Inr (map f xs))"
  by (induction xs) simp_all

lemma put_entries_back:
  assumes "\<And>p e. e \<in> set m \<Longrightarrow> elem p (f (snd e)) = Some (Inr (snd e))" "distinct (map fst (acc @ m))"
  shows "put_entries elem path acc (map (\<lambda>e. (fst e, f (snd e))) m) = Some (Inr (XMap (Some (acc @ m))))"
  using assms
proof (induction m arbitrary: acc)
  case (Cons e m)
  have "assoc_put (fst e) (snd e) acc = acc @ [e]" using Cons.prems(2) by (auto simp: assoc_put_def)
  then show ?case using Cons.IH [of "acc @ [e]"] Cons.prems by simp
qed simp

lemma slice_back:
  assumes "\<And>p x. x \<in> set xs \<Longrightarrow> elem p (f x) = Some (Inr x)"
  shows "conv_all (map (\<lambda>(i, v). elem (index_path path i) v) (enumerate n (map f xs))) = Some (Inr xs)"
  using assms by (induction xs arbitrary: n) simp_all

lemma array_back:
  assumes "\<And>p x. x \<in> set xs \<Longrightarrow> elem p z (f x) = Some (Inr x)"
  shows "conv_all (map (\<lambda>(i, d, v). elem (index_path path i) d v) (enumerate n (zip (replicate (length xs) z) (map f xs)))) = Some (Inr xs)"
  using assms by (induction xs arbitrary: n) simp_all

lemma fields_back:
  assumes "encodables fs vs" "\<And>f t v. (f, t) \<in> set fs \<Longrightarrow> encodable t v \<Longrightarrow> read_back fl t v"
    and "\<And>key y. (key, y) \<in> set (as_fields fs vs) \<Longrightarrow> map_of m key = Some y"
  shows "setStructValue fl path fs (map (\<lambda>(f, t). zero t) fs) m = Some (Inr vs)"
  using assms
proof (induction fs arbitrary: vs)
  case (Cons ft fs)
  obtain f t where ft: "ft = (f, t)" by (cases ft)
  obtain v vs' where vs: "vs = v # vs'" and e: "encodable t v" "gf_exported f" "\<not> gf_Anonymous f" "fieldKey f \<noteq> None" "encodables fs vs'"
    using Cons.prems(1) by (auto simp: ft split: list.splits)
  have "lookupMapValue m (key_of f) = Some (as_yaml t v)" using Cons.prems(3) [of "key_of f" "as_yaml t v"] by (simp add: lookupMapValue_def ft vs)
  moreover have "read_back fl t v" using Cons.prems(2) [of f t v] e(1) by (simp add: ft)
  ultimately have "set_field fl path f t (zero t) m = Some (Inr v)" for path
    using e by (auto simp: set_field.simps read_back_def key_of_def)
  moreover have "setStructValue fl path fs (map (\<lambda>(f, t). zero t) fs) m = Some (Inr vs')"
    by (rule Cons.IH [OF e(5)]) (use Cons.prems in \<open>auto simp: ft vs\<close>)
  ultimately show ?case by (simp add: ft vs)
qed simp

lemma as_fields_keys: "encodables fs vs \<Longrightarrow> map fst (as_fields fs vs) = map (\<lambda>ft. key_of (fst ft)) fs"
  by (induction fs arbitrary: vs) (auto split: list.splits)

lemma encodable_read_back: "encodable t v \<Longrightarrow> read_back fl t v"
proof (induction t arbitrary: v)
  case (TPtr t)
  show ?case
  proof (rule read_backI [OF TPtr.prems])
    fix path assume "as_yaml (TPtr t) v \<noteq> VNull"
    then obtain x where "v = XPtr (Some x)" "encodable t x" "as_yaml t x \<noteq> VNull" using TPtr.prems by (auto split: gval.splits option.splits)
    then show "setValue fl path True (TPtr t) (zero (TPtr t)) (as_yaml (TPtr t) v) = Some (Inr v)"
      using TPtr.IH [of x] by (subst setValue.simps) (simp add: read_back_def)
  qed
next
  case (TMap k t)
  show ?case
  proof (rule read_backI [OF TMap.prems])
    fix path assume "as_yaml (TMap k t) v \<noteq> VNull"
    then obtain m where m: "v = XMap (Some m)" "k \<noteq> KOther" "distinct (map fst m)" "list_all (\<lambda>e. encodable t (snd e)) m"
      using TMap.prems by (auto split: gval.splits option.splits)
    have "setMapValue (\<lambda>p. setValue fl p True t (zero t)) path k (XMap None) (as_yaml (TMap k t) v) = Some (Inr v)"
      using m TMap.IH put_entries_back [of m "\<lambda>p. setValue fl p True t (zero t)" "as_yaml t" "[]" path]
      by (simp add: setMapValue_def read_back_def list_all_iff)
    moreover have "map (\<lambda>(key, y). (key, XAny (any_of y))) (map (\<lambda>e. (fst e, as_yaml t (snd e))) m) = m" if "t = TAny"
      using m(4) that by (auto simp: list_all_iff any_of_def intro!: map_idI split: gval.splits option.splits)
    ultimately show "setValue fl path True (TMap k t) (zero (TMap k t)) (as_yaml (TMap k t) v) = Some (Inr v)"
      using m(1) by (subst setValue.simps) simp
  qed
next
  case (TSlice t)
  show ?case
  proof (rule read_backI [OF TSlice.prems])
    fix path assume "as_yaml (TSlice t) v \<noteq> VNull"
    then obtain xs where xs: "v = XSlice (Some xs)" "list_all (encodable t) xs" using TSlice.prems by (auto split: gval.splits option.splits)
    have "setSliceValue (\<lambda>p. setValue fl p True t (zero t)) path (as_yaml (TSlice t) v) = Some (Inr v)"
      using xs TSlice.IH slice_back [of xs "\<lambda>p. setValue fl p True t (zero t)" "as_yaml t" path 0]
      by (simp add: setSliceValue_def read_back_def list_all_iff)
    moreover have "map (\<lambda>y. XAny (any_of y)) (map (as_yaml t) xs) = xs" if "t = TAny"
      using xs(2) that by (auto simp: list_all_iff any_of_def intro!: map_idI split: gval.splits option.splits)
    ultimately show "setValue fl path True (TSlice t) (zero (TSlice t)) (as_yaml (TSlice t) v) = Some (Inr v)"
      using xs(1) by (subst setValue.simps) simp
  qed
next
  case (TArray n t)
  show ?case
  proof (rule read_backI [OF TArray.prems])
    fix path
    obtain xs where xs: "v = XArray xs" "length xs = n" "list_all (encodable t) xs" using TArray.prems by (auto split: gval.splits)
    have "setArrayValue (\<lambda>p. setValue fl p True t) path n (zero (TArray n t)) (as_yaml (TArray n t) v) = Some (Inr v)"
      using xs TArray.IH array_back [of xs "\<lambda>p. setValue fl p True t" "zero t" "as_yaml t" path 0]
      by (simp add: setArrayValue_def read_back_def list_all_iff)
    then show "setValue fl path True (TArray n t) (zero (TArray n t)) (as_yaml (TArray n t) v) = Some (Inr v)"
      using xs(1) by (subst setValue.simps) simp
  qed
next
  case (TStruct fs)
  show ?case
  proof (rule read_backI [OF TStruct.prems])
    fix path
    obtain vs where vs: "v = XStruct vs" "encodables fs vs" "distinct (map (\<lambda>ft. key_of (fst ft)) fs)" using TStruct.prems by (auto split: gval.splits)
    have "setStructValue fl path fs (map (\<lambda>(f, t). zero t) fs) (as_fields fs vs) = Some (Inr vs)"
    proof (rule fields_back [OF vs(2)])
      show "read_back fl t v" if "(f, t) \<in> set fs" "encodable t v" for f t v using TStruct.IH [OF that(1), of t v] that(2) by simp
      show "map_of (as_fields fs vs) key = Some y" if "(key, y) \<in> set (as_fields fs vs)" for key y
        using that vs(3) as_fields_keys [OF vs(2)] by (intro map_of_is_SomeI) simp_all
    qed
    then show "setValue fl path True (TStruct fs) (zero (TStruct fs)) (as_yaml (TStruct fs) v) = Some (Inr v)"
      using vs(1) by (subst setValue.simps) simp
  qed
qed (auto intro!: read_backI simp: setValue.simps setIntValue_def setUintValue_def any_of_def split: gval.splits option.splits yval.splits)


section \<open>Reading a file into a struct\<close>

text \<open>C12: a struct is read back from its document: for a struct whose exported fields have distinct keys (by tag or by name), the file
  with one line for each field, its value written as a flow literal, is read into a zero value of the struct type as exactly the
  values of the fields, through nested structs, pointers, slices, arrays, maps, signed and unsigned integers of every width.\<close>

theorem unmarshal_roundtrip:
  assumes "encodable (TStruct fs) (XStruct vs)" "list_all doc_entry (as_fields fs vs)"
  shows "Unmarshal st fl (document (as_fields fs vs)) (Some (TPtr (TStruct fs), XPtr (Some (zero (TStruct fs))))) = Some (Inr (XStruct vs))"
proof -
  have e: "encodables fs vs" "distinct (map fst (as_fields fs vs))" using assms(1) as_fields_keys [of fs vs] by simp_all
  have "setStructValue fl ''root'' fs (map (\<lambda>(f, t). zero t) fs) (as_fields fs vs) = Some (Inr vs)"
    by (rule fields_back [OF e(1)]) (auto intro: encodable_read_back map_of_is_SomeI [OF e(2)])
  then show ?thesis using document_read [OF assms(2) e(2)] by (simp add: Unmarshal_def decode_def)
qed

definition host_field :: gfield where
  "host_field = \<lparr>gf_Name = ''Host'', gf_Tag = [], gf_exported = True, gf_Anonymous = False\<rparr>"

theorem unmarshal_roundtrip_witness:
  "Unmarshal bare_std some_floats (document (as_fields [(host_field, TString), (port_field, TPtr (TSlice (TUint 8)))] [XString ''a#b'', XPtr (Some (XSlice (Some [XUint 255])))]))
      (Some (TPtr (TStruct [(host_field, TString), (port_field, TPtr (TSlice (TUint 8)))]), XPtr (Some (zero (TStruct [(host_field, TString), (port_field, TPtr (TSlice (TUint 8)))])))))
    = Some (Inr (XStruct [XString ''a#b'', XPtr (Some (XSlice (Some [XUint 255])))]))"
proof (rule unmarshal_roundtrip)
  have keys: "fieldKey host_field = Some ''Host''" "fieldKey port_field = Some ''port''" by code_simp+
  then show "encodable (TStruct [(host_field, TString), (port_field, TPtr (TSlice (TUint 8)))]) (XStruct [XString ''a#b'', XPtr (Some (XSlice (Some [XUint 255])))])"
    by (simp add: OverflowUint_def key_of_def host_field_def port_field_def)
  have "list_all (\<lambda>c. word_char c) ''Hostpr''" by code_simp
  moreover have "\<not> decimal LF" "\<not> decimal CR" by code_simp+
  then have "LF \<notin> set (Itoa 255) \<and> CR \<notin> set (Itoa 255)" using Itoa_char [of _ 255] by auto
  ultimately show "list_all doc_entry (as_fields [(host_field, TString), (port_field, TPtr (TSlice (TUint 8)))] [XString ''a#b'', XPtr (Some (XSlice (Some [XUint 255])))])"
    by (simp add: doc_entry_def word_key_def quoted_def key_of_def keys)
qed

end
