(* ===== verification/IniFile.thy ===== *)
theory IniFile
  imports YamlLines
begin

text \<open>
  The reader of INI files (\<^verbatim>\<open>gconfig/gconfig.go\<close>): sections, keys with several values, and the extension lines below a key.

  The three regular expressions are written as functions: in each the parts match disjoint sets of characters, so the
  leftmost match is the greedy one.  The current section stands for the map \<^verbatim>\<open>imap\<close>, which is always an
  entry of \<^verbatim>\<open>Gcf\<close>.  The bytes of the file are an argument; logging is left out.
\<close>

section \<open>Configurations\<close>

record gconf =
  gc_Gcf :: "string \<rightharpoonup> (string \<rightharpoonup> string list)"
  gc_GlineExtend :: "string \<rightharpoonup> (string \<rightharpoonup> (string \<rightharpoonup> string) list)"

definition NewGconf :: gconf where
  "NewGconf = \<lparr>gc_Gcf = Map.empty, gc_GlineExtend = Map.empty\<rparr>"

section \<open>Lines\<close>

text \<open>
  \<^verbatim>\<open>bufio.Reader.ReadLine\<close> with the buffer of 4096 bytes: a line that does not fit is returned in pieces.  \<^const>\<open>None\<close> is the end of the file.
\<close>

definition buffer_size :: nat where
  "buffer_size = 4096"

definition chomp_cr :: "string \<Rightarrow> string" where
  "chomp_cr l = (if l \<noteq> [] \<and> last l = CR then butlast l else l)"

definition ReadLine :: "string \<Rightarrow> (string \<times> string) option" where
  "ReadLine s =
     (let n = length (takeWhile (\<lambda>c. c \<noteq> LF) s) in
      if s = [] then None
      else if n < buffer_size \<and> n < length s then Some (chomp_cr (take n s), drop (n + 1) s)
      else if buffer_size \<le> length s then
        (if s ! (buffer_size - 1) = CR then Some (take (buffer_size - 1) s, drop (buffer_size - 1) s)
         else Some (take buffer_size s, drop buffer_size s))
      else Some (s, []))"

lemma ReadLine_shrinks: "ReadLine s = Some (l, r) \<Longrightarrow> length r < length s"
  by (auto simp: ReadLine_def Let_def buffer_size_def split: if_splits)

definition word_byte :: "char \<Rightarrow> bool" where
  "word_byte c \<longleftrightarrow> c \<in> set ''abcdefghijklmnopqrstuvwxyzABCDEFGHIJKLMNOPQRSTUVWXYZ0123456789_''"

definition ini_space :: "char \<Rightarrow> bool" where
  "ini_space c \<longleftrightarrow> c \<in> {TAB, LF, CHR 0x0C, CR, CHR '' ''}"

text \<open>\<^verbatim>\<open>^\[(\w+)]$\<close>\<close>

definition match_section :: "string \<Rightarrow> string option" where
  "match_section l =
     (case l of
        [] \<Rightarrow> None
      | c # cs \<Rightarrow>
          let w = takeWhile word_byte cs in
          if c = CHR ''['' \<and> w \<noteq> [] \<and> dropWhile word_byte cs = '']'' then Some w else None)"

text \<open>\<^verbatim>\<open>^(?P<k>\w+)\s*\=\s*(?P<v>.*)$\<close>\<close>

definition match_item :: "string \<Rightarrow> (string \<times> string) option" where
  "match_item l =
     (let k = takeWhile word_byte l in
      case dropWhile ini_space (dropWhile word_byte l) of
        c # cs \<Rightarrow> if k \<noteq> [] \<and> c = CHR ''='' then Some (k, dropWhile ini_space cs) else None
      | [] \<Rightarrow> None)"

definition ext_keys :: "string list" where
  "ext_keys = [''rule'', ''MaxConns'', ''MaxIdleConns'', ''MaxConnLife'', ''MaxIdleConnLife'', ''proto'', ''Salience'']"

text \<open>\<^verbatim>\<open>^\s*(rule|...|Salience)\s*=\s*(.+)$\<close>; of a value of spaces alone the last is matched.\<close>

definition match_ext :: "string \<Rightarrow> (string \<times> string) option" where
  "match_ext l =
     (let s = dropWhile ini_space l; k = takeWhile word_byte s in
      case dropWhile ini_space (dropWhile word_byte s) of
        c # cs \<Rightarrow>
          if k \<in> set ext_keys \<and> c = CHR ''='' \<and> cs \<noteq> []
          then Some (k, if dropWhile ini_space cs = [] then [last cs] else dropWhile ini_space cs) else None
      | [] \<Rightarrow> None)"

section \<open>The parser\<close>

record inistate =
  ini_conf :: gconf
  ini_section :: "string option"
  ini_line_key :: string
  ini_ex_key :: string
  ini_newLine :: bool

definition getMk :: "string \<Rightarrow> string" where
  "getMk w = Trim {CHR '' ''} w"

definition getIk :: "string \<times> string \<Rightarrow> string \<times> string" where
  "getIk m = (Trim {CHR '' ''} (fst m), Trim {CHR '' ''} (snd m))"

definition getIkExd :: "string \<Rightarrow> string \<Rightarrow> string \<times> string \<Rightarrow> gconf \<Rightarrow> bool \<Rightarrow> gconf \<times> bool" where
  "getIkExd line_key ex_key m cfg newLineTag =
     (let k = TrimSpace (fst m); v = TrimSpace (snd m);
          ext = gc_GlineExtend cfg;
          eval = (case ext line_key of Some e \<Rightarrow> e | None \<Rightarrow> Map.empty)
      in case eval ex_key of
           Some maps \<Rightarrow>
             if newLineTag
             then (cfg\<lparr>gc_GlineExtend := ext(line_key \<mapsto> eval(ex_key \<mapsto> maps @ [[k \<mapsto> v]]))\<rparr>, False)
             else (cfg\<lparr>gc_GlineExtend := ext(line_key \<mapsto> eval(ex_key \<mapsto> butlast maps @ [(last maps)(k \<mapsto> v)]))\<rparr>, newLineTag)
         | None \<Rightarrow> (cfg\<lparr>gc_GlineExtend := ext(line_key \<mapsto> eval(ex_key \<mapsto> [[k \<mapsto> v]]))\<rparr>, False))"

definition ini_line :: "inistate \<Rightarrow> string \<Rightarrow> inistate" where
  "ini_line st sline =
     (case match_section sline of
        Some w \<Rightarrow>
          let mk = getMk w in
          if mk = [] then st\<lparr>ini_section := None\<rparr>
          else st\<lparr>ini_section := Some mk, ini_conf := (ini_conf st)\<lparr>gc_Gcf := (gc_Gcf (ini_conf st))(mk \<mapsto> Map.empty)\<rparr>\<rparr>
      | None \<Rightarrow>
     case match_item sline of
        Some m \<Rightarrow>
          (case ini_section st of
             None \<Rightarrow> st
           | Some mkey \<Rightarrow>
               let (k, v) = getIk m in
               if k = [] then st
               else let imap = (case gc_Gcf (ini_conf st) mkey of Some i \<Rightarrow> i | None \<Rightarrow> Map.empty);
                        old = (case imap k of Some vs \<Rightarrow> vs | None \<Rightarrow> [])
                    in st\<lparr>ini_conf := (ini_conf st)\<lparr>gc_Gcf := (gc_Gcf (ini_conf st))(mkey \<mapsto> imap(k \<mapsto> old @ [v]))\<rparr>,
                          ini_line_key := k, ini_ex_key := sline, ini_newLine := True\<rparr>)
      | None \<Rightarrow>
     case match_ext sline of
        Some m \<Rightarrow>
          (case getIkExd (ini_line_key st) (ini_ex_key st) m (ini_conf st) (ini_newLine st) of
             (cfg, tag) \<Rightarrow> st\<lparr>ini_conf := cfg, ini_newLine := tag\<rparr>)
      | None \<Rightarrow> st)"

function ini_loop :: "inistate \<Rightarrow> string \<Rightarrow> inistate" where
  "ini_loop st s = (case ReadLine s of None \<Rightarrow> st | Some (sline, rest) \<Rightarrow> ini_loop (ini_line st sline) rest)"
  by pat_completeness auto
termination
  by (relation "measure (\<lambda>(st, s). length s)") (auto dest: ReadLine_shrinks)

declare ini_loop.simps [simp del]

definition ini_start :: "gconf \<Rightarrow> inistate" where
  "ini_start cfg = \<lparr>ini_conf = cfg, ini_section = None, ini_line_key = [], ini_ex_key = [], ini_newLine = False\<rparr>"

definition DoConfParse :: "gconf \<Rightarrow> string \<Rightarrow> gconf" where
  "DoConfParse cfg s = ini_conf (ini_loop (ini_start cfg) s)"

text \<open>A file that cannot be opened is logged and leaves the configuration as it is.\<close>

definition GconfParse :: "gconf \<Rightarrow> string option \<Rightarrow> gconf" where
  "GconfParse cfg file = (case file of None \<Rightarrow> cfg | Some content \<Rightarrow> DoConfParse cfg content)"

definition GconfParseFromString :: "gconf \<Rightarrow> string \<Rightarrow> gconf" where
  "GconfParseFromString cfg content = DoConfParse cfg content"

definition HasSection :: "gconf \<Rightarrow> string \<Rightarrow> bool" where
  "HasSection cfg s = (gc_Gcf cfg s \<noteq> None)"

definition GetSection :: "gconf \<Rightarrow> string \<Rightarrow> error + (string \<rightharpoonup> string list)" where
  "GetSection cfg s = (case gc_Gcf cfg s of Some xs \<Rightarrow> Inr xs | None \<Rightarrow> Inl (yerr (s @ '' not exist'')))"

section \<open>One line\<close>

lemma ini_loop_Nil [simp]: "ini_loop st [] = st"
  by (simp add: ini_loop.simps ReadLine_def)

lemma ini_loop_line:
  assumes "LF \<notin> set l" "length l < buffer_size"
  shows "ini_loop st (l @ LF # s) = ini_loop (ini_line st (chomp_cr l)) s"
proof -
  have "takeWhile (\<lambda>c. c \<noteq> LF) (l @ LF # s) = l" using assms(1) by (rule takeWhile_until)
  then have "ReadLine (l @ LF # s) = Some (chomp_cr l, s)" using assms(2) by (simp add: ReadLine_def)
  then show ?thesis by (simp add: ini_loop.simps [of _ "l @ LF # s"])
qed

text \<open>A line longer than the buffer of 4096 bytes is not one line: its first 4096 bytes are parsed as a line, and what is left
  as the next one, since the flag that says so is ignored.  A value that long is cut off, and its tail is
  read as a section, a key or an extension if it looks like one.\<close>

theorem ini_long_line_split:
  assumes "LF \<notin> set l" "buffer_size \<le> length l" "l ! (buffer_size - 1) \<noteq> CR"
  shows "ini_loop st (l @ LF # s) = ini_loop (ini_line st (take buffer_size l)) (drop buffer_size l @ LF # s)"
proof -
  have "takeWhile (\<lambda>c. c \<noteq> LF) (l @ LF # s) = l" using assms(1) by (rule takeWhile_until)
  then have "ReadLine (l @ LF # s) = Some (take buffer_size l, drop buffer_size l @ LF # s)"
    using assms(2,3) by (simp add: ReadLine_def nth_append buffer_size_def)
  then show ?thesis by (simp add: ini_loop.simps [of _ "l @ LF # s"])
qed

theorem ini_long_line_split_witness:
  "ini_loop (ini_start NewGconf) ((''k = '' @ replicate 4092 CHR ''x'' @ ''[s]'') @ LF # [])
     = ini_loop (ini_line (ini_start NewGconf) (take buffer_size (''k = '' @ replicate 4092 CHR ''x'' @ ''[s]'')))
         (drop buffer_size (''k = '' @ replicate 4092 CHR ''x'' @ ''[s]'') @ LF # [])"
  by (rule ini_long_line_split) (auto simp: buffer_size_def nth_append)


section \<open>Writing a file\<close>

type_synonym ini_doc = "(string \<times> (string \<times> string) list) list"

definition item_line :: "string \<times> string \<Rightarrow> string" where
  "item_line e = fst e @ '' = '' @ snd e"

definition section_text :: "string \<times> (string \<times> string) list \<Rightarrow> string" where
  "section_text sec = ''['' @ fst sec @ '']'' @ [LF] @ concat (map (\<lambda>e. item_line e @ [LF]) (snd sec))"

definition ini_text :: "ini_doc \<Rightarrow> string" where
  "ini_text doc = concat (map section_text doc)"

definition ini_word :: "string \<Rightarrow> bool" where
  "ini_word w \<longleftrightarrow> w \<noteq> [] \<and> list_all word_byte w"

text \<open>A value on one line, with no space at either end, that fits the buffer with its key.\<close>

definition ini_item :: "string \<times> string \<Rightarrow> bool" where
  "ini_item e \<longleftrightarrow> ini_word (fst e) \<and> LF \<notin> set (snd e) \<and> length (fst e) + 3 + length (snd e) < buffer_size
     \<and> (snd e = [] \<or> \<not> ini_space (hd (snd e)) \<and> \<not> ini_space (last (snd e)))"

definition ini_section_ok :: "string \<times> (string \<times> string) list \<Rightarrow> bool" where
  "ini_section_ok sec \<longleftrightarrow> ini_word (fst sec) \<and> length (fst sec) + 2 < buffer_size \<and> list_all ini_item (snd sec)"

text \<open>What a section holds: for each key its values in their order.\<close>

definition values_of :: "(string \<times> string) list \<Rightarrow> string \<rightharpoonup> string list" where
  "values_of items k = (let vs = map snd (filter (\<lambda>e. fst e = k) items) in if vs = [] then None else Some vs)"

section \<open>Reading it back\<close>

lemma word_byte_facts:
  "\<not> word_byte CHR ''[''" "\<not> word_byte CHR '']''" "\<not> word_byte CHR ''=''" "\<not> word_byte CHR '' ''" "\<not> word_byte LF" "\<not> word_byte CR"
  by code_simp+

lemma takeWhile_word: "list_all word_byte w \<Longrightarrow> \<not> word_byte c \<Longrightarrow> takeWhile word_byte (w @ c # s) = w"
  and dropWhile_word: "list_all word_byte w \<Longrightarrow> \<not> word_byte c \<Longrightarrow> dropWhile word_byte (w @ c # s) = c # s"
  by (induction w) auto

lemma Trim_id: "s = [] \<or> hd s \<noteq> CHR '' '' \<and> last s \<noteq> CHR '' '' \<Longrightarrow> Trim {CHR '' ''} s = s"
proof -
  assume s: "s = [] \<or> hd s \<noteq> CHR '' '' \<and> last s \<noteq> CHR '' ''"
  have "dropWhile (\<lambda>c. c \<in> {CHR '' ''}) t = t" if "t = [] \<or> hd t \<noteq> CHR '' ''" for t using that by (cases t) auto
  note d = this
  have "dropWhile (\<lambda>c. c \<in> {CHR '' ''}) s = s" "dropWhile (\<lambda>c. c \<in> {CHR '' ''}) (rev s) = rev s"
    by (rule d, use s in blast) (rule d, use s in \<open>auto simp: hd_rev\<close>)
  then show ?thesis unfolding Trim_def TrimLeft_def TrimRight_def by (simp del: insert_iff)
qed

lemma Trim_word: "list_all word_byte w \<Longrightarrow> Trim {CHR '' ''} w = w"
  by (rule Trim_id) (metis word_byte_facts(4) list_all_iff hd_in_set last_in_set)

lemma match_section_text: "ini_word w \<Longrightarrow> match_section (''['' @ w @ '']'') = Some w"
  by (simp add: match_section_def ini_word_def takeWhile_word [OF _ word_byte_facts(2)] dropWhile_word [OF _ word_byte_facts(2)])

lemma match_item_text:
  assumes "ini_item e" shows "match_section (item_line e) = None" "match_item (item_line e) = Some e"
proof -
  have k: "fst e \<noteq> []" "list_all word_byte (fst e)" using assms by (auto simp: ini_item_def ini_word_def)
  then have "hd (fst e) \<noteq> CHR ''[''" using word_byte_facts(1) by (cases "fst e") auto
  then show "match_section (item_line e) = None" using k(1) by (cases "fst e") (auto simp: match_section_def item_line_def)
  have "dropWhile ini_space (snd e) = snd e" using assms by (cases "snd e") (auto simp: ini_item_def)
  moreover have "ini_space CHR '' ''" "\<not> ini_space CHR ''=''" by (simp_all add: ini_space_def)
  ultimately show "match_item (item_line e) = Some e"
    using k takeWhile_word [OF k(2) word_byte_facts(4)] dropWhile_word [OF k(2) word_byte_facts(4)]
    by (simp add: match_item_def item_line_def)
qed

lemma getIk_item: "ini_item e \<Longrightarrow> getIk e = e"
  using Trim_word [of "fst e"] Trim_id [of "snd e"] by (cases e) (auto simp: getIk_def ini_item_def ini_word_def ini_space_def)

lemma item_line_chomp: "ini_item e \<Longrightarrow> chomp_cr (item_line e) = item_line e"
  by (auto simp: chomp_cr_def item_line_def ini_item_def ini_space_def)

lemma item_line_plain: "ini_item e \<Longrightarrow> LF \<notin> set (item_line e) \<and> length (item_line e) < buffer_size"
  using word_byte_facts(5) by (auto simp: ini_item_def ini_word_def item_line_def list_all_iff)

text \<open>The state inside a section.\<close>

definition in_section :: "(string \<rightharpoonup> (string \<rightharpoonup> string list)) \<Rightarrow> string \<Rightarrow> (string \<times> string) list \<Rightarrow> inistate \<Rightarrow> bool" where
  "in_section g sec items st \<longleftrightarrow> ini_section st = Some sec \<and> gc_Gcf (ini_conf st) = g(sec \<mapsto> values_of items)"

lemma values_of_snoc:
  "values_of (items @ [(k, v)]) = (values_of items)(k \<mapsto> (case values_of items k of Some vs \<Rightarrow> vs | None \<Rightarrow> []) @ [v])"
  by (auto simp: values_of_def fun_eq_iff Let_def)

lemma item_read:
  assumes "in_section g sec items st" "ini_item e"
  shows "in_section g sec (items @ [e]) (ini_line st (item_line e))"
proof -
  have "fst e \<noteq> []" using assms(2) by (simp add: ini_item_def ini_word_def)
  then show ?thesis
    using assms(1) match_item_text [OF assms(2)] getIk_item [OF assms(2)] values_of_snoc [of items "fst e" "snd e"]
    by (cases e) (simp add: in_section_def ini_line_def Let_def)
qed

lemma items_read:
  assumes "in_section g sec items st" "list_all ini_item es"
  shows "\<exists>st'. ini_loop st (concat (map (\<lambda>e. item_line e @ [LF]) es) @ s) = ini_loop st' s \<and> in_section g sec (items @ es) st'"
  using assms
proof (induction es arbitrary: items st)
  case (Cons e es)
  then have e: "ini_item e" by simp
  have "ini_loop st (item_line e @ LF # concat (map (\<lambda>e. item_line e @ [LF]) es) @ s)
      = ini_loop (ini_line st (item_line e)) (concat (map (\<lambda>e. item_line e @ [LF]) es) @ s)"
    using ini_loop_line [of "item_line e"] item_line_plain [OF e] item_line_chomp [OF e] by simp
  then show ?case using Cons.IH [OF item_read [OF Cons.prems(1) e]] Cons.prems(2) by simp
qed auto

lemma section_read:
  assumes "gc_Gcf (ini_conf st) = g" "ini_section_ok sec"
  shows "\<exists>st'. ini_loop st (section_text sec @ s) = ini_loop st' s \<and> gc_Gcf (ini_conf st') = g(fst sec \<mapsto> values_of (snd sec))"
proof -
  have w: "ini_word (fst sec)" and len: "length (fst sec) + 2 < buffer_size" and it: "list_all ini_item (snd sec)"
    using assms(2) by (simp_all add: ini_section_ok_def)
  let ?h = "''['' @ fst sec @ '']''" and ?r = "concat (map (\<lambda>e. item_line e @ [LF]) (snd sec)) @ s"
  have "LF \<notin> set ?h" using w word_byte_facts(5) by (auto simp: ini_word_def list_all_iff)
  moreover have "chomp_cr ?h = ?h" by (simp add: chomp_cr_def)
  ultimately have "ini_loop st (?h @ LF # ?r) = ini_loop (ini_line st ?h) ?r"
    using ini_loop_line [of ?h st ?r] len by simp
  moreover have "in_section g (fst sec) [] (ini_line st ?h)"
    using match_section_text [OF w] Trim_word [of "fst sec"] w assms(1)
    by (auto simp: in_section_def ini_line_def getMk_def ini_word_def values_of_def [abs_def] Let_def)
  ultimately show ?thesis using items_read [OF _ it, of g "fst sec" "[]" "ini_line st ?h" s]
    by (auto simp: section_text_def in_section_def)
qed

lemma doc_read:
  assumes "gc_Gcf (ini_conf st) = g" "list_all ini_section_ok doc"
  shows "gc_Gcf (ini_conf (ini_loop st (ini_text doc))) = g ++ map_of (rev (map (\<lambda>sec. (fst sec, values_of (snd sec))) doc))"
  using assms
proof (induction doc arbitrary: st g)
  case (Cons sec doc)
  obtain st' where st': "ini_loop st (section_text sec @ ini_text doc) = ini_loop st' (ini_text doc)"
    "gc_Gcf (ini_conf st') = g(fst sec \<mapsto> values_of (snd sec))"
    using section_read [OF Cons.prems(1), of sec "ini_text doc"] Cons.prems(2) by auto
  then show ?case using Cons.IH [OF st'(2)] Cons.prems(2) by (simp add: ini_text_def map_add_def fun_eq_iff split: option.split)
qed (simp add: ini_text_def)

lemma ini_read:
  assumes "list_all ini_section_ok doc" "distinct (map fst doc)"
  shows "gc_Gcf (GconfParseFromString NewGconf (ini_text doc)) = map_of (map (\<lambda>sec. (fst sec, values_of (snd sec))) doc)"
proof -
  have "distinct (map fst (map (\<lambda>sec. (fst sec, values_of (snd sec))) doc))" using assms(2) by (simp add: comp_def)
  then have "map_of (rev (map (\<lambda>sec. (fst sec, values_of (snd sec))) doc)) = map_of (map (\<lambda>sec. (fst sec, values_of (snd sec))) doc)"
    by (subst map_of_inject_set) (auto simp: rev_map [symmetric])
  then show ?thesis using doc_read [of "ini_start NewGconf" Map.empty doc] assms(1)
    by (simp add: GconfParseFromString_def DoConfParse_def ini_start_def NewGconf_def)
qed

text \<open>C32: an INI file is read back: a file of sections with distinct names, each with its \<^verbatim>\<open>key = value\<close> lines, gives exactly these sections, and
  in each every key has all its values in the order of the lines.  Names are words; a value stands on its line without
  outer spaces, and the line fits the read buffer.\<close>

theorem ini_roundtrip:
  assumes "list_all ini_section_ok doc" "distinct (map fst doc)"
  shows "gc_Gcf (GconfParseFromString NewGconf (ini_text doc)) = map_of (map (\<lambda>sec. (fst sec, values_of (snd sec))) doc)"
  by (rule ini_read [OF assms])

theorem ini_roundtrip_witness:
  "gc_Gcf (GconfParseFromString NewGconf (ini_text [(''s'', [(''a'', ''1''), (''b'', ''x y''), (''a'', ''2'')]), (''t'', [])])) ''s''
     = Some (values_of [(''a'', ''1''), (''b'', ''x y''), (''a'', ''2'')])"
proof -
  have "list_all word_byte ''stab''" by code_simp
  then have "list_all ini_section_ok [(''s'', [(''a'', ''1''), (''b'', ''x y''), (''a'', ''2'')]), (''t'', [])]"
    by (simp add: ini_section_ok_def ini_item_def ini_word_def ini_space_def buffer_size_def)
  then show ?thesis using ini_roundtrip [of "[(''s'', [(''a'', ''1''), (''b'', ''x y''), (''a'', ''2'')]), (''t'', [])]"] by simp
qed

end
