(* ===== verification/ConfParse.thy ===== *)
theory ConfParse
  imports IniFile GoReflect
begin

text \<open>
  Decoding an INI configuration into a struct (\<^verbatim>\<open>confparse/confparse.go\<close>): each field names its section and key in its tags.

  Go types and values are those of \<open>GoReflect\<close>; the element types of maps and slices are predeclared types, and \<^verbatim>\<open>uint\<close> as an element
  type is not covered.  A struct is the list of its fields and of their values, returned with the error, since fields
  before an error are already set.  \<^const>\<open>None\<close> is a panic.  The callbacks for fields that the user parses
  are an argument, in the order in which their map is traversed, and so is the rounding of a
  floating-point number to the width of its field.
\<close>

section \<open>Splitting and numbers\<close>

text \<open>\<^verbatim>\<open>strings.Split\<close> with a separator that is not empty.\<close>

function split_str :: "string \<Rightarrow> string \<Rightarrow> string \<Rightarrow> string list" where
  "split_str sep acc [] = [acc]"
| "split_str sep acc (c # cs) =
     (if starts_with sep (c # cs) then acc # split_str sep [] (drop (length sep - 1) cs) else split_str sep (acc @ [c]) cs)"
  by pat_completeness auto
termination by (relation "measure (\<lambda>(sep, acc, s). length s)") auto

definition SplitStr :: "string \<Rightarrow> string \<Rightarrow> string list" where
  "SplitStr s sep = split_str sep [] s"

text \<open>What \<^verbatim>\<open>SetInt\<close> and \<^verbatim>\<open>SetUint\<close> keep of a 64-bit number.\<close>

definition wrap_int :: "nat \<Rightarrow> int \<Rightarrow> int" where
  "wrap_int n i = (i + 2 ^ (n - 1)) mod 2 ^ n - 2 ^ (n - 1)"

definition wrap_uint :: "nat \<Rightarrow> int \<Rightarrow> int" where
  "wrap_uint n i = i mod 2 ^ n"

definition ParseUint :: "string \<Rightarrow> nat option" where
  "ParseUint s = (case unsigned_val s of Some v \<Rightarrow> if v < 2 ^ 64 then Some v else None | None \<Rightarrow> None)"

definition ParseBool :: "string \<Rightarrow> bool option" where
  "ParseBool s =
     (if s \<in> set [''1'', ''t'', ''T'', ''TRUE'', ''true'', ''True''] then Some True
      else if s \<in> set [''0'', ''f'', ''F'', ''FALSE'', ''false'', ''False''] then Some False
      else None)"

section \<open>Tags\<close>

definition CP_TAG_POS :: string where "CP_TAG_POS = ''confpos''"
definition CP_TAG_ITEM_SPLIT :: string where "CP_TAG_ITEM_SPLIT = ''item_split''"
definition CP_TAG_KV_SPLIT :: string where "CP_TAG_KV_SPLIT = ''kv_split''"
definition CP_TAG_DTYPE :: string where "CP_TAG_DTYPE = ''dtype''"

definition no_tag :: "string \<Rightarrow> error" where
  "no_tag tag = yerr (''tag: '' @ tag @ '' not exist'')"

definition parseSection :: "gconf \<Rightarrow> string \<Rightarrow> error + (string \<rightharpoonup> string list)" where
  "parseSection cfg sectionName = GetSection cfg sectionName"

definition parseBaseTag :: "gfield \<Rightarrow> (error + string \<times> string) go" where
  "parseBaseTag f =
     (let cpos = Tag_Get f CP_TAG_POS in
      if cpos = [] then Some (Inl (no_tag CP_TAG_POS))
      else case Split cpos CHR '':'' of se # k # _ \<Rightarrow> Some (Inr (se, k)) | _ \<Rightarrow> None)"

definition parseSliceTag :: "gfield \<Rightarrow> (error + string \<times> string \<times> string) go" where
  "parseSliceTag f =
     (let cpos = Tag_Get f CP_TAG_POS in
      if cpos = [] then Some (Inl (no_tag CP_TAG_POS))
      else case Split cpos CHR '':'' of
        se # k # _ \<Rightarrow>
          let is = Tag_Get f CP_TAG_ITEM_SPLIT in
          if is = [] then Some (Inl (no_tag CP_TAG_ITEM_SPLIT)) else Some (Inr (se, k, is))
      | _ \<Rightarrow> None)"

definition parseMapTag :: "gfield \<Rightarrow> (error + string \<times> string \<times> string \<times> string) go" where
  "parseMapTag f =
     (let cpos = Tag_Get f CP_TAG_POS in
      if cpos = [] then Some (Inl (no_tag CP_TAG_POS))
      else case Split cpos CHR '':'' of
        se # k # _ \<Rightarrow>
          let is = Tag_Get f CP_TAG_ITEM_SPLIT; ks = Tag_Get f CP_TAG_KV_SPLIT in
          if is = [] then Some (Inl (no_tag CP_TAG_ITEM_SPLIT))
          else if ks = [] then Some (Inl (no_tag CP_TAG_KV_SPLIT))
          else Some (Inr (se, k, is, ks))
      | _ \<Rightarrow> None)"

definition getDatafromIni :: "string \<Rightarrow> string \<Rightarrow> gconf \<Rightarrow> (error + string) go" where
  "getDatafromIni sec key cfg =
     (if HasSection cfg sec then
        (case parseSection cfg sec of
           Inl e \<Rightarrow> Some (Inl e)
         | Inr item \<Rightarrow>
             (case item key of
                None \<Rightarrow> Some (Inl (yerr (''section '' @ sec @ '' key '' @ key @ '' not exist'')))
              | Some [] \<Rightarrow> None
              | Some (w # _) \<Rightarrow> Some (Inr w)))
      else Some (Inl (yerr (''section '' @ sec @ '' not exist''))))"

section \<open>Scalars\<close>

definition setInt :: "nat \<Rightarrow> string \<Rightarrow> error + gval" where
  "setInt n x = (case Atoi x of (i, err) \<Rightarrow> if err then Inl (yerr ''ParseInt'') else Inr (XInt (wrap_int n i)))"

definition setUint :: "nat \<Rightarrow> string \<Rightarrow> error + gval" where
  "setUint n x = (case ParseUint x of None \<Rightarrow> Inl (yerr ''ParseUint'') | Some i \<Rightarrow> Inr (XUint (wrap_uint n (int i))))"

definition setFloat :: "std \<Rightarrow> (nat \<Rightarrow> nat \<Rightarrow> nat) \<Rightarrow> nat \<Rightarrow> string \<Rightarrow> error + gval" where
  "setFloat st rnd n x = (case st_ParseFloat st x of None \<Rightarrow> Inl (yerr ''ParseFloat'') | Some v \<Rightarrow> Inr (XFloat (rnd n v)))"

definition setDuration :: "std \<Rightarrow> string \<Rightarrow> error + gval" where
  "setDuration st x = (case st_ParseDuration st x of None \<Rightarrow> Inl (yerr ''ParseDuration'') | Some d \<Rightarrow> Inr (XDuration d))"

definition setString :: "string \<Rightarrow> error + gval" where
  "setString x = Inr (XString x)"

definition setBool :: "string \<Rightarrow> error + gval" where
  "setBool x = (case ParseBool x of None \<Rightarrow> Inl (yerr ''ParseBool'') | Some b \<Rightarrow> Inr (XBool b))"

text \<open>The steps that the functions for one scalar share; a field that is not exported cannot be set.\<close>

definition parse_base :: "(string \<Rightarrow> error + gval) \<Rightarrow> gfield \<Rightarrow> gconf \<Rightarrow> gval conv" where
  "parse_base conv f cfg =
     (case parseBaseTag f of
        None \<Rightarrow> None
      | Some (Inl e) \<Rightarrow> Some (Inl e)
      | Some (Inr (se, key)) \<Rightarrow>
          (case getDatafromIni se key cfg of
             None \<Rightarrow> None
           | Some (Inl e) \<Rightarrow> Some (Inl e)
           | Some (Inr w) \<Rightarrow> (case conv w of Inl e \<Rightarrow> Some (Inl e) | Inr v \<Rightarrow> if gf_exported f then Some (Inr v) else None)))"

definition parseInt :: "nat \<Rightarrow> gfield \<Rightarrow> gconf \<Rightarrow> gval conv" where "parseInt n f cfg = parse_base (setInt n) f cfg"
definition parseUint :: "nat \<Rightarrow> gfield \<Rightarrow> gconf \<Rightarrow> gval conv" where "parseUint n f cfg = parse_base (setUint n) f cfg"
definition parseFloat :: "std \<Rightarrow> (nat \<Rightarrow> nat \<Rightarrow> nat) \<Rightarrow> nat \<Rightarrow> gfield \<Rightarrow> gconf \<Rightarrow> gval conv" where
  "parseFloat st rnd n f cfg = parse_base (setFloat st rnd n) f cfg"
definition parseDuration :: "std \<Rightarrow> gfield \<Rightarrow> gconf \<Rightarrow> gval conv" where "parseDuration st f cfg = parse_base (setDuration st) f cfg"
definition parseString :: "gfield \<Rightarrow> gconf \<Rightarrow> gval conv" where "parseString f cfg = parse_base setString f cfg"
definition parseBool :: "gfield \<Rightarrow> gconf \<Rightarrow> gval conv" where "parseBool f cfg = parse_base setBool f cfg"

section \<open>Maps and slices\<close>

text \<open>
  The value of one element.  For the unsigned kinds the code calls \<^verbatim>\<open>SetInt\<close>, which panics; for every other kind it returns the \<^verbatim>\<open>int\<close> 0, which
  can be stored in an interface only.
\<close>

definition getBaseValue :: "std \<Rightarrow> (nat \<Rightarrow> nat \<Rightarrow> nat) \<Rightarrow> gtype \<Rightarrow> string \<Rightarrow> gval conv" where
  "getBaseValue st rnd t v =
     (case t of
        TInt n \<Rightarrow> Some (setInt n v)
      | TUint n \<Rightarrow> (if snd (Atoi v) then Some (Inl (yerr ''ParseInt'')) else None)
      | TFloat n \<Rightarrow> Some (setFloat st rnd n v)
      | TBool \<Rightarrow> Some (setBool v)
      | TString \<Rightarrow> Some (setString v)
      | TAny \<Rightarrow> Some (Inr (XAny (Some (VInt 0))))
      | _ \<Rightarrow> None)"

definition fillMap :: "std \<Rightarrow> (nat \<Rightarrow> nat \<Rightarrow> nat) \<Rightarrow> gfield \<Rightarrow> gkey \<Rightarrow> gtype \<Rightarrow> gval \<Rightarrow> string \<Rightarrow> string \<Rightarrow> gval conv" where
  "fillMap st rnd f k t dst sk sv =
     (case getBaseValue st rnd t sv of
        None \<Rightarrow> None
      | Some (Inl e) \<Rightarrow> Some (Inl e)
      | Some (Inr vv) \<Rightarrow>
          (case dst of
             XMap (Some m) \<Rightarrow> if gf_exported f \<and> k = KString then Some (Inr (XMap (Some (assoc_put sk vv m)))) else None
           | _ \<Rightarrow> None))"

definition fillSlice :: "std \<Rightarrow> (nat \<Rightarrow> nat \<Rightarrow> nat) \<Rightarrow> gtype \<Rightarrow> gval list \<Rightarrow> string \<Rightarrow> gval list conv" where
  "fillSlice st rnd t xs sv = conv_map (\<lambda>vv. xs @ [vv]) (getBaseValue st rnd t sv)"

text \<open>The loops ignore the error of an element.\<close>

fun map_items :: "std \<Rightarrow> (nat \<Rightarrow> nat \<Rightarrow> nat) \<Rightarrow> gfield \<Rightarrow> gkey \<Rightarrow> gtype \<Rightarrow> string \<Rightarrow> gval \<Rightarrow> string list \<Rightarrow> gval go" where
  "map_items st rnd f k t kvs dst [] = Some dst"
| "map_items st rnd f k t kvs dst (item # ilist) =
     (case SplitStr item kvs of
        sk # sv # _ \<Rightarrow>
          (case fillMap st rnd f k t dst sk sv of
             None \<Rightarrow> None
           | Some (Inl e) \<Rightarrow> map_items st rnd f k t kvs dst ilist
           | Some (Inr dst') \<Rightarrow> map_items st rnd f k t kvs dst' ilist)
      | _ \<Rightarrow> None)"

fun slice_items :: "std \<Rightarrow> (nat \<Rightarrow> nat \<Rightarrow> nat) \<Rightarrow> gtype \<Rightarrow> gval list \<Rightarrow> string list \<Rightarrow> gval list go" where
  "slice_items st rnd t xs [] = Some xs"
| "slice_items st rnd t xs (item # ilist) =
     (case fillSlice st rnd t xs item of
        None \<Rightarrow> None
      | Some (Inl e) \<Rightarrow> slice_items st rnd t xs ilist
      | Some (Inr xs') \<Rightarrow> slice_items st rnd t xs' ilist)"

definition parseMap :: "std \<Rightarrow> (nat \<Rightarrow> nat \<Rightarrow> nat) \<Rightarrow> gfield \<Rightarrow> gkey \<Rightarrow> gtype \<Rightarrow> gval \<Rightarrow> gconf \<Rightarrow> gval conv" where
  "parseMap st rnd f k t dst cfg =
     (if k = KOther then Some (Inl (yerr ''map key must string''))
      else case parseMapTag f of
        None \<Rightarrow> None
      | Some (Inl e) \<Rightarrow> Some (Inl e)
      | Some (Inr (se, key, is, kvs)) \<Rightarrow>
          (case getDatafromIni se key cfg of
             None \<Rightarrow> None
           | Some (Inl e) \<Rightarrow> Some (Inl e)
           | Some (Inr w) \<Rightarrow> map_option Inr (map_items st rnd f k t kvs dst (SplitStr w is))))"

text \<open>A nil slice stays nil when no element was appended.\<close>

definition parseSlice :: "std \<Rightarrow> (nat \<Rightarrow> nat \<Rightarrow> nat) \<Rightarrow> gfield \<Rightarrow> gtype \<Rightarrow> gval \<Rightarrow> gconf \<Rightarrow> gval conv" where
  "parseSlice st rnd f t dst cfg =
     (case parseSliceTag f of
        None \<Rightarrow> None
      | Some (Inl e) \<Rightarrow> Some (Inl e)
      | Some (Inr (se, key, is)) \<Rightarrow>
          (case getDatafromIni se key cfg of
             None \<Rightarrow> None
           | Some (Inl e) \<Rightarrow> Some (Inl e)
           | Some (Inr w) \<Rightarrow>
               (case slice_items st rnd t (case dst of XSlice (Some xs) \<Rightarrow> xs | _ \<Rightarrow> []) (SplitStr w is) of
                  None \<Rightarrow> None
                | Some xs \<Rightarrow>
                    if \<not> gf_exported f then None
                    else Some (Inr (if xs = [] \<and> dst = XSlice None then dst else XSlice (Some xs))))))"

section \<open>Structs\<close>

text \<open>Whether a field is left to the user; a field with no \<^verbatim>\<open>dtype\<close> is.\<close>

definition isUserSelfParse :: "gfield \<Rightarrow> error + bool" where
  "isUserSelfParse f =
     (let dtype = Tag_Get f CP_TAG_DTYPE in
      if dtype = [] then Inr True
      else if dtype = ''base'' then Inr False
      else if dtype = ''complex'' then Inr True
      else Inl (yerr (''dtype val '' @ dtype @ '' not exist'')))"

definition parse_item :: "std \<Rightarrow> (nat \<Rightarrow> nat \<Rightarrow> nat) \<Rightarrow> gfield \<Rightarrow> gtype \<Rightarrow> gval \<Rightarrow> gconf \<Rightarrow> gval conv" where
  "parse_item st rnd f t dst cfg =
     (case t of
        TDuration \<Rightarrow> parseDuration st f cfg
      | TInt n \<Rightarrow> parseInt n f cfg
      | TUint n \<Rightarrow> parseUint n f cfg
      | TFloat n \<Rightarrow> parseFloat st rnd n f cfg
      | TString \<Rightarrow> parseString f cfg
      | TBool \<Rightarrow> parseBool f cfg
      | TMap k t' \<Rightarrow> parseMap st rnd f k t' dst cfg
      | TSlice t' \<Rightarrow> parseSlice st rnd f t' dst cfg
      | _ \<Rightarrow> Some (Inr dst))"

type_synonym struct_result = "(gval list \<times> error option) go"

fun parse_fields :: "std \<Rightarrow> (nat \<Rightarrow> nat \<Rightarrow> nat) \<Rightarrow> gconf \<Rightarrow> (gfield \<times> gtype) list \<Rightarrow> gval list \<Rightarrow> struct_result" where
  "parse_fields st rnd cfg ((f, t) # fs) (v # vs) =
     (let rest = (\<lambda>v'. map_option (\<lambda>(vs', e). (v' # vs', e)) (parse_fields st rnd cfg fs vs)) in
      case isUserSelfParse f of
        Inl e \<Rightarrow> Some (v # vs, Some e)
      | Inr True \<Rightarrow> rest v
      | Inr False \<Rightarrow>
          (case parse_item st rnd f t v cfg of
             None \<Rightarrow> None
           | Some (Inl e) \<Rightarrow> Some (v # vs, Some e)
           | Some (Inr v') \<Rightarrow> rest v'))"
| "parse_fields st rnd cfg fs vs = Some (vs, None)"

text \<open>
  A callback gets the context, the struct and the values of its key.  The parser keeps the context that its methods pass on (\<open>'c\<close> is the type of contexts); the
  callbacks are listed in the order in which the map is traversed.
\<close>

type_synonym 'c UserSelfFunc = "'c \<Rightarrow> gval list \<Rightarrow> string list \<Rightarrow> gval list \<times> error option"

record 'c cparse =
  cp_ctx :: 'c
  cp_Filename :: string
  cp_Funcs :: "(string \<times> 'c UserSelfFunc) list"

definition CpaseNew :: "'c \<Rightarrow> string \<Rightarrow> 'c cparse" where
  "CpaseNew background fname = \<lparr>cp_ctx = background, cp_Filename = fname, cp_Funcs = []\<rparr>"

definition WithCtx :: "'c cparse \<Rightarrow> 'c \<Rightarrow> 'c cparse" where
  "WithCtx cp ctx = cp\<lparr>cp_ctx := ctx\<rparr>"

fun user_funcs :: "'c \<Rightarrow> gconf \<Rightarrow> (string \<times> 'c UserSelfFunc) list \<Rightarrow> gval list \<Rightarrow> struct_result" where
  "user_funcs ctx cfg [] vs = Some (vs, None)"
| "user_funcs ctx cfg ((mk, one_func) # funcs) vs =
     (case Split mk CHR '':'' of
        se # k # _ \<Rightarrow>
          (case parseSection cfg se of
             Inl e \<Rightarrow> Some (vs, Some e)
           | Inr cmap \<Rightarrow>
               (case one_func ctx vs (case cmap k of Some sv \<Rightarrow> sv | None \<Rightarrow> []) of
                  (vs', Some e) \<Rightarrow> Some (vs', Some e)
                | (vs', None) \<Rightarrow> user_funcs ctx cfg funcs vs'))
      | _ \<Rightarrow> None)"

definition CparseGo :: "std \<Rightarrow> (nat \<Rightarrow> nat \<Rightarrow> nat) \<Rightarrow> 'c cparse \<Rightarrow> (gfield \<times> gtype) list \<Rightarrow> gval list \<Rightarrow> gconf \<Rightarrow> struct_result" where
  "CparseGo st rnd cp fs vs cfg =
     (case parse_fields st rnd cfg fs vs of
        None \<Rightarrow> None
      | Some (vs', Some e) \<Rightarrow> Some (vs', Some e)
      | Some (vs', None) \<Rightarrow> user_funcs (cp_ctx cp) cfg (cp_Funcs cp) vs')"


section \<open>Extension lines\<close>

definition ParseExt :: "string \<Rightarrow> string \<Rightarrow> nat \<Rightarrow> gconf \<Rightarrow> (string \<rightharpoonup> string) list go" where
  "ParseExt sec key index cfg =
     (let vs = (case gc_Gcf cfg sec of None \<Rightarrow> [] | Some m \<Rightarrow> (case m key of None \<Rightarrow> [] | Some vs \<Rightarrow> vs)) in
      if length vs \<le> index then None
      else let qk = key @ '' = '' @ vs ! index in
        Some (case gc_GlineExtend cfg key of None \<Rightarrow> [] | Some m \<Rightarrow> (case m qk of None \<Rightarrow> [] | Some l \<Rightarrow> l)))"

record extendConf =
  ec_Sk :: string
  ec_Key :: string
  ec_Index :: nat

definition NewExtendConf :: "string \<Rightarrow> string \<Rightarrow> nat \<Rightarrow> extendConf" where
  "NewExtendConf sec key index = \<lparr>ec_Sk = sec, ec_Key = key, ec_Index = index\<rparr>"

text \<open>A duration that cannot be parsed leaves the field as it is, without an error.\<close>

definition setFieldValue :: "std \<Rightarrow> (nat \<Rightarrow> nat \<Rightarrow> nat) \<Rightarrow> gfield \<Rightarrow> gtype \<Rightarrow> gval \<Rightarrow> string \<Rightarrow> error + gval" where
  "setFieldValue st rnd f t dst strVal =
     (if \<not> gf_exported f then Inl (yerr ''field can not be set'')
      else case t of
        TString \<Rightarrow> Inr (XString strVal)
      | TDuration \<Rightarrow> (case st_ParseDuration st strVal of Some d \<Rightarrow> Inr (XDuration d) | None \<Rightarrow> Inr dst)
      | TInt n \<Rightarrow> setInt n strVal
      | TUint n \<Rightarrow> setUint n strVal
      | TFloat n \<Rightarrow> setFloat st rnd n strVal
      | TBool \<Rightarrow> setBool strVal
      | _ \<Rightarrow> Inl (yerr ''unsupported type''))"

fun MapToStruct :: "std \<Rightarrow> (nat \<Rightarrow> nat \<Rightarrow> nat) \<Rightarrow> (string \<rightharpoonup> string) \<Rightarrow> (gfield \<times> gtype) list \<Rightarrow> gval list \<Rightarrow> gval list \<times> error option" where
  "MapToStruct st rnd data ((f, t) # fs) (v # vs) =
     (let rest = (\<lambda>v'. case MapToStruct st rnd data fs vs of (vs', e) \<Rightarrow> (v' # vs', e));
          mapKey = Tag_Get f ''mapkey''
      in if mapKey = [] then rest v
         else case data mapKey of
           None \<Rightarrow> rest v
         | Some strVal \<Rightarrow>
             (case setFieldValue st rnd f t v strVal of
                Inl e \<Rightarrow> (v # vs, Some (ErrorText (''field '' @ gf_Name f) # e))
              | Inr v' \<Rightarrow> rest v'))"
| "MapToStruct st rnd data fs vs = (vs, None)"

definition ParseExtStru :: "std \<Rightarrow> (nat \<Rightarrow> nat \<Rightarrow> nat) \<Rightarrow> extendConf \<Rightarrow> (gfield \<times> gtype) list \<Rightarrow> gval list \<Rightarrow> gconf \<Rightarrow> gval list \<times> error option" where
  "ParseExtStru st rnd ec fs vs cfg =
     (case gc_GlineExtend cfg (ec_Sk ec) of
        None \<Rightarrow> (vs, Some (yerr (''not found '' @ ec_Sk ec)))
      | Some v \<Rightarrow>
          (case v (ec_Key ec) of
             None \<Rightarrow> (vs, Some (yerr (''not found '' @ ec_Key ec)))
           | Some vlist \<Rightarrow>
               if length vlist \<le> ec_Index ec then (vs, Some (yerr ''index out of range''))
               else MapToStruct st rnd (vlist ! ec_Index ec) fs vs))"

section \<open>Integers that do not fit\<close>

lemma wrap_int_exact: "0 < n \<Longrightarrow> wrap_int n i = i \<longleftrightarrow> \<not> OverflowInt n i"
proof -
  assume n: "0 < n"
  let ?h = "2 ^ (n - 1) :: int"
  have h: "(2::int) ^ n = 2 * ?h" using n by (cases n) simp_all
  have pos: "0 < ?h" by simp
  show ?thesis
  proof
    assume "wrap_int n i = i"
    then have "(i + ?h) mod (2 * ?h) = i + ?h" by (simp add: wrap_int_def h)
    then have "0 \<le> i + ?h" "i + ?h < 2 * ?h" using pos by (metis pos_mod_sign pos_mod_bound mult_pos_pos zero_less_numeral)+
    then show "\<not> OverflowInt n i" by (simp add: OverflowInt_def)
  next
    assume "\<not> OverflowInt n i"
    then have "0 \<le> i + ?h" "i + ?h < 2 * ?h" by (simp_all add: OverflowInt_def)
    then show "wrap_int n i = i" by (simp add: wrap_int_def h)
  qed
qed

text \<open>C37: an integer of the configuration is stored in a struct field exactly when it fits the width of the field; otherwise another number
  is stored and there is no error, since the text is parsed with 64 bits and \<^verbatim>\<open>SetInt\<close> drops the upper ones.\<close>

theorem cparse_int_wraps:
  assumes "isUserSelfParse f = Inr False" "parseBaseTag f = Some (Inr (sec, key))" "gf_exported f" "0 < n"
    and "gc_Gcf cfg sec = Some m" "m key = Some (Itoa i # ws)" "- (2 ^ 63) \<le> i" "i < 2 ^ 63"
  shows "CparseGo st rnd (cp\<lparr>cp_Funcs := []\<rparr>) [(f, TInt n)] [v] cfg = Some ([XInt (wrap_int n i)], None) \<and> (wrap_int n i = i \<longleftrightarrow> \<not> OverflowInt n i)"
proof -
  have "setInt n (Itoa i) = Inr (XInt (wrap_int n i))" using Atoi_Itoa [OF assms(7,8)] by (simp add: setInt_def)
  then have "parseInt n f cfg = Some (Inr (XInt (wrap_int n i)))"
    using assms(2,3,5,6) by (simp add: parseInt_def parse_base_def getDatafromIni_def HasSection_def parseSection_def GetSection_def)
  then show ?thesis using assms(1) wrap_int_exact [OF assms(4)] by (simp add: CparseGo_def parse_item_def)
qed

definition level_field :: gfield where
  "level_field = \<lparr>gf_Name = ''Level'', gf_Tag = [(''confpos'', ''log:level''), (''dtype'', ''base'')], gf_exported = True, gf_Anonymous = False\<rparr>"

lemma level_field_tags: "isUserSelfParse level_field = Inr False" "parseBaseTag level_field = Some (Inr (''log'', ''level''))"
  by code_simp+

theorem cparse_int_wraps_witness:
  "CparseGo bare_std (\<lambda>_ x. x) (CpaseNew () ''f.ini'') [(level_field, TInt 8)] [XInt 0] (NewGconf\<lparr>gc_Gcf := [''log'' \<mapsto> [''level'' \<mapsto> [Itoa 300]]]\<rparr>) = Some ([XInt 44], None)"
proof -
  have "wrap_int 8 300 = 44" by (simp add: wrap_int_def)
  then show ?thesis using cparse_int_wraps [OF level_field_tags, of 8 "NewGconf\<lparr>gc_Gcf := [''log'' \<mapsto> [''level'' \<mapsto> [Itoa 300]]]\<rparr>"
      "[''level'' \<mapsto> [Itoa 300]]" 300 "[]" bare_std "\<lambda>_ x. x" "CpaseNew () ''f.ini''" "XInt 0"] by (simp add: level_field_def CpaseNew_def)
qed

section \<open>Panics and ignored errors\<close>

text \<open>A map or a slice of unsigned integers cannot be read: the first number in it is a panic.\<close>

lemma unsigned_elements_panic:
  "- (2 ^ 63) \<le> i \<Longrightarrow> i < 2 ^ 63 \<Longrightarrow> getBaseValue st rnd (TUint n) (Itoa i) = None"
  by (simp add: getBaseValue_def Atoi_Itoa)

lemma nil_map_panics: "getBaseValue st rnd t sv = Some (Inr vv) \<Longrightarrow> fillMap st rnd f k t (XMap None) sk sv = None"
  by (simp add: fillMap_def)

text \<open>An interface element is always the number 0.\<close>

lemma interface_elements_zero: "slice_items st rnd TAny xs ws = Some (xs @ replicate (length ws) (XAny (Some (VInt 0))))"
  by (induction ws arbitrary: xs) (simp_all add: fillSlice_def getBaseValue_def replicate_app_Cons_same)

text \<open>The key of the extension map is the line of the file, but the lookup rebuilds it with one space on each side of the sign.\<close>

lemma ext_needs_exact_spacing:
  "let cfg = GconfParseFromString NewGconf (''[s]'' @ [LF] @ ''k=v'' @ [LF] @ '' rule = r'' @ [LF]) in
     map_option length (ParseExt ''s'' ''k'' 0 cfg) = Some 0
     \<and> (case gc_GlineExtend cfg ''k'' of Some m \<Rightarrow> map_option length (m ''k=v'') = Some 1 | None \<Rightarrow> False)"
  by code_simp

section \<open>Reading a struct back\<close>

fun ini_show :: "gtype \<Rightarrow> gval \<Rightarrow> string" where
  "ini_show TString (XString s) = s"
| "ini_show TBool (XBool b) = (if b then ''true'' else ''false'')"
| "ini_show (TInt n) (XInt i) = Itoa i"
| "ini_show (TUint n) (XUint i) = nat_str (nat i)"
| "ini_show _ _ = []"

fun showable :: "gtype \<Rightarrow> gval \<Rightarrow> bool" where
  "showable TString (XString s) = True"
| "showable TBool (XBool b) = True"
| "showable (TInt n) (XInt i) = (0 < n \<and> n \<le> 64 \<and> \<not> OverflowInt n i)"
| "showable (TUint n) (XUint i) = (n \<le> 64 \<and> 0 \<le> i \<and> \<not> OverflowUint n i)"
| "showable _ _ = False"

definition base_at :: "string \<Rightarrow> gfield \<Rightarrow> string \<Rightarrow> bool" where
  "base_at sec f key \<longleftrightarrow> gf_exported f \<and> isUserSelfParse f = Inr False \<and> parseBaseTag f = Some (Inr (sec, key))"

text \<open>The lines of a struct, for fields with their types and keys.\<close>

definition ini_items :: "((gfield \<times> gtype) \<times> string) list \<Rightarrow> gval list \<Rightarrow> (string \<times> string) list" where
  "ini_items fs vs = map (\<lambda>(((f, t), key), v). (key, ini_show t v)) (zip fs vs)"

lemma item_shown:
  assumes "base_at sec f key" "showable t v" "gc_Gcf cfg sec = Some m" "m key = Some [ini_show t v]"
  shows "parse_item st rnd f t dst cfg = Some (Inr v)"
proof -
  have d: "getDatafromIni sec key cfg = Some (Inr (ini_show t v))"
    using assms(3,4) by (simp add: getDatafromIni_def HasSection_def parseSection_def GetSection_def)
  have base: "parse_base g f cfg = Some (Inr v)" if "g (ini_show t v) = Inr v" for g
    using assms(1) d that by (simp add: parse_base_def base_at_def)
  have int: "setInt n (Itoa i) = Inr (XInt i)" if "0 < n" "n \<le> 64" "\<not> OverflowInt n i" for n i
  proof -
    have "(2::int) ^ (n - 1) \<le> 2 ^ 63" using that(2) by (intro power_increasing) simp_all
    then have "- (2 ^ 63) \<le> i" "i < 2 ^ 63" using that(3) by (simp_all add: OverflowInt_def)
    from Atoi_Itoa [OF this] show ?thesis using wrap_int_exact [OF that(1), of i] that(3) by (simp add: setInt_def)
  qed
  have uint: "setUint n (nat_str (nat i)) = Inr (XUint i)" if "n \<le> 64" "0 \<le> i" "\<not> OverflowUint n i" for n i
  proof -
    have "(2::int) ^ n \<le> 2 ^ 64" using that(1) by (intro power_increasing) simp_all
    then have "i < 2 ^ n" "i < 2 ^ 64" using that(3) by (simp_all add: OverflowUint_def)
    then have "nat i < 2 ^ 64" "wrap_uint n i = i" using that(2) by (simp_all add: wrap_uint_def nat_less_iff)
    then show ?thesis using that(2) by (simp add: setUint_def ParseUint_def unsigned_val_def digits_val_nat_str)
  qed
  show ?thesis
  proof (cases "(t, v)" rule: showable.cases)
    case (3 n i)
    then show ?thesis using assms(2) base [of "setInt n"] int by (simp add: parse_item_def parseInt_def)
  next
    case (4 n i)
    then show ?thesis using assms(2) base [of "setUint n"] uint by (simp add: parse_item_def parseUint_def)
  next
    case (1 s)
    then show ?thesis using base [of setString] by (simp add: parse_item_def parseString_def setString_def)
  next
    case (2 b)
    then show ?thesis using base [of setBool] by (simp add: parse_item_def parseBool_def setBool_def ParseBool_def split: if_splits)
  qed (use assms(2) in simp_all)
qed

lemma fields_shown:
  assumes "list_all2 (\<lambda>((f, t), key) v. base_at sec f key \<and> showable t v) fs vs" "length ws = length fs" "gc_Gcf cfg sec = Some m"
    and "\<And>key w. (key, w) \<in> set (ini_items fs vs) \<Longrightarrow> m key = Some [w]"
  shows "parse_fields st rnd cfg (map fst fs) ws = Some (vs, None)"
  using assms
proof (induction fs vs arbitrary: ws rule: list_all2_induct)
  case (Cons x fs v vs)
  obtain f t key where x: "x = ((f, t), key)" by (metis surj_pair)
  obtain w ws' where ws: "ws = w # ws'" "length ws' = length fs" using Cons.prems(1) by (cases ws) auto
  have "m key = Some [ini_show t v]" using Cons.prems(3) [of key "ini_show t v"] by (simp add: x ini_items_def)
  then have "parse_item st rnd f t w cfg = Some (Inr v)" using item_shown [of sec f key t v cfg m st rnd w] Cons.prems(2) Cons.hyps(1) by (simp add: x)
  moreover have "parse_fields st rnd cfg (map fst fs) ws' = Some (vs, None)"
    by (rule Cons.IH [OF ws(2) Cons.prems(2)]) (use Cons.prems(3) in \<open>auto simp: ini_items_def\<close>)
  moreover have "isUserSelfParse f = Inr False" using Cons.hyps(1) by (simp add: x base_at_def)
  ultimately show ?case by (simp add: x ws(1))
qed simp

lemma values_of_distinct: "distinct (map fst items) \<Longrightarrow> (k, w) \<in> set items \<Longrightarrow> values_of items k = Some [w]"
proof -
  assume d: "distinct (map fst items)" "(k, w) \<in> set items"
  then have "filter (\<lambda>e. fst e = k) items = [(k, w)]"
    by (induction items) (auto simp: filter_empty_conv image_iff)
  then show ?thesis by (simp add: values_of_def)
qed

text \<open>C30: a struct is read back from its INI file: for exported fields with the tags of distinct keys of one section, the file with one
  line for each field is read as exactly the values of the fields (strings, booleans, signed and unsigned integers that fit their width), whatever
  the struct held before.\<close>

theorem cparse_roundtrip:
  assumes "list_all2 (\<lambda>((f, t), key) v. base_at sec f key \<and> showable t v) fs vs" "distinct (map snd fs)"
    and "ini_section_ok (sec, ini_items fs vs)" "length ws = length fs"
  shows "CparseGo st rnd (cp\<lparr>cp_Funcs := []\<rparr>) (map fst fs) ws (GconfParseFromString NewGconf (ini_text [(sec, ini_items fs vs)])) = Some (vs, None)"
proof -
  let ?cfg = "GconfParseFromString NewGconf (ini_text [(sec, ini_items fs vs)])"
  have "gc_Gcf ?cfg sec = Some (values_of (ini_items fs vs))" using ini_read [of "[(sec, ini_items fs vs)]"] assms(3) by simp
  moreover have "map fst (ini_items fs vs) = map snd fs"
    using list_all2_lengthD [OF assms(1)] by (induction fs vs rule: list_induct2) (auto simp: ini_items_def)
  then have "\<And>key w. (key, w) \<in> set (ini_items fs vs) \<Longrightarrow> values_of (ini_items fs vs) key = Some [w]"
    using assms(2) by (intro values_of_distinct) simp_all
  ultimately have "parse_fields st rnd ?cfg (map fst fs) ws = Some (vs, None)"
    by (rule fields_shown [OF assms(1,4)])
  then show ?thesis by (simp add: CparseGo_def)
qed

definition name_field :: gfield where
  "name_field = \<lparr>gf_Name = ''Name'', gf_Tag = [(''confpos'', ''log:name''), (''dtype'', ''base'')], gf_exported = True, gf_Anonymous = False\<rparr>"

theorem cparse_roundtrip_witness:
  "CparseGo bare_std (\<lambda>_ x. x) (CpaseNew () ''f.ini'') [(level_field, TInt 8), (name_field, TString)] [XInt 3, XString ''old'']
     (GconfParseFromString NewGconf (ini_text [(''log'', ini_items [((level_field, TInt 8), ''level''), ((name_field, TString), ''name'')] [XInt (-5), XString ''a = b''])]))
   = Some ([XInt (-5), XString ''a = b''], None)"
proof -
  have n: "isUserSelfParse name_field = Inr False" "parseBaseTag name_field = Some (Inr (''log'', ''name''))" by code_simp+
  have w: "list_all word_byte ''loglevelname''" by code_simp
  have i: "Itoa (-5) = ''-5''" by code_simp
  have "ini_section_ok (''log'', ini_items [((level_field, TInt 8), ''level''), ((name_field, TString), ''name'')] [XInt (-5), XString ''a = b''])"
    using w by (simp add: ini_section_ok_def ini_items_def ini_item_def ini_word_def ini_space_def buffer_size_def i)
  then show ?thesis
    using cparse_roundtrip [of "''log''" "[((level_field, TInt 8), ''level''), ((name_field, TString), ''name'')]" "[XInt (-5), XString ''a = b'']"
        "[XInt 3, XString ''old'']" bare_std "\<lambda>_ x. x" "CpaseNew () ''f.ini''"] level_field_tags n
    by (simp add: base_at_def OverflowInt_def CpaseNew_def) (simp add: level_field_def name_field_def)
qed

end
