(* ===== verification/ConfParseCtx.thy ===== *)
theory ConfParseCtx
  imports ConfParse
begin

text \<open>
  The second copy of the INI decoder (\<^verbatim>\<open>confparse/confparse_ctx.go\<close>), whose functions take the logging context as an argument instead of reading it
  from the object.  It is translated on its own and shown to compute the same; the context, which is only logged with, is left out.
\<close>

named_theorems ctx_eqs \<open>the functions of the copy are those of the original\<close>

section \<open>Tags\<close>

definition parseSectionWithCtx :: "gconf \<Rightarrow> string \<Rightarrow> error + (string \<rightharpoonup> string list)" where
  "parseSectionWithCtx cfg sectionName = GetSection cfg sectionName"

definition parseBaseTagWithCtx :: "gfield \<Rightarrow> (error + string \<times> string) go" where
  "parseBaseTagWithCtx f =
     (let cpos = Tag_Get f CP_TAG_POS in
      if cpos = [] then Some (Inl (no_tag CP_TAG_POS))
      else case Split cpos CHR '':'' of se # k # _ \<Rightarrow> Some (Inr (se, k)) | _ \<Rightarrow> None)"

definition parseSliceTagWithCtx :: "gfield \<Rightarrow> (error + string \<times> string \<times> string) go" where
  "parseSliceTagWithCtx f =
     (let cpos = Tag_Get f CP_TAG_POS in
      if cpos = [] then Some (Inl (no_tag CP_TAG_POS))
      else case Split cpos CHR '':'' of
        se # k # _ \<Rightarrow>
          let is = Tag_Get f CP_TAG_ITEM_SPLIT in
          if is = [] then Some (Inl (no_tag CP_TAG_ITEM_SPLIT)) else Some (Inr (se, k, is))
      | _ \<Rightarrow> None)"

definition parseMapTagWithCtx :: "gfield \<Rightarrow> (error + string \<times> string \<times> string \<times> string) go" where
  "parseMapTagWithCtx f =
     (let cpos = Tag_Get f CP_TAG_POS in
      if cpos = [] then Some (Inl (no_tag CP_TAG_POS))
      else case Split cpos CHR '':'' of
        se # k # _ \<Rightarrow>
          let is = Tag_Get f CP_TAG_ITEM_SPLIT; ks = Tag_Get f CP_TAG_KV_SPLIT in
          if is = [] then Some (Inl (no_tag CP_TAG_ITEM_SPLIT))
          else if ks = [] then Some (Inl (no_tag CP_TAG_KV_SPLIT))
          else Some (Inr (se, k, is, ks))
      | _ \<Rightarrow> None)"

definition getDatafromIniWithCtx :: "string \<Rightarrow> string \<Rightarrow> gconf \<Rightarrow> (error + string) go" where
  "getDatafromIniWithCtx sec key cfg =
     (if HasSection cfg sec then
        (case parseSectionWithCtx cfg sec of
           Inl e \<Rightarrow> Some (Inl e)
         | Inr item \<Rightarrow>
             (case item key of
                None \<Rightarrow> Some (Inl (yerr (''section '' @ sec @ '' key '' @ key @ '' not exist'')))
              | Some [] \<Rightarrow> None
              | Some (w # _) \<Rightarrow> Some (Inr w)))
      else Some (Inl (yerr (''section '' @ sec @ '' not exist''))))"

section \<open>Scalars\<close>

definition setIntWithCtx :: "nat \<Rightarrow> string \<Rightarrow> error + gval" where
  "setIntWithCtx n x = (case Atoi x of (i, err) \<Rightarrow> if err then Inl (yerr ''ParseInt'') else Inr (XInt (wrap_int n i)))"

definition setUintWithCtx :: "nat \<Rightarrow> string \<Rightarrow> error + gval" where
  "setUintWithCtx n x = (case ParseUint x of None \<Rightarrow> Inl (yerr ''ParseUint'') | Some i \<Rightarrow> Inr (XUint (wrap_uint n (int i))))"

definition setFloatWithCtx :: "std \<Rightarrow> (nat \<Rightarrow> nat \<Rightarrow> nat) \<Rightarrow> nat \<Rightarrow> string \<Rightarrow> error + gval" where
  "setFloatWithCtx st rnd n x = (case st_ParseFloat st x of None \<Rightarrow> Inl (yerr ''ParseFloat'') | Some v \<Rightarrow> Inr (XFloat (rnd n v)))"

definition setDurationWithCtx :: "std \<Rightarrow> string \<Rightarrow> error + gval" where
  "setDurationWithCtx st x = (case st_ParseDuration st x of None \<Rightarrow> Inl (yerr ''ParseDuration'') | Some d \<Rightarrow> Inr (XDuration d))"

definition setStringWithCtx :: "string \<Rightarrow> error + gval" where
  "setStringWithCtx x = Inr (XString x)"

definition setBoolWithCtx :: "string \<Rightarrow> error + gval" where
  "setBoolWithCtx x = (case ParseBool x of None \<Rightarrow> Inl (yerr ''ParseBool'') | Some b \<Rightarrow> Inr (XBool b))"

definition parse_baseWithCtx :: "(string \<Rightarrow> error + gval) \<Rightarrow> gfield \<Rightarrow> gconf \<Rightarrow> gval conv" where
  "parse_baseWithCtx conv f cfg =
     (case parseBaseTagWithCtx f of
        None \<Rightarrow> None
      | Some (Inl e) \<Rightarrow> Some (Inl e)
      | Some (Inr (se, key)) \<Rightarrow>
          (case getDatafromIniWithCtx se key cfg of
             None \<Rightarrow> None
           | Some (Inl e) \<Rightarrow> Some (Inl e)
           | Some (Inr w) \<Rightarrow> (case conv w of Inl e \<Rightarrow> Some (Inl e) | Inr v \<Rightarrow> if gf_exported f then Some (Inr v) else None)))"

definition parseIntWithCtx :: "nat \<Rightarrow> gfield \<Rightarrow> gconf \<Rightarrow> gval conv" where "parseIntWithCtx n f cfg = parse_baseWithCtx (setIntWithCtx n) f cfg"
definition parseUintWithCtx :: "nat \<Rightarrow> gfield \<Rightarrow> gconf \<Rightarrow> gval conv" where "parseUintWithCtx n f cfg = parse_baseWithCtx (setUintWithCtx n) f cfg"
definition parseFloatWithCtx :: "std \<Rightarrow> (nat \<Rightarrow> nat \<Rightarrow> nat) \<Rightarrow> nat \<Rightarrow> gfield \<Rightarrow> gconf \<Rightarrow> gval conv" where
  "parseFloatWithCtx st rnd n f cfg = parse_baseWithCtx (setFloatWithCtx st rnd n) f cfg"
definition parseDurationWithCtx :: "std \<Rightarrow> gfield \<Rightarrow> gconf \<Rightarrow> gval conv" where "parseDurationWithCtx st f cfg = parse_baseWithCtx (setDurationWithCtx st) f cfg"
definition parseStringWithCtx :: "gfield \<Rightarrow> gconf \<Rightarrow> gval conv" where "parseStringWithCtx f cfg = parse_baseWithCtx setStringWithCtx f cfg"
definition parseBoolWithCtx :: "gfield \<Rightarrow> gconf \<Rightarrow> gval conv" where "parseBoolWithCtx f cfg = parse_baseWithCtx setBoolWithCtx f cfg"

section \<open>Maps and slices\<close>

definition getBaseValueWithCtx :: "std \<Rightarrow> (nat \<Rightarrow> nat \<Rightarrow> nat) \<Rightarrow> gtype \<Rightarrow> string \<Rightarrow> gval conv" where
  "getBaseValueWithCtx st rnd t v =
     (case t of
        TInt n \<Rightarrow> Some (setIntWithCtx n v)
      | TUint n \<Rightarrow> (if snd (Atoi v) then Some (Inl (yerr ''ParseInt'')) else None)
      | TFloat n \<Rightarrow> Some (setFloatWithCtx st rnd n v)
      | TBool \<Rightarrow> Some (setBoolWithCtx v)
      | TString \<Rightarrow> Some (setStringWithCtx v)
      | TAny \<Rightarrow> Some (Inr (XAny (Some (VInt 0))))
      | _ \<Rightarrow> None)"

definition fillMapWithCtx :: "std \<Rightarrow> (nat \<Rightarrow> nat \<Rightarrow> nat) \<Rightarrow> gfield \<Rightarrow> gkey \<Rightarrow> gtype \<Rightarrow> gval \<Rightarrow> string \<Rightarrow> string \<Rightarrow> gval conv" where
  "fillMapWithCtx st rnd f k t dst sk sv =
     (case getBaseValueWithCtx st rnd t sv of
        None \<Rightarrow> None
      | Some (Inl e) \<Rightarrow> Some (Inl e)
      | Some (Inr vv) \<Rightarrow>
          (case dst of
             XMap (Some m) \<Rightarrow> if gf_exported f \<and> k = KString then Some (Inr (XMap (Some (assoc_put sk vv m)))) else None
           | _ \<Rightarrow> None))"

definition fillSliceWithCtx :: "std \<Rightarrow> (nat \<Rightarrow> nat \<Rightarrow> nat) \<Rightarrow> gtype \<Rightarrow> gval list \<Rightarrow> string \<Rightarrow> gval list conv" where
  "fillSliceWithCtx st rnd t xs sv = conv_map (\<lambda>vv. xs @ [vv]) (getBaseValueWithCtx st rnd t sv)"

fun map_itemsWithCtx :: "std \<Rightarrow> (nat \<Rightarrow> nat \<Rightarrow> nat) \<Rightarrow> gfield \<Rightarrow> gkey \<Rightarrow> gtype \<Rightarrow> string \<Rightarrow> gval \<Rightarrow> string list \<Rightarrow> gval go" where
  "map_itemsWithCtx st rnd f k t kvs dst [] = Some dst"
| "map_itemsWithCtx st rnd f k t kvs dst (item # ilist) =
     (case SplitStr item kvs of
        sk # sv # _ \<Rightarrow>
          (case fillMapWithCtx st rnd f k t dst sk sv of
             None \<Rightarrow> None
           | Some (Inl e) \<Rightarrow> map_itemsWithCtx st rnd f k t kvs dst ilist
           | Some (Inr dst') \<Rightarrow> map_itemsWithCtx st rnd f k t kvs dst' ilist)
      | _ \<Rightarrow> None)"

fun slice_itemsWithCtx :: "std \<Rightarrow> (nat \<Rightarrow> nat \<Rightarrow> nat) \<Rightarrow> gtype \<Rightarrow> gval list \<Rightarrow> string list \<Rightarrow> gval list go" where
  "slice_itemsWithCtx st rnd t xs [] = Some xs"
| "slice_itemsWithCtx st rnd t xs (item # ilist) =
     (case fillSliceWithCtx st rnd t xs item of
        None \<Rightarrow> None
      | Some (Inl e) \<Rightarrow> slice_itemsWithCtx st rnd t xs ilist
      | Some (Inr xs') \<Rightarrow> slice_itemsWithCtx st rnd t xs' ilist)"

definition parseMapWithCtx :: "std \<Rightarrow> (nat \<Rightarrow> nat \<Rightarrow> nat) \<Rightarrow> gfield \<Rightarrow> gkey \<Rightarrow> gtype \<Rightarrow> gval \<Rightarrow> gconf \<Rightarrow> gval conv" where
  "parseMapWithCtx st rnd f k t dst cfg =
     (if k = KOther then Some (Inl (yerr ''map key must string''))
      else case parseMapTagWithCtx f of
        None \<Rightarrow> None
      | Some (Inl e) \<Rightarrow> Some (Inl e)
      | Some (Inr (se, key, is, kvs)) \<Rightarrow>
          (case getDatafromIniWithCtx se key cfg of
             None \<Rightarrow> None
           | Some (Inl e) \<Rightarrow> Some (Inl e)
           | Some (Inr w) \<Rightarrow> map_option Inr (map_itemsWithCtx st rnd f k t kvs dst (SplitStr w is))))"

definition parseSliceWithCtx :: "std \<Rightarrow> (nat \<Rightarrow> nat \<Rightarrow> nat) \<Rightarrow> gfield \<Rightarrow> gtype \<Rightarrow> gval \<Rightarrow> gconf \<Rightarrow> gval conv" where
  "parseSliceWithCtx st rnd f t dst cfg =
     (case parseSliceTagWithCtx f of
        None \<Rightarrow> None
      | Some (Inl e) \<Rightarrow> Some (Inl e)
      | Some (Inr (se, key, is)) \<Rightarrow>
          (case getDatafromIniWithCtx se key cfg of
             None \<Rightarrow> None
           | Some (Inl e) \<Rightarrow> Some (Inl e)
           | Some (Inr w) \<Rightarrow>
               (case slice_itemsWithCtx st rnd t (case dst of XSlice (Some xs) \<Rightarrow> xs | _ \<Rightarrow> []) (SplitStr w is) of
                  None \<Rightarrow> None
                | Some xs \<Rightarrow>
                    if \<not> gf_exported f then None
                    else Some (Inr (if xs = [] \<and> dst = XSlice None then dst else XSlice (Some xs))))))"

section \<open>Structs\<close>

definition isUserSelfParseWithCtx :: "gfield \<Rightarrow> error + bool" where
  "isUserSelfParseWithCtx f =
     (let dtype = Tag_Get f CP_TAG_DTYPE in
      if dtype = [] then Inr True
      else if dtype = ''base'' then Inr False
      else if dtype = ''complex'' then Inr True
      else Inl (yerr (''dtype val '' @ dtype @ '' not exist'')))"

definition parse_itemWithCtx :: "std \<Rightarrow> (nat \<Rightarrow> nat \<Rightarrow> nat) \<Rightarrow> gfield \<Rightarrow> gtype \<Rightarrow> gval \<Rightarrow> gconf \<Rightarrow> gval conv" where
  "parse_itemWithCtx st rnd f t dst cfg =
     (case t of
        TDuration \<Rightarrow> parseDurationWithCtx st f cfg
      | TInt n \<Rightarrow> parseIntWithCtx n f cfg
      | TUint n \<Rightarrow> parseUintWithCtx n f cfg
      | TFloat n \<Rightarrow> parseFloatWithCtx st rnd n f cfg
      | TString \<Rightarrow> parseStringWithCtx f cfg
      | TBool \<Rightarrow> parseBoolWithCtx f cfg
      | TMap k t' \<Rightarrow> parseMapWithCtx st rnd f k t' dst cfg
      | TSlice t' \<Rightarrow> parseSliceWithCtx st rnd f t' dst cfg
      | _ \<Rightarrow> Some (Inr dst))"

fun parse_fieldsWithCtx :: "std \<Rightarrow> (nat \<Rightarrow> nat \<Rightarrow> nat) \<Rightarrow> gconf \<Rightarrow> (gfield \<times> gtype) list \<Rightarrow> gval list \<Rightarrow> struct_result" where
  "parse_fieldsWithCtx st rnd cfg ((f, t) # fs) (v # vs) =
     (let rest = (\<lambda>v'. map_option (\<lambda>(vs', e). (v' # vs', e)) (parse_fieldsWithCtx st rnd cfg fs vs)) in
      case isUserSelfParseWithCtx f of
        Inl e \<Rightarrow> Some (v # vs, Some e)
      | Inr True \<Rightarrow> rest v
      | Inr False \<Rightarrow>
          (case parse_itemWithCtx st rnd f t v cfg of
             None \<Rightarrow> None
           | Some (Inl e) \<Rightarrow> Some (v # vs, Some e)
           | Some (Inr v') \<Rightarrow> rest v'))"
| "parse_fieldsWithCtx st rnd cfg fs vs = Some (vs, None)"

fun user_funcsWithCtx :: "'c \<Rightarrow> gconf \<Rightarrow> (string \<times> 'c UserSelfFunc) list \<Rightarrow> gval list \<Rightarrow> struct_result" where
  "user_funcsWithCtx ctx cfg [] vs = Some (vs, None)"
| "user_funcsWithCtx ctx cfg ((mk, one_func) # funcs) vs =
     (case Split mk CHR '':'' of
        se # k # _ \<Rightarrow>
          (case parseSectionWithCtx cfg se of
             Inl e \<Rightarrow> Some (vs, Some e)
           | Inr cmap \<Rightarrow>
               (case one_func ctx vs (case cmap k of Some sv \<Rightarrow> sv | None \<Rightarrow> []) of
                  (vs', Some e) \<Rightarrow> Some (vs', Some e)
                | (vs', None) \<Rightarrow> user_funcsWithCtx ctx cfg funcs vs'))
      | _ \<Rightarrow> None)"

definition CparseGoWithCtx :: "std \<Rightarrow> (nat \<Rightarrow> nat \<Rightarrow> nat) \<Rightarrow> 'c cparse \<Rightarrow> 'c \<Rightarrow> (gfield \<times> gtype) list \<Rightarrow> gval list \<Rightarrow> gconf \<Rightarrow> struct_result" where
  "CparseGoWithCtx st rnd cp ctx fs vs cfg =
     (case parse_fieldsWithCtx st rnd cfg fs vs of
        None \<Rightarrow> None
      | Some (vs', Some e) \<Rightarrow> Some (vs', Some e)
      | Some (vs', None) \<Rightarrow> user_funcsWithCtx ctx cfg (cp_Funcs cp) vs')"

section \<open>The copies agree\<close>

lemma parseSectionWithCtx_eq [ctx_eqs]: "parseSectionWithCtx = parseSection"
  unfolding fun_eq_iff parseSectionWithCtx_def parseSection_def ctx_eqs by simp

lemma parseBaseTagWithCtx_eq [ctx_eqs]: "parseBaseTagWithCtx = parseBaseTag"
  unfolding fun_eq_iff parseBaseTagWithCtx_def parseBaseTag_def ctx_eqs by simp

lemma parseSliceTagWithCtx_eq [ctx_eqs]: "parseSliceTagWithCtx = parseSliceTag"
  unfolding fun_eq_iff parseSliceTagWithCtx_def parseSliceTag_def ctx_eqs by simp

lemma parseMapTagWithCtx_eq [ctx_eqs]: "parseMapTagWithCtx = parseMapTag"
  unfolding fun_eq_iff parseMapTagWithCtx_def parseMapTag_def ctx_eqs by simp

lemma getDatafromIniWithCtx_eq [ctx_eqs]: "getDatafromIniWithCtx = getDatafromIni"
  unfolding fun_eq_iff getDatafromIniWithCtx_def getDatafromIni_def ctx_eqs by simp

lemma setIntWithCtx_eq [ctx_eqs]: "setIntWithCtx = setInt"
  unfolding fun_eq_iff setIntWithCtx_def setInt_def ctx_eqs by simp

lemma setUintWithCtx_eq [ctx_eqs]: "setUintWithCtx = setUint"
  unfolding fun_eq_iff setUintWithCtx_def setUint_def ctx_eqs by simp

lemma setFloatWithCtx_eq [ctx_eqs]: "setFloatWithCtx = setFloat"
  unfolding fun_eq_iff setFloatWithCtx_def setFloat_def ctx_eqs by simp

lemma setDurationWithCtx_eq [ctx_eqs]: "setDurationWithCtx = setDuration"
  unfolding fun_eq_iff setDurationWithCtx_def setDuration_def ctx_eqs by simp

lemma setStringWithCtx_eq [ctx_eqs]: "setStringWithCtx = setString"
  unfolding fun_eq_iff setStringWithCtx_def setString_def ctx_eqs by simp

lemma setBoolWithCtx_eq [ctx_eqs]: "setBoolWithCtx = setBool"
  unfolding fun_eq_iff setBoolWithCtx_def setBool_def ctx_eqs by simp

lemma parse_baseWithCtx_eq [ctx_eqs]: "parse_baseWithCtx = parse_base"
  unfolding fun_eq_iff parse_baseWithCtx_def parse_base_def ctx_eqs by simp

lemma parseIntWithCtx_eq [ctx_eqs]: "parseIntWithCtx = parseInt"
  unfolding fun_eq_iff parseIntWithCtx_def parseInt_def ctx_eqs by simp

lemma parseUintWithCtx_eq [ctx_eqs]: "parseUintWithCtx = parseUint"
  unfolding fun_eq_iff parseUintWithCtx_def parseUint_def ctx_eqs by simp

lemma parseFloatWithCtx_eq [ctx_eqs]: "parseFloatWithCtx = parseFloat"
  unfolding fun_eq_iff parseFloatWithCtx_def parseFloat_def ctx_eqs by simp

lemma parseDurationWithCtx_eq [ctx_eqs]: "parseDurationWithCtx = parseDuration"
  unfolding fun_eq_iff parseDurationWithCtx_def parseDuration_def ctx_eqs by simp

lemma parseStringWithCtx_eq [ctx_eqs]: "parseStringWithCtx = parseString"
  unfolding fun_eq_iff parseStringWithCtx_def parseString_def ctx_eqs by simp

lemma parseBoolWithCtx_eq [ctx_eqs]: "parseBoolWithCtx = parseBool"
  unfolding fun_eq_iff parseBoolWithCtx_def parseBool_def ctx_eqs by simp

lemma getBaseValueWithCtx_eq [ctx_eqs]: "getBaseValueWithCtx = getBaseValue"
  unfolding fun_eq_iff getBaseValueWithCtx_def getBaseValue_def ctx_eqs by simp

lemma fillMapWithCtx_eq [ctx_eqs]: "fillMapWithCtx = fillMap"
  unfolding fun_eq_iff fillMapWithCtx_def fillMap_def ctx_eqs by simp

lemma fillSliceWithCtx_eq [ctx_eqs]: "fillSliceWithCtx = fillSlice"
  unfolding fun_eq_iff fillSliceWithCtx_def fillSlice_def ctx_eqs by simp

lemma map_itemsWithCtx_eq [ctx_eqs]: "map_itemsWithCtx = map_items"
proof (intro ext)
  fix st rnd f k t kvs dst ws
  show "map_itemsWithCtx st rnd f k t kvs dst ws = map_items st rnd f k t kvs dst ws" by (induction ws arbitrary: dst) (simp_all add: ctx_eqs cong: list.case_cong option.case_cong sum.case_cong)
qed

lemma slice_itemsWithCtx_eq [ctx_eqs]: "slice_itemsWithCtx = slice_items"
proof (intro ext)
  fix st rnd t xs ws
  show "slice_itemsWithCtx st rnd t xs ws = slice_items st rnd t xs ws" by (induction st rnd t xs ws rule: slice_items.induct)
    (simp_all add: ctx_eqs Let_def split: list.split option.split sum.split prod.split bool.split)
qed

lemma parseMapWithCtx_eq [ctx_eqs]: "parseMapWithCtx = parseMap"
  unfolding fun_eq_iff parseMapWithCtx_def parseMap_def ctx_eqs by simp

lemma parseSliceWithCtx_eq [ctx_eqs]: "parseSliceWithCtx = parseSlice"
  unfolding fun_eq_iff parseSliceWithCtx_def parseSlice_def ctx_eqs by simp

lemma isUserSelfParseWithCtx_eq [ctx_eqs]: "isUserSelfParseWithCtx = isUserSelfParse"
  unfolding fun_eq_iff isUserSelfParseWithCtx_def isUserSelfParse_def ctx_eqs by simp

lemma parse_itemWithCtx_eq [ctx_eqs]: "parse_itemWithCtx = parse_item"
  unfolding fun_eq_iff parse_itemWithCtx_def parse_item_def ctx_eqs by simp

lemma parse_fieldsWithCtx_eq [ctx_eqs]: "parse_fieldsWithCtx = parse_fields"
proof (intro ext)
  fix st rnd cfg fs vs
  show "parse_fieldsWithCtx st rnd cfg fs vs = parse_fields st rnd cfg fs vs" by (induction st rnd cfg fs vs rule: parse_fields.induct)
    (simp_all add: ctx_eqs Let_def split: list.split option.split sum.split prod.split bool.split)
qed

lemma user_funcsWithCtx_eq [ctx_eqs]: "user_funcsWithCtx = user_funcs"
proof (intro ext)
  fix ctx :: 'c and cfg fns vs
  show "user_funcsWithCtx ctx cfg fns vs = user_funcs ctx cfg fns vs" by (induction fns arbitrary: vs) (simp_all add: ctx_eqs split_paired_all cong: list.case_cong option.case_cong sum.case_cong prod.case_cong)
qed

text \<open>
  The copy that takes a context does what the original does with that context: for every struct, every configuration and all callbacks, also such that read
  their context, the same fields, the same error and the same panics.  The context that the parser keeps is not used.
\<close>

lemma CparseGoWithCtx_equiv: "CparseGoWithCtx st rnd cp ctx fs vs cfg = CparseGo st rnd (WithCtx cp ctx) fs vs cfg"
proof -
  have w: "cp_ctx (WithCtx cp ctx) = ctx" "cp_Funcs (WithCtx cp ctx) = cp_Funcs cp" by (simp_all add: WithCtx_def)
  show ?thesis unfolding CparseGoWithCtx_def CparseGo_def ctx_eqs w ..
qed

end
