(* ===== verification/IniRule.thy ===== *)
theory IniRule
  imports IniFile
begin

text \<open>
  Routing rules from the extension lines of an INI file (\<^verbatim>\<open>gconfig/gconfig_rule.go\<close>).  The rule engine is third-party: compiling a rule set and executing it
  are arguments, and \<^const>\<open>None\<close> is a panic.  The map of the server lines is traversed in the order of a list.
\<close>

record confRuleEntry =
  cre_Name :: string
  cre_Description :: string
  cre_Salience :: int
  cre_RuleWhen :: string
  cre_RuleThen :: "string list"

record 'kb confRule =
  cr_Sever :: string
  cr_Grule :: "'kb option"

definition NewGConfRule :: "string \<Rightarrow> 'kb confRule" where
  "NewGConfRule svr = \<lparr>cr_Sever = svr, cr_Grule = None\<rparr>"

text \<open>One map of extension lines: a rule needs its condition and its salience; the number of the map counts in any case.\<close>

definition rule_entry :: "string \<Rightarrow> string \<Rightarrow> nat \<Rightarrow> (string \<rightharpoonup> string) \<Rightarrow> confRuleEntry option go" where
  "rule_entry svr k cnt iv =
     (case iv ''rule'' of
        None \<Rightarrow> Some None
      | Some when \<Rightarrow>
          (case iv ''Salience'' of
             None \<Rightarrow> Some None
           | Some salience \<Rightarrow>
               (case Atoi salience of (s, err) \<Rightarrow>
                  if err then None
                  else Some (Some \<lparr>cre_Name = svr @ Itoa (int cnt), cre_Description = k, cre_Salience = s, cre_RuleWhen = when,
                    cre_RuleThen = [''R.Set('' @ [CHR 0x27] @ k @ [CHR 0x27] @ '')'', ''Complete()'']\<rparr>))))"

fun rule_entries :: "string \<Rightarrow> nat \<Rightarrow> (string \<times> (string \<rightharpoonup> string)) list \<Rightarrow> confRuleEntry list go" where
  "rule_entries svr cnt [] = Some []"
| "rule_entries svr cnt ((k, iv) # rest) =
     (case rule_entry svr k cnt iv of
        None \<Rightarrow> None
      | Some e \<Rightarrow> map_option (\<lambda>es. (case e of None \<Rightarrow> es | Some x \<Rightarrow> x # es)) (rule_entries svr (cnt + 1) rest))"

definition flat_lines :: "(string \<times> (string \<rightharpoonup> string) list) list \<Rightarrow> (string \<times> (string \<rightharpoonup> string)) list" where
  "flat_lines svrs = concat (map (\<lambda>(k, v). map (Pair k) v) svrs)"

text \<open>\<open>order\<close> lists the entries of a map; \<open>build\<close> compiles the rule set and panics when it cannot.\<close>

definition AddRule ::
  "((string \<rightharpoonup> (string \<rightharpoonup> string) list) \<Rightarrow> (string \<times> (string \<rightharpoonup> string) list) list) \<Rightarrow> (confRuleEntry list \<Rightarrow> 'kb go)
     \<Rightarrow> 'kb confRule \<Rightarrow> gconf \<Rightarrow> ('kb confRule \<times> error option) go" where
  "AddRule order build cr cfg =
     (case gc_GlineExtend cfg (cr_Sever cr) of
        None \<Rightarrow> Some (cr, Some (yerr (''not found '' @ cr_Sever cr)))
      | Some svrs \<Rightarrow>
          (case rule_entries (cr_Sever cr) 0 (flat_lines (order svrs)) of
             None \<Rightarrow> None
           | Some lcre \<Rightarrow> (case build lcre of None \<Rightarrow> None | Some kb \<Rightarrow> Some (cr\<lparr>cr_Grule := Some kb\<rparr>, None))))"

text \<open>\<open>execute\<close> runs the engine on the data; the result is the server that the rule has set, empty if none has.\<close>

definition Cr_SvrSelectFromDataCtx :: "('kb \<Rightarrow> 'data \<Rightarrow> error + string) \<Rightarrow> 'kb confRule \<Rightarrow> 'data \<Rightarrow> (error + string) go" where
  "Cr_SvrSelectFromDataCtx execute cr data = (case cr_Grule cr of None \<Rightarrow> None | Some kb \<Rightarrow> Some (execute kb data))"

definition Cr_SvrSelectFromJson :: "('kb \<Rightarrow> 'data \<Rightarrow> error + string) \<Rightarrow> (string \<Rightarrow> string \<Rightarrow> 'data) \<Rightarrow> 'kb confRule \<Rightarrow> string \<Rightarrow> string \<Rightarrow> (error + string) go" where
  "Cr_SvrSelectFromJson execute add_json cr jData jDataKey =
     (case cr_Grule cr of None \<Rightarrow> None | Some kb \<Rightarrow> Some (execute kb (add_json jDataKey jData)))"

section \<open>The entries\<close>

lemma rule_entries_sound:
  assumes "rule_entries svr cnt ls = Some es" "e \<in> set es"
  shows "\<exists>k iv. (k, iv) \<in> set ls \<and> cre_Description e = k \<and> iv ''rule'' = Some (cre_RuleWhen e)
    \<and> (\<exists>s. iv ''Salience'' = Some s \<and> Atoi s = (cre_Salience e, False))"
  using assms
proof (induction ls arbitrary: cnt es)
  case (Cons l ls)
  obtain k iv where l: "l = (k, iv)" by (cases l)
  from Cons.prems(1) obtain x es' where x: "rule_entry svr k cnt iv = Some x" and es': "rule_entries svr (cnt + 1) ls = Some es'"
    and es: "es = (case x of None \<Rightarrow> es' | Some y \<Rightarrow> y # es')" by (auto simp: l split: option.splits)
  show ?case
  proof (cases "e \<in> set es'")
    case True
    then show ?thesis using Cons.IH [OF es'] by (auto simp: l)
  next
    case False
    then have "x = Some e" using Cons.prems(2) es by (auto split: option.splits)
    then show ?thesis using x by (auto simp: l rule_entry_def split: option.splits prod.splits if_splits)
  qed
qed simp

end
