(* ===== verification/LogFile.thy ===== *)
theory LogFile
  imports GoStrings "HOL-Library.Signed_Division"
begin

text \<open>
  The files of the logger (\<^verbatim>\<open>logger/logger.go\<close>): configuration, opening, and rotation by day or by size.

  All names are names in the directory of the logger, which does not change.  A directory maps names to numbered files with their bytes; an open file is
  such a number, so that a file keeps its bytes when it is renamed.  Closing a file changes no bytes and is left out.  A day is a number, its
  text is an argument (\<open>fmt\<close>), and so is the current day (\<open>today\<close>).  \<^const>\<open>None\<close> is a panic.
\<close>

section \<open>Files\<close>

record fsys =
  fs_dir :: "string \<rightharpoonup> nat"
  fs_data :: "nat \<Rightarrow> string"
  fs_next :: nat
  fs_ok :: "string \<Rightarrow> bool"

definition os_Create :: "fsys \<Rightarrow> string \<Rightarrow> fsys \<times> nat option" where
  "os_Create fs n =
     (if \<not> fs_ok fs n then (fs, None)
      else case fs_dir fs n of
             Some i \<Rightarrow> (fs\<lparr>fs_data := (fs_data fs)(i := [])\<rparr>, Some i)
           | None \<Rightarrow> (fs\<lparr>fs_dir := (fs_dir fs)(n \<mapsto> fs_next fs), fs_data := (fs_data fs)(fs_next fs := []), fs_next := fs_next fs + 1\<rparr>, Some (fs_next fs)))"

definition os_OpenAppend :: "fsys \<Rightarrow> string \<Rightarrow> fsys \<times> nat option" where
  "os_OpenAppend fs n =
     (if \<not> fs_ok fs n then (fs, None)
      else case fs_dir fs n of
             Some i \<Rightarrow> (fs, Some i)
           | None \<Rightarrow> (fs\<lparr>fs_dir := (fs_dir fs)(n \<mapsto> fs_next fs), fs_data := (fs_data fs)(fs_next fs := []), fs_next := fs_next fs + 1\<rparr>, Some (fs_next fs)))"

definition os_Rename :: "fsys \<Rightarrow> string \<Rightarrow> string \<Rightarrow> fsys" where
  "os_Rename fs a b =
     (case fs_dir fs a of
        None \<Rightarrow> fs
      | Some i \<Rightarrow> if fs_ok fs b then fs\<lparr>fs_dir := ((fs_dir fs)(a := None))(b \<mapsto> i)\<rparr> else fs)"

definition os_Remove :: "fsys \<Rightarrow> string \<Rightarrow> fsys" where
  "os_Remove fs n = fs\<lparr>fs_dir := (fs_dir fs)(n := None)\<rparr>"

definition file_Write :: "fsys \<Rightarrow> nat \<Rightarrow> string \<Rightarrow> fsys" where
  "file_Write fs i p = fs\<lparr>fs_data := (fs_data fs)(i := fs_data fs i @ p)\<rparr>"

definition fileSize :: "fsys \<Rightarrow> string \<Rightarrow> int" where
  "fileSize fs n = (case fs_dir fs n of None \<Rightarrow> 0 | Some i \<Rightarrow> int (length (fs_data fs i)))"

definition isExist :: "fsys \<Rightarrow> string \<Rightarrow> bool" where
  "isExist fs n = (fs_dir fs n \<noteq> None)"

section \<open>The logger\<close>

abbreviation (input) ROTATE_FILE_DAILY :: int where "ROTATE_FILE_DAILY \<equiv> 100"
abbreviation (input) ROTATE_FILE_NUM :: int where "ROTATE_FILE_NUM \<equiv> 101"

definition DEBUG :: int where "DEBUG = 1"
definition INFO :: int where "INFO = 2"
definition WARN :: int where "WARN = 3"
definition ERROR :: int where "ERROR = 4"

record glogconf =
  lc_MaxFileSize :: int
  lc_MaxFileCount :: int
  lc_RotateMethod :: int
  lc_Stdout :: bool
  lc_Colorful :: bool
  lc_Goid :: bool
  lc_Loglevel :: int
  lc_CtxValueKey :: string
  lc_Format :: int
  lc_DesensitizeField :: string

text \<open>Levels of \<^verbatim>\<open>log/slog\<close> (debug is -4, info 0, warn 4, error 8); a handler is its format, its level and the error file it was made with.\<close>

record slogger =
  sl_text :: bool
  sl_level :: int
  sl_errFile :: "nat option"

record logFile =
  lf_filename :: string
  lf_filename_err :: string
  lf_suffix :: int
  lf_Ldate :: "int option"
  lf_logfile :: "nat option"
  lf_logfile_err :: "nat option"
  lf_lg :: "slogger option"

record glog =
  gl_LogObj :: logFile
  gl_Logconf :: glogconf
  gl_gormLevel :: int
  gl_LogTags :: "string list"
  gl_DesensitizeFieldMap :: "string list"

definition LoggerLevelIndex :: "string \<Rightarrow> int option" where
  "LoggerLevelIndex key = map_of (zip [''ALL'', ''DEBUG'', ''INFO'', ''WARN'', ''ERROR'', ''FATAL'', ''OFF''] [0, 1, 2, 3, 4, 5, 6]) key"

text \<open>The levels of gorm: silent 1, error 2, warn 3, info 4.\<close>

definition gormLogLevel :: "int \<Rightarrow> int" where
  "gormLogLevel level =
     (if level = DEBUG \<or> level = INFO then 4 else if level = WARN then 3 else if level = ERROR then 2 else 4)"

definition getSlogLevel :: "glog \<Rightarrow> int" where
  "getSlogLevel gl =
     (let l = lc_Loglevel (gl_Logconf gl) in
      if l = DEBUG then - 4 else if l = INFO then 0 else if l = WARN then 4 else if l = ERROR then 8 else - 4)"

definition loadDesensitizeField :: "glog \<Rightarrow> glog" where
  "loadDesensitizeField gl =
     (if lc_DesensitizeField (gl_Logconf gl) = [] then gl
      else gl\<lparr>gl_DesensitizeFieldMap := Split (lc_DesensitizeField (gl_Logconf gl)) CHR '',''\<rparr>)"

definition setSlog :: "nat option \<Rightarrow> glog \<Rightarrow> glog" where
  "setSlog errFile gl =
     gl\<lparr>gl_LogObj := (gl_LogObj gl)\<lparr>lf_lg := Some \<lparr>sl_text = (lc_Format (gl_Logconf gl) = 1), sl_level = getSlogLevel gl, sl_errFile = errFile\<rparr>\<rparr>\<rparr>"

section \<open>Rotation\<close>

definition isMustRename :: "int \<Rightarrow> glog \<Rightarrow> fsys \<Rightarrow> bool go" where
  "isMustRename today gl fs =
     (if lc_RotateMethod (gl_Logconf gl) = ROTATE_FILE_DAILY
      then (case lf_Ldate (gl_LogObj gl) of None \<Rightarrow> None | Some d \<Rightarrow> Some (d < today))
      else Some (1 < lc_MaxFileCount (gl_Logconf gl) \<and> lc_MaxFileSize (gl_Logconf gl) \<le> fileSize fs (lf_filename (gl_LogObj gl))))"

definition num_name :: "string \<Rightarrow> int \<Rightarrow> string" where
  "num_name n i = n @ ''.'' @ Itoa i"

definition day_name :: "(int \<Rightarrow> string) \<Rightarrow> string \<Rightarrow> int \<Rightarrow> string" where
  "day_name fmt n d = n @ ''.'' @ fmt d"

definition nextSuffix :: "glog \<Rightarrow> glog go" where
  "nextSuffix gl =
     (if lc_MaxFileCount (gl_Logconf gl) = 0 then None
      else Some (gl\<lparr>gl_LogObj := (gl_LogObj gl)\<lparr>lf_suffix := lf_suffix (gl_LogObj gl) smod lc_MaxFileCount (gl_Logconf gl) + 1\<rparr>\<rparr>))"

definition coverNextOne :: "glog \<Rightarrow> fsys \<Rightarrow> (glog \<times> fsys) go" where
  "coverNextOne gl fs =
     (case nextSuffix gl of
        None \<Rightarrow> None
      | Some gl \<Rightarrow>
          let f = gl_LogObj gl;
              old = num_name (lf_filename f) (lf_suffix f);
              fs = (if isExist fs old then os_Remove fs old else fs);
              fs = os_Rename fs (lf_filename f) old;
              (fs, h) = os_Create fs (lf_filename f)
          in Some (setSlog None (gl\<lparr>gl_LogObj := f\<lparr>lf_logfile := h\<rparr>\<rparr>), fs))"

definition rename :: "(int \<Rightarrow> string) \<Rightarrow> int \<Rightarrow> glog \<Rightarrow> fsys \<Rightarrow> (glog \<times> fsys) go" where
  "rename fmt today gl fs =
     (if lc_Stdout (gl_Logconf gl) then Some (gl, fs)
      else
        let f = gl_LogObj gl in
        if lc_RotateMethod (gl_Logconf gl) = ROTATE_FILE_DAILY then
          (case lf_Ldate f of
             None \<Rightarrow> None
           | Some d \<Rightarrow>
               let fn = day_name fmt (lf_filename f) d; fn_err = day_name fmt (lf_filename_err f) d in
               if \<not> isExist fs fn \<and> \<not> isExist fs fn_err \<and> d < today then
                 let fs = os_Rename fs (lf_filename f) fn;
                     fs = os_Rename fs (lf_filename_err f) fn_err;
                     (fs, h) = os_Create fs (lf_filename f);
                     (fs, he) = os_Create fs (lf_filename_err f)
                 in Some (setSlog he (gl\<lparr>gl_LogObj := f\<lparr>lf_Ldate := Some today, lf_logfile := h, lf_logfile_err := he\<rparr>\<rparr>), fs)
               else Some (gl, fs))
        else
          (case isMustRename today gl fs of
             None \<Rightarrow> None
           | Some must \<Rightarrow> if must then coverNextOne gl fs else Some (gl, fs)))"

text \<open>The check before every message; the lock is taken between the test and the rotation, which tests again.\<close>

definition fileCheck :: "(int \<Rightarrow> string) \<Rightarrow> int \<Rightarrow> glog \<Rightarrow> fsys \<Rightarrow> (glog \<times> fsys) go" where
  "fileCheck fmt today gl fs =
     (case isMustRename today gl fs of
        None \<Rightarrow> None
      | Some must \<Rightarrow> if must then rename fmt today gl fs else Some (gl, fs))"

section \<open>Opening\<close>

text \<open>The last number of the unbroken sequence of archives from one; \<open>n\<close> numbers are left to be tried.\<close>

fun scan_suffix :: "fsys \<Rightarrow> string \<Rightarrow> int \<Rightarrow> nat \<Rightarrow> int \<Rightarrow> int" where
  "scan_suffix fs n s 0 i = s"
| "scan_suffix fs n s (Suc k) i = (if isExist fs (num_name n i) then scan_suffix fs n i k (i + 1) else s)"

definition SetRollingFile :: "(int \<Rightarrow> string) \<Rightarrow> int \<Rightarrow> string \<Rightarrow> bool \<Rightarrow> glog \<Rightarrow> fsys \<Rightarrow> (glog \<times> fsys) go" where
  "SetRollingFile fmt today fileName stdout gl fs =
     (let f = \<lparr>lf_filename = fileName, lf_filename_err = [], lf_suffix = scan_suffix fs fileName 0 (nat (lc_MaxFileCount (gl_Logconf gl))) 1,
            lf_Ldate = None, lf_logfile = None, lf_logfile_err = None, lf_lg = None\<rparr>;
          gl = gl\<lparr>gl_LogObj := f\<rparr>
      in case isMustRename today gl fs of
           None \<Rightarrow> None
         | Some must \<Rightarrow>
             if must then rename fmt today gl fs
             else if stdout then Some (setSlog None gl, fs)
             else (case os_OpenAppend fs fileName of (fs, h) \<Rightarrow> Some (setSlog None (gl\<lparr>gl_LogObj := f\<lparr>lf_logfile := h\<rparr>\<rparr>), fs)))"

definition SetRollingDaily :: "(int \<Rightarrow> string) \<Rightarrow> int \<Rightarrow> string \<Rightarrow> string \<Rightarrow> bool \<Rightarrow> glog \<Rightarrow> fsys \<Rightarrow> (glog \<times> fsys) go" where
  "SetRollingDaily fmt today fileName fileName_err stdout gl fs =
     (let f = \<lparr>lf_filename = fileName, lf_filename_err = fileName_err, lf_suffix = 0,
            lf_Ldate = Some today, lf_logfile = None, lf_logfile_err = None, lf_lg = None\<rparr>;
          gl = gl\<lparr>gl_LogObj := f\<rparr>
      in case isMustRename today gl fs of
           None \<Rightarrow> None
         | Some must \<Rightarrow>
             if must then rename fmt today gl fs
             else if stdout then Some (setSlog None gl, fs)
             else (case os_OpenAppend fs fileName of (fs, h) \<Rightarrow>
                  (case os_OpenAppend fs fileName_err of (fs, he) \<Rightarrow>
                     Some (setSlog he (gl\<lparr>gl_LogObj := f\<lparr>lf_logfile := h, lf_logfile_err := he\<rparr>\<rparr>), fs))))"

definition default_keys :: string where
  "default_keys = ''trace_id,request_id,client_service,trace_depth''"

definition Newglog :: "(int \<Rightarrow> string) \<Rightarrow> int \<Rightarrow> string \<Rightarrow> string \<Rightarrow> glogconf \<Rightarrow> fsys \<Rightarrow> (glog \<times> fsys) go" where
  "Newglog fmt today fileName fileNameErr conf fs =
     (let conf = (if lc_CtxValueKey conf = [] then conf\<lparr>lc_CtxValueKey := default_keys\<rparr> else conf);
          gl = loadDesensitizeField \<lparr>gl_LogObj = \<lparr>lf_filename = [], lf_filename_err = [], lf_suffix = 0, lf_Ldate = None, lf_logfile = None,
                   lf_logfile_err = None, lf_lg = None\<rparr>,
                 gl_Logconf = conf, gl_gormLevel = gormLogLevel (lc_Loglevel conf), gl_LogTags = [], gl_DesensitizeFieldMap = []\<rparr>
      in map_option (\<lambda>(gl, fs). (gl\<lparr>gl_LogTags := Split (lc_CtxValueKey conf) CHR '',''\<rparr>, fs))
           (if lc_RotateMethod conf = ROTATE_FILE_NUM then SetRollingFile fmt today fileName (lc_Stdout conf) gl fs
            else SetRollingDaily fmt today fileName fileNameErr (lc_Stdout conf) gl fs))"

text \<open>The logger before any configuration: the console, no rotation.\<close>

definition NewDefaultGLog :: "(int \<Rightarrow> string) \<Rightarrow> int \<Rightarrow> fsys \<Rightarrow> (glog \<times> fsys) go" where
  "NewDefaultGLog fmt today fs =
     (let conf = \<lparr>lc_MaxFileSize = 0, lc_MaxFileCount = 0, lc_RotateMethod = 0, lc_Stdout = True, lc_Colorful = True, lc_Goid = False, lc_Loglevel = DEBUG,
            lc_CtxValueKey = default_keys, lc_Format = 0, lc_DesensitizeField = []\<rparr>;
          gl = loadDesensitizeField \<lparr>gl_LogObj = \<lparr>lf_filename = [], lf_filename_err = [], lf_suffix = 0, lf_Ldate = None, lf_logfile = None,
                   lf_logfile_err = None, lf_lg = None\<rparr>,
                 gl_Logconf = conf, gl_gormLevel = 4, gl_LogTags = Split default_keys CHR '','', gl_DesensitizeFieldMap = []\<rparr>
      in SetRollingFile fmt today [] True gl fs)"

definition SetLevel :: "int \<Rightarrow> glog \<Rightarrow> glog" where
  "SetLevel level gl =
     setSlog (lf_logfile_err (gl_LogObj gl)) (gl\<lparr>gl_Logconf := (gl_Logconf gl)\<lparr>lc_Loglevel := level\<rparr>, gl_gormLevel := gormLogLevel level\<rparr>)"

section \<open>Writing a record\<close>

text \<open>\<^verbatim>\<open>CustomHandler.writeFiles\<close> (\<^verbatim>\<open>logger/logger_handler.go\<close>) with the files of the logger: every record in the main file, warnings and errors in the error file too.\<close>

definition writeFiles :: "int \<Rightarrow> string \<Rightarrow> glog \<Rightarrow> fsys \<Rightarrow> fsys" where
  "writeFiles level buf gl fs =
     (case lf_logfile (gl_LogObj gl) of
        None \<Rightarrow> fs
      | Some h \<Rightarrow>
          let fs = file_Write fs h buf in
          (case lf_logfile_err (gl_LogObj gl) of
             Some he \<Rightarrow> if 4 \<le> level then file_Write fs he buf else fs
           | None \<Rightarrow> fs))"

section \<open>Rotation by size\<close>

text \<open>Goroutines interleave at the lock: a check, or the write of one record.\<close>

datatype log_event = Check int | Record int string

fun log_exec :: "(int \<Rightarrow> string) \<Rightarrow> glog \<times> fsys \<Rightarrow> log_event \<Rightarrow> (glog \<times> fsys) go" where
  "log_exec fmt (gl, fs) (Check today) = fileCheck fmt today gl fs"
| "log_exec fmt (gl, fs) (Record level buf) = Some (gl, writeFiles level buf gl fs)"

fun log_run :: "(int \<Rightarrow> string) \<Rightarrow> glog \<times> fsys \<Rightarrow> log_event list \<Rightarrow> (glog \<times> fsys) go" where
  "log_run fmt st [] = Some st"
| "log_run fmt st (e # es) = (case log_exec fmt st e of None \<Rightarrow> None | Some st' \<Rightarrow> log_run fmt st' es)"

fun event_text :: "log_event \<Rightarrow> string" where
  "event_text (Check today) = []"
| "event_text (Record level buf) = buf"

definition content :: "fsys \<Rightarrow> string \<Rightarrow> string option" where
  "content fs n = map_option (fs_data fs) (fs_dir fs n)"

text \<open>No two names share a file, and new files get new numbers.\<close>

definition fs_wf :: "fsys \<Rightarrow> bool" where
  "fs_wf fs \<longleftrightarrow> (\<forall>n n' a. fs_dir fs n = Some a \<and> fs_dir fs n' = Some a \<longrightarrow> n = n') \<and> (\<forall>n a. fs_dir fs n = Some a \<longrightarrow> a < fs_next fs) \<and> (\<forall>n. fs_ok fs n)"

lemma fs_wf_ops:
  assumes "fs_wf fs"
  shows "fs_wf (fst (os_Create fs n))" "fs_wf (fst (os_OpenAppend fs n))" "fs_wf (os_Rename fs n n')" "fs_wf (os_Remove fs n)" "fs_wf (file_Write fs i p)"
proof -
  have d: "\<And>n n' a. fs_dir fs n = Some a \<Longrightarrow> fs_dir fs n' = Some a \<Longrightarrow> n = n'" "\<And>n a. fs_dir fs n = Some a \<Longrightarrow> a < fs_next fs" "\<And>n. fs_ok fs n"
    using assms unfolding fs_wf_def by blast+
  have new: "fs_dir fs m \<noteq> Some (fs_next fs)" for m using d(2) [of m "fs_next fs"] by auto
  show "fs_wf (fst (os_Create fs n))" "fs_wf (fst (os_OpenAppend fs n))"
    using d new by (auto simp: fs_wf_def os_Create_def os_OpenAppend_def less_SucI split: option.splits)
  show "fs_wf (os_Rename fs n n')" using d by (auto simp: fs_wf_def os_Rename_def split: option.splits)
  show "fs_wf (os_Remove fs n)" "fs_wf (file_Write fs i p)" using d by (auto simp: fs_wf_def os_Remove_def file_Write_def)
qed

lemma content_ops:
  assumes "fs_wf fs"
  shows "content (fst (os_Create fs n)) m = (if m = n then Some [] else content fs m)"
    "content (fst (os_OpenAppend fs n)) m = (if m = n then Some (case content fs n of None \<Rightarrow> [] | Some c \<Rightarrow> c) else content fs m)"
    "content (os_Rename fs n n') m = (if content fs n = None then content fs m else if m = n' then content fs n else if m = n then None else content fs m)"
    "content (os_Remove fs n) m = (if m = n then None else content fs m)"
    "fs_dir fs n = Some i \<Longrightarrow> content (file_Write fs i p) m = (if m = n then Some (fs_data fs i @ p) else content fs m)"
proof -
  have d: "\<And>n n' a. fs_dir fs n = Some a \<Longrightarrow> fs_dir fs n' = Some a \<Longrightarrow> n = n'" "\<And>n a. fs_dir fs n = Some a \<Longrightarrow> a < fs_next fs" "\<And>n. fs_ok fs n"
    using assms unfolding fs_wf_def by blast+
  have new: "fs_dir fs m \<noteq> Some (fs_next fs)" for m using d(2) [of m "fs_next fs"] by auto
  show "content (fst (os_Create fs n)) m = (if m = n then Some [] else content fs m)"
    using d(1,3) new [of m] by (auto simp: content_def os_Create_def split: option.splits) (cases "fs_dir fs m"; auto)+
  show "content (fst (os_OpenAppend fs n)) m = (if m = n then Some (case content fs n of None \<Rightarrow> [] | Some c \<Rightarrow> c) else content fs m)"
    using d(3) new [of m] by (cases "fs_dir fs m") (auto simp: content_def os_OpenAppend_def split: option.splits)
  show "content (os_Rename fs n n') m = (if content fs n = None then content fs m else if m = n' then content fs n else if m = n then None else content fs m)"
    using d(3) by (auto simp: content_def os_Rename_def split: option.splits)
  show "content (os_Remove fs n) m = (if m = n then None else content fs m)" by (simp add: content_def os_Remove_def)
  show "content (file_Write fs i p) m = (if m = n then Some (fs_data fs i @ p) else content fs m)" if "fs_dir fs n = Some i"
    using that d(1) by (cases "fs_dir fs m") (auto simp: content_def file_Write_def)
qed

lemma handle_ops:
  assumes "fs_wf fs"
  obtains h where "snd (os_Create fs n) = Some h" "fs_dir (fst (os_Create fs n)) n = Some h"
proof (cases "fs_dir fs n")
  case None
  then show thesis using assms that [of "fs_next fs"] by (simp add: fs_wf_def os_Create_def)
next
  case (Some a)
  then show thesis using assms that [of a] by (simp add: fs_wf_def os_Create_def)
qed

lemma num_name_inj: "0 \<le> i \<Longrightarrow> 0 \<le> j \<Longrightarrow> num_name n i = num_name n j \<longleftrightarrow> i = j"
proof -
  assume "0 \<le> i" "0 \<le> j"
  then have "Itoa i = Itoa j \<Longrightarrow> nat i = nat j" by (metis Itoa_def digits_val_nat_str not_less option.inject)
  then show ?thesis using \<open>0 \<le> i\<close> \<open>0 \<le> j\<close> by (auto simp: num_name_def)
qed

lemma num_name_other: "num_name n i \<noteq> n"
  by (simp add: num_name_def)

text \<open>
  What the files hold: \<open>segs\<close> are all files closed so far, \<open>cur\<close> is the text of the open one.  The last \<open>N\<close> of the closed ones are kept, each under
  its number modulo \<open>N\<close>.
\<close>

definition rolled :: "nat \<Rightarrow> int \<Rightarrow> string \<Rightarrow> string list \<Rightarrow> string \<Rightarrow> glog \<times> fsys \<Rightarrow> bool" where
  "rolled N m name segs cur st \<longleftrightarrow>
     (let (gl, fs) = st; f = gl_LogObj gl in
      fs_wf fs \<and> lc_RotateMethod (gl_Logconf gl) = ROTATE_FILE_NUM \<and> lc_MaxFileCount (gl_Logconf gl) = int N \<and> lc_MaxFileSize (gl_Logconf gl) = m
      \<and> \<not> lc_Stdout (gl_Logconf gl) \<and> lf_filename f = name \<and> lf_logfile_err f = None
      \<and> lf_logfile f \<noteq> None \<and> fs_dir fs name = lf_logfile f \<and> content fs name = Some cur
      \<and> lf_suffix f = (if segs = [] then 0 else int ((length segs - 1) mod N + 1))
      \<and> (\<forall>j < length segs. length segs \<le> j + N \<longrightarrow> content fs (num_name name (int (j mod N + 1))) = Some (segs ! j))
      \<and> (\<forall>i \<le> N. length segs < i \<longrightarrow> content fs (num_name name (int i)) = None)
      \<and> (\<forall>s \<in> set segs. m \<le> int (length s)))"

lemma rolled_write:
  assumes "rolled N m name segs cur (gl, fs)"
  shows "rolled N m name segs (cur @ buf) (gl, writeFiles level buf gl fs)"
proof -
  obtain h where h: "lf_logfile (gl_LogObj gl) = Some h" "fs_dir fs name = Some h" "fs_wf fs" "fs_data fs h = cur" "lf_logfile_err (gl_LogObj gl) = None"
    using assms by (auto simp: rolled_def Let_def content_def)
  have w: "writeFiles level buf gl fs = file_Write fs h buf" using h by (simp add: writeFiles_def)
  have "content (file_Write fs h buf) x = (if x = name then Some (cur @ buf) else content fs x)" for x using content_ops(5) [OF h(3,2)] h(4) by simp
  moreover have "fs_dir (file_Write fs h buf) = fs_dir fs" by (simp add: file_Write_def)
  moreover have "fs_wf (file_Write fs h buf)" by (rule fs_wf_ops(5) [OF h(3)])
  ultimately show ?thesis using assms by (simp add: w rolled_def Let_def num_name_other)
qed

lemma next_number: "0 < n \<Longrightarrow> ((n - 1) mod N + 1) mod N = n mod (N :: nat)"
  by (simp add: mod_Suc_eq)

lemma rolled_cover:
  assumes "rolled N m name segs cur (gl, fs)" "0 < N" "m \<le> int (length cur)"
  shows "\<exists>st. coverNextOne gl fs = Some st \<and> rolled N m name (segs @ [cur]) [] st"
proof -
  define k where "k = length segs mod N + 1"
  let ?f = "gl_LogObj gl" and ?old = "num_name name (int k)"
  have r: "fs_wf fs" "lc_MaxFileCount (gl_Logconf gl) = int N" "lf_filename ?f = name" "content fs name = Some cur"
    "lf_suffix ?f = (if segs = [] then 0 else int ((length segs - 1) mod N + 1))"
    "\<And>j. j < length segs \<Longrightarrow> length segs \<le> j + N \<Longrightarrow> content fs (num_name name (int (j mod N + 1))) = Some (segs ! j)"
    "\<And>i. i \<le> N \<Longrightarrow> length segs < i \<Longrightarrow> content fs (num_name name (int i)) = None"
    using assms(1) by (simp_all add: rolled_def Let_def)
  have "lf_suffix ?f smod int N + 1 = int k"
  proof (cases "segs = []")
    case False
    then have "0 < length segs" by simp
    from next_number [OF this, of N] have "int ((length segs - 1) mod N + 1) mod int N = int (length segs mod N)" by (simp only: zmod_int [symmetric])
    moreover have "0 < int ((length segs - 1) mod N + 1)" by simp
    ultimately show ?thesis using False unfolding r(5) signed_modulo_int_def k_def by (simp only: if_False sgn_pos abs_of_pos mult_1 abs_of_nat of_nat_add of_nat_1)
  qed (simp add: r(5) k_def)
  then have n: "nextSuffix gl = Some (gl\<lparr>gl_LogObj := ?f\<lparr>lf_suffix := int k\<rparr>\<rparr>)" using assms(2) by (simp add: nextSuffix_def r(2))
  define fs1 where "fs1 = (if isExist fs ?old then os_Remove fs ?old else fs)"
  define fs2 where "fs2 = os_Rename fs1 name ?old"
  define fs3 where "fs3 = fst (os_Create fs2 name)"
  have wf: "fs_wf fs1" "fs_wf fs2" "fs_wf fs3" using fs_wf_ops r(1) by (simp_all add: fs1_def fs2_def fs3_def)
  obtain h where h: "snd (os_Create fs2 name) = Some h" "fs_dir fs3 name = Some h" using handle_ops [OF wf(2), of name] unfolding fs3_def .
  have c1: "content fs1 x = (if x = ?old then None else content fs x)" for x by (simp add: fs1_def isExist_def content_def os_Remove_def)
  have c: "content fs3 x = (if x = name then Some [] else if x = ?old then Some cur else content fs x)" for x
    using r(4) num_name_other [of name "int k"] by (simp add: fs3_def content_ops(1) [OF wf(2)]) (simp add: fs2_def content_ops(3) [OF wf(1)] c1)
  let ?gl = "setSlog None (gl\<lparr>gl_LogObj := ?f\<lparr>lf_suffix := int k, lf_logfile := Some h\<rparr>\<rparr>)"
  have "coverNextOne gl fs = Some (?gl, fs3)"
    unfolding coverNextOne_def n option.case Let_def using h(1) by (simp add: r(3) split_beta cong: if_cong flip: fs1_def fs2_def fs3_def)
  moreover have "rolled N m name (segs @ [cur]) [] (?gl, fs3)"
  proof -
    have kept: "content fs3 (num_name name (int (j mod N + 1))) = Some ((segs @ [cur]) ! j)" if "j < length (segs @ [cur])" "length (segs @ [cur]) \<le> j + N" for j
    proof (cases "j = length segs")
      case True
      then show ?thesis using num_name_other [of name "int k"] by (simp add: c k_def)
    next
      case False
      then have j: "j < length segs" "length segs \<le> j + N" "length segs < j + N" using that by simp_all
      have "j mod N \<noteq> length segs mod N"
      proof
        assume "j mod N = length segs mod N"
        then have "N dvd length segs - j" using j(1) by (metis mod_eq_dvd_iff_nat less_imp_le)
        then show False using j by (auto dest: dvd_imp_le)
      qed
      then show ?thesis using r(6) [OF j(1,2)] j(1) num_name_other by (simp add: c num_name_inj nth_append k_def)
    qed
    have free: "content fs3 (num_name name (int i)) = None" if "i \<le> N" "length (segs @ [cur]) < i" for i
    proof -
      have "length segs mod N = length segs" using that by (intro mod_less) simp
      then have "i \<noteq> k" using that by (simp add: k_def)
      then show ?thesis using r(7) [of i] that num_name_other by (simp add: c num_name_inj)
    qed
    show ?thesis using assms(1,3) wf(3) h(2) kept free c [of name]
      by (simp add: rolled_def Let_def setSlog_def k_def del: length_append length_append_singleton) simp
  qed
  ultimately show ?thesis by blast
qed

lemma rolled_check:
  assumes "rolled N m name segs cur (gl, fs)" "1 < N"
  shows "\<exists>segs' cur' st. fileCheck fmt today gl fs = Some st \<and> rolled N m name segs' cur' st \<and> concat segs' @ cur' = concat segs @ cur"
proof -
  have r: "lc_RotateMethod (gl_Logconf gl) = ROTATE_FILE_NUM" "\<not> lc_Stdout (gl_Logconf gl)" "lc_MaxFileCount (gl_Logconf gl) = int N" "lc_MaxFileSize (gl_Logconf gl) = m"
    "lf_filename (gl_LogObj gl) = name" "content fs name = Some cur" using assms(1) by (simp_all add: rolled_def Let_def)
  then have must: "isMustRename today gl fs = Some (m \<le> int (length cur))" using assms(2) by (auto simp: isMustRename_def fileSize_def content_def)
  show ?thesis
  proof (cases "m \<le> int (length cur)")
    case True
    then obtain st where "coverNextOne gl fs = Some st" "rolled N m name (segs @ [cur]) [] st" using rolled_cover [OF assms(1)] assms(2) by fastforce
    then show ?thesis using True must r by (intro exI [of _ "segs @ [cur]"] exI [of _ "[]"] exI [of _ st]) (simp add: fileCheck_def rename_def)
  next
    case False
    then show ?thesis using must assms(1) by (auto simp: fileCheck_def)
  qed
qed

lemma rolled_run:
  assumes "rolled N m name segs cur st" "1 < N"
  shows "\<exists>segs' cur' st'. log_run fmt st es = Some st' \<and> rolled N m name segs' cur' st' \<and> concat segs' @ cur' = concat segs @ cur @ concat (map event_text es)"
  using assms(1)
proof (induction es arbitrary: segs cur st)
  case (Cons e es)
  obtain gl fs where st: "st = (gl, fs)" by (cases st)
  obtain segs1 cur1 st1 where 1: "log_exec fmt st e = Some st1" "rolled N m name segs1 cur1 st1" "concat segs1 @ cur1 = (concat segs @ cur) @ event_text e"
  proof (cases e)
    case (Check today)
    then show thesis using that rolled_check [OF Cons.prems [unfolded st] assms(2), of fmt today] by (auto simp: st)
  next
    case (Record level buf)
    then show thesis using that rolled_write [OF Cons.prems [unfolded st], of buf level] by (auto simp: st)
  qed
  then show ?case using Cons.IH [OF 1(2)] by (auto simp flip: append_assoc)
qed auto

lemma scan_suffix_ring:
  "(\<forall>j < n. isExist fs (num_name name (i + int j))) \<Longrightarrow> n < k \<longrightarrow> \<not> isExist fs (num_name name (i + int n)) \<Longrightarrow> n \<le> k \<Longrightarrow>
     scan_suffix fs name s k i = (if n = 0 then s else i + int n - 1)"
proof (induction k arbitrary: n s i)
  case (Suc k)
  show ?case
  proof (cases n)
    case 0
    then show ?thesis using Suc.prems(2) by simp
  next
    case (Suc n')
    have "isExist fs (num_name name i)" using Suc.prems(1) [rule_format, of 0] Suc by simp
    moreover have "scan_suffix fs name i k (i + 1) = (if n' = 0 then i else i + 1 + int n' - 1)"
    proof (rule Suc.IH)
      show "\<forall>j < n'. isExist fs (num_name name (i + 1 + int j))" using Suc.prems(1) Suc by (auto simp: algebra_simps dest: spec [of _ "Suc _"])
    qed (use Suc.prems(2,3) Suc in \<open>auto simp: algebra_simps\<close>)
    ultimately show ?thesis using Suc by simp
  qed
qed simp

text \<open>Opening a directory with the archives \<open>ar\<close> under their first numbers.\<close>

definition archived :: "nat \<Rightarrow> fsys \<Rightarrow> string \<Rightarrow> string list \<Rightarrow> bool" where
  "archived N fs name ar \<longleftrightarrow> length ar \<le> N \<and> (\<forall>j < length ar. content fs (num_name name (int (j + 1))) = Some (ar ! j))
     \<and> (\<forall>i \<le> N. length ar < i \<longrightarrow> content fs (num_name name (int i)) = None)"

lemma open_rolled:
  assumes "fs_wf fs" "lc_RotateMethod (gl_Logconf gl) = ROTATE_FILE_NUM" "lc_MaxFileCount (gl_Logconf gl) = int N" "1 < N" "\<not> lc_Stdout (gl_Logconf gl)"
    and "archived N fs name ar" "\<forall>s \<in> set ar. lc_MaxFileSize (gl_Logconf gl) \<le> int (length s)"
    and "case content fs name of None \<Rightarrow> c0 = [] | Some c \<Rightarrow> c0 = c" "int (length c0) < lc_MaxFileSize (gl_Logconf gl)"
  obtains gl0 fs0 where "SetRollingFile fmt today name False gl fs = Some (gl0, fs0)" "rolled N (lc_MaxFileSize (gl_Logconf gl)) name ar c0 (gl0, fs0)"
proof -
  let ?m = "lc_MaxFileSize (gl_Logconf gl)"
  have ar: "length ar \<le> N" "\<And>j. j < length ar \<Longrightarrow> content fs (num_name name (int (j + 1))) = Some (ar ! j)"
    "\<And>i. i \<le> N \<Longrightarrow> length ar < i \<Longrightarrow> content fs (num_name name (int i)) = None" using assms(6) by (auto simp: archived_def)
  have ex: "isExist fs x = (content fs x \<noteq> None)" for x by (simp add: isExist_def content_def)
  have s: "scan_suffix fs name 0 N 1 = int (length ar)"
    by (subst scan_suffix_ring [of "length ar"]) (use ar(1) ar(2) ar(3) [of "length ar + 1"] in \<open>auto simp: ex algebra_simps\<close>)
  let ?f = "\<lparr>lf_filename = name, lf_filename_err = [], lf_suffix = int (length ar), lf_Ldate = None, lf_logfile = None, lf_logfile_err = None, lf_lg = None\<rparr>"
  have must: "isMustRename today (gl\<lparr>gl_LogObj := ?f\<rparr>) fs = Some False"
    using assms(2,8,9) by (auto simp: isMustRename_def fileSize_def content_def split: option.splits)
  define fs0 where "fs0 = fst (os_OpenAppend fs name)"
  obtain h where h: "snd (os_OpenAppend fs name) = Some h" "fs_dir fs0 name = Some h"
    using assms(1) unfolding fs0_def by (cases "fs_dir fs name") (auto simp: os_OpenAppend_def fs_wf_def)
  define gl0 where "gl0 = setSlog None (gl\<lparr>gl_LogObj := ?f\<lparr>lf_logfile := Some h\<rparr>\<rparr>)"
  have o: "SetRollingFile fmt today name False gl fs = Some (gl0, fs0)"
    using must h(1) by (simp add: SetRollingFile_def assms(3) s Let_def gl0_def split_beta fs0_def)
  have c: "content fs0 x = (if x = name then Some c0 else content fs x)" for x
    using assms(8) by (auto simp: fs0_def content_ops(2) [OF assms(1)] split: option.splits)
  have "length ar - Suc 0 < N" using ar(1) assms(4) by linarith
  then have "(length ar - Suc 0) mod N = length ar - Suc 0" by (rule mod_less)
  moreover have "j mod N = j" if "j < length ar" for j using that ar(1) by simp
  moreover have "fs_wf fs0" unfolding fs0_def by (rule fs_wf_ops(2) [OF assms(1)])
  ultimately have "rolled N ?m name ar c0 (gl0, fs0)"
    using assms(2,3,5,7) ar h(2) num_name_other by (simp add: rolled_def Let_def gl0_def setSlog_def c)
  with o show thesis by (rule that)
qed

text \<open>C13: rotation by size is a ring of archives.  From a directory with the archives \<open>ar\<close> under their first numbers, and whatever checks and writes goroutines interleave, the
  logger never panics; the closed files \<open>segs\<close> and the open one hold, in order, the archives, the text the file had and everything written since;
  each closed file has reached the maximal size; and the last \<open>N\<close> closed ones are on disk, the \<open>j\<close>-th under the number \<open>j mod N + 1\<close>, so a rotation
  replaces the oldest archive.\<close>

theorem size_rotation_ring:
  assumes "fs_wf fs" "lc_RotateMethod (gl_Logconf gl) = ROTATE_FILE_NUM" "lc_MaxFileCount (gl_Logconf gl) = int N" "1 < N" "\<not> lc_Stdout (gl_Logconf gl)"
    and "archived N fs name ar" "\<forall>s \<in> set ar. lc_MaxFileSize (gl_Logconf gl) \<le> int (length s)"
    and "case content fs name of None \<Rightarrow> c0 = [] | Some c \<Rightarrow> c0 = c" "int (length c0) < lc_MaxFileSize (gl_Logconf gl)"
  shows "\<exists>gl0 fs0 gl' fs' segs cur.
    SetRollingFile fmt today name False gl fs = Some (gl0, fs0) \<and> log_run fmt (gl0, fs0) es = Some (gl', fs') \<and>
    concat segs @ cur = concat ar @ c0 @ concat (map event_text es) \<and> content fs' name = Some cur \<and>
    (\<forall>s \<in> set segs. lc_MaxFileSize (gl_Logconf gl) \<le> int (length s)) \<and>
    (\<forall>j < length segs. length segs \<le> j + N \<longrightarrow> content fs' (num_name name (int (j mod N + 1))) = Some (segs ! j))"
proof -
  obtain gl0 fs0 where o: "SetRollingFile fmt today name False gl fs = Some (gl0, fs0)" and r: "rolled N (lc_MaxFileSize (gl_Logconf gl)) name ar c0 (gl0, fs0)"
    by (rule open_rolled [OF assms])
  from rolled_run [OF r assms(4), of fmt es] obtain segs cur gl' fs' where "log_run fmt (gl0, fs0) es = Some (gl', fs')"
    "rolled N (lc_MaxFileSize (gl_Logconf gl)) name segs cur (gl', fs')" "concat segs @ cur = concat ar @ c0 @ concat (map event_text es)" by (metis surj_pair)
  then show ?thesis using o by (intro exI [of _ gl0] exI [of _ fs0] exI [of _ gl'] exI [of _ fs'] exI [of _ segs] exI [of _ cur]) (simp add: rolled_def Let_def)
qed

definition demo_logconf :: glogconf where
  "demo_logconf = \<lparr>lc_MaxFileSize = 2, lc_MaxFileCount = 2, lc_RotateMethod = 101, lc_Stdout = False, lc_Colorful = False, lc_Goid = False, lc_Loglevel = 1,
     lc_CtxValueKey = ''trace_id'', lc_Format = 1, lc_DesensitizeField = []\<rparr>"

definition demo_glog :: glog where
  "demo_glog = \<lparr>gl_LogObj = \<lparr>lf_filename = [], lf_filename_err = [], lf_suffix = 0, lf_Ldate = None, lf_logfile = None, lf_logfile_err = None, lf_lg = None\<rparr>,
     gl_Logconf = demo_logconf, gl_gormLevel = 4, gl_LogTags = [''trace_id''], gl_DesensitizeFieldMap = []\<rparr>"

definition empty_fs :: fsys where
  "empty_fs = \<lparr>fs_dir = Map.empty, fs_data = (\<lambda>_. []), fs_next = 0, fs_ok = (\<lambda>_. True)\<rparr>"

lemma empty_fs_facts: "fs_wf empty_fs" "content empty_fs n = None"
  by (simp_all add: empty_fs_def fs_wf_def content_def)

theorem size_rotation_ring_witness:
  "\<exists>gl0 fs0 gl' fs' segs cur.
    SetRollingFile Itoa 0 ''a'' False demo_glog empty_fs = Some (gl0, fs0) \<and> log_run Itoa (gl0, fs0) [Record 0 ''xx'', Check 0, Record 0 ''y''] = Some (gl', fs') \<and>
    concat segs @ cur = ''xxy'' \<and> content fs' ''a'' = Some cur \<and> (\<forall>s \<in> set segs. 2 \<le> int (length s)) \<and>
    (\<forall>j < length segs. length segs \<le> j + 2 \<longrightarrow> content fs' (num_name ''a'' (int (j mod 2 + 1))) = Some (segs ! j))"
  using size_rotation_ring [OF empty_fs_facts(1), of demo_glog 2 "''a''" "[]" "[]" Itoa 0 "[Record 0 ''xx'', Check 0, Record 0 ''y'']"]
  by (simp add: demo_glog_def demo_logconf_def archived_def empty_fs_facts(2))

text \<open>C39: a restart forgets where the ring was.  When \<open>N + 1\<close> files have been closed, the newest is under number 1 and the oldest kept one under number 2; after the
  logger is opened again, the next rotation replaces the newest archive and keeps the oldest.\<close>

theorem restart_loses_newest:
  assumes "rolled N m name segs cur (gl, fs)" "1 < N" "length segs = N + 1" "int (length cur) < m" "m \<le> int (length cur + length buf)"
  shows "content fs (num_name name 1) = Some (segs ! N) \<and>
    (\<exists>st fs'. SetRollingFile fmt today name False gl fs = Some st \<and> map_option snd (log_run fmt st [Record level buf, Check today]) = Some fs' \<and>
       content fs' (num_name name 1) = Some (cur @ buf) \<and> content fs' (num_name name 2) = Some (segs ! 1))"
proof -
  let ?ar = "segs ! N # map ((!) segs) [1..<N]"
  have r: "fs_wf fs" "lc_RotateMethod (gl_Logconf gl) = ROTATE_FILE_NUM" "lc_MaxFileCount (gl_Logconf gl) = int N" "lc_MaxFileSize (gl_Logconf gl) = m"
    "\<not> lc_Stdout (gl_Logconf gl)" "content fs name = Some cur" "\<forall>s \<in> set segs. m \<le> int (length s)"
    "\<And>j. j < length segs \<Longrightarrow> length segs \<le> j + N \<Longrightarrow> content fs (num_name name (int (j mod N + 1))) = Some (segs ! j)"
    using assms(1) by (simp_all add: rolled_def Let_def)
  have one: "content fs (num_name name 1) = Some (segs ! N)" using r(8) [of N] assms(2,3) by simp
  have "content fs (num_name name (int (j + 1))) = Some (?ar ! j)" if "j < N" for j
  proof (cases j)
    case 0
    then show ?thesis using one by simp
  next
    case (Suc i)
    then show ?thesis using r(8) [of j] assms(3) that by simp
  qed
  moreover have len: "length ?ar = N" using assms(2) by simp
  ultimately have ar: "archived N fs name ?ar" by (simp add: archived_def)
  have sz: "\<forall>s \<in> set ?ar. m \<le> int (length s)" using r(7) assms(3) by (auto simp: all_set_conv_all_nth)
  obtain gl0 fs0 where o: "SetRollingFile fmt today name False gl fs = Some (gl0, fs0)" and o2: "rolled N m name ?ar cur (gl0, fs0)"
    by (rule open_rolled [OF r(1,2,3) assms(2) r(5) ar, unfolded r(4), OF sz, of cur fmt today]) (use r(6) assms(4) in simp_all)
  let ?fs = "writeFiles level buf gl0 fs0"
  have w: "rolled N m name ?ar (cur @ buf) (gl0, ?fs)" by (rule rolled_write [OF o2])
  then obtain st where st: "coverNextOne gl0 ?fs = Some st" "rolled N m name (?ar @ [cur @ buf]) [] st" using rolled_cover [OF w] assms(2,5) by auto
  have "isMustRename today gl0 ?fs = Some True" "\<not> lc_Stdout (gl_Logconf gl0)" "lc_RotateMethod (gl_Logconf gl0) = ROTATE_FILE_NUM"
    using w assms(2,5) by (auto simp: rolled_def Let_def isMustRename_def fileSize_def content_def)
  then have run: "log_run fmt (gl0, fs0) [Record level buf, Check today] = Some st" using st(1) by (simp add: fileCheck_def rename_def)
  obtain gl' fs' where st': "st = (gl', fs')" by (cases st)
  have "content fs' (num_name name (int (j mod N + 1))) = Some ((?ar @ [cur @ buf]) ! j)" if "j < N + 1" "1 \<le> j" for j
    using st(2) that len by (simp add: st' rolled_def Let_def del: nth_append_length)
  from this [of N] this [of 1] have "content fs' (num_name name 1) = Some (cur @ buf)" "content fs' (num_name name 2) = Some (segs ! 1)"
    using assms(2) len by (simp_all add: nth_append nth_Cons')
  then show ?thesis using one o run st' by auto
qed

lemma rolled_grow:
  assumes "\<exists>st. rolled N m name segs [] st" "0 < N" "m \<le> int (length s)"
  shows "\<exists>st. rolled N m name (segs @ [s]) [] st"
proof -
  obtain gl fs where "rolled N m name segs [] (gl, fs)" using assms(1) by (metis surj_pair)
  then have "rolled N m name segs s (gl, writeFiles 0 s gl fs)" using rolled_write by fastforce
  from rolled_cover [OF this assms(2,3)] show ?thesis by blast
qed

theorem restart_loses_newest_witness:
  "\<exists>gl fs. content fs (num_name ''a'' 1) = Some ''zz'' \<and>
    (\<exists>st fs'. SetRollingFile Itoa 0 ''a'' False gl fs = Some st \<and> map_option snd (log_run Itoa st [Record 0 ''ww'', Check 0]) = Some fs' \<and>
       content fs' (num_name ''a'' 1) = Some ''ww'' \<and> content fs' (num_name ''a'' 2) = Some ''yy'')"
proof -
  have "\<exists>st. rolled 2 2 ''a'' [] [] st"
    by (rule open_rolled [OF empty_fs_facts(1), of demo_glog 2 "''a''" "[]" "[]" Itoa 0]) (auto simp: demo_glog_def demo_logconf_def archived_def empty_fs_facts(2))
  from rolled_grow [OF rolled_grow [OF rolled_grow [OF this, of "''xx''"], of "''yy''"], of "''zz''"]
  obtain gl fs where r: "rolled 2 2 ''a'' [''xx'', ''yy'', ''zz''] [] (gl, fs)" by auto
  show ?thesis using restart_loses_newest [OF r, of "''ww''" Itoa 0 0] by fastforce
qed

section \<open>Rotation by day\<close>

text \<open>A message is logged on a day: the check, then the write.\<close>

type_synonym message = "int \<times> int \<times> string"

definition log_message :: "(int \<Rightarrow> string) \<Rightarrow> glog \<times> fsys \<Rightarrow> message \<Rightarrow> (glog \<times> fsys) go" where
  "log_message fmt st msg = log_run fmt st [Check (fst msg), Record (fst (snd msg)) (snd (snd msg))]"

fun log_messages :: "(int \<Rightarrow> string) \<Rightarrow> glog \<times> fsys \<Rightarrow> message list \<Rightarrow> (glog \<times> fsys) go" where
  "log_messages fmt st [] = Some st"
| "log_messages fmt st (x # xs) = (case log_message fmt st x of None \<Rightarrow> None | Some st' \<Rightarrow> log_messages fmt st' xs)"

text \<open>The texts of one day, of the levels that satisfy \<open>P\<close>.\<close>

definition day_text :: "(int \<Rightarrow> bool) \<Rightarrow> int \<Rightarrow> message list \<Rightarrow> string" where
  "day_text P d ms = concat (map (snd \<circ> snd) (filter (\<lambda>m. fst m = d \<and> P (fst (snd m))) ms))"

definition names_apart :: "(int \<Rightarrow> string) \<Rightarrow> string \<Rightarrow> string \<Rightarrow> bool" where
  "names_apart fmt n e \<longleftrightarrow> inj fmt \<and> n \<noteq> e \<and> (\<forall>d. day_name fmt n d \<noteq> e \<and> day_name fmt e d \<noteq> n) \<and> (\<forall>d d'. day_name fmt n d \<noteq> day_name fmt e d')"

lemma day_name_inj: "inj fmt \<Longrightarrow> day_name fmt n d = day_name fmt n d' \<longleftrightarrow> d = d'" "day_name fmt n d \<noteq> n"
  by (auto simp: day_name_def inj_def)

text \<open>
  The logger on day \<open>D\<close>: \<open>M\<close> and \<open>E\<close> are the texts of each day in the main and in the error file, \<open>V\<close> the days on which there were messages.  The open files have the
  texts of \<open>D\<close>, and the archives those of the other days.
\<close>

definition daily :: "(int \<Rightarrow> string) \<Rightarrow> string \<Rightarrow> string \<Rightarrow> (int \<Rightarrow> string) \<Rightarrow> (int \<Rightarrow> string) \<Rightarrow> int set \<Rightarrow> int \<Rightarrow> glog \<times> fsys \<Rightarrow> bool" where
  "daily fmt n e M E V D st \<longleftrightarrow>
     (let (gl, fs) = st; f = gl_LogObj gl in
      fs_wf fs \<and> lc_RotateMethod (gl_Logconf gl) = ROTATE_FILE_DAILY \<and> \<not> lc_Stdout (gl_Logconf gl)
      \<and> lf_filename f = n \<and> lf_filename_err f = e \<and> lf_Ldate f = Some D
      \<and> lf_logfile f \<noteq> None \<and> fs_dir fs n = lf_logfile f \<and> lf_logfile_err f \<noteq> None \<and> fs_dir fs e = lf_logfile_err f
      \<and> content fs n = Some (M D) \<and> content fs e = Some (E D)
      \<and> D \<in> V \<and> (\<forall>d \<in> V. d \<le> D) \<and> (\<forall>d. d \<notin> V \<longrightarrow> M d = [] \<and> E d = [])
      \<and> (\<forall>d \<in> V. d < D \<longrightarrow> content fs (day_name fmt n d) = Some (M d) \<and> content fs (day_name fmt e d) = Some (E d))
      \<and> (\<forall>d \<ge> D. content fs (day_name fmt n d) = None \<and> content fs (day_name fmt e d) = None))"

lemma daily_write:
  assumes "daily fmt n e M E V D (gl, fs)" "names_apart fmt n e"
  shows "daily fmt n e (M(D := M D @ buf)) (E(D := E D @ (if 4 \<le> level then buf else []))) V D (gl, writeFiles level buf gl fs)"
proof -
  obtain h he where h: "lf_logfile (gl_LogObj gl) = Some h" "fs_dir fs n = Some h" "lf_logfile_err (gl_LogObj gl) = Some he" "fs_dir fs e = Some he"
    "fs_wf fs" "fs_data fs h = M D" "fs_data fs he = E D" using assms(1) by (auto simp: daily_def Let_def content_def)
  have ne: "n \<noteq> e" "h \<noteq> he" using assms(2) h(2,4,5) by (auto simp: names_apart_def fs_wf_def)
  define fs1 where "fs1 = file_Write fs h buf"
  define fs2 where "fs2 = writeFiles level buf gl fs"
  have fs2: "fs2 = (if 4 \<le> level then file_Write fs1 he buf else fs1)" using h(1,3) by (simp add: fs2_def writeFiles_def fs1_def)
  have d1: "fs_dir fs1 = fs_dir fs" "fs_wf fs1" "fs_data fs1 he = E D" using fs_wf_ops(5) [OF h(5)] ne(2) h(7) by (simp_all add: fs1_def file_Write_def)
  have c1: "content fs1 x = (if x = n then Some (M D @ buf) else content fs x)" for x using content_ops(5) [OF h(5,2)] h(6) by (simp add: fs1_def)
  have c2: "content fs2 x = (if x = n then Some (M D @ buf) else if x = e then Some (E D @ (if 4 \<le> level then buf else [])) else content fs x)" for x
    using content_ops(5) [OF d1(2), of e he] d1(1,3) h(4,7) c1 ne(1) by (simp add: fs2 content_def [of fs e])
  have d2: "fs_dir fs2 = fs_dir fs" using d1 by (auto simp: fs2 file_Write_def)
  have wf2: "fs_wf fs2" using d1(2) fs_wf_ops(5) [OF d1(2)] by (simp add: fs2)
  have "daily fmt n e (M(D := M D @ buf)) (E(D := E D @ (if 4 \<le> level then buf else []))) V D (gl, fs2)"
    using assms d2 wf2 ne(1) day_name_inj(2) by (simp add: daily_def Let_def c2 names_apart_def)
  then show ?thesis unfolding fs2_def .
qed

lemma daily_check:
  assumes "daily fmt n e M E V D (gl, fs)" "names_apart fmt n e" "D \<le> t"
  shows "\<exists>st. fileCheck fmt t gl fs = Some st \<and> daily fmt n e M E (insert t V) t st"
proof (cases "D = t")
  case True
  then show ?thesis using assms(1) by (auto simp: daily_def Let_def fileCheck_def isMustRename_def insert_absorb)
next
  case False
  then have t: "D < t" "t \<notin> V" using assms(1,3) by (auto simp: daily_def Let_def)
  note r = assms(1) [unfolded daily_def Let_def prod.case]
  let ?f = "gl_LogObj gl" and ?fn = "day_name fmt n D" and ?fe = "day_name fmt e D"
  have wf: "fs_wf fs" using r by simp
  define fs1 where "fs1 = os_Rename fs n ?fn"
  define fs2 where "fs2 = os_Rename fs1 e ?fe"
  define fs3 where "fs3 = fst (os_Create fs2 n)"
  define fs4 where "fs4 = fst (os_Create fs3 e)"
  have wfs: "fs_wf fs1" "fs_wf fs2" "fs_wf fs3" "fs_wf fs4" using fs_wf_ops wf by (simp_all add: fs1_def fs2_def fs3_def fs4_def)
  obtain h where h: "snd (os_Create fs2 n) = Some h" "fs_dir fs3 n = Some h" using handle_ops [OF wfs(2), of n] unfolding fs3_def .
  obtain he where he: "snd (os_Create fs3 e) = Some he" "fs_dir fs4 e = Some he" using handle_ops [OF wfs(3), of e] unfolding fs4_def .
  have ap: "n \<noteq> e" "?fn \<noteq> e" "?fe \<noteq> n" "?fn \<noteq> ?fe" "?fn \<noteq> n" "?fe \<noteq> e" using assms(2) day_name_inj(2) by (auto simp: names_apart_def)
  have h4: "fs_dir fs4 n = Some h" using h(2) ap(1) by (auto simp: fs4_def os_Create_def split: option.splits)
  have nd: "content fs n = Some (M D)" "content fs e = Some (E D)" using r by simp_all
  have c1: "content fs1 x = (if x = ?fn then Some (M D) else if x = n then None else content fs x)" for x
    using nd ap unfolding fs1_def by (simp add: content_ops(3) [OF wf])
  have c2: "content fs2 x = (if x = ?fe then Some (E D) else if x = e then None else if x = ?fn then Some (M D) else if x = n then None else content fs x)" for x
    using nd ap unfolding fs2_def by (simp add: content_ops(3) [OF wfs(1)] c1)
  have c3: "content fs3 x = (if x = n then Some [] else content fs2 x)" for x unfolding fs3_def by (rule content_ops(1) [OF wfs(2)])
  have c4: "content fs4 x = (if x = n \<or> x = e then Some [] else if x = ?fn then Some (M D) else if x = ?fe then Some (E D) else content fs x)" for x
    using ap unfolding fs4_def by (simp add: content_ops(1) [OF wfs(3)] c3 c2)
  let ?gl = "setSlog (Some he) (gl\<lparr>gl_LogObj := ?f\<lparr>lf_Ldate := Some t, lf_logfile := Some h, lf_logfile_err := Some he\<rparr>\<rparr>)"
  have "\<not> isExist fs ?fn" "\<not> isExist fs ?fe" using r by (auto simp: isExist_def content_def)
  then have "fileCheck fmt t gl fs = Some (?gl, fs4)"
    using r t(1) h(1) he(1) by (simp add: fileCheck_def isMustRename_def rename_def Let_def split_beta flip: fs1_def fs2_def fs3_def fs4_def)
  moreover have "daily fmt n e M E (insert t V) t (?gl, fs4)"
  proof -
    have inj: "inj fmt" and far: "\<And>d d'. day_name fmt n d \<noteq> day_name fmt e d'" "\<And>d. day_name fmt n d \<noteq> e" "\<And>d. day_name fmt e d \<noteq> n"
      using assms(2) by (auto simp: names_apart_def)
    have a: "content fs4 (day_name fmt n d) = (if d = D then Some (M D) else content fs (day_name fmt n d))"
      "content fs4 (day_name fmt e d) = (if d = D then Some (E D) else content fs (day_name fmt e d))" for d
      using far far(1) [symmetric] by (simp_all add: c4 day_name_inj(1) [OF inj] day_name_inj(2))
    have "M t = []" "E t = []" "d \<le> D" if "d \<in> V" for d using r t(2) that by auto
    then show ?thesis using r t wfs(4) h4 he(2) a c4 [of n] c4 [of e] by (auto simp: daily_def Let_def setSlog_def)
  qed
  ultimately show ?thesis by blast
qed

lemma daily_content:
  assumes "daily fmt n e M E V D (gl, fs)" "d \<in> V"
  shows "content fs (if d = D then n else day_name fmt n d) = Some (M d) \<and> content fs (if d = D then e else day_name fmt e d) = Some (E d)"
  using assms by (auto simp: daily_def Let_def)

lemma day_text_Cons: "day_text P d (m # ms) = (if fst m = d \<and> P (fst (snd m)) then snd (snd m) else []) @ day_text P d ms"
  by (simp add: day_text_def)

lemma daily_run:
  assumes "daily fmt n e M E V D st" "names_apart fmt n e" "sorted (D # map fst ms)"
  shows "\<exists>st'. log_messages fmt st ms = Some st' \<and>
    daily fmt n e (\<lambda>d. M d @ day_text (\<lambda>_. True) d ms) (\<lambda>d. E d @ day_text (\<lambda>l. 4 \<le> l) d ms) (V \<union> fst ` set ms) (last (D # map fst ms)) st'"
  using assms(1,3)
proof (induction ms arbitrary: M E V D st)
  case (Cons m ms)
  obtain t level buf where m: "m = (t, level, buf)" by (cases m)
  obtain gl fs where st: "st = (gl, fs)" by (cases st)
  have "D \<le> t" using Cons.prems(2) by (simp add: m)
  then obtain gl1 fs1 where 1: "fileCheck fmt t gl fs = Some (gl1, fs1)" "daily fmt n e M E (insert t V) t (gl1, fs1)"
    using daily_check [OF Cons.prems(1) [unfolded st] assms(2)] by fastforce
  let ?M = "M(t := M t @ buf)" and ?E = "E(t := E t @ (if 4 \<le> level then buf else []))"
  have "daily fmt n e ?M ?E (insert t V) t (gl1, writeFiles level buf gl1 fs1)" by (rule daily_write [OF 1(2) assms(2)])
  from Cons.IH [OF this] Cons.prems(2) obtain st' where "log_messages fmt (gl1, writeFiles level buf gl1 fs1) ms = Some st'"
    "daily fmt n e (\<lambda>d. ?M d @ day_text (\<lambda>_. True) d ms) (\<lambda>d. ?E d @ day_text (\<lambda>l. 4 \<le> l) d ms) (insert t V \<union> fst ` set ms) (last (t # map fst ms)) st'"
    by (auto simp: m)
  moreover have "(\<lambda>d. ?M d @ day_text (\<lambda>_. True) d ms) = (\<lambda>d. M d @ day_text (\<lambda>_. True) d (m # ms))"
    "(\<lambda>d. ?E d @ day_text (\<lambda>l. 4 \<le> l) d ms) = (\<lambda>d. E d @ day_text (\<lambda>l. 4 \<le> l) d (m # ms))"
    by (auto simp: day_text_Cons m)
  ultimately show ?case by (simp add: st m 1(1) log_message_def)
qed (simp add: day_text_def)

text \<open>C18: rotation by day gives every day its own file.  Opened on day \<open>d0\<close> in a directory without later archives, with messages on days that do not decrease, the
  logger never panics, and at the end the file of each day with messages, the open one for the last day and the archive of that date for the others, has exactly
  the messages of that day in order; the error file has those of level warning and above.  The first day's files keep the text they had.\<close>

theorem each_day_own_file:
  assumes "fs_wf fs" "lc_RotateMethod (gl_Logconf gl) = ROTATE_FILE_DAILY" "\<not> lc_Stdout (gl_Logconf gl)" "names_apart fmt n e"
    and "\<forall>d \<ge> d0. content fs (day_name fmt n d) = None \<and> content fs (day_name fmt e d) = None" "sorted (d0 # map fst ms)"
  shows "\<exists>st gl' fs'. SetRollingDaily fmt d0 n e False gl fs = Some st \<and> log_messages fmt st ms = Some (gl', fs') \<and>
    (\<forall>d \<in> insert d0 (fst ` set ms).
       let file = (\<lambda>x. if d = last (d0 # map fst ms) then x else day_name fmt x d);
           old = (\<lambda>x. if d = d0 then case content fs x of None \<Rightarrow> [] | Some c \<Rightarrow> c else [])
       in content fs' (file n) = Some (old n @ day_text (\<lambda>_. True) d ms) \<and> content fs' (file e) = Some (old e @ day_text (\<lambda>l. 4 \<le> l) d ms))"
proof -
  have ap: "n \<noteq> e" "\<And>d. day_name fmt n d \<noteq> e" "\<And>d. day_name fmt e d \<noteq> n" using assms(4) by (auto simp: names_apart_def)
  let ?f = "\<lparr>lf_filename = n, lf_filename_err = e, lf_suffix = 0, lf_Ldate = Some d0, lf_logfile = None, lf_logfile_err = None, lf_lg = None\<rparr>"
  let ?old = "\<lambda>x. case content fs x of None \<Rightarrow> [] | Some c \<Rightarrow> c"
  define fs1 where "fs1 = fst (os_OpenAppend fs n)"
  define fs2 where "fs2 = fst (os_OpenAppend fs1 e)"
  have wf: "fs_wf fs1" "fs_wf fs2" using fs_wf_ops(2) assms(1) by (simp_all add: fs1_def fs2_def)
  obtain h where h: "snd (os_OpenAppend fs n) = Some h" "fs_dir fs1 n = Some h"
    using assms(1) unfolding fs1_def by (cases "fs_dir fs n") (auto simp: os_OpenAppend_def fs_wf_def)
  obtain he where he: "snd (os_OpenAppend fs1 e) = Some he" "fs_dir fs2 e = Some he"
    using wf(1) unfolding fs2_def by (cases "fs_dir fs1 e") (auto simp: os_OpenAppend_def fs_wf_def)
  have h2: "fs_dir fs2 n = Some h" using h(2) ap(1) by (auto simp: fs2_def os_OpenAppend_def split: option.splits)
  have c1: "content fs1 x = (if x = n then Some (?old n) else content fs x)" for x unfolding fs1_def by (rule content_ops(2) [OF assms(1)])
  have c: "content fs2 x = (if x = n then Some (?old n) else if x = e then Some (?old e) else content fs x)" for x
    using ap(1) unfolding fs2_def by (simp add: content_ops(2) [OF wf(1)] c1)
  let ?st = "(setSlog (Some he) (gl\<lparr>gl_LogObj := ?f\<lparr>lf_logfile := Some h, lf_logfile_err := Some he\<rparr>\<rparr>), fs2)"
  have o: "SetRollingDaily fmt d0 n e False gl fs = Some ?st"
    using assms(2) h(1) he(1) by (simp add: SetRollingDaily_def isMustRename_def split_beta flip: fs1_def fs2_def)
  let ?M = "\<lambda>x d. if d = d0 then ?old x else []"
  have "daily fmt n e (?M n) (?M e) {d0} d0 ?st"
    using assms(2,3,5) wf(2) h2 he(2) ap day_name_inj(2) by (simp add: daily_def Let_def setSlog_def c)
  from daily_run [OF this assms(4,6)] obtain st' where run: "log_messages fmt ?st ms = Some st'" and
    d: "daily fmt n e (\<lambda>d. ?M n d @ day_text (\<lambda>_. True) d ms) (\<lambda>d. ?M e d @ day_text (\<lambda>l. 4 \<le> l) d ms) ({d0} \<union> fst ` set ms) (last (d0 # map fst ms)) st'"
    by blast
  obtain gl' fs' where st': "st' = (gl', fs')" by (cases st')
  have fin: "content fs' (if d = last (d0 # map fst ms) then n else day_name fmt n d) = Some (?M n d @ day_text (\<lambda>_. True) d ms)
    \<and> content fs' (if d = last (d0 # map fst ms) then e else day_name fmt e d) = Some (?M e d @ day_text (\<lambda>l. 4 \<le> l) d ms)" if "d \<in> insert d0 (fst ` set ms)" for d
    by (rule daily_content [OF d [unfolded st']]) (use that in simp)
  show ?thesis
    by (rule exI [of _ ?st], rule exI [of _ gl'], rule exI [of _ fs']) (use o run st' fin in \<open>simp add: Let_def del: last.simps\<close>)
qed

definition demo_fmt :: "int \<Rightarrow> string" where
  "demo_fmt d = (if 0 \<le> d then CHR ''p'' else CHR ''m'') # replicate (nat \<bar>d\<bar>) CHR ''x''"

lemma demo_names: "names_apart demo_fmt ''a'' ''b''"
proof -
  have "inj demo_fmt"
  proof
    fix x y
    assume "demo_fmt x = demo_fmt y"
    then show "x = y" by (auto simp: demo_fmt_def split: if_splits dest: arg_cong [of _ _ length])
  qed
  then show ?thesis by (simp add: names_apart_def day_name_def)
qed

theorem each_day_own_file_witness:
  "\<exists>st gl' fs'. SetRollingDaily demo_fmt 1 ''a'' ''b'' False (demo_glog\<lparr>gl_Logconf := demo_logconf\<lparr>lc_RotateMethod := 100\<rparr>\<rparr>) empty_fs = Some st \<and>
     log_messages demo_fmt st [(1, 0, ''x''), (1, 8, ''y''), (2, 0, ''z'')] = Some (gl', fs') \<and>
     content fs' (day_name demo_fmt ''a'' 1) = Some ''xy'' \<and> content fs' (day_name demo_fmt ''b'' 1) = Some ''y'' \<and> content fs' ''a'' = Some ''z''"
proof -
  let ?gl = "demo_glog\<lparr>gl_Logconf := demo_logconf\<lparr>lc_RotateMethod := 100\<rparr>\<rparr>"
  have t: "day_text P d [(1, 0, ''x''), (1, 8, ''y''), (2, 0, ''z'')] =
      (if d = 1 \<and> P 0 then ''x'' else []) @ (if d = 1 \<and> P 8 then ''y'' else []) @ (if d = 2 \<and> P 0 then ''z'' else [])" for P d
    by (auto simp: day_text_def)
  have l: "last (1 # map fst [(1 :: int, 0 :: int, ''x''), (1, 8, ''y''), (2, 0, ''z'')]) = 2" by simp
  from each_day_own_file [OF empty_fs_facts(1) _ _ demo_names, of ?gl 1 "[(1, 0, ''x''), (1, 8, ''y''), (2, 0, ''z'')]", unfolded l t]
  show ?thesis by (simp add: demo_logconf_def empty_fs_facts(2)) blast
qed

section \<open>Rotations that do not happen\<close>

text \<open>If an archive of the day is there, the day is never closed: the date stays, and all later messages go to the same file.\<close>

lemma day_archive_blocks:
  assumes "lc_RotateMethod (gl_Logconf gl) = ROTATE_FILE_DAILY" "lf_Ldate (gl_LogObj gl) = Some d" "isExist fs (day_name fmt (lf_filename_err (gl_LogObj gl)) d)"
  shows "fileCheck fmt today gl fs = Some (gl, fs)"
  using assms by (simp add: fileCheck_def isMustRename_def rename_def Let_def)

text \<open>A logger to the console that finds a full file has no handler.\<close>

lemma stdout_full_file_no_handler:
  assumes "lc_RotateMethod (gl_Logconf gl) = ROTATE_FILE_NUM" "lc_Stdout (gl_Logconf gl)" "1 < lc_MaxFileCount (gl_Logconf gl)"
    and "lc_MaxFileSize (gl_Logconf gl) \<le> fileSize fs name" "SetRollingFile fmt today name True gl fs = Some (gl', fs')"
  shows "lf_lg (gl_LogObj gl') = None"
  using assms by (auto simp: SetRollingFile_def isMustRename_def rename_def Let_def)

text \<open>The default logger can always be made, and has a handler.\<close>

lemma default_logger: "\<exists>gl lg. NewDefaultGLog fmt today fs = Some (gl, fs) \<and> lf_lg (gl_LogObj gl) = Some lg"
  by (simp add: NewDefaultGLog_def SetRollingFile_def isMustRename_def loadDesensitizeField_def setSlog_def Let_def)

end
