(* ===== verification/Desensitize.thy ===== *)
theory Desensitize
  imports LogFile "HOL-Library.AList"
begin

text \<open>
  Masking of sensitive fields in log attributes (\<^verbatim>\<open>logger/desensitize.go\<close>).

  A logged value is the tree that the code sees by reflection; values with cycles are outside.  The codecs of \<^verbatim>\<open>encoding/json\<close> and
  \<^verbatim>\<open>encoding/xml\<close> are an argument, and the results hold for all of them.  The functions that recur through
  \<^verbatim>\<open>Desensitize\<close> take it as an argument.  JSON text inside JSON text is followed as long as there is fuel; \<^const>\<open>None\<close> is a panic, or the end of the fuel.
\<close>

section \<open>Values\<close>

text \<open>A map key is a string or a value of another type, for which \<^verbatim>\<open>reflect.Value.String\<close> gives only the name of the type.\<close>

datatype mkey = KStr string | KOther string

fun key_string :: "mkey \<Rightarrow> string" where
  "key_string (KStr s) = s"
| "key_string (KOther ty) = ''<'' @ ty @ '' Value>''"

text \<open>
  \<open>LErr u\<close> is a value whose type implements \<^verbatim>\<open>error\<close>, \<open>u\<close> being its structure; \<open>LNum\<close>, \<open>LRaw\<close> and \<open>LJson\<close> are \<^verbatim>\<open>json.Number\<close>, \<^verbatim>\<open>json.RawMessage\<close>
  and \<^verbatim>\<open>jsonLogValue\<close>; \<open>LStr\<close> is a string of any type; a struct field has its name, whether it is exported, and its value; \<open>LIface\<close> is a variable
  of interface type, which a pointer can point to; \<open>LReflect\<close> is a \<^verbatim>\<open>reflect.Value\<close> left in a result; \<open>LDur\<close> is a duration in nanoseconds; everything else is \<open>LOther\<close> with its text.
\<close>

datatype lval =
    LNil
  | LErr lval
  | LNum string
  | LRaw "string option"
  | LJson string
  | LStr string
  | LMap "(mkey \<times> lval) list"
  | LStruct "(string \<times> bool \<times> lval) list"
  | LSlice "lval list"
  | LPtr "lval option"
  | LIface lval
  | LReflect lval
  | LDur int
  | LOther string

datatype xmlNode = XmlNode (xml_name: string) (xml_content: string) (xml_nodes: "xmlNode list")

record codecs =
  js_Decode :: "string \<Rightarrow> (lval \<times> string) option"
  js_Valid :: "string \<Rightarrow> bool"
  js_Marshal :: "lval \<Rightarrow> string option"
  xml_Unmarshal :: "string \<Rightarrow> xmlNode option"
  xml_Marshal :: "xmlNode \<Rightarrow> string"

text \<open>The sensitive fields and the registered functions of the logger.\<close>

record masks =
  mk_fields :: "string list"
  mk_funcs :: "string \<rightharpoonup> (lval \<Rightarrow> lval go)"

definition MASKSTR :: string where
  "MASKSTR = ''******''"

definition RegisterDesensitizeFunc :: "string \<Rightarrow> (lval \<Rightarrow> lval go) \<Rightarrow> masks \<Rightarrow> masks" where
  "RegisterDesensitizeFunc k f mk = mk\<lparr>mk_funcs := (mk_funcs mk)(k \<mapsto> f)\<rparr>"

definition sensitiveFieldMap :: "masks \<Rightarrow> string \<Rightarrow> bool" where
  "sensitiveFieldMap mk k = (k \<in> set (mk_fields mk))"

definition mask_value :: "masks \<Rightarrow> string \<Rightarrow> lval \<Rightarrow> lval go" where
  "mask_value mk k v = (case mk_funcs mk k of Some dfunc \<Rightarrow> dfunc v | None \<Rightarrow> Some (LStr MASKSTR))"

section \<open>Texts\<close>

definition IsJSON :: "string \<Rightarrow> bool" where
  "IsJSON s = (case TrimLeftSpace s of [] \<Rightarrow> False | c # cs \<Rightarrow> c = CHR ''{'' \<or> c = CHR ''['')"

definition IsXML :: "string \<Rightarrow> bool" where
  "IsXML s = (case TrimLeftSpace s of [] \<Rightarrow> False | c # cs \<Rightarrow> c = CHR ''<'')"

text \<open>Exactly one JSON value: after it only white space, where the decoder reports the end.\<close>

definition json_space :: "char \<Rightarrow> bool" where
  "json_space c \<longleftrightarrow> c \<in> {CHR '' '', CHR 0x09, CHR 0x0A, CHR 0x0D}"

definition decode_one :: "codecs \<Rightarrow> string \<Rightarrow> lval option" where
  "decode_one cd s = (case js_Decode cd s of Some (obj, rest) \<Rightarrow> if list_all json_space rest then Some obj else None | None \<Rightarrow> None)"

definition desensitizeJSON :: "codecs \<Rightarrow> (lval \<Rightarrow> lval go) \<Rightarrow> string \<Rightarrow> lval go" where
  "desensitizeJSON cd rec s =
     (case decode_one cd s of
        None \<Rightarrow> Some (LStr s)
      | Some obj \<Rightarrow>
          (case rec obj of
             None \<Rightarrow> None
           | Some v \<Rightarrow> (case js_Marshal cd v of None \<Rightarrow> Some (LStr MASKSTR) | Some bs \<Rightarrow> Some (LJson bs))))"

text \<open>The text of a sensitive element is masked; a function that does not return a string is a panic.\<close>

fun desensitizeXMLNode :: "masks \<Rightarrow> xmlNode \<Rightarrow> xmlNode go" where
  "desensitizeXMLNode mk (XmlNode name txt nodes) =
     (if sensitiveFieldMap mk name
      then (case mk_funcs mk name of
              None \<Rightarrow> Some (XmlNode name MASKSTR nodes)
            | Some dfunc \<Rightarrow> (case dfunc (LStr txt) of Some (LStr t) \<Rightarrow> Some (XmlNode name t nodes) | _ \<Rightarrow> None))
      else map_option (XmlNode name txt) (those (map (desensitizeXMLNode mk) nodes)))"

definition desensitizeString :: "masks \<Rightarrow> codecs \<Rightarrow> (lval \<Rightarrow> lval go) \<Rightarrow> string \<Rightarrow> lval go" where
  "desensitizeString mk cd rec s =
     (if IsJSON s then desensitizeJSON cd rec s
      else if IsXML s
      then (case xml_Unmarshal cd s of
              None \<Rightarrow> Some (LStr s)
            | Some node \<Rightarrow> map_option (\<lambda>node. LStr (xml_Marshal cd node)) (desensitizeXMLNode mk node))
      else Some (LStr s))"

section \<open>Containers\<close>

text \<open>A Go map with string keys, filled in the order of a list.\<close>

definition go_map :: "(string \<times> lval) list \<Rightarrow> lval" where
  "go_map kvs = LMap (map (map_prod KStr id) (fold (\<lambda>(k, v). AList.update k v) kvs []))"

definition desensitizeMap :: "masks \<Rightarrow> (lval \<Rightarrow> lval go) \<Rightarrow> (mkey \<times> lval) list \<Rightarrow> lval go" where
  "desensitizeMap mk rec kvs =
     map_option go_map (those (map (\<lambda>(k, fieldVal).
       let keyStr = key_string k in
       map_option (Pair keyStr) (if sensitiveFieldMap mk keyStr then mask_value mk keyStr fieldVal else rec fieldVal)) kvs))"

definition desensitizeStruct :: "masks \<Rightarrow> (lval \<Rightarrow> lval go) \<Rightarrow> (string \<times> bool \<times> lval) list \<Rightarrow> lval go" where
  "desensitizeStruct mk rec fds =
     map_option go_map (those (map (\<lambda>(name, exported, fieldVal).
       map_option (Pair name)
         (if \<not> exported then Some (LReflect fieldVal)
          else if sensitiveFieldMap mk name then mask_value mk name fieldVal else rec fieldVal)) fds))"

definition desensitizeSlice :: "(lval \<Rightarrow> lval go) \<Rightarrow> lval list \<Rightarrow> lval go" where
  "desensitizeSlice rec items = map_option LSlice (those (map rec items))"

section \<open>The walk\<close>

text \<open>A pointer to a value whose type implements \<^verbatim>\<open>error\<close> implements it too.\<close>

fun is_error :: "lval \<Rightarrow> bool" where
  "is_error (LErr u) = True"
| "is_error (LPtr (Some (LErr u))) = True"
| "is_error v = False"

text \<open>What the chain of pointers ends at; \<^const>\<open>None\<close> is a nil pointer on the way.\<close>

fun strip :: "lval \<Rightarrow> lval option" where
  "strip (LPtr None) = None"
| "strip (LPtr (Some v)) = strip v"
| "strip (LErr u) = strip u"
| "strip v = Some v"

fun elem :: "lval \<Rightarrow> lval" where
  "elem (LIface v) = v"
| "elem v = v"

lemma strip_size: "strip v = Some x \<Longrightarrow> size x \<le> size v"
  by (induction v rule: strip.induct) auto

lemma parts_size:
  "(k, x) \<in> set kvs \<Longrightarrow> size x < size (LMap kvs)" "(nm, ex, x) \<in> set fds \<Longrightarrow> size x < size (LStruct fds)" "x \<in> set items \<Longrightarrow> size x < size (LSlice items)"
proof -
  show "(k, x) \<in> set kvs \<Longrightarrow> size x < size (LMap kvs)" by (induction kvs) auto
  show "(nm, ex, x) \<in> set fds \<Longrightarrow> size x < size (LStruct fds)" by (induction fds) auto
  show "x \<in> set items \<Longrightarrow> size x < size (LSlice items)" by (induction items) auto
qed

lemma desensitizeMap_cong [fundef_cong]:
  assumes "mk = mk'" "kvs = kvs'" "\<And>k x. (k, x) \<in> set kvs' \<Longrightarrow> rec x = rec' x"
  shows "desensitizeMap mk rec kvs = desensitizeMap mk' rec' kvs'"
proof -
  have "map (\<lambda>(k, x). let s = key_string k in map_option (Pair s) (if sensitiveFieldMap mk' s then mask_value mk' s x else rec x)) kvs' =
    map (\<lambda>(k, x). let s = key_string k in map_option (Pair s) (if sensitiveFieldMap mk' s then mask_value mk' s x else rec' x)) kvs'"
    using assms(3) by (intro map_cong) (auto simp: Let_def)
  then show ?thesis unfolding desensitizeMap_def assms(1,2) by (simp only:)
qed

lemma desensitizeStruct_cong [fundef_cong]:
  assumes "mk = mk'" "fs = fs'" "\<And>n e x. (n, e, x) \<in> set fs' \<Longrightarrow> rec x = rec' x"
  shows "desensitizeStruct mk rec fs = desensitizeStruct mk' rec' fs'"
proof -
  have "map (\<lambda>(n, e, x). map_option (Pair n) (if \<not> e then Some (LReflect x) else if sensitiveFieldMap mk' n then mask_value mk' n x else rec x)) fs' =
    map (\<lambda>(n, e, x). map_option (Pair n) (if \<not> e then Some (LReflect x) else if sensitiveFieldMap mk' n then mask_value mk' n x else rec' x)) fs'"
    using assms(3) by (intro map_cong) auto
  then show ?thesis unfolding desensitizeStruct_def assms(1,2) by (simp only:)
qed

lemma desensitizeSlice_cong [fundef_cong]:
  "xs = xs' \<Longrightarrow> (\<And>x. x \<in> set xs' \<Longrightarrow> rec x = rec' x) \<Longrightarrow> desensitizeSlice rec xs = desensitizeSlice rec' xs'"
  by (simp add: desensitizeSlice_def cong: map_cong)

text \<open>\<open>descend\<close> is the walk into decoded JSON, with less fuel.\<close>

function Desensitize :: "masks \<Rightarrow> codecs \<Rightarrow> nat \<Rightarrow> lval \<Rightarrow> lval go" where
  "Desensitize mk cd n v =
     (let descend = (\<lambda>obj. case n of 0 \<Rightarrow> None | Suc m \<Rightarrow> Desensitize mk cd m obj) in
      if v = LNil then Some LNil
      else if is_error v then Some v
      else case strip v of
             None \<Rightarrow> Some LNil
           | Some val \<Rightarrow>
               (case elem val of
                  LNum s \<Rightarrow> Some (LNum s)
                | LRaw None \<Rightarrow> Some LNil
                | LRaw (Some s) \<Rightarrow> desensitizeJSON cd descend s
                | LJson s \<Rightarrow> desensitizeJSON cd descend s
                | _ \<Rightarrow>
                    (case val of
                       LStr s \<Rightarrow> desensitizeString mk cd descend s
                     | LMap kvs \<Rightarrow> desensitizeMap mk (Desensitize mk cd n) kvs
                     | LStruct fds \<Rightarrow> desensitizeStruct mk (Desensitize mk cd n) fds
                     | LSlice items \<Rightarrow> desensitizeSlice (Desensitize mk cd n) items
                     | _ \<Rightarrow> Some v)))"
  by pat_completeness auto
termination
  by (relation "measures [\<lambda>(mk, cd, n, v). n, \<lambda>(mk, cd, n, v). size v]") (auto dest!: strip_size dest: parts_size)

declare Desensitize.simps [simp del]

section \<open>Attributes\<close>

text \<open>Without masking, JSON text is still shown as JSON.  The result is the new value, if there is one.\<close>

definition json_text_attr :: "codecs \<Rightarrow> string \<Rightarrow> lval option" where
  "json_text_attr cd s = (if IsJSON s \<and> js_Valid cd s then Some (LJson s) else None)"

function expandJSONFields :: "codecs \<Rightarrow> lval \<Rightarrow> lval \<times> bool" where
  "expandJSONFields cd v =
     (case v of
        LStr s \<Rightarrow> (case json_text_attr cd s of Some x \<Rightarrow> (x, True) | None \<Rightarrow> (LNil, False))
      | LMap kvs \<Rightarrow>
          let es = map (\<lambda>(k, item). (k, item, expandJSONFields cd item)) kvs in
          (LMap (map (\<lambda>(k, item, x, ok). (k, if ok then x else item)) es), list_ex (\<lambda>(k, item, x, ok). ok) es)
      | LSlice items \<Rightarrow>
          let es = map (\<lambda>item. (item, expandJSONFields cd item)) items in
          (LSlice (map (\<lambda>(item, x, ok). if ok then x else item) es), list_ex (\<lambda>(item, x, ok). ok) es)
      | _ \<Rightarrow> (v, False))"
  by pat_completeness auto
termination
  by (relation "measure (\<lambda>(cd, v). size v)") (auto dest: parts_size)

declare expandJSONFields.simps [simp del]

definition jsonContainerAttrValue :: "codecs \<Rightarrow> lval \<Rightarrow> lval option" where
  "jsonContainerAttrValue cd v =
     (case js_Marshal cd v of
        None \<Rightarrow> None
      | Some bs \<Rightarrow>
          (case js_Decode cd bs of
             None \<Rightarrow> None
           | Some (obj, rest) \<Rightarrow>
               (case expandJSONFields cd obj of
                  (obj, changed) \<Rightarrow> if changed then map_option LJson (js_Marshal cd obj) else None)))"

definition jsonAttrValue :: "codecs \<Rightarrow> lval \<Rightarrow> lval option" where
  "jsonAttrValue cd v =
     (if is_error v \<or> v = LNil then None
      else case strip v of
             None \<Rightarrow> None
           | Some val \<Rightarrow>
               (case elem val of
                  LJson s \<Rightarrow> Some (LJson s)
                | LRaw None \<Rightarrow> Some LNil
                | LRaw (Some s) \<Rightarrow> Some (if js_Valid cd s then LJson s else LStr s)
                | _ \<Rightarrow>
                    (case val of
                       LStr s \<Rightarrow> json_text_attr cd s
                     | LNum s \<Rightarrow> json_text_attr cd s
                     | LStruct fds \<Rightarrow> jsonContainerAttrValue cd v
                     | LMap kvs \<Rightarrow> jsonContainerAttrValue cd v
                     | LSlice items \<Rightarrow> jsonContainerAttrValue cd v
                     | _ \<Rightarrow> None)))"

type_synonym attr = "string \<times> lval"

definition ignored_keys :: "string list" where
  "ignored_keys = [''time'', ''level'', ''msg'', ''source'', ''call_client_service'', ''client_service'', ''trace_depth'', ''srcFile'', ''fn'', ''cost'', ''request_id'', ''trace_id'']"

definition DesensitizeReplaceAttr :: "masks \<Rightarrow> codecs \<Rightarrow> nat \<Rightarrow> glogconf \<Rightarrow> attr \<Rightarrow> attr go" where
  "DesensitizeReplaceAttr mk cd n conf a =
     (if fst a \<in> set ignored_keys then Some a
      else if lc_DesensitizeField conf = [] then Some (fst a, case jsonAttrValue cd (snd a) of Some value \<Rightarrow> value | None \<Rightarrow> snd a)
      else map_option (Pair (fst a)) (if sensitiveFieldMap mk (fst a) then mask_value mk (fst a) (snd a) else Desensitize mk cd n (snd a)))"

section \<open>Values that differ only in secrets\<close>

text \<open>
  What a secret is, without reference to the code: the value of a field whose name was configured.  Two values of such a field may differ in any way, unless
  a function was registered for the field; then they must have the same image under it, because it decides what is shown.
\<close>

definition secret :: "masks \<Rightarrow> string \<Rightarrow> bool" where
  "secret mk k \<longleftrightarrow> k \<in> set (mk_fields mk)"

definition hidden :: "masks \<Rightarrow> string \<Rightarrow> lval \<Rightarrow> lval \<Rightarrow> bool" where
  "hidden mk k a b \<longleftrightarrow> secret mk k \<and> (\<forall>f. mk_funcs mk k = Some f \<longrightarrow> f a = f b)"

inductive xml_agree :: "masks \<Rightarrow> xmlNode \<Rightarrow> xmlNode \<Rightarrow> bool" for mk where
  hidden: "hidden mk name (LStr t) (LStr u) \<Longrightarrow> xml_agree mk (XmlNode name t ns) (XmlNode name u ns)"
| same: "length ns = length ms \<Longrightarrow> \<forall>i < length ns. xml_agree mk (ns ! i) (ms ! i) \<Longrightarrow> \<not> secret mk name \<Longrightarrow>
     xml_agree mk (XmlNode name t ns) (XmlNode name t ms)"

text \<open>A text that begins with one of some characters, after white space; \<open>n\<close> pointers to a value.\<close>

definition opens_with :: "string \<Rightarrow> string \<Rightarrow> bool" where
  "opens_with cs s \<longleftrightarrow> (\<exists>ws c r. s = ws @ c # r \<and> list_all json_space ws \<and> c \<in> set cs)"

primrec pointers :: "nat \<Rightarrow> lval \<Rightarrow> lval" where
  "pointers 0 v = v"
| "pointers (Suc n) v = LPtr (Some (pointers n v))"

definition json_source :: "codecs \<Rightarrow> lval \<Rightarrow> lval \<Rightarrow> bool" where
  "json_source cd x a \<longleftrightarrow>
     (\<exists>s rest. (x \<in> {LRaw (Some s), LJson s} \<or> x = LStr s \<and> opens_with ''{['' s) \<and> js_Decode cd s = Some (a, rest) \<and> list_all json_space rest)"

text \<open>\<open>agree\<close> relates values, \<open>contents\<close> what their pointers end at.  Two texts are related if they are JSON or XML with related structures.\<close>

inductive agree :: "masks \<Rightarrow> codecs \<Rightarrow> lval \<Rightarrow> lval \<Rightarrow> bool" and contents :: "masks \<Rightarrow> codecs \<Rightarrow> lval \<Rightarrow> lval \<Rightarrow> bool" for mk cd where
  equal: "agree mk cd v v"
| inside: "contents mk cd x y \<Longrightarrow> agree mk cd (pointers i x) (pointers j y)"
| map: "length kvs = length kvs' \<Longrightarrow>
     \<forall>i < length kvs. fst (kvs ! i) = fst (kvs' ! i) \<and>
       (hidden mk (key_string (fst (kvs ! i))) (snd (kvs ! i)) (snd (kvs' ! i)) \<or>
        \<not> secret mk (key_string (fst (kvs ! i))) \<and> agree mk cd (snd (kvs ! i)) (snd (kvs' ! i))) \<Longrightarrow>
     contents mk cd (LMap kvs) (LMap kvs')"
| struct: "length fds = length fds' \<Longrightarrow>
     \<forall>i < length fds. case (fds ! i, fds' ! i) of ((nm, ex, a), (nm', ex', b)) \<Rightarrow>
       nm = nm' \<and> ex = ex' \<and> (a = b \<or> ex \<and> (hidden mk nm a b \<or> \<not> secret mk nm \<and> agree mk cd a b)) \<Longrightarrow>
     contents mk cd (LStruct fds) (LStruct fds')"
| slice: "length xs = length ys \<Longrightarrow> \<forall>i < length xs. agree mk cd (xs ! i) (ys ! i) \<Longrightarrow> contents mk cd (LSlice xs) (LSlice ys)"
| json: "json_source cd x a \<Longrightarrow> json_source cd y b \<Longrightarrow> agree mk cd a b \<Longrightarrow> contents mk cd x y"
| xml: "opens_with ''<'' s \<Longrightarrow> opens_with ''<'' t \<Longrightarrow> xml_Unmarshal cd s = Some nd \<Longrightarrow> xml_Unmarshal cd t = Some nd' \<Longrightarrow> xml_agree mk nd nd' \<Longrightarrow>
     contents mk cd (LStr s) (LStr t)"

section \<open>Noninterference\<close>

abbreviation descend :: "masks \<Rightarrow> codecs \<Rightarrow> nat \<Rightarrow> lval \<Rightarrow> lval go" where
  "descend mk cd n \<equiv> (\<lambda>obj. case n of 0 \<Rightarrow> None | Suc m \<Rightarrow> Desensitize mk cd m obj)"

lemma Desensitize_contents:
  assumes "\<not> is_error v"
  shows "strip v = Some (LMap kvs) \<Longrightarrow> Desensitize mk cd n v = desensitizeMap mk (Desensitize mk cd n) kvs"
    "strip v = Some (LStruct fds) \<Longrightarrow> Desensitize mk cd n v = desensitizeStruct mk (Desensitize mk cd n) fds"
    "strip v = Some (LSlice xs) \<Longrightarrow> Desensitize mk cd n v = desensitizeSlice (Desensitize mk cd n) xs"
    "strip v = Some (LStr s) \<Longrightarrow> Desensitize mk cd n v = desensitizeString mk cd (descend mk cd n) s"
    "strip v = Some x \<Longrightarrow> x \<in> {LRaw (Some s), LJson s} \<or> x = LStr s \<and> IsJSON s \<Longrightarrow> Desensitize mk cd n v = desensitizeJSON cd (descend mk cd n) s"
proof -
  have nil: "strip v = Some y \<Longrightarrow> y \<noteq> LNil \<Longrightarrow> v \<noteq> LNil" for y by auto
  note eq = Desensitize.simps [of mk cd n v]
  show "strip v = Some (LMap kvs) \<Longrightarrow> Desensitize mk cd n v = desensitizeMap mk (Desensitize mk cd n) kvs" using assms nil by (subst eq) auto
  show "strip v = Some (LStruct fds) \<Longrightarrow> Desensitize mk cd n v = desensitizeStruct mk (Desensitize mk cd n) fds" using assms nil by (subst eq) auto
  show "strip v = Some (LSlice xs) \<Longrightarrow> Desensitize mk cd n v = desensitizeSlice (Desensitize mk cd n) xs" using assms nil by (subst eq) auto
  show str: "strip v = Some (LStr s) \<Longrightarrow> Desensitize mk cd n v = desensitizeString mk cd (descend mk cd n) s" using assms nil by (subst eq) auto
  show "Desensitize mk cd n v = desensitizeJSON cd (descend mk cd n) s"
    if x: "strip v = Some x" "x \<in> {LRaw (Some s), LJson s} \<or> x = LStr s \<and> IsJSON s"
  proof (cases "x = LStr s")
    case True
    then show ?thesis using x str by (auto simp: desensitizeString_def)
  next
    case False
    then have "x = LRaw (Some s) \<or> x = LJson s" using x(2) by simp
    then show ?thesis using x(1) assms nil [of x] by (subst eq) auto
  qed
qed

lemma those_cong: "length xs = length ys \<Longrightarrow> \<forall>i < length xs. f (xs ! i) = g (ys ! i) \<Longrightarrow> those (map f xs) = those (map g ys)"
proof -
  assume "length xs = length ys" "\<forall>i < length xs. f (xs ! i) = g (ys ! i)"
  then have "map f xs = map g ys" by (simp add: list_eq_iff_nth_eq)
  then show ?thesis by simp
qed

lemma secret_sensitive: "sensitiveFieldMap mk k = secret mk k"
  by (simp add: sensitiveFieldMap_def secret_def)

lemma hidden_masked: "hidden mk k a b \<Longrightarrow> mask_value mk k a = mask_value mk k b"
  by (auto simp: hidden_def mask_value_def split: option.split)

lemma field_masked:
  "hidden mk k a b \<or> \<not> secret mk k \<and> f a = f b \<Longrightarrow>
   (if sensitiveFieldMap mk k then mask_value mk k a else f a) = (if sensitiveFieldMap mk k then mask_value mk k b else f b)"
  using hidden_masked by (auto simp: secret_sensitive hidden_def)

lemma masked_maps:
  assumes "length kvs = length kvs'"
    and "\<And>i k a k' b. i < length kvs \<Longrightarrow> kvs ! i = (k, a) \<Longrightarrow> kvs' ! i = (k', b) \<Longrightarrow>
      k = k' \<and> (hidden mk (key_string k) a b \<or> \<not> secret mk (key_string k) \<and> rec a = rec b)"
  shows "desensitizeMap mk rec kvs = desensitizeMap mk rec kvs'"
  unfolding desensitizeMap_def
proof (rule arg_cong [of _ _ "map_option go_map"], rule those_cong [OF assms(1)], intro allI impI)
  fix i assume i: "i < length kvs"
  obtain k a where a: "kvs ! i = (k, a)" by fastforce
  obtain k' b where b: "kvs' ! i = (k', b)" by fastforce
  have "k = k'" "hidden mk (key_string k) a b \<or> \<not> secret mk (key_string k) \<and> rec a = rec b" using assms(2) [OF i a b] by blast+
  from this(1) field_masked [OF this(2)] show "(case kvs ! i of (k, x) \<Rightarrow> let s = key_string k in map_option (Pair s) (if sensitiveFieldMap mk s then mask_value mk s x else rec x)) =
    (case kvs' ! i of (k, x) \<Rightarrow> let s = key_string k in map_option (Pair s) (if sensitiveFieldMap mk s then mask_value mk s x else rec x))"
    unfolding a b Let_def prod.case by (simp only:)
qed

lemma masked_structs:
  assumes "length fds = length fds'"
    and "\<And>i nm ex a nm' ex' b. i < length fds \<Longrightarrow> fds ! i = (nm, ex, a) \<Longrightarrow> fds' ! i = (nm', ex', b) \<Longrightarrow>
      nm = nm' \<and> ex = ex' \<and> (a = b \<or> ex \<and> (hidden mk nm a b \<or> \<not> secret mk nm \<and> rec a = rec b))"
  shows "desensitizeStruct mk rec fds = desensitizeStruct mk rec fds'"
  unfolding desensitizeStruct_def
proof (rule arg_cong [of _ _ "map_option go_map"], rule those_cong [OF assms(1)], intro allI impI)
  fix i assume i: "i < length fds"
  obtain nm ex a where a: "fds ! i = (nm, ex, a)" by (metis prod_cases3)
  obtain nm' ex' b where b: "fds' ! i = (nm', ex', b)" by (metis prod_cases3)
  have e: "nm = nm'" "ex = ex'" and f: "a = b \<or> ex \<and> (hidden mk nm a b \<or> \<not> secret mk nm \<and> rec a = rec b)" using assms(2) [OF i a b] by blast+
  from f show "(case fds ! i of (n, e, x) \<Rightarrow> map_option (Pair n) (if \<not> e then Some (LReflect x) else if sensitiveFieldMap mk n then mask_value mk n x else rec x)) =
    (case fds' ! i of (n, e, x) \<Rightarrow> map_option (Pair n) (if \<not> e then Some (LReflect x) else if sensitiveFieldMap mk n then mask_value mk n x else rec x))"
  proof
    assume "ex \<and> (hidden mk nm a b \<or> \<not> secret mk nm \<and> rec a = rec b)"
    then have "\<not> \<not> ex" "(if sensitiveFieldMap mk nm then mask_value mk nm a else rec a) = (if sensitiveFieldMap mk nm then mask_value mk nm b else rec b)"
      using field_masked [of mk nm a b rec] by blast+
    then show ?thesis unfolding a b prod.case e [symmetric] by (simp only: if_False if_True not_True_eq_False not_not)
  qed (simp add: a b e)
qed

lemma xml_agree_masked: "xml_agree mk nd nd' \<Longrightarrow> desensitizeXMLNode mk nd = desensitizeXMLNode mk nd'"
proof (induction rule: xml_agree.induct)
  case (hidden name t u ns)
  then show ?case by (auto simp: hidden_def secret_sensitive split: option.split)
next
  case (same ns ms name t)
  then have "those (map (desensitizeXMLNode mk) ns) = those (map (desensitizeXMLNode mk) ms)" by (intro those_cong) auto
  with same show ?case by (simp add: secret_sensitive)
qed

lemma TrimLeft_open:
  assumes "opens_with cs s" "set cs \<subseteq> set ''{[<''" shows "\<exists>c r. TrimLeftSpace s = c # r \<and> c \<in> set cs"
proof -
  obtain ws c r where s: "s = ws @ c # r" "list_all json_space ws" "c \<in> set cs" using assms(1) by (auto simp: opens_with_def)
  have "list_all (\<lambda>c. \<not> space_byte c) ''{[<''" by code_simp
  then have "\<not> space_byte c" using s(3) assms(2) by (auto simp: list_all_iff)
  then have "TrimLeftSpace (c # r) = c # r" by (rule TrimLeftSpace_Cons)
  moreover have "TrimLeftSpace (w # t) = TrimLeftSpace t" if "json_space w" for w t
  proof -
    have "first_match space_seqs (w # t) = 1" using that unfolding json_space_def
      by (elim insertE emptyE) (simp_all add: first_match_def space_seqs_def)
    then show ?thesis unfolding TrimLeftSpace_def by (subst trim_seqs.simps) simp
  qed
  then have "TrimLeftSpace (ws @ c # r) = TrimLeftSpace (c # r)" using s(2) by (induction ws) auto
  ultimately show ?thesis using s by auto
qed

lemma opens_json: "opens_with ''{['' s \<Longrightarrow> IsJSON s"
  using TrimLeft_open [of "''{[''" s] by (auto simp: IsJSON_def)

lemma opens_xml: "opens_with ''<'' s \<Longrightarrow> IsXML s \<and> \<not> IsJSON s"
  using TrimLeft_open [of "''<''" s] by (auto simp: IsJSON_def IsXML_def)

lemma strip_pointers: "strip (pointers n x) = strip x"
  by (induction n) auto

definition visited :: "lval \<Rightarrow> bool" where
  "visited x \<longleftrightarrow> (case x of LMap _ \<Rightarrow> True | LStruct _ \<Rightarrow> True | LSlice _ \<Rightarrow> True | LStr _ \<Rightarrow> True | LRaw _ \<Rightarrow> True | LJson _ \<Rightarrow> True | _ \<Rightarrow> False)"

lemma visited_plain: "visited x \<Longrightarrow> strip (pointers n x) = Some x" "visited x \<Longrightarrow> \<not> is_error (pointers n x)"
proof -
  assume x: "visited x"
  show "strip (pointers n x) = Some x" using x by (cases x) (simp_all add: strip_pointers visited_def)
  show "\<not> is_error (pointers n x)" using x by (cases n rule: nat.exhaust; cases "n - 1"; cases x) (simp_all add: visited_def)
qed

lemma contents_visited: "contents mk cd x y \<Longrightarrow> visited x \<and> visited y"
  by (cases rule: contents.cases) (auto simp: json_source_def visited_def)

lemma json_source_masked:
  assumes "json_source cd x a" "\<not> is_error v" "strip v = Some x"
  obtains s where "decode_one cd s = Some a" "Desensitize mk cd n v = desensitizeJSON cd (descend mk cd n) s"
proof -
  obtain s where s: "x \<in> {LRaw (Some s), LJson s} \<or> x = LStr s \<and> IsJSON s" "decode_one cd s = Some a"
    using assms(1) opens_json by (auto simp: json_source_def decode_one_def)
  then show thesis using that Desensitize_contents(5) [OF assms(2,3) s(1)] by blast
qed

lemma agree_masked:
  "agree mk cd v w \<Longrightarrow> Desensitize mk cd n v = Desensitize mk cd n w"
  "contents mk cd x y \<Longrightarrow> \<not> is_error v \<Longrightarrow> \<not> is_error w \<Longrightarrow> strip v = Some x \<Longrightarrow> strip w = Some y \<Longrightarrow> Desensitize mk cd n v = Desensitize mk cd n w"
proof (induction v w and x y arbitrary: n and v w n rule: agree_contents.inducts)
  case (inside x y i j)
  show ?case by (rule inside(2)) (use contents_visited [OF inside(1)] visited_plain in simp_all)
next
  case (map kvs kvs')
  have "desensitizeMap mk (Desensitize mk cd n) kvs = desensitizeMap mk (Desensitize mk cd n) kvs'"
  proof (rule masked_maps [OF map(1)])
    fix i k a k' b assume "i < length kvs" "kvs ! i = (k, a)" "kvs' ! i = (k', b)"
    then show "k = k' \<and> (hidden mk (key_string k) a b \<or> \<not> secret mk (key_string k) \<and> Desensitize mk cd n a = Desensitize mk cd n b)" using map(2) by fastforce
  qed
  then show ?case using Desensitize_contents(1) map.prems by simp
next
  case (struct fds fds')
  have "desensitizeStruct mk (Desensitize mk cd n) fds = desensitizeStruct mk (Desensitize mk cd n) fds'"
  proof (rule masked_structs [OF struct(1)])
    fix i nm ex a nm' ex' b assume "i < length fds" "fds ! i = (nm, ex, a)" "fds' ! i = (nm', ex', b)"
    then show "nm = nm' \<and> ex = ex' \<and> (a = b \<or> ex \<and> (hidden mk nm a b \<or> \<not> secret mk nm \<and> Desensitize mk cd n a = Desensitize mk cd n b))" using struct(2) by fastforce
  qed
  then show ?case using Desensitize_contents(2) struct.prems by simp
next
  case (slice xs ys)
  have "desensitizeSlice (Desensitize mk cd n) xs = desensitizeSlice (Desensitize mk cd n) ys"
    unfolding desensitizeSlice_def by (rule arg_cong [of _ _ "map_option LSlice"], rule those_cong [OF slice(1)]) (use slice(2) in auto)
  then show ?case using Desensitize_contents(3) slice.prems by simp
next
  case (json x a y b)
  obtain s where s: "decode_one cd s = Some a" "Desensitize mk cd n v = desensitizeJSON cd (descend mk cd n) s"
    by (rule json_source_masked [OF json(1) json.prems(1,3)])
  obtain t where t: "decode_one cd t = Some b" "Desensitize mk cd n w = desensitizeJSON cd (descend mk cd n) t"
    by (rule json_source_masked [OF json(2) json.prems(2,4)])
  have "descend mk cd n a = descend mk cd n b" using json.IH by (cases n) auto
  then show ?case using s t by (simp add: desensitizeJSON_def)
next
  case (xml s t nd nd')
  then show ?case using Desensitize_contents(4) xml_agree_masked [OF xml(5)] opens_xml by (simp add: desensitizeString_def)
qed simp

text \<open>Secrets do not show.  Two attributes with the same key whose values differ only in the values of configured fields, at any depth of maps, structs, slices, pointers
  and of JSON and XML text, are logged as the same attribute, whatever the codecs are: the output tells nothing about a masked value
  beyond what its masking function returns.\<close>

lemma masking_noninterference:
  assumes "lc_DesensitizeField conf \<noteq> []" "k \<notin> set ignored_keys" "hidden mk k v w \<or> \<not> secret mk k \<and> agree mk cd v w"
  shows "DesensitizeReplaceAttr mk cd n conf (k, v) = DesensitizeReplaceAttr mk cd n conf (k, w)"
  using assms agree_masked(1) hidden_masked [of mk k v w] by (auto simp: DesensitizeReplaceAttr_def hidden_def secret_sensitive)

definition demo_codecs :: codecs where
  "demo_codecs = \<lparr>
     js_Decode = (\<lambda>s. case s of [] \<Rightarrow> None | c # rest \<Rightarrow> if c = CHR ''{'' then Some (LMap [(KStr ''password'', LStr rest)], []) else None),
     js_Valid = (\<lambda>s. True),
     js_Marshal = (\<lambda>v. case v of LMap [(KStr k, LStr s)] \<Rightarrow> Some (CHR ''{'' # k @ s) | _ \<Rightarrow> None),
     xml_Unmarshal = (\<lambda>s. None), xml_Marshal = xml_content\<rparr>"

definition demo_masks :: masks where
  "demo_masks = \<lparr>mk_fields = [''password''], mk_funcs = Map.empty\<rparr>"

lemma demo_hidden: "hidden demo_masks ''password'' a b"
  by (simp add: hidden_def demo_masks_def secret_def)

text \<open>JSON text with the secret inside.\<close>

lemma demo_agree: "agree demo_masks demo_codecs (LStr (CHR ''{'' # a)) (LStr (CHR ''{'' # b))"
proof -
  have "contents demo_masks demo_codecs (LMap [(KStr ''password'', LStr a)]) (LMap [(KStr ''password'', LStr b)])"
    by (rule agree_contents.map) (simp_all add: demo_hidden)
  then have "agree demo_masks demo_codecs (LMap [(KStr ''password'', LStr a)]) (LMap [(KStr ''password'', LStr b)])"
    using agree_contents.inside [where i = 0 and j = 0] by simp
  moreover have "json_source demo_codecs (LStr (CHR ''{'' # c)) (LMap [(KStr ''password'', LStr c)])" for c
  proof -
    have "opens_with ''{['' (CHR ''{'' # c)" unfolding opens_with_def by (intro exI [of _ "[]"] exI [of _ "CHR ''{''"] exI [of _ c]) simp
    then show ?thesis by (simp add: json_source_def demo_codecs_def)
  qed
  ultimately have "contents demo_masks demo_codecs (LStr (CHR ''{'' # a)) (LStr (CHR ''{'' # b))" by (intro agree_contents.json)
  then show ?thesis using agree_contents.inside [where i = 0 and j = 0] by simp
qed

section \<open>Totality\<close>

text \<open>The texts of a value, and what the codec and the functions must keep: a text inside decoded JSON is smaller than the JSON, and a masking function returns, a string for a string.\<close>

fun texts :: "lval \<Rightarrow> string list" where
  "texts (LRaw (Some s)) = [s]"
| "texts (LJson s) = [s]"
| "texts (LStr s) = [s]"
| "texts (LMap kvs) = concat (map (\<lambda>kv. texts (snd kv)) kvs)"
| "texts (LStruct fds) = concat (map (\<lambda>fd. texts (snd (snd fd))) fds)"
| "texts (LSlice xs) = concat (map texts xs)"
| "texts (LPtr (Some v)) = texts v"
| "texts (LErr u) = texts u"
| "texts (LIface v) = texts v"
| "texts v = []"

definition json_shrinks :: "(string \<Rightarrow> nat) \<Rightarrow> codecs \<Rightarrow> bool" where
  "json_shrinks \<mu> cd \<longleftrightarrow> (\<forall>s v. decode_one cd s = Some v \<longrightarrow> (\<forall>t \<in> set (texts v). \<mu> t < \<mu> s))"

definition funcs_return :: "masks \<Rightarrow> bool" where
  "funcs_return mk \<longleftrightarrow> (\<forall>k f. mk_funcs mk k = Some f \<longrightarrow> (\<forall>v. f v \<noteq> None) \<and> (\<forall>t. \<exists>u. f (LStr t) = Some (LStr u)))"

lemma those_total: "(\<And>x. x \<in> set xs \<Longrightarrow> f x \<noteq> None) \<Longrightarrow> those (map f xs) \<noteq> None"
  by (induction xs) (auto split: option.splits)

lemma strip_texts: "strip v = Some x \<Longrightarrow> texts x = texts v"
  by (induction v rule: strip.induct) auto

lemma desensitizeXMLNode_total: "funcs_return mk \<Longrightarrow> desensitizeXMLNode mk nd \<noteq> None"
proof (induction nd)
  case (XmlNode name t ns)
  show ?case
  proof (cases "sensitiveFieldMap mk name")
    case True
    show ?thesis
    proof (cases "mk_funcs mk name")
      case (Some f)
      then obtain u where "f (LStr t) = Some (LStr u)" using XmlNode.prems unfolding funcs_return_def by blast
      with True Some show ?thesis by simp
    qed (use True in simp)
  next
    case False
    then show ?thesis using those_total [of ns "desensitizeXMLNode mk"] XmlNode.IH XmlNode.prems by auto
  qed
qed

lemma mask_value_total: "funcs_return mk \<Longrightarrow> mask_value mk k v \<noteq> None"
  by (auto simp: mask_value_def funcs_return_def split: option.splits)

lemma containers_total:
  assumes "funcs_return mk"
  shows "(\<And>k x. (k, x) \<in> set kvs \<Longrightarrow> rec x \<noteq> None) \<Longrightarrow> desensitizeMap mk rec kvs \<noteq> None"
    "(\<And>nm ex x. (nm, ex, x) \<in> set fds \<Longrightarrow> rec x \<noteq> None) \<Longrightarrow> desensitizeStruct mk rec fds \<noteq> None"
    "(\<And>x. x \<in> set xs \<Longrightarrow> rec x \<noteq> None) \<Longrightarrow> desensitizeSlice rec xs \<noteq> None"
  unfolding desensitizeMap_def desensitizeStruct_def desensitizeSlice_def option.map_disc_iff
  by (rule those_total; use mask_value_total [OF assms] in \<open>auto simp: Let_def\<close>)+

lemma Desensitize_total:
  assumes "funcs_return mk" "json_shrinks \<mu> cd"
  shows "(\<forall>t \<in> set (texts v). \<mu> t < n) \<Longrightarrow> Desensitize mk cd n v \<noteq> None"
proof (induction n arbitrary: v rule: less_induct)
  case (less n)
  have json: "desensitizeJSON cd (descend mk cd n) s \<noteq> None" if s: "\<mu> s < n" for s
  proof (cases n)
    case 0
    then show ?thesis using s by simp
  next
    case (Suc m)
    have "Desensitize mk cd m obj \<noteq> None" if o: "decode_one cd s = Some obj" for obj
    proof (rule less.IH)
      show "\<forall>t \<in> set (texts obj). \<mu> t < m" using assms(2) o s Suc unfolding json_shrinks_def by fastforce
    qed (simp add: Suc)
    then show ?thesis by (auto simp: desensitizeJSON_def Suc split: option.splits)
  qed
  have str: "desensitizeString mk cd (descend mk cd n) s \<noteq> None" if "\<mu> s < n" for s
    using json [OF that] desensitizeXMLNode_total [OF assms(1)] by (auto simp: desensitizeString_def split: option.splits)
  from less.prems show ?case
  proof (induction v rule: measure_induct_rule [of size])
    case (less v)
    show ?case
    proof (cases "v = LNil \<or> is_error v \<or> strip v = None")
      case True
      then show ?thesis by (subst Desensitize.simps) (auto simp: Let_def)
    next
      case False
      then obtain x where x: "strip v = Some x" "\<not> is_error v" "v \<noteq> LNil" by auto
      have tx: "\<forall>t \<in> set (texts x). \<mu> t < n" using less.prems strip_texts [OF x(1)] by simp
      have sub: "Desensitize mk cd n y \<noteq> None" if "size y < size x" "set (texts y) \<subseteq> set (texts x)" for y
        using less.IH [of y] that tx strip_size [OF x(1)] by auto
      note c = Desensitize_contents [OF x(2), where mk = mk and cd = cd and n = n]
      show ?thesis
      proof (cases x)
        case (LMap kvs)
        then have "Desensitize mk cd n y \<noteq> None" if "(k, y) \<in> set kvs" for k y using sub parts_size(1) [OF that] that by force
        then show ?thesis using c(1) x(1) LMap containers_total(1) [OF assms(1)] by metis
      next
        case (LStruct fds)
        then have "Desensitize mk cd n y \<noteq> None" if "(nm, ex, y) \<in> set fds" for nm ex y using sub parts_size(2) [OF that] that by force
        then show ?thesis using c(2) x(1) LStruct containers_total(2) [OF assms(1)] by metis
      next
        case (LSlice xs)
        then have "Desensitize mk cd n y \<noteq> None" if "y \<in> set xs" for y using sub parts_size(3) [OF that] that by force
        then show ?thesis using c(3) x(1) LSlice containers_total(3) [OF assms(1)] by metis
      next
        case (LStr s)
        then show ?thesis using c(4) x(1) str tx by simp
      next
        case (LRaw r)
        then show ?thesis using x json tx by (cases r) (subst Desensitize.simps, simp)+
      next
        case (LJson s)
        then show ?thesis using x json tx by (subst Desensitize.simps) simp
      next
        case (LIface y)
        then have "elem x = y" "\<forall>t \<in> set (texts y). \<mu> t < n" using tx by simp_all
        then show ?thesis using x json LIface by (subst Desensitize.simps, cases y) (auto simp: Let_def split: option.splits)
      qed (use x in \<open>subst Desensitize.simps, simp\<close>)+
    qed
  qed
qed

text \<open>More fuel changes no result.\<close>

definition refines :: "(lval \<Rightarrow> lval go) \<Rightarrow> (lval \<Rightarrow> lval go) \<Rightarrow> lval \<Rightarrow> bool" where
  "refines f g x \<longleftrightarrow> f x = None \<or> f x = g x"

lemma those_mono: "(\<And>x. x \<in> set xs \<Longrightarrow> f x = None \<or> f x = g x) \<Longrightarrow> those (map f xs) = None \<or> those (map f xs) = those (map g xs)"
proof (induction xs)
  case (Cons x xs)
  have "f x = None \<or> f x = g x" "those (map f xs) = None \<or> those (map f xs) = those (map g xs)" using Cons by simp_all
  then show ?case by (auto split: option.splits)
qed simp

lemma option_mono: "a = None \<or> a = b \<Longrightarrow> map_option f a = None \<or> map_option f a = map_option f b"
  by auto

lemma containers_mono:
  shows "(\<And>k x. (k, x) \<in> set kvs \<Longrightarrow> refines f g x) \<Longrightarrow> desensitizeMap mk f kvs = None \<or> desensitizeMap mk f kvs = desensitizeMap mk g kvs"
    "(\<And>nm ex x. (nm, ex, x) \<in> set fds \<Longrightarrow> refines f g x) \<Longrightarrow> desensitizeStruct mk f fds = None \<or> desensitizeStruct mk f fds = desensitizeStruct mk g fds"
    "(\<And>x. x \<in> set xs \<Longrightarrow> refines f g x) \<Longrightarrow> desensitizeSlice f xs = None \<or> desensitizeSlice f xs = desensitizeSlice g xs"
    "(\<And>x. refines f g x) \<Longrightarrow> desensitizeJSON cd f s = None \<or> desensitizeJSON cd f s = desensitizeJSON cd g s"
    "(\<And>x. refines f g x) \<Longrightarrow> desensitizeString mk cd f s = None \<or> desensitizeString mk cd f s = desensitizeString mk cd g s"
proof -
  show "(\<And>k x. (k, x) \<in> set kvs \<Longrightarrow> refines f g x) \<Longrightarrow> desensitizeMap mk f kvs = None \<or> desensitizeMap mk f kvs = desensitizeMap mk g kvs"
    unfolding desensitizeMap_def refines_def by (rule option_mono, rule those_mono) (auto simp: Let_def, metis)
  show "(\<And>nm ex x. (nm, ex, x) \<in> set fds \<Longrightarrow> refines f g x) \<Longrightarrow> desensitizeStruct mk f fds = None \<or> desensitizeStruct mk f fds = desensitizeStruct mk g fds"
    unfolding desensitizeStruct_def refines_def by (rule option_mono, rule those_mono) (auto split: if_splits, metis+)
  show "(\<And>x. x \<in> set xs \<Longrightarrow> refines f g x) \<Longrightarrow> desensitizeSlice f xs = None \<or> desensitizeSlice f xs = desensitizeSlice g xs"
    unfolding desensitizeSlice_def refines_def by (rule option_mono, rule those_mono) auto
  show json: "desensitizeJSON cd f s = None \<or> desensitizeJSON cd f s = desensitizeJSON cd g s" if "\<And>x. refines f g x"
    using that by (auto simp: desensitizeJSON_def refines_def split: option.splits) (metis option.simps(3) option.inject)+
  show "desensitizeString mk cd f s = None \<or> desensitizeString mk cd f s = desensitizeString mk cd g s" if "\<And>x. refines f g x"
    using json [OF that] by (auto simp: desensitizeString_def)
qed

lemma Desensitize_more_fuel: "refines (Desensitize mk cd n) (Desensitize mk cd (Suc n)) v"
proof (induction n arbitrary: v rule: less_induct)
  case (less n)
  have d: "refines (descend mk cd n) (descend mk cd (Suc n)) x" for x using less.IH by (cases n) (simp_all add: refines_def)
  note json = containers_mono(4) [OF d] and str = containers_mono(5) [OF d]
  show ?case
  proof (induction v rule: measure_induct_rule [of size])
    case (less v)
    show ?case
    proof (cases "v = LNil \<or> is_error v \<or> strip v = None")
      case True
      then show ?thesis unfolding refines_def Desensitize.simps [of mk cd _ v] by (auto simp: Let_def)
    next
      case False
      then obtain x where x: "strip v = Some x" "\<not> is_error v" "v \<noteq> LNil" by auto
      have sub: "refines (Desensitize mk cd n) (Desensitize mk cd (Suc n)) y" if "size y < size x" for y
        using less.IH [of y] that strip_size [OF x(1)] by simp
      note c = Desensitize_contents [OF x(2), where mk = mk and cd = cd]
      show ?thesis
      proof (cases x)
        case (LMap kvs)
        then show ?thesis using containers_mono(1) [of kvs, OF sub [OF parts_size(1) [of _ _ kvs, folded LMap]]] c(1) x(1) by (simp add: refines_def)
      next
        case (LStruct fds)
        then show ?thesis using containers_mono(2) [of fds, OF sub [OF parts_size(2) [of _ _ _ fds, folded LStruct]]] c(2) x(1) by (simp add: refines_def)
      next
        case (LSlice xs)
        then show ?thesis using containers_mono(3) [of xs, OF sub [OF parts_size(3) [of _ xs, folded LSlice]]] c(3) x(1) by (simp add: refines_def)
      next
        case (LStr s)
        then show ?thesis using str [of mk cd s] c(4) x(1) by (simp add: refines_def)
      next
        case (LRaw r)
        then show ?thesis unfolding refines_def Desensitize.simps [of mk cd _ v] using x json by (cases r) simp_all
      next
        case (LJson s)
        then show ?thesis unfolding refines_def Desensitize.simps [of mk cd _ v] using x json by simp
      next
        case (LIface y)
        then show ?thesis unfolding refines_def Desensitize.simps [of mk cd _ v] using x json by (cases y) (auto simp: Let_def split: option.splits)
      qed (use x in \<open>simp add: refines_def Desensitize.simps [of mk cd _ v]\<close>)+
    qed
  qed
qed

text \<open>C27: masking ends.  For every value without cycles (values are finite trees here): if every registered masking function returns, with a string when it is given a
  string, and JSON text inside decoded JSON is smaller than the text around it, the walk through the value ends without a panic, and from some fuel on with the same
  result.\<close>

theorem masking_total:
  assumes "funcs_return mk" "json_shrinks \<mu> cd"
  shows "\<exists>n r. \<forall>m \<ge> n. Desensitize mk cd m v = Some r"
proof -
  let ?n = "Suc (Max (insert 0 (\<mu> ` set (texts v))))"
  have "\<forall>t \<in> set (texts v). \<mu> t < ?n" by (simp add: less_Suc_eq_le)
  from Desensitize_total [OF assms this] obtain r where r: "Desensitize mk cd ?n v = Some r" by blast
  have "Desensitize mk cd m v = Some r" if "?n \<le> m" for m
    using that
  proof (induction m rule: nat_induct_at_least)
    case base
    show ?case by (rule r)
  next
    case (Suc m)
    then show ?case using Desensitize_more_fuel [of mk cd m v] by (simp add: refines_def)
  qed
  then show ?thesis by blast
qed

theorem masking_total_witness: "\<exists>n r. \<forall>m \<ge> n. Desensitize demo_masks demo_codecs m (LMap [(KStr ''body'', LStr ''{secret'')]) = Some r"
proof (rule masking_total)
  show "funcs_return demo_masks" by (simp add: funcs_return_def demo_masks_def)
  show "json_shrinks length demo_codecs" by (auto simp: json_shrinks_def decode_one_def demo_codecs_def split: list.splits if_splits)
qed

section \<open>What is not masked\<close>

text \<open>A field that is not exported is kept as it is, even if its name is sensitive.\<close>

lemma unexported_field_kept: "Desensitize mk cd n (LStruct [(nm, False, x)]) = Some (go_map [(nm, LReflect x)])"
  by (simp add: Desensitize_contents(2) desensitizeStruct_def)

text \<open>So the value of an attribute group, which \<^verbatim>\<open>slog\<close> keeps in private fields, is not looked into when the whole group is passed, as in the text format.\<close>

lemma group_members_kept:
  "\<not> sensitiveFieldMap mk ''Key'' \<Longrightarrow> \<not> sensitiveFieldMap mk ''Value'' \<Longrightarrow> \<not> IsJSON k \<Longrightarrow> \<not> IsXML k \<Longrightarrow>
   Desensitize mk cd n (LSlice [LStruct [(''Key'', True, LStr k), (''Value'', True, LStruct [(''any'', False, x)])]]) =
     Some (LSlice [go_map [(''Key'', LStr k), (''Value'', go_map [(''any'', LReflect x)])]])"
  by (simp add: Desensitize_contents(2,3,4) desensitizeStruct_def desensitizeSlice_def desensitizeString_def)

text \<open>Below a sensitive XML element only its own text is replaced.\<close>

lemma xml_children_kept:
  "sensitiveFieldMap mk name \<Longrightarrow> mk_funcs mk name = None \<Longrightarrow> desensitizeXMLNode mk (XmlNode name t nodes) = Some (XmlNode name MASKSTR nodes)"
  by simp

text \<open>A pointer to an interface variable is returned as it is.\<close>

lemma interface_pointer_kept: "Desensitize mk cd n (LPtr (Some (LIface (LMap kvs)))) = Some (LPtr (Some (LIface (LMap kvs))))"
  by (subst Desensitize.simps) (simp add: Let_def)

text \<open>Keys that are not strings all become the name of their type, and one entry is left.\<close>

lemma other_keys_collapse:
  assumes "\<not> sensitiveFieldMap mk ''<int Value>''"
  shows "Desensitize mk cd n (LMap [(KOther ''int'', LOther a), (KOther ''int'', LOther b)]) = Some (LMap [(KStr ''<int Value>'', LOther b)])"
proof -
  have o: "Desensitize mk cd n (LOther c) = Some (LOther c)" for c by (subst Desensitize.simps) (simp add: Let_def)
  show ?thesis using assms by (simp add: Desensitize_contents(1) desensitizeMap_def o go_map_def)
qed

end
