(* ===== verification/LogHandler.thy ===== *)
theory LogHandler
  imports Desensitize
begin

text \<open>
  From a message to the bytes of a log file: the text and the JSON handler (\<^verbatim>\<open>logger/logger_handler.go\<close>), the calls of the package (\<^verbatim>\<open>logger/logger.go\<close>), and the
  logger of the database layer (\<^verbatim>\<open>logger/db_logger.go\<close>).

  The clock, the position of the caller and the values of the context are arguments.  So are the printing of a value by \<^verbatim>\<open>fmt.Sprint\<close> and of a record
  by the standard library's JSON handler, whose attributes are given resolved and without groups.  Writing to a file does not fail.
\<close>

section \<open>Numbers and durations\<close>

function int_digits :: "nat \<Rightarrow> string \<Rightarrow> string" where
  "int_digits i acc = (if 10 \<le> i then int_digits (i div 10) (digit_char (i mod 10) # acc) else digit_char i # acc)"
  by pat_completeness auto
termination by (relation "measure fst") auto

declare int_digits.simps [simp del]

definition appendInt :: "string \<Rightarrow> nat \<Rightarrow> string" where
  "appendInt buf i = buf @ int_digits i []"

definition FormatDurationUS :: "int \<Rightarrow> string" where
  "FormatDurationUS d = Itoa (d sdiv 1000) @ ''us''"

definition durationValueUS :: "lval \<Rightarrow> lval" where
  "durationValueUS v = (case v of LDur d \<Rightarrow> LStr (FormatDurationUS d) | _ \<Rightarrow> v)"

section \<open>The text handler\<close>

record logRecord =
  lr_date :: string
  lr_micros :: string
  lr_Level :: int
  lr_Message :: string
  lr_Attrs :: "attr list"
  lr_file :: string
  lr_line :: nat

record logEnv =
  le_funcs :: "string \<rightharpoonup> (lval \<Rightarrow> lval go)"
  le_codecs :: codecs
  le_fuel :: nat
  le_sprint :: "lval \<Rightarrow> string"
  le_jsonLine :: "attr list \<Rightarrow> string"
  le_isTime :: "lval \<Rightarrow> bool"

text \<open>The fields that the logger was configured with, and the functions that were registered.\<close>

definition masks_of :: "logEnv \<Rightarrow> glog \<Rightarrow> masks" where
  "masks_of env gl = \<lparr>mk_fields = gl_DesensitizeFieldMap gl, mk_funcs = le_funcs env\<rparr>"

definition ansi :: "string \<Rightarrow> string" where
  "ansi s = CHR 0x1B # ''['' @ s @ ''m''"

definition color_of :: "int \<Rightarrow> string" where
  "color_of level =
     (if level = 4 then ansi ''33'' else if level = - 4 then ansi ''32'' else if level = 0 then ansi ''34'' else if level = 8 then ansi ''31'' else [])"

text \<open>\<^verbatim>\<open>^[\w\-\.]+\.go:\d+\<close>: the class contains the letters of the suffix, and no colon.\<close>

definition file_byte :: "char \<Rightarrow> bool" where
  "file_byte c \<longleftrightarrow> c \<in> set ''abcdefghijklmnopqrstuvwxyzABCDEFGHIJKLMNOPQRSTUVWXYZ0123456789_-.''"

definition IsFileLinePrefix :: "string \<Rightarrow> bool" where
  "IsFileLinePrefix s =
     (let w = takeWhile file_byte s; rest = dropWhile file_byte s in
      3 < length w \<and> drop (length w - 3) w = ''.go'' \<and>
      (case rest of a # b # _ \<Rightarrow> a = CHR '':'' \<and> decimal b | _ \<Rightarrow> False))"

definition appendLevel :: "string \<Rightarrow> int \<Rightarrow> string" where
  "appendLevel buf level =
     buf @ (if 8 \<le> level then ''[ERROR]'' else if 4 \<le> level then ''[WARN]'' else if 0 \<le> level then ''[INFO]'' else ''[DEBUG]'')"

text \<open>The values of the tags in the context, a dash for a missing one or one that is not a string, separated by spaces.\<close>

definition ctx_text :: "(string \<Rightarrow> lval) \<Rightarrow> string \<Rightarrow> string" where
  "ctx_text ctx k = (case ctx k of LStr s \<Rightarrow> s | _ \<Rightarrow> ''-'')"

definition appendContextValues :: "string list \<Rightarrow> (string \<Rightarrow> lval) \<Rightarrow> string \<Rightarrow> string" where
  "appendContextValues tags ctx buf = buf @ (case map (ctx_text ctx) tags of [] \<Rightarrow> [] | w # ws \<Rightarrow> w @ concat (map (Cons CHR '' '') ws))"

text \<open>The identifiers of a context in one string; here a value that is not a string leaves nothing.\<close>

definition getIdsInLog :: "string list \<Rightarrow> (string \<Rightarrow> lval) \<Rightarrow> string" where
  "getIdsInLog tags ctx = Join (map (\<lambda>k. case ctx k of LNil \<Rightarrow> ''-'' | LStr s \<Rightarrow> s | _ \<Rightarrow> []) tags) CHR '' ''"

definition GetAttr :: "logRecord \<Rightarrow> string \<Rightarrow> lval option" where
  "GetAttr r key = map_of (lr_Attrs r) key"

definition appendTextAttr :: "logEnv \<Rightarrow> glog \<Rightarrow> string \<Rightarrow> attr \<Rightarrow> string go" where
  "appendTextAttr env gl buf a =
     map_option (\<lambda>(k, v). buf @ '' '' @ k @ ''='' @ le_sprint env (durationValueUS v))
       (DesensitizeReplaceAttr (masks_of env gl) (le_codecs env) (le_fuel env) (gl_Logconf gl) a)"

fun append_attrs :: "logEnv \<Rightarrow> glog \<Rightarrow> string \<Rightarrow> attr list \<Rightarrow> string go" where
  "append_attrs env gl buf [] = Some buf"
| "append_attrs env gl buf (a # as) = (case appendTextAttr env gl buf a of None \<Rightarrow> None | Some buf \<Rightarrow> append_attrs env gl buf as)"

text \<open>The line of a record, with the flags that the logger sets: date, time with microseconds, file and line.\<close>

definition text_line :: "logEnv \<Rightarrow> glog \<Rightarrow> (string \<Rightarrow> lval) \<Rightarrow> logRecord \<Rightarrow> string go" where
  "text_line env gl ctx r =
     (let conf = gl_Logconf gl;
          buf = (if lc_Colorful conf then color_of (lr_Level r) else []) @ lr_date r @ '' '' @ lr_micros r @ '' '';
          buf = (if IsFileLinePrefix (lr_Message r) then buf else appendInt (buf @ lr_file r @ '':'') (lr_line r) @ '' '');
          buf = appendContextValues (gl_LogTags gl) ctx buf @ '' '';
          buf = appendLevel buf (lr_Level r) @ '' '' @ lr_Message r
      in map_option (\<lambda>buf. buf @ [CHR 0x0A] @ (if lc_Colorful conf then ansi ''0'' else [])) (append_attrs env gl buf (lr_Attrs r)))"

text \<open>The state is the files and what was written to the standard output.\<close>

definition Custom_Handle :: "logEnv \<Rightarrow> glog \<Rightarrow> (string \<Rightarrow> lval) \<Rightarrow> logRecord \<Rightarrow> fsys \<times> string \<Rightarrow> (fsys \<times> string) go" where
  "Custom_Handle env gl ctx r st =
     map_option (\<lambda>buf. if lc_Stdout (gl_Logconf gl) then (fst st, snd st @ buf) else (writeFiles (lr_Level r) buf gl (fst st), snd st)) (text_line env gl ctx r)"

section \<open>The JSON handler\<close>

datatype logFileKind = KindMain | KindErr

definition locked_Write :: "logFileKind \<Rightarrow> string \<Rightarrow> glog \<Rightarrow> fsys \<Rightarrow> fsys" where
  "locked_Write kind p gl fs =
     (case (case kind of KindMain \<Rightarrow> lf_logfile (gl_LogObj gl) | KindErr \<Rightarrow> lf_logfile_err (gl_LogObj gl)) of None \<Rightarrow> fs | Some h \<Rightarrow> file_Write fs h p)"

definition jsonReplaceAttr :: "logEnv \<Rightarrow> glog \<Rightarrow> attr \<Rightarrow> attr go" where
  "jsonReplaceAttr env gl a =
     map_option (\<lambda>(k, v). let v = durationValueUS v in (if k = ''time'' \<and> le_isTime env v then ''log_time'' else k, v))
       (DesensitizeReplaceAttr (masks_of env gl) (le_codecs env) (le_fuel env) (gl_Logconf gl) a)"

text \<open>A tag with a value that is not a string is left out.\<close>

definition tag_attrs :: "string list \<Rightarrow> (string \<Rightarrow> lval) \<Rightarrow> attr list" where
  "tag_attrs tags ctx = concat (map (\<lambda>k. case ctx k of LNil \<Rightarrow> [(k, LStr ''-'')] | LStr s \<Rightarrow> [(k, LStr s)] | _ \<Rightarrow> []) tags)"

text \<open>
  The handler made for a logger has its writers and its lock; the one that \<^verbatim>\<open>WithAttrs\<close> and \<^verbatim>\<open>WithGroup\<close> return has only the base handler that answers \<^verbatim>\<open>Enabled\<close>.
\<close>

record modifyHandler =
  mh_level :: int
  mh_writers :: bool

definition newMyModifyHandlerWithLevel :: "int \<Rightarrow> modifyHandler" where
  "newMyModifyHandlerWithLevel level = \<lparr>mh_level = level, mh_writers = True\<rparr>"

definition Modify_Enabled :: "modifyHandler \<Rightarrow> int \<Rightarrow> bool" where
  "Modify_Enabled h l = (mh_level h \<le> l)"

definition Modify_WithAttrs :: "modifyHandler \<Rightarrow> modifyHandler" where
  "Modify_WithAttrs h = \<lparr>mh_level = mh_level h, mh_writers = False\<rparr>"

definition Modify_WithGroup :: "modifyHandler \<Rightarrow> modifyHandler" where
  "Modify_WithGroup h = \<lparr>mh_level = mh_level h, mh_writers = False\<rparr>"

text \<open>\<open>builtin\<close> are the time, level and message attributes of the record.\<close>

definition json_line :: "logEnv \<Rightarrow> glog \<Rightarrow> attr list \<Rightarrow> (string \<Rightarrow> lval) \<Rightarrow> logRecord \<Rightarrow> string go" where
  "json_line env gl builtin ctx r =
     (let source = (''source'', LStr (appendInt (lr_file r @ '':'') (lr_line r))) in
      map_option (le_jsonLine env)
        (those (map (jsonReplaceAttr env gl) (builtin @ lr_Attrs r @ [source] @ tag_attrs (gl_LogTags gl) ctx))))"

definition Modify_Handle :: "modifyHandler \<Rightarrow> logEnv \<Rightarrow> glog \<Rightarrow> attr list \<Rightarrow> (string \<Rightarrow> lval) \<Rightarrow> logRecord \<Rightarrow> fsys \<times> string \<Rightarrow> (fsys \<times> string) go" where
  "Modify_Handle h env gl builtin ctx r st =
     (if \<not> mh_writers h then None else
     map_option (\<lambda>data.
       let conf = gl_Logconf gl; fs = fst st; out = snd st in
       if lc_Stdout conf then (fs, out @ (if lc_Colorful conf then color_of (lr_Level r) @ data @ ansi ''0'' else data))
       else if lr_Level r < 4 then (locked_Write KindMain data gl fs, out)
       else (locked_Write KindErr data gl (locked_Write KindMain data gl fs), out)) (json_line env gl builtin ctx r))"

section \<open>The calls\<close>

definition Enabled :: "glog \<Rightarrow> int \<Rightarrow> bool" where
  "Enabled gl level = (getSlogLevel gl \<le> level)"

text \<open>A record through the handler of the logger; a logger that has none writes nothing here.\<close>

definition slog_Log :: "logEnv \<Rightarrow> glog \<Rightarrow> attr list \<Rightarrow> (string \<Rightarrow> lval) \<Rightarrow> logRecord \<Rightarrow> fsys \<times> string \<Rightarrow> (fsys \<times> string) go" where
  "slog_Log env gl builtin ctx r st =
     (case lf_lg (gl_LogObj gl) of
        None \<Rightarrow> Some st
      | Some lg \<Rightarrow>
          if sl_text lg then (if Enabled gl (lr_Level r) then Custom_Handle env gl ctx r st else Some st)
          else let h = newMyModifyHandlerWithLevel (sl_level lg) in
            (if Modify_Enabled h (lr_Level r) then Modify_Handle h env gl builtin ctx r st else Some st))"

text \<open>\<^verbatim>\<open>Debug\<close>, \<^verbatim>\<open>Info\<close>, \<^verbatim>\<open>Warn\<close> and \<^verbatim>\<open>Error\<close> differ only in the level of the record; the formatting variants have their own test of the level.\<close>

definition log_call :: "(int \<Rightarrow> string) \<Rightarrow> int \<Rightarrow> logEnv \<Rightarrow> attr list \<Rightarrow> (string \<Rightarrow> lval) \<Rightarrow> logRecord \<Rightarrow> glog \<times> fsys \<times> string \<Rightarrow> (glog \<times> fsys \<times> string) go" where
  "log_call fmt today env builtin ctx r st =
     (case st of (gl, fs, out) \<Rightarrow>
        (case fileCheck fmt today gl fs of
           None \<Rightarrow> None
         | Some (gl, fs) \<Rightarrow> map_option (Pair gl) (slog_Log env gl builtin ctx r (fs, out))))"

definition log_callf :: "(int \<Rightarrow> string) \<Rightarrow> int \<Rightarrow> logEnv \<Rightarrow> attr list \<Rightarrow> (string \<Rightarrow> lval) \<Rightarrow> int \<Rightarrow> logRecord \<Rightarrow> glog \<times> fsys \<times> string \<Rightarrow> (glog \<times> fsys \<times> string) go" where
  "log_callf fmt today env builtin ctx lvl r st =
     (case st of (gl, fs, out) \<Rightarrow>
        (case fileCheck fmt today gl fs of
           None \<Rightarrow> None
         | Some (gl, fs) \<Rightarrow>
             if lc_Loglevel (gl_Logconf gl) \<le> lvl then map_option (Pair gl) (slog_Log env gl builtin ctx (r\<lparr>lr_Attrs := []\<rparr>) (fs, out))
             else Some (gl, fs, out)))"

section \<open>Secrets do not reach the files\<close>

definition attr_agree :: "masks \<Rightarrow> codecs \<Rightarrow> attr \<Rightarrow> attr \<Rightarrow> bool" where
  "attr_agree mk cd a b \<longleftrightarrow> fst a = fst b \<and>
     (snd a = snd b \<or> fst a \<notin> set ignored_keys \<and> (hidden mk (fst a) (snd a) (snd b) \<or> \<not> secret mk (fst a) \<and> agree mk cd (snd a) (snd b)))"

definition record_agree :: "masks \<Rightarrow> codecs \<Rightarrow> logRecord \<Rightarrow> logRecord \<Rightarrow> bool" where
  "record_agree mk cd r r' \<longleftrightarrow> (\<exists>as. r' = r\<lparr>lr_Attrs := as\<rparr> \<and> list_all2 (attr_agree mk cd) (lr_Attrs r) as)"

lemma attr_agree_replaced:
  assumes "attr_agree mk cd a b" "lc_DesensitizeField conf \<noteq> []"
  shows "DesensitizeReplaceAttr mk cd n conf a = DesensitizeReplaceAttr mk cd n conf b"
  using assms masking_noninterference [OF assms(2), of "fst a" mk "snd a" "snd b" cd n] by (cases a; cases b) (auto simp: attr_agree_def)

lemma append_attrs_agree:
  "list_all2 (attr_agree (masks_of env gl) (le_codecs env)) as bs \<Longrightarrow> lc_DesensitizeField (gl_Logconf gl) \<noteq> [] \<Longrightarrow>
   append_attrs env gl buf as = append_attrs env gl buf bs"
proof (induction as bs arbitrary: buf rule: list_all2_induct)
  case (Cons a as b bs)
  have "appendTextAttr env gl buf a = appendTextAttr env gl buf b" using attr_agree_replaced [OF Cons.hyps(1) Cons.prems] by (simp add: appendTextAttr_def)
  then show ?case using Cons by (auto split: option.splits)
qed simp

lemma json_attrs_agree:
  "list_all2 (attr_agree (masks_of env gl) (le_codecs env)) as bs \<Longrightarrow> lc_DesensitizeField (gl_Logconf gl) \<noteq> [] \<Longrightarrow>
   map (jsonReplaceAttr env gl) as = map (jsonReplaceAttr env gl) bs"
  by (induction as bs rule: list_all2_induct) (simp_all add: jsonReplaceAttr_def attr_agree_replaced)

lemma slog_Log_agree:
  assumes "record_agree (masks_of env gl) (le_codecs env) r r'" "lc_DesensitizeField (gl_Logconf gl) \<noteq> []"
  shows "slog_Log env gl builtin ctx r st = slog_Log env gl builtin ctx r' st"
proof -
  obtain as where r': "r' = r\<lparr>lr_Attrs := as\<rparr>" and as: "list_all2 (attr_agree (masks_of env gl) (le_codecs env)) (lr_Attrs r) as"
    using assms(1) by (auto simp: record_agree_def)
  have "text_line env gl ctx r = text_line env gl ctx r'" using append_attrs_agree [OF as assms(2)] by (simp add: text_line_def r' Let_def)
  moreover have "json_line env gl builtin ctx r = json_line env gl builtin ctx r'" using json_attrs_agree [OF as assms(2)] by (simp add: json_line_def r' Let_def)
  ultimately show ?thesis by (cases "lf_lg (gl_LogObj gl)") (simp_all add: slog_Log_def Custom_Handle_def Modify_Handle_def Let_def r' cong: if_cong)
qed

lemma fileCheck_conf:
  "fileCheck fmt today gl fs = Some (gl', fs') \<Longrightarrow> gl_Logconf gl' = gl_Logconf gl \<and> gl_DesensitizeFieldMap gl' = gl_DesensitizeFieldMap gl"
  by (auto simp: fileCheck_def rename_def coverNextOne_def nextSuffix_def setSlog_def Let_def split: option.splits if_splits prod.splits)

text \<open>C9: a secret never reaches a log.  Two calls that log the same message with attributes that differ only in the values of the fields that the logger was configured to
  hide, at any depth of maps, exported struct fields, slices, pointers, JSON text and XML text, leave the same files, byte by byte, and the same standard output, in the text and
  in the JSON format, with any rotation that the call causes.  Such values may differ in any way, unless a masking function was registered for the
  field, which must then map them to the same.  (Of an XML element it is its own text that is hidden; attributes of the record with one of the logger's own keys, such as
  \<open>request_id\<close>, are never masked.)\<close>

theorem log_noninterference:
  assumes "lc_DesensitizeField (gl_Logconf gl) \<noteq> []" "record_agree (masks_of env gl) (le_codecs env) r r'"
  shows "log_call fmt today env builtin ctx r (gl, fs, out) = log_call fmt today env builtin ctx r' (gl, fs, out)"
proof (cases "fileCheck fmt today gl fs")
  case (Some p)
  obtain gl' fs' where p: "p = (gl', fs')" by (cases p)
  note c = fileCheck_conf [OF Some [unfolded p]]
  then have "masks_of env gl' = masks_of env gl" by (simp add: masks_of_def)
  then have "slog_Log env gl' builtin ctx r (fs', out) = slog_Log env gl' builtin ctx r' (fs', out)"
    using slog_Log_agree [of env gl' r r'] assms c by simp
  then show ?thesis by (simp add: log_call_def Some p)
qed (simp add: log_call_def)

text \<open>A logger that is opened with a text format and hides passwords; its records have a password and JSON text with a password inside.\<close>

definition demo_env :: logEnv where
  "demo_env = \<lparr>le_funcs = Map.empty, le_codecs = demo_codecs, le_fuel = 3, le_sprint = (\<lambda>v. case v of LStr s \<Rightarrow> s | LJson s \<Rightarrow> s | _ \<Rightarrow> ''?''),
     le_jsonLine = (\<lambda>as. concat (map fst as)), le_isTime = (\<lambda>v. False)\<rparr>"

definition demo_record :: "string \<Rightarrow> logRecord" where
  "demo_record pw = \<lparr>lr_date = ''d'', lr_micros = ''t'', lr_Level = 0, lr_Message = ''login'',
     lr_Attrs = [(''user'', LStr ''u''), (''password'', LStr pw), (''body'', LStr (CHR ''{'' # pw))], lr_file = ''m.go'', lr_line = 7\<rparr>"

definition demo_open :: "(glog \<times> fsys) go" where
  "demo_open = SetRollingFile Itoa 0 ''a'' False (loadDesensitizeField (demo_glog\<lparr>gl_Logconf := demo_logconf\<lparr>lc_DesensitizeField := ''password''\<rparr>\<rparr>)) empty_fs"

definition demo_log :: "string \<Rightarrow> (glog \<times> fsys \<times> string) go" where
  "demo_log pw = (case demo_open of None \<Rightarrow> None | Some (gl, fs) \<Rightarrow> log_call Itoa 0 demo_env [] (\<lambda>_. LNil) (demo_record pw) (gl, fs, []))"

theorem log_noninterference_witness:
  "demo_log ''hunter2'' = demo_log ''other'' \<and>
   map_option (\<lambda>(gl, fs, out). content fs ''a'') (demo_log ''other'') = Some (Some (''d t m.go:7 - [INFO] login user=u password=****** body={password******'' @ [CHR 0x0A]))"
proof -
  have "case demo_open of None \<Rightarrow> False | Some (gl, fs) \<Rightarrow> lc_DesensitizeField (gl_Logconf gl) = ''password'' \<and> gl_DesensitizeFieldMap gl = [''password'']"
    by code_simp
  then obtain gl fs where o: "demo_open = Some (gl, fs)" "lc_DesensitizeField (gl_Logconf gl) \<noteq> []" "gl_DesensitizeFieldMap gl = [''password'']"
    by (auto split: option.splits)
  have m: "masks_of demo_env gl = demo_masks" "le_codecs demo_env = demo_codecs" by (simp_all add: masks_of_def demo_env_def demo_masks_def o(3))
  have "\<not> secret demo_masks ''body''" by (simp add: secret_def demo_masks_def)
  then have "record_agree (masks_of demo_env gl) (le_codecs demo_env) (demo_record ''hunter2'') (demo_record ''other'')"
    using demo_hidden demo_agree by (simp add: m record_agree_def demo_record_def attr_agree_def ignored_keys_def)
  then have "demo_log ''hunter2'' = demo_log ''other''"
    using log_noninterference [OF o(2), of demo_env "demo_record ''hunter2''" "demo_record ''other''"] by (simp add: demo_log_def o(1))
  moreover have "map_option (\<lambda>(gl, fs, out). content fs ''a'') (demo_log ''other'') =
      Some (Some (''d t m.go:7 - [INFO] login user=u password=****** body={password******'' @ [CHR 0x0A]))" by code_simp
  ultimately show ?thesis by simp
qed

section \<open>Lines\<close>

lemma int_digits_nat_str: "int_digits i acc = nat_str i @ acc"
proof (induction i arbitrary: acc rule: less_induct)
  case (less i)
  show ?case
  proof (cases "i < 10")
    case False
    then show ?thesis using less [of "i div 10"] by (simp add: int_digits.simps [of i] nat_str.simps [of i])
  qed (simp add: int_digits.simps [of i] nat_str.simps [of i])
qed

text \<open>The handler's own printing of line numbers is the decimal one.\<close>

lemma appendInt_Itoa: "appendInt buf i = buf @ Itoa (int i)"
  by (simp add: appendInt_def int_digits_nat_str Itoa_def)

text \<open>A call that writes to the files is a check and a record of the rotation model.\<close>

lemma fileCheck_text:
  assumes "fileCheck fmt today gl fs = Some (gl', fs')" "lf_lg (gl_LogObj gl) = Some lg" "sl_text lg" "lc_Format (gl_Logconf gl) = 1"
  shows "\<exists>lg'. lf_lg (gl_LogObj gl') = Some lg' \<and> sl_text lg'"
  using assms
  by (auto simp: fileCheck_def rename_def coverNextOne_def nextSuffix_def setSlog_def Let_def split: option.splits if_splits prod.splits)

lemma log_call_events:
  assumes "log_call fmt today env builtin ctx r (gl, fs, out) = Some (gl', fs', out')" "\<not> lc_Stdout (gl_Logconf gl)"
    and "lf_lg (gl_LogObj gl) = Some lg" "sl_text lg" "lc_Format (gl_Logconf gl) = 1"
  shows "out' = out \<and> (if Enabled gl' (lr_Level r) then \<exists>buf. text_line env gl' ctx r = Some buf \<and> log_run fmt (gl, fs) [Check today, Record (lr_Level r) buf] = Some (gl', fs')
    else log_run fmt (gl, fs) [Check today] = Some (gl', fs'))"
proof -
  from assms(1) obtain fs1 where c: "fileCheck fmt today gl fs = Some (gl', fs1)" and l: "slog_Log env gl' builtin ctx r (fs1, out) = Some (fs', out')"
    by (auto simp: log_call_def split: option.splits)
  obtain lg' where "lf_lg (gl_LogObj gl') = Some lg'" "sl_text lg'" using fileCheck_text [OF c assms(3-5)] by blast
  then show ?thesis using l c assms(2) fileCheck_conf [OF c] by (auto simp: slog_Log_def Custom_Handle_def split: if_splits)
qed

text \<open>The levels above error do not switch the logger off: they are the level of debugging.\<close>

lemma off_logs_everything: "lc_Loglevel (gl_Logconf gl) = 6 \<Longrightarrow> Enabled gl level = (- 4 \<le> level)"
  by (simp add: Enabled_def getSlogLevel_def DEBUG_def INFO_def WARN_def ERROR_def)

text \<open>A JSON logger with attributes of its own panics on its first record.\<close>

lemma with_attrs_panics: "Modify_Handle (Modify_WithAttrs h) env gl builtin ctx r st = None" "Modify_Handle (Modify_WithGroup h) env gl builtin ctx r st = None"
  by (simp_all add: Modify_Handle_def Modify_WithAttrs_def Modify_WithGroup_def)

section \<open>The database logger\<close>

text \<open>\<^verbatim>\<open>path.Base\<close>, and the short form of a position: the base name from the last colon on.\<close>

definition path_Base :: "string \<Rightarrow> string" where
  "path_Base p =
     (if p = [] then ''.''
      else let q = rev (dropWhile (\<lambda>c. c = CHR ''/'') (rev p)); b = rev (takeWhile (\<lambda>c. c \<noteq> CHR ''/'') (rev q))
           in if b = [] then ''/'' else b)"

definition FileWithShortLineNumV2 :: "string \<Rightarrow> string" where
  "FileWithShortLineNumV2 s =
     (let i = LastIndex s CHR '':'' in
      if i = - 1 then s else path_Base (take (nat i) s) @ drop (nat i) s)"

fun hasPrintfVerb :: "string \<Rightarrow> bool" where
  "hasPrintfVerb [] = False"
| "hasPrintfVerb [c] = (c = CHR ''%'')"
| "hasPrintfVerb (c # d # s) = (if c \<noteq> CHR ''%'' then hasPrintfVerb (d # s) else if d = CHR ''%'' then hasPrintfVerb s else True)"

fun isSlogKeyValueArgs :: "lval list \<Rightarrow> bool" where
  "isSlogKeyValueArgs [] = True"
| "isSlogKeyValueArgs [x] = False"
| "isSlogKeyValueArgs (k # v # rest) = ((case k of LStr s \<Rightarrow> True | _ \<Rightarrow> False) \<and> isSlogKeyValueArgs rest)"

definition formatDBLogArgs :: "(string \<Rightarrow> lval list \<Rightarrow> string) \<Rightarrow> string \<Rightarrow> lval list \<Rightarrow> string \<times> lval list" where
  "formatDBLogArgs sprintf msg data =
     (if data = [] then (msg, [])
      else if \<not> hasPrintfVerb msg \<and> isSlogKeyValueArgs data then (msg, data)
      else (sprintf msg data, []))"

record dbLogger =
  dl_LogLevel :: int
  dl_SlowThreshold :: int
  dl_IgnoreRecordNotFoundError :: bool

definition LogMode :: "int \<Rightarrow> dbLogger \<Rightarrow> dbLogger" where
  "LogMode level l = l\<lparr>dl_LogLevel := level\<rparr>"

text \<open>What \<^verbatim>\<open>Info\<close>, \<^verbatim>\<open>Warn\<close> and \<^verbatim>\<open>Error\<close> pass on, if anything: the message and its arguments with the position; \<open>need\<close> is 4, 3 and 2.\<close>

definition db_Log :: "(string \<Rightarrow> lval list \<Rightarrow> string) \<Rightarrow> string \<Rightarrow> int \<Rightarrow> dbLogger \<Rightarrow> string \<Rightarrow> lval list \<Rightarrow> (string \<times> lval list) option" where
  "db_Log sprintf pos need l msg data =
     (case formatDBLogArgs sprintf msg data of
        (msg, data) \<Rightarrow>
          let data = data @ [LStr ''source_db'', LStr (FileWithShortLineNumV2 pos)] in
          if need \<le> dl_LogLevel l then Some (msg, data) else None)"

text \<open>
  The trace of a statement: an error, a slow statement, or every statement at the level of information.  \<open>err\<close> is the error with whether it is the one for a record that was
  not found; \<open>fc\<close> gives the statement and its rows.
\<close>

definition Trace :: "string \<Rightarrow> (int \<Rightarrow> string) \<Rightarrow> dbLogger \<Rightarrow> int \<Rightarrow> string \<times> int \<Rightarrow> (lval \<times> bool) option \<Rightarrow> (int \<times> string \<times> attr list) option" where
  "Trace pos show_duration l elapsed fc err =
     (let sql = (''sql'', LStr (fst fc)); rows = (''rows'', LOther (Itoa (snd fc)));
          cost = (''cost'', LStr (FormatDurationUS elapsed)); src = (''source_db'', LStr (FileWithShortLineNumV2 pos)) in
      if dl_LogLevel l \<le> 1 then None
      else if (case err of None \<Rightarrow> False | Some (e, notFound) \<Rightarrow> 2 \<le> dl_LogLevel l \<and> (\<not> notFound \<or> \<not> dl_IgnoreRecordNotFoundError l))
      then Some (8, ''SQLERRLOG'', [sql, cost, rows, (''err'', fst (the err)), src])
      else if dl_SlowThreshold l < elapsed \<and> dl_SlowThreshold l \<noteq> 0 \<and> 3 \<le> dl_LogLevel l
      then Some (4, ''SQLSLOWLOG'', [(''slowlog'', LStr (''SLOW SQL >= '' @ show_duration (dl_SlowThreshold l))), rows, sql, cost, src])
      else if dl_LogLevel l = 4 then Some (0, ''SQLLOG'', [rows, sql, cost, src])
      else None)"

text \<open>An error other than a missing record is traced at every level but silent, and a message without verbs keeps its key-value pairs.\<close>

lemma Trace_reports_errors:
  "2 \<le> dl_LogLevel l \<Longrightarrow> \<exists>as. Trace pos sd l elapsed fc (Some (e, False)) = Some (8, ''SQLERRLOG'', as) \<and> (''err'', e) \<in> set as"
  by (simp add: Trace_def Let_def)

end
