(* ===== verification/ThriftConn.thy ===== *)
theory ThriftConn
  imports GpoolCall GoStrings
begin

text \<open>
  Thrift connections (\<^verbatim>\<open>gpool/thriftclient.go\<close>): construction, opening, closing, and the reflective calls on a borrowed connection.

  Sockets and transports are code of the thrift package: their operations are the parameter \<open>thrift\<close>, on an abstract state \<open>'t\<close> of a
  transport together with its socket.  \<^const>\<open>None\<close> is a panic.
\<close>

record 't thrift =
  th_framed :: "string \<Rightarrow> int \<Rightarrow> 't"
  th_buffered :: "string \<Rightarrow> int \<Rightarrow> 't"
  th_Open :: "'t \<Rightarrow> 't \<times> error option"
  th_IsOpen :: "'t \<Rightarrow> 't \<times> bool"
  th_Close :: "'t \<Rightarrow> 't \<times> error option"
  th_SetSocketTimeout :: "int \<Rightarrow> 't \<Rightarrow> 't"

datatype protoFactory = NoFactory | TBinaryProtocolFactory | ThriftExtProtocolClient protoFactory

record ('t, 'c) tconn =
  tc_Addr :: string
  tc_Port :: int
  tc_TimeOut :: int
  tc_Protocol :: int
  tc_Tft :: "'t option"
  tc_Tbt :: "'t option"
  tc_Tbp :: protoFactory
  tc_isOpen :: bool
  tc_Client :: "'c option"

definition TH_PRO_FRAMED :: int where "TH_PRO_FRAMED = 0"
definition TH_PRO_BUFFER :: int where "TH_PRO_BUFFER = 1"

section \<open>Construction\<close>

definition Init :: "'t thrift \<Rightarrow> string \<Rightarrow> int \<Rightarrow> int \<Rightarrow> ('t, 'c) tconn \<Rightarrow> ('t, 'c) tconn" where
  "Init th addr port timeout tc =
     (let tc = tc\<lparr>tc_Addr := addr, tc_Port := port, tc_TimeOut := timeout\<rparr>;
          sock = addr @ '':'' @ Itoa port
      in if tc_Protocol tc = TH_PRO_FRAMED then tc\<lparr>tc_Tft := Some (th_framed th sock timeout), tc_Tbp := TBinaryProtocolFactory\<rparr>
         else if tc_Protocol tc = TH_PRO_BUFFER then tc\<lparr>tc_Tbt := Some (th_buffered th sock timeout), tc_Tbp := TBinaryProtocolFactory\<rparr>
         else tc)"

definition InitThriftExt :: "'t thrift \<Rightarrow> string \<Rightarrow> int \<Rightarrow> int \<Rightarrow> ('t, 'c) tconn \<Rightarrow> ('t, 'c) tconn" where
  "InitThriftExt th addr port timeout tc =
     (let tc = tc\<lparr>tc_Addr := addr, tc_Port := port, tc_TimeOut := timeout\<rparr>;
          sock = addr @ '':'' @ Itoa port;
          tc = (if tc_Protocol tc = TH_PRO_FRAMED then tc\<lparr>tc_Tft := Some (th_framed th sock timeout), tc_Tbp := TBinaryProtocolFactory\<rparr>
                else if tc_Protocol tc = TH_PRO_BUFFER then tc\<lparr>tc_Tbt := Some (th_buffered th sock timeout), tc_Tbp := TBinaryProtocolFactory\<rparr>
                else tc)
      in tc\<lparr>tc_Tbp := ThriftExtProtocolClient (tc_Tbp tc)\<rparr>)"

definition blank :: "int \<Rightarrow> ('t, 'c) tconn" where
  "blank protocol = \<lparr>tc_Addr = [], tc_Port = 0, tc_TimeOut = 0, tc_Protocol = protocol, tc_Tft = None, tc_Tbt = None, tc_Tbp = NoFactory, tc_isOpen = False, tc_Client = None\<rparr>"

definition NewTConn :: "'t thrift \<Rightarrow> string \<Rightarrow> int \<Rightarrow> int \<Rightarrow> int \<Rightarrow> ('t, 'c) tconn" where
  "NewTConn th addr port timeout protocol = Init th addr port timeout (blank protocol)"

section \<open>Operations\<close>

text \<open>The transport in use, and the connection with it replaced.\<close>

definition transport :: "('t, 'c) tconn \<Rightarrow> 't option" where
  "transport tc = (if tc_Protocol tc = TH_PRO_FRAMED then tc_Tft tc else tc_Tbt tc)"

definition with_transport :: "'t \<Rightarrow> ('t, 'c) tconn \<Rightarrow> ('t, 'c) tconn" where
  "with_transport t tc = (if tc_Protocol tc = TH_PRO_FRAMED then tc\<lparr>tc_Tft := Some t\<rparr> else tc\<lparr>tc_Tbt := Some t\<rparr>)"

definition supported :: "('t, 'c) tconn \<Rightarrow> bool" where
  "supported tc \<longleftrightarrow> tc_Protocol tc = TH_PRO_FRAMED \<or> tc_Protocol tc = TH_PRO_BUFFER"

definition TConn_Open :: "'t thrift \<Rightarrow> ('t, 'c) tconn \<Rightarrow> (('t, 'c) tconn \<times> error option) go" where
  "TConn_Open th tc =
     (if \<not> supported tc then Some (tc, Some [ErrorText ''not support''])
      else case transport tc of
             None \<Rightarrow> None
           | Some t \<Rightarrow>
               (case th_Open th t of
                  (t, Some err) \<Rightarrow> Some (with_transport t tc, Some err)
                | (t, None) \<Rightarrow> (case th_IsOpen th t of (t, o') \<Rightarrow> Some ((with_transport t tc)\<lparr>tc_isOpen := o'\<rparr>, None))))"

definition SetTimeOut :: "'t thrift \<Rightarrow> int \<Rightarrow> ('t, 'c) tconn \<Rightarrow> ('t, 'c) tconn go" where
  "SetTimeOut th timeout tc =
     (if \<not> supported tc then None
      else case transport tc of None \<Rightarrow> None | Some t \<Rightarrow> Some (with_transport (th_SetSocketTimeout th timeout t) tc))"

definition NewThClient :: "('t option \<Rightarrow> protoFactory \<Rightarrow> 'c) \<Rightarrow> ('t, 'c) tconn \<Rightarrow> ('t, 'c) tconn" where
  "NewThClient nc tc = (if supported tc then tc\<lparr>tc_Client := Some (nc (transport tc) (tc_Tbp tc))\<rparr> else tc)"

definition TConn_Close :: "'t thrift \<Rightarrow> ('t, 'c) tconn \<Rightarrow> (('t, 'c) tconn \<times> error option) go" where
  "TConn_Close th tc =
     (if \<not> supported tc then Some (tc, Some [ErrorText ''not support''])
      else case transport tc of
             None \<Rightarrow> None
           | Some t \<Rightarrow>
               (case th_Close th t of
                  (t, err) \<Rightarrow>
                    (case th_IsOpen th t of
                       (t, o') \<Rightarrow>
                         Some ((with_transport t tc)\<lparr>tc_isOpen := o'\<rparr>,
                           case err of None \<Rightarrow> None | Some e \<Rightarrow> if errors_Is e NetErrClosed then None else Some e))))"

definition TConn_IsOpen :: "'t thrift \<Rightarrow> ('t, 'c) tconn \<Rightarrow> (('t, 'c) tconn \<times> bool) go" where
  "TConn_IsOpen th tc =
     (if \<not> supported tc then Some (tc, tc_isOpen tc)
      else case transport tc of
             None \<Rightarrow> None
           | Some t \<Rightarrow> (case th_IsOpen th t of (t, o') \<Rightarrow> Some ((with_transport t tc)\<lparr>tc_isOpen := o'\<rparr>, o')))"

definition CreateThriftFramedConn :: "'t thrift \<Rightarrow> string \<Rightarrow> int \<Rightarrow> int \<Rightarrow> (('t, 'c) tconn \<times> error option) go" where
  "CreateThriftFramedConn th addr port timeout = TConn_Open th (NewTConn th addr port timeout TH_PRO_FRAMED)"

definition CreateThriftFramedConnThriftExt :: "'t thrift \<Rightarrow> string \<Rightarrow> int \<Rightarrow> int \<Rightarrow> (('t, 'c) tconn \<times> error option) go" where
  "CreateThriftFramedConnThriftExt th addr port timeout = TConn_Open th (InitThriftExt th addr port timeout (blank TH_PRO_FRAMED))"

definition CreateThriftBufferConn :: "'t thrift \<Rightarrow> string \<Rightarrow> int \<Rightarrow> int \<Rightarrow> (('t, 'c) tconn \<times> error option) go" where
  "CreateThriftBufferConn th addr port timeout = TConn_Open th (NewTConn th addr port timeout TH_PRO_BUFFER)"

definition CreateThriftBufferConnThriftExt :: "'t thrift \<Rightarrow> string \<Rightarrow> int \<Rightarrow> int \<Rightarrow> (('t, 'c) tconn \<times> error option) go" where
  "CreateThriftBufferConnThriftExt th addr port timeout = TConn_Open th (InitThriftExt th addr port timeout (blank TH_PRO_BUFFER))"

section \<open>Calls on a borrowed connection\<close>

text \<open>
  By the name of a method, with the arity if the client has it, and by a method value.  The connection is not returned to the pool here.  Both read the second return value
  when the only one is nil, as \<^const>\<open>call_error\<close> does.
\<close>

definition conn_ThriftCall :: "int option \<Rightarrow> int \<Rightarrow> ret list \<Rightarrow> (ret \<times> error option) go" where
  "conn_ThriftCall numIn nargs rets =
     (case numIn of
        None \<Rightarrow> Some (RNil, Some [ErrorText ''method not found''])
      | Some need \<Rightarrow>
          if need \<noteq> nargs + 1 then Some (RNil, Some [ErrorText ''arguments number not match''])
          else map_option (Pair (call_value rets)) (call_error rets))"

definition conn_ThriftCall2 :: "int \<Rightarrow> int \<Rightarrow> ret list \<Rightarrow> (ret \<times> error option) go" where
  "conn_ThriftCall2 numIn nparams rets =
     (if nparams \<noteq> numIn - 1 then Some (RNil, Some [ErrorText ''The number of params is not adapted.''])
      else map_option (Pair (call_value rets)) (call_error rets))"

section \<open>Properties\<close>

text \<open>
  The documented behaviour of a socket: after a close it is not open, and closing it again reports \<^verbatim>\<open>net.ErrClosed\<close>; the test whether a closed one is open keeps it closed.
\<close>

definition socket_closes :: "'t thrift \<Rightarrow> bool" where
  "socket_closes th \<longleftrightarrow> (\<exists>dead. (\<forall>t. dead (fst (th_Close th t))) \<and>
     (\<forall>t. dead t \<longrightarrow> \<not> snd (th_IsOpen th t) \<and> dead (fst (th_IsOpen th t)) \<and> (\<exists>e. snd (th_Close th t) = Some e \<and> errors_Is e NetErrClosed)))"

definition usable :: "('t, 'c) tconn \<Rightarrow> bool" where
  "usable tc \<longleftrightarrow> supported tc \<and> transport tc \<noteq> None"

lemma transport_with [simp]: "transport (with_transport t tc) = Some t" "supported (with_transport t tc) = supported tc"
  "transport ((with_transport t tc)\<lparr>tc_isOpen := b\<rparr>) = Some t" "supported ((with_transport t tc)\<lparr>tc_isOpen := b\<rparr>) = supported tc"
  by (simp_all add: transport_def with_transport_def supported_def)

text \<open>Every connection the package creates can be used without a panic, open or not.\<close>

lemma created_usable:
  assumes "CreateThriftFramedConn th addr port timeout = Some (tc, err) \<or> CreateThriftFramedConnThriftExt th addr port timeout = Some (tc, err)
    \<or> CreateThriftBufferConn th addr port timeout = Some (tc, err) \<or> CreateThriftBufferConnThriftExt th addr port timeout = Some (tc, err)"
  shows "usable tc"
proof -
  have new: "usable (NewTConn th addr port timeout p :: ('a, 'b) tconn)" "usable (InitThriftExt th addr port timeout (blank p) :: ('a, 'b) tconn)"
    if "p = TH_PRO_FRAMED \<or> p = TH_PRO_BUFFER" for p
    using that by (auto simp: usable_def supported_def transport_def NewTConn_def Init_def InitThriftExt_def blank_def Let_def TH_PRO_FRAMED_def TH_PRO_BUFFER_def)
  have "usable tc" if "usable x" "TConn_Open th x = Some (tc, err)" for x
    using that by (auto simp: TConn_Open_def usable_def split: option.splits prod.splits if_splits)
  then show ?thesis using assms new by (auto simp: CreateThriftFramedConn_def CreateThriftFramedConnThriftExt_def CreateThriftBufferConn_def CreateThriftBufferConnThriftExt_def)
qed

text \<open>After a close the connection is not open, and closing it again is no error.\<close>

lemma close_again_ok:
  assumes "socket_closes th" "usable tc" "TConn_Close th tc = Some (tc1, err)"
  shows "(\<exists>tc2. TConn_IsOpen th tc1 = Some (tc2, False)) \<and> (\<exists>tc2. TConn_Close th tc1 = Some (tc2, None))"
proof -
  obtain dead where d: "\<And>t. dead (fst (th_Close th t))" "\<And>t. dead t \<Longrightarrow> \<not> snd (th_IsOpen th t) \<and> dead (fst (th_IsOpen th t))"
    "\<And>t. dead t \<Longrightarrow> \<exists>e. snd (th_Close th t) = Some e \<and> errors_Is e NetErrClosed" using assms(1) unfolding socket_closes_def by blast
  obtain t where t: "transport tc = Some t" "supported tc" using assms(2) by (auto simp: usable_def)
  let ?t = "fst (th_IsOpen th (fst (th_Close th t)))"
  have tc1: "transport tc1 = Some ?t" "supported tc1" using assms(3) t by (auto simp: TConn_Close_def split: prod.splits)
  have "dead ?t" using d(1,2) by blast
  then show ?thesis using d(2,3) tc1 by (fastforce simp: TConn_IsOpen_def TConn_Close_def split: prod.splits)
qed

end
