(* ===== verification/GenIds.thy ===== *)
theory GenIds
  imports Crypto
begin

text \<open>
  Identifiers and random strings (\<^verbatim>\<open>util/genids.go\<close>).  The answers of the database, the clock, the random source and the generators of third-party packages are
  arguments; \<^const>\<open>None\<close> is a panic.
\<close>

section \<open>Identifiers from the database\<close>

text \<open>The two queries: an error, or the rows; the first row is read without a test.\<close>

definition genid_word :: "64 word \<Rightarrow> 64 word \<Rightarrow> 64 word \<Rightarrow> 64 word" where
  "genid_word tt svrid uuid_short =
     (let sq = word_of_nat (unat uuid_short mod 65535); msec = tt * 1000 in
      push_bit 22 msec + push_bit 16 svrid + sq)"

definition Genid :: "64 word \<Rightarrow> error + 64 word list \<Rightarrow> error + 64 word list \<Rightarrow> (error + 64 word) go" where
  "Genid tt server uuid =
     (case server of
        Inl err \<Rightarrow> Some (Inl err)
      | Inr s \<Rightarrow>
          (case uuid of
             Inl err \<Rightarrow> Some (Inl err)
           | Inr su \<Rightarrow> if su = [] \<or> s = [] then None else Some (Inr (genid_word tt (hd s) (hd su)))))"

section \<open>Parts of a UUID\<close>

definition NewRequestID :: "string \<Rightarrow> string go" where
  "NewRequestID uuid = (let s = filter (\<lambda>c. c \<noteq> CHR ''-'') uuid in if length s < 16 then None else Some (drop 16 s))"

definition NewProcessID :: "string \<Rightarrow> string go" where
  "NewProcessID uuid = (let s = filter (\<lambda>c. c \<noteq> CHR ''-'') uuid in if length s < 8 then None else Some (drop (length s - 8) s))"

section \<open>Random strings\<close>

text \<open>\<^verbatim>\<open>base64.URLEncoding\<close>: two characters of the alphabet differ from the standard one.\<close>

definition b64_url :: "bytes \<Rightarrow> string" where
  "b64_url bs = map (\<lambda>c. if c = CHR ''+'' then CHR ''-'' else if c = CHR ''/'' then CHR ''_'' else c) (b64_encode bs)"

text \<open>\<open>rnd n\<close> are the next \<open>n\<close> bytes of the source, which does not fail.\<close>

definition GenerateSecureRandomString :: "(nat \<Rightarrow> bytes) \<Rightarrow> int \<Rightarrow> string go" where
  "GenerateSecureRandomString rnd len =
     (if len < 0 then None
      else let s = b64_url (rnd (nat len)) in if length s < nat len then None else Some (take (nat len) s))"

definition generateRandomString :: "(nat \<Rightarrow> bytes) \<Rightarrow> int \<Rightarrow> string go" where
  "generateRandomString rnd len =
     (if len < 0 then None
      else let needed = len * 3 div 4; needed = (if len * 3 mod 4 \<noteq> 0 then needed + 1 else needed);
               s = b64_url (rnd (nat needed))
           in if length s < nat len then None else Some (take (nat len) s))"

definition charset :: string where
  "charset = ''abcdefghijklmnopqrstuvwxyzABCDEFGHIJKLMNOPQRSTUVWXYZ0123456789''"

definition GenerateRandomString :: "(nat \<Rightarrow> nat) \<Rightarrow> int \<Rightarrow> string go" where
  "GenerateRandomString intn len = (if len < 0 then None else Some (map (\<lambda>i. charset ! (intn i mod length charset)) [0..<nat len]))"

definition GenerateUniqueStringWithTimestamp :: "(nat \<Rightarrow> bytes) \<Rightarrow> int \<Rightarrow> string \<Rightarrow> string go" where
  "GenerateUniqueStringWithTimestamp rnd timestamp prefix =
     map_option (\<lambda>randomPart. prefix @ ''_'' @ Itoa timestamp @ ''_'' @ randomPart) (generateRandomString rnd 8)"

section \<open>Distinct identifiers\<close>

lemma unat_genid:
  assumes "unat tt < 2 ^ 31" "unat svrid < 64000"
  shows "unat (genid_word tt svrid u) = (unat tt * 1000) * 2 ^ 22 + unat svrid * 2 ^ 16 + unat u mod 65535"
proof -
  let ?n = "(unat tt * 1000) * 2 ^ 22 + unat svrid * 2 ^ 16 + unat u mod 65535"
  have "genid_word tt svrid u = word_of_nat ?n" by (simp add: genid_word_def Let_def push_bit_eq_mult)
  moreover have "unat u mod 65535 < 65535" by simp
  then have "?n < 2 ^ 64" using assms by simp
  ultimately show ?thesis using unat_of_nat [of ?n, where 'a = 64] by (simp del: of_nat_add of_nat_mult)
qed

lemma mixed_radix: "a * k + x = b * k + y \<Longrightarrow> x < k \<Longrightarrow> y < k \<Longrightarrow> a = b \<and> x = (y :: nat)"
proof -
  assume e: "a * k + x = b * k + y" "x < k" "y < k"
  have "(a * k + x) div k = a" "(b * k + y) div k = b" using e(2,3) by simp_all
  with e(1) have "a = b" by metis
  with e(1) show ?thesis by simp
qed

text \<open>C38: identifiers of distinct servers and seconds are distinct: for Unix times below \<open>2 ^ 31\<close> seconds and server numbers below 64000, two equal identifiers come from the
  same second and the same server, and their sequence numbers agree modulo 65535.\<close>

theorem genid_distinct:
  assumes "unat t < 2 ^ 31" "unat t' < 2 ^ 31" "unat s < 64000" "unat s' < 64000" "genid_word t s u = genid_word t' s' u'"
  shows "t = t' \<and> s = s' \<and> unat u mod 65535 = unat u' mod 65535"
proof -
  let ?r = "unat u mod 65535" and ?r' = "unat u' mod 65535"
  have r: "?r < 65535" "?r' < 65535" by simp_all
  have "(unat t * 1000) * 2 ^ 22 + unat s * 2 ^ 16 + ?r = (unat t' * 1000) * 2 ^ 22 + unat s' * 2 ^ 16 + ?r'"
    using assms(5) unat_genid [OF assms(1,3), of u] unat_genid [OF assms(2,4), of u'] by metis
  then have "unat t * (1000 * 2 ^ 22) + (unat s * 2 ^ 16 + ?r) = unat t' * (1000 * 2 ^ 22) + (unat s' * 2 ^ 16 + ?r')" by (simp only: mult.assoc add.assoc)
  then have "unat t = unat t' \<and> unat s * 2 ^ 16 + ?r = unat s' * 2 ^ 16 + ?r'" by (rule mixed_radix) (use assms(3,4) r in simp_all)
  moreover from this have "unat s = unat s' \<and> ?r = ?r'" using r by (intro mixed_radix [of _ "2 ^ 16"]) simp_all
  ultimately show ?thesis by (simp add: word_unat_eq_iff)
qed

theorem genid_distinct_witness:
  "genid_word 1700000000 1 65536 = genid_word 1700000000 1 1 \<and> unat (65536 :: 64 word) mod 65535 = unat (1 :: 64 word) mod 65535"
proof -
  have e: "genid_word 1700000000 1 65536 = genid_word 1700000000 1 1" by (simp add: genid_word_def)
  then show ?thesis using genid_distinct [OF _ _ _ _ e] by simp
qed

text \<open>From server number 64000 on, identifiers of different seconds meet.\<close>

lemma genid_collision: "genid_word t 64000 u = genid_word (t + 1) 0 u"
  by (simp add: genid_word_def Let_def push_bit_eq_mult algebra_simps)

text \<open>Random strings have the length that was asked for.\<close>

lemma random_lengths:
  assumes "\<And>n. length (rnd n) = n" "0 \<le> len"
  shows "\<exists>s. GenerateSecureRandomString rnd len = Some s \<and> int (length s) = len" "\<exists>s. generateRandomString rnd len = Some s \<and> int (length s) = len"
proof -
  have l: "length (b64_url (rnd n)) = 4 * ((n + 2) div 3)" for n by (simp add: b64_url_def length_b64_encode assms(1))
  have "nat len \<le> 4 * ((nat len + 2) div 3)" by linarith
  then show "\<exists>s. GenerateSecureRandomString rnd len = Some s \<and> int (length s) = len" using assms(2) l by (simp add: GenerateSecureRandomString_def Let_def)
  define m where "m = nat (if len * 3 mod 4 \<noteq> 0 then len * 3 div 4 + 1 else len * 3 div 4)"
  have "int m = (if len * 3 mod 4 \<noteq> 0 then len * 3 div 4 + 1 else len * 3 div 4)" using assms(2) by (simp add: m_def)
  then have "3 * len \<le> 4 * int m" by (auto split: if_splits; presburger)
  then have "nat len \<le> 4 * ((m + 2) div 3)" using assms(2) by presburger
  then show "\<exists>s. generateRandomString rnd len = Some s \<and> int (length s) = len"
    using assms(2) l [of m] unfolding generateRandomString_def Let_def m_def [symmetric] by simp
qed

end
