(* ===== verification/RedisPool.thy ===== *)
theory RedisPool
  imports Selector
begin

text \<open>
  The pools of Redis nodes (\<^verbatim>\<open>redispool/pool.go\<close>) on top of the address list of \<open>Selector\<close>.  A node pool of the client library is its configuration; what
  a command answers is the argument \<open>exec\<close>.  \<^const>\<open>None\<close> is a panic.
\<close>

record redisNode =
  rn_url :: string
  rn_MaxIdle :: int
  rn_MaxActive :: int
  rn_IdleTimeout :: int
  rn_Timeout :: int

record redisPool =
  rp_Sl :: selector
  rp_Plist :: "redisNode list"
  rp_PrintLog :: bool

text \<open>Durations are nanoseconds, as integers without a bound.  The nodes of a list of values; anything else fails the assertion of the type.\<close>

definition nodes :: "(baseSvr \<Rightarrow> redisNode) \<Rightarrow> selector \<Rightarrow> redisNode list go" where
  "nodes f sl = those (map (\<lambda>a. case a of SvrVal bs \<Rightarrow> Some (f bs) | _ \<Rightarrow> None) (sel_Slist sl))"

definition NewPoolWithUrl :: "int \<Rightarrow> int \<Rightarrow> int \<Rightarrow> selector \<Rightarrow> bool \<Rightarrow> redisPool go" where
  "NewPoolWithUrl timeout maxidle maxactive sl prnt =
     map_option (\<lambda>ns. \<lparr>rp_Sl = sl, rp_Plist = ns, rp_PrintLog = prnt\<rparr>)
       (nodes (\<lambda>bs. \<lparr>rn_url = bs_Addr bs, rn_MaxIdle = maxidle, rn_MaxActive = maxactive,
          rn_IdleTimeout = (timeout sdiv 1000) * 1000000000, rn_Timeout = timeout * 1000000\<rparr>) sl)"

definition NewPool :: "int \<Rightarrow> string \<Rightarrow> int \<Rightarrow> int \<Rightarrow> selector \<Rightarrow> bool \<Rightarrow> redisPool go" where
  "NewPool db passwd maxidle maxactive sl prnt =
     (let passwd_s = '':'' @ passwd @ ''@''; db_s = (if 0 \<le> db then ''/'' @ Itoa db else []) in
      map_option (\<lambda>ns. \<lparr>rp_Sl = sl, rp_Plist = ns, rp_PrintLog = prnt\<rparr>)
        (nodes (\<lambda>bs. let timeout = sint (GetTimeOut bs) in
           \<lparr>rn_url = ''redis://'' @ passwd_s @ bs_Addr bs @ '':'' @ Itoa (bs_Port bs) @ db_s, rn_MaxIdle = maxidle, rn_MaxActive = maxactive,
            rn_IdleTimeout = (timeout sdiv 1000) * 1000000000, rn_Timeout = timeout * 1000000\<rparr>) sl))"

text \<open>The pool at the position of the selector, which the rotation has already advanced.\<close>

definition pool_at :: "redisPool \<Rightarrow> redisNode go" where
  "pool_at pr = (let i = sint (sel_Pos (rp_Sl pr)) in if i < 0 \<or> int (length (rp_Plist pr)) \<le> i then None else Some (rp_Plist pr ! nat i))"

definition RedisPoolRoundRobin :: "redisPool \<Rightarrow> (redisPool \<times> redisNode) go" where
  "RedisPoolRoundRobin pr =
     (case RoundRobin (rp_Sl pr) of
        None \<Rightarrow> None
      | Some (a, sl) \<Rightarrow>
          let pr = pr\<lparr>rp_Sl := sl\<rparr> in
          (case a of SvrVal bs \<Rightarrow> map_option (Pair pr) (pool_at pr) | _ \<Rightarrow> None))"

definition Redis_Do :: "(redisNode \<Rightarrow> 'cmd \<Rightarrow> 'reply \<times> error option) \<Rightarrow> redisPool \<Rightarrow> 'cmd \<Rightarrow> (redisPool \<times> (error + 'reply \<times> error option)) go" where
  "Redis_Do exec pr cmd =
     (case RoundRobin (rp_Sl pr) of
        None \<Rightarrow> None
      | Some (a, sl) \<Rightarrow>
          let pr = pr\<lparr>rp_Sl := sl\<rparr> in
          (case a of
             SvrNil \<Rightarrow> Some (pr, Inl [ErrorText ''not valid server''])
           | _ \<Rightarrow> (case pool_at pr of
                     None \<Rightarrow> None
                   | Some n \<Rightarrow> (case a of SvrVal bs \<Rightarrow> Some (pr, Inr (exec n cmd)) | _ \<Rightarrow> None))))"

section \<open>Properties\<close>

text \<open>No pool can be made from a list that the parser of addresses has built: it stores pointers, and the pool asserts values.\<close>

lemma pool_of_urls_panics: "urls \<noteq> [] \<Longrightarrow> NewPoolWithUrl timeout mi ma (SparseRedisAddr s urls) prnt = None"
  by (cases urls) (simp_all add: NewPoolWithUrl_def nodes_def SparseRedisAddr_def)

text \<open>With servers as values, all valid, a command goes to the node after the one that the selector has chosen.\<close>

lemma rr_scan_valid:
  "list_all (\<lambda>bs. bs_Valid bs = SVR_VALID) bss \<Longrightarrow> length pre = i \<Longrightarrow>
   rr_scan (map SvrVal bss) i (pre @ replicate (length bss) SvrNil) j = Some (pre @ map SvrVal bss, j + word_of_nat (length bss))"
proof (induction bss arbitrary: i pre j)
  case (Cons b bss)
  have "rr_scan (map SvrVal bss) (Suc i) ((pre @ [SvrVal b]) @ replicate (length bss) SvrNil) (j + 1) = Some ((pre @ [SvrVal b]) @ map SvrVal bss, j + 1 + word_of_nat (length bss))"
    by (rule Cons.IH) (use Cons.prems in simp_all)
  then show ?case using Cons.prems by (simp add: list_update_append algebra_simps)
qed simp

lemma command_to_next_node:
  assumes "list_all (\<lambda>bs. bs_Valid bs = SVR_VALID) bss" "sel_Slist (rp_Sl pr) = map SvrVal bss" "sel_Pos (rp_Sl pr) = word_of_nat p" "p < length bss" "length bss < 2 ^ 31"
    and "length (rp_Plist pr) = length bss"
  shows "\<exists>sl. RoundRobin (rp_Sl pr) = Some (SvrVal (bss ! p), sl) \<and> Redis_Do exec pr cmd = Some (pr\<lparr>rp_Sl := sl\<rparr>, Inr (exec (rp_Plist pr ! (Suc p mod length bss)) cmd))"
proof -
  let ?n = "length bss"
  have s: "sint (word_of_nat k :: 32 word) = int k" if "k < 2 ^ 31" for k
    using that by (simp add: sint_uint signed_take_bit_int_eq_self unsigned_of_nat take_bit_nat_eq_self)
  have scan: "rr_scan (map SvrVal bss) 0 (replicate ?n SvrNil) 0 = Some (map SvrVal bss, word_of_nat ?n)" using rr_scan_valid [OF assms(1), of "[]" 0 0] by simp
  have ne: "(word_of_nat ?n :: 32 word) \<noteq> 0" using s [of ?n] assms(4,5) by (metis gr_implies_not0 of_nat_eq_0_iff sint_0 of_nat_0)
  have k: "int p smod int ?n = int p" "int (Suc p) smod int ?n = int (Suc p mod ?n)" using assms(4) by (simp_all add: signed_modulo_int_def sgn_if zmod_int)
  have p: "sint (word_of_nat p :: 32 word) = int p" "sint (word_of_nat ?n :: 32 word) = int ?n" "sint (word_of_nat p + 1 :: 32 word) = int (Suc p)"
    using s [of p] s [of ?n] s [of "Suc p"] assms(4,5) by (simp_all add: add.commute)
  have m: "Suc p mod ?n < ?n" by (rule mod_less_divisor) (use assms(4) in linarith)
  let ?sl = "(rp_Sl pr)\<lparr>sel_Pos := word_of_nat (Suc p mod ?n)\<rparr>"
  have rr: "RoundRobin (rp_Sl pr) = Some (SvrVal (bss ! p), ?sl)"
    using scan ne k p assms(2-4) by (simp add: RoundRobin_def)
  have "pool_at (pr\<lparr>rp_Sl := ?sl\<rparr>) = Some (rp_Plist pr ! (Suc p mod ?n))" using s [of "Suc p mod ?n"] m assms(5,6) by (simp add: pool_at_def)
  then show ?thesis using rr by (simp add: Redis_Do_def)
qed

end
