(* ===== verification/DbEnc.thy ===== *)
theory DbEnc
  imports IniFile Crypto
begin

text \<open>
  The encrypted configuration of databases (\<^verbatim>\<open>dbenc/dbenc.go\<close>): an INI file in clear, or one that starts with a flag and holds a key, encrypted with
  a built-in one, and the INI text encrypted with that key.

  \<^const>\<open>None\<close> is a panic, \<open>Some None\<close> the nil that stands for an error.  MD5 and the cipher are parameters as in \<open>Crypto\<close>, the bytes of the
  file an argument, and logging is left out.
\<close>

section \<open>Reading\<close>

record dbConf =
  db_Dbconf :: gconf
  db_DbConfFileBuf :: string

definition GenAesIv :: "(bytes \<Rightarrow> bytes) \<Rightarrow> string" where
  "GenAesIv md5 = hex_encode (md5 (str_bytes ''qfpay.com''))"

text \<open>\<^verbatim>\<open>strconv.ParseInt(s, 16, 64)\<close> on a text of at most eight bytes, which cannot overflow.\<close>

fun hex_digits :: "nat \<Rightarrow> string \<Rightarrow> nat option" where
  "hex_digits acc [] = Some acc"
| "hex_digits acc (c # cs) = (case hex_val c of None \<Rightarrow> None | Some d \<Rightarrow> hex_digits (16 * acc + d) cs)"

definition ParseHex :: "string \<Rightarrow> int option" where
  "ParseHex s =
     (let neg = (s \<noteq> [] \<and> hd s = CHR ''-'');
          body = (if s \<noteq> [] \<and> (hd s = CHR ''-'' \<or> hd s = CHR ''+'') then tl s else s)
      in if body = [] then None
         else case hex_digits 0 body of None \<Rightarrow> None | Some n \<Rightarrow> Some (if neg then - int n else int n))"

text \<open>\<^verbatim>\<open>s[lo:hi]\<close>, a panic outside the string; and the cut of the padding by the last byte.\<close>

definition slice :: "int \<Rightarrow> int \<Rightarrow> 'a list \<Rightarrow> 'a list go" where
  "slice lo hi s = (if 0 \<le> lo \<and> lo \<le> hi \<and> hi \<le> int (length s) then Some (take (nat (hi - lo)) (drop (nat lo) s)) else None)"

definition cut_padding :: "bytes \<Rightarrow> bytes go" where
  "cut_padding data = (if data = [] then None else slice 0 (int (length data) - int (unat (last data))) data)"

definition db_decrypt :: "(bytes \<Rightarrow> block option) \<Rightarrow> string \<Rightarrow> string \<Rightarrow> string \<Rightarrow> bytes option go" where
  "db_decrypt aes key enc ivc =
     (case AesCbcDec aes key enc ivc of
        None \<Rightarrow> None
      | Some (Inl err) \<Rightarrow> Some None
      | Some (Inr data) \<Rightarrow> map_option Some (cut_padding data))"

definition DbConfNew :: "(bytes \<Rightarrow> block option) \<Rightarrow> (bytes \<Rightarrow> bytes) \<Rightarrow> string option \<Rightarrow> dbConf option go" where
  "DbConfNew aes md5 fi =
     (case fi of
        None \<Rightarrow> Some None
      | Some fbuf \<Rightarrow>
          if take 8 fbuf \<noteq> ''FFFFFFFF'' then Some (Some \<lparr>db_Dbconf = GconfParseFromString NewGconf fbuf, db_DbConfFileBuf = []\<rparr>)
          else
            let buf = concat (Split fbuf LF) in
            (case slice 8 16 buf of
               None \<Rightarrow> None
             | Some skeylen \<Rightarrow>
                 (case ParseHex skeylen of
                    None \<Rightarrow> Some None
                  | Some keylen \<Rightarrow>
                      (case slice 16 (16 + keylen) buf of
                         None \<Rightarrow> None
                       | Some enckey \<Rightarrow>
                           let iv = GenAesIv md5; ivc = hex_encode (str_bytes (take 16 iv)) in
                           (case db_decrypt aes iv enckey ivc of
                              None \<Rightarrow> None
                            | Some None \<Rightarrow> Some None
                            | Some (Some key) \<Rightarrow>
                                (case db_decrypt aes (bytes_str key) (drop (nat (16 + keylen)) buf) ivc of
                                   None \<Rightarrow> None
                                 | Some None \<Rightarrow> Some None
                                 | Some (Some realdata) \<Rightarrow>
                                     Some (Some \<lparr>db_Dbconf = GconfParseFromString NewGconf (bytes_str realdata), db_DbConfFileBuf = buf\<rparr>)))))))"

text \<open>The first value of every key of a group.\<close>

definition DbConfReadGroup :: "dbConf \<Rightarrow> string \<Rightarrow> (string \<rightharpoonup> string) go" where
  "DbConfReadGroup dbc grp =
     (case gc_Gcf (db_Dbconf dbc) grp of
        None \<Rightarrow> Some Map.empty
      | Some vGroup \<Rightarrow> if \<exists>k. vGroup k = Some [] then None else Some (\<lambda>k. map_option hd (vGroup k)))"

definition DbConfReadGroupWithCtx :: "dbConf \<Rightarrow> string \<Rightarrow> (string \<rightharpoonup> string) go" where
  "DbConfReadGroupWithCtx dbc grp =
     (case gc_Gcf (db_Dbconf dbc) grp of
        None \<Rightarrow> Some Map.empty
      | Some vGroup \<Rightarrow> if \<exists>k. vGroup k = Some [] then None else Some (\<lambda>k. map_option hd (vGroup k)))"

section \<open>Writing\<close>

text \<open>The file that the reader expects: both parts padded, encrypted and in hexadecimal.\<close>

definition db_encrypt :: "(bytes \<Rightarrow> block option) \<Rightarrow> string \<Rightarrow> bytes \<Rightarrow> bytes \<Rightarrow> string option" where
  "db_encrypt aes key iv data =
     (case aes (str_bytes key) of None \<Rightarrow> None | Some bl \<Rightarrow> map_option hex_encode (CBC_Encrypt bl iv (PKCS7Padding data 16)))"

definition hex8 :: "nat \<Rightarrow> string" where
  "hex8 n = map (\<lambda>i. hex_alphabet ! (n div 16 ^ i mod 16)) [7, 6, 5, 4, 3, 2, 1, 0]"

definition db_file :: "(bytes \<Rightarrow> block option) \<Rightarrow> (bytes \<Rightarrow> bytes) \<Rightarrow> bytes \<Rightarrow> string \<Rightarrow> string option" where
  "db_file aes md5 key text =
     (let iv = GenAesIv md5; ivb = str_bytes (take 16 iv) in
      case db_encrypt aes iv ivb key of
        None \<Rightarrow> None
      | Some k \<Rightarrow> map_option (\<lambda>d. ''FFFFFFFF'' @ hex8 (length k) @ k @ d) (db_encrypt aes (bytes_str key) ivb (str_bytes text)))"

section \<open>Lemmas\<close>

lemma concat_Split: "concat (Split s c) = filter (\<lambda>x. x \<noteq> c) s"
proof (induction s)
  case (Cons x s)
  then show ?case by (cases "Split s c") auto
qed simp

lemma hex_val_nth: "i < 16 \<Longrightarrow> hex_val (hex_alphabet ! i) = Some i"
proof -
  assume "i < 16"
  moreover have "distinct hex_alphabet" "length hex_alphabet = 16" by code_simp+
  ultimately show ?thesis by (simp add: hex_val_def index_of_nth)
qed

lemma hex_decode_encode: "hex_decode (hex_encode bs) = (bs, True)"
proof (induction bs)
  case (Cons b bs)
  have "unat b div 16 < 16" "unat b mod 16 < 16" using byte_less [of b] by simp_all
  then have v: "hex_val (hex_alphabet ! (unat b div 16)) = Some (unat b div 16)" "hex_val (hex_alphabet ! (unat b mod 16)) = Some (unat b mod 16)"
    by (simp_all only: hex_val_nth)
  have h: "hex_encode (b # bs) = hex_alphabet ! (unat b div 16) # hex_alphabet ! (unat b mod 16) # hex_encode bs" by (simp add: hex_encode_def)
  have "unat b div 16 * 16 + unat b mod 16 = unat b" by (rule div_mult_mod_eq)
  then have "word_of_nat (unat b div 16 * 16 + unat b mod 16) = b" by simp
  then show ?case unfolding h hex_decode.simps v using Cons.IH by simp
qed (simp add: hex_encode_def)

lemma hex_encode_append: "hex_encode (a @ b) = hex_encode a @ hex_encode b"
  by (simp add: hex_encode_def)

lemma length_hex_encode: "length (hex_encode bs) = 2 * length bs"
  by (induction bs) (simp_all add: hex_encode_def)

lemma cut_padding_padded:
  assumes "0 < n" "n < 256"
  shows "cut_padding (PKCS7Padding data n) = Some data"
proof -
  obtain p where p: "p = n - length data mod n" by simp
  have b: "0 < p" "p < 256" using assms p by (simp_all add: less_imp_diff_less)
  have "unat (word_of_nat p :: 8 word) = p" using b(2) unat_of_nat [of p, where 'a = 8] by simp
  moreover have "PKCS7Padding data n = data @ replicate p (word_of_nat p)" by (simp add: PKCS7Padding_def Let_def p)
  ultimately show ?thesis using b(1) by (simp add: cut_padding_def slice_def)
qed

text \<open>What is encrypted is decrypted.\<close>

lemma db_crypt:
  assumes "aes_ok aes" "length key \<in> {16, 24, 32}" "length iv = 16"
  obtains enc where "db_encrypt aes key iv data = Some enc" "db_decrypt aes key enc (hex_encode iv) = Some (Some data)"
    "length enc = 2 * length (PKCS7Padding data 16)"
proof -
  obtain bl where bl: "aes (str_bytes key) = Some bl" "block_ok bl" "bl_size bl = 16" using aes_block [OF assms(1), of "str_bytes key"] assms(2) by auto
  let ?p = "PKCS7Padding data 16"
  have p: "16 dvd length ?p" using padding_dvd by simp
  obtain c where c: "CBC_Encrypt bl iv ?p = Some c" "CBC_Decrypt bl iv c = Some ?p" "length c = length ?p"
    using CBC_roundtrip [OF bl(2), of iv ?p] assms(3) bl(3) p by metis
  have "AesCbcDec aes key (hex_encode c) (hex_encode iv) = Some (Inr ?p)"
    using assms(3) c(2,3) p by (simp add: AesCbcDec_def bl(1) flip: hex_encode_append) (simp add: hex_decode_encode)
  then have "db_decrypt aes key (hex_encode c) (hex_encode iv) = Some (Some data)" by (simp add: db_decrypt_def cut_padding_padded)
  then show thesis using that [of "hex_encode c"] bl(1) c(1,3) by (simp add: db_encrypt_def length_hex_encode)
qed

lemma hex8_facts:
  "ParseHex (hex8 64) = Some 64" "ParseHex (hex8 96) = Some 96" "length (hex8 n) = 8"
proof -
  have "hex8 64 = ''00000040''" "hex8 96 = ''00000060''" by (simp_all add: hex8_def hex_alphabet_def)
  moreover have "ParseHex ''00000040'' = Some 64" "ParseHex ''00000060'' = Some 96" by code_simp+
  ultimately show "ParseHex (hex8 64) = Some 64" "ParseHex (hex8 96) = Some 96" by simp_all
  show "length (hex8 n) = 8" by (simp add: hex8_def)
qed

lemma padded_key_length: "length key \<in> {16, 24, 32} \<Longrightarrow> 2 * length (PKCS7Padding key 16) \<in> {64, 96}"
  by (auto simp: PKCS7Padding_def Let_def)

lemma hex_plain: "LF \<notin> set (hex_encode bs)" "LF \<notin> set (hex8 n)"
proof -
  have a: "LF \<notin> set hex_alphabet" "length hex_alphabet = 16" by code_simp+
  then have nth: "LF \<noteq> hex_alphabet ! i" if "i < 16" for i using that by (metis nth_mem)
  have "LF \<noteq> hex_alphabet ! (unat b div 16) \<and> LF \<noteq> hex_alphabet ! (unat b mod 16)" for b :: "8 word" using nth byte_less [of b] by simp
  then show "LF \<notin> set (hex_encode bs)" unfolding hex_encode_def by (induction bs) simp_all
  show "LF \<notin> set (hex8 n)" by (simp add: hex8_def nth)
qed

lemma db_file_plain:
  assumes "db_file aes md5 key text = Some f"
  shows "take 8 f = ''FFFFFFFF'' \<and> LF \<notin> set f \<and> 8 \<le> length f"
proof -
  obtain k d n where "f = ''FFFFFFFF'' @ hex8 n @ hex_encode k @ hex_encode d"
    using assms by (auto simp: db_file_def db_encrypt_def Let_def split: option.splits)
  then show ?thesis using hex_plain by auto
qed

section \<open>Reading back\<close>

text \<open>C31: an encrypted configuration is read as its plaintext: for a key of a valid length and any INI text, the encrypted file can be
  written, and however it is broken into lines after the flag, reading it gives exactly the configuration of the text.\<close>

theorem dbenc_roundtrip:
  assumes "aes_ok aes" "length (md5 (str_bytes ''qfpay.com'')) = 16" "length key \<in> {16, 24, 32}"
  shows "\<exists>f. db_file aes md5 key text = Some f \<and>
    (\<forall>file. take 8 file = ''FFFFFFFF'' \<and> filter (\<lambda>c. c \<noteq> LF) file = f \<longrightarrow>
       DbConfNew aes md5 (Some file) = Some (Some \<lparr>db_Dbconf = GconfParseFromString NewGconf text, db_DbConfFileBuf = f\<rparr>))"
proof -
  let ?iv = "GenAesIv md5" and ?ivb = "str_bytes (take 16 (GenAesIv md5))"
  have iv: "length ?iv = 32" "length ?ivb = 16" using assms(2) by (simp_all add: GenAesIv_def length_hex_encode)
  obtain k where k: "db_encrypt aes ?iv ?ivb key = Some k" "db_decrypt aes ?iv k (hex_encode ?ivb) = Some (Some key)"
    "length k = 2 * length (PKCS7Padding key 16)" using db_crypt [OF assms(1) _ iv(2), of ?iv key] iv(1) by auto
  obtain d where d: "db_encrypt aes (bytes_str key) ?ivb (str_bytes text) = Some d"
    "db_decrypt aes (bytes_str key) d (hex_encode ?ivb) = Some (Some (str_bytes text))"
    using db_crypt [OF assms(1) _ iv(2), of "bytes_str key" "str_bytes text"] assms(3) by auto
  let ?f = "''FFFFFFFF'' @ hex8 (length k) @ k @ d"
  have len: "ParseHex (hex8 (length k)) = Some (int (length k))" using k(3) padded_key_length [OF assms(3)] hex8_facts by auto
  have "slice 8 16 ?f = Some (hex8 (length k))" by (simp add: slice_def hex8_facts(3))
  moreover have "slice 16 (16 + int (length k)) ?f = Some k" by (simp add: slice_def hex8_facts(3))
  moreover have "drop (nat (16 + int (length k))) ?f = d"
  proof -
    have "nat (16 + int (length k)) = length (''FFFFFFFF'' @ hex8 (length k) @ k)" by (simp add: hex8_facts(3))
    then show ?thesis by (metis append.assoc append_eq_conv_conj)
  qed
  ultimately have "DbConfNew aes md5 (Some fl) = Some (Some \<lparr>db_Dbconf = GconfParseFromString NewGconf text, db_DbConfFileBuf = ?f\<rparr>)"
    if "take 8 fl = ''FFFFFFFF''" "filter (\<lambda>c. c \<noteq> LF) fl = ?f" for fl
    using that len k(2) d(2) by (simp only: DbConfNew_def concat_Split Let_def option.case if_False not_True_eq_False refl bytes_str_bytes)
  moreover have "db_file aes md5 key text = Some ?f" using k(1) d(1) by (simp add: db_file_def Let_def)
  ultimately show ?thesis by blast
qed

definition demo_md5 :: "bytes \<Rightarrow> bytes" where
  "demo_md5 b = replicate 16 7"

theorem dbenc_roundtrip_witness:
  "\<exists>f. db_file demo_aes demo_md5 (replicate 16 1) (''[db]'' @ [LF] @ ''user = root'') = Some f \<and>
    DbConfNew demo_aes demo_md5 (Some (f @ [LF])) =
      Some (Some \<lparr>db_Dbconf = GconfParseFromString NewGconf (''[db]'' @ [LF] @ ''user = root''), db_DbConfFileBuf = f\<rparr>)"
proof -
  let ?t = "''[db]'' @ [LF] @ ''user = root''"
  obtain f where f: "db_file demo_aes demo_md5 (replicate 16 1) ?t = Some f"
    "\<forall>file. take 8 file = ''FFFFFFFF'' \<and> filter (\<lambda>c. c \<noteq> LF) file = f \<longrightarrow>
       DbConfNew demo_aes demo_md5 (Some file) = Some (Some \<lparr>db_Dbconf = GconfParseFromString NewGconf ?t, db_DbConfFileBuf = f\<rparr>)"
    using dbenc_roundtrip [OF demo_aes_ok, of demo_md5 "replicate 16 1" ?t] by (auto simp: demo_md5_def)
  have "take 8 f = ''FFFFFFFF''" "LF \<notin> set f" "8 \<le> length f" using db_file_plain [OF f(1)] by simp_all
  then have "take 8 (f @ [LF]) = ''FFFFFFFF''" "filter (\<lambda>c. c \<noteq> LF) (f @ [LF]) = f" by (auto simp: filter_id_conv)
  then show ?thesis using f by blast
qed

section \<open>Groups\<close>

text \<open>In a configuration that was read, every key has a value.\<close>

definition keys_valued :: "gconf \<Rightarrow> bool" where
  "keys_valued cfg \<longleftrightarrow> (\<forall>sec m k. gc_Gcf cfg sec = Some m \<longrightarrow> m k \<noteq> Some [])"

lemma keys_valued_line: "keys_valued (ini_conf st) \<Longrightarrow> keys_valued (ini_conf (ini_line st l))"
  by (auto simp: keys_valued_def ini_line_def getIkExd_def Let_def split: option.splits prod.splits if_splits)

lemma keys_valued_loop: "keys_valued (ini_conf st) \<Longrightarrow> keys_valued (ini_conf (ini_loop st s))"
proof (induction st s rule: ini_loop.induct)
  case (1 st s)
  show ?case
  proof (cases "ReadLine s")
    case None
    then show ?thesis using "1.prems" by (simp add: ini_loop.simps [of st s])
  next
    case (Some lr)
    obtain l r where "lr = (l, r)" by (cases lr)
    then show ?thesis using Some "1.IH" [OF Some] keys_valued_line [OF "1.prems"] by (simp add: ini_loop.simps [of st s])
  qed
qed

lemma keys_valued_read: "keys_valued (GconfParseFromString NewGconf s)"
proof -
  have "keys_valued (ini_conf (ini_start NewGconf))" by (simp add: ini_start_def NewGconf_def keys_valued_def)
  then show ?thesis unfolding GconfParseFromString_def DoConfParse_def by (rule keys_valued_loop)
qed

text \<open>Reading a group of a configuration from a file gives the first value of each key and cannot panic.\<close>

lemma read_group:
  assumes "DbConfNew aes md5 fl = Some (Some dbc)"
  shows "DbConfReadGroup dbc grp = Some (case gc_Gcf (db_Dbconf dbc) grp of None \<Rightarrow> Map.empty | Some m \<Rightarrow> (\<lambda>k. map_option hd (m k)))"
    "DbConfReadGroupWithCtx dbc grp = DbConfReadGroup dbc grp"
proof -
  have "keys_valued (db_Dbconf dbc)"
    using assms keys_valued_read by (auto simp: DbConfNew_def Let_def split: option.splits if_splits)
  then show "DbConfReadGroup dbc grp = Some (case gc_Gcf (db_Dbconf dbc) grp of None \<Rightarrow> Map.empty | Some m \<Rightarrow> (\<lambda>k. map_option hd (m k)))"
    by (auto simp: DbConfReadGroup_def keys_valued_def split: option.splits)
  show "DbConfReadGroupWithCtx dbc grp = DbConfReadGroup dbc grp" by (simp add: DbConfReadGroup_def DbConfReadGroupWithCtx_def)
qed

text \<open>A damaged file is not an error but a panic: a file cut after its flag, or one with a negative length.\<close>

lemma short_file_panics:
  "DbConfNew aes md5 (Some ''FFFFFFFF0000'') = None" "DbConfNew aes md5 (Some ''FFFFFFFF-0000001'') = None"
proof -
  have "ParseHex ''-0000001'' = Some (- 1)" by code_simp
  then show "DbConfNew aes md5 (Some ''FFFFFFFF-0000001'') = None"
    by (simp add: DbConfNew_def concat_Split slice_def)
qed (simp add: DbConfNew_def concat_Split slice_def)

end
