(* ===== verification/DbPool.thy ===== *)
theory DbPool
  imports DbEnc ConfParse
begin

text \<open>
  The pools of databases (\<^verbatim>\<open>dbpool/dbpool.go\<close>): a pool is added from a URL such as \<^verbatim>\<open>mysql://group?maxopen=10&maxidle=5\<close> whose group is looked up in the
  configuration of \<open>DbEnc\<close>.  Connecting is code of the database packages and the argument \<open>connect\<close>, one function for each model; a pool is what it returns, with its limits.
  \<^const>\<open>None\<close> is a panic.  The logger that the second model gets is not part of the state.
\<close>

definition USE_SQLX :: int where "USE_SQLX = 0"
definition USE_GORM :: int where "USE_GORM = 1"

record 'p dbpool =
  dp_Tset :: dbConf
  dp_Pools :: "string \<rightharpoonup> 'p option \<times> int \<times> int"
  dp_OrmPools :: "string \<rightharpoonup> 'p option \<times> int \<times> int"

definition DbpoolNew :: "dbConf \<Rightarrow> 'p dbpool" where
  "DbpoolNew conf = \<lparr>dp_Tset = conf, dp_Pools = Map.empty, dp_OrmPools = Map.empty\<rparr>"

text \<open>The limits and the last error; a parameter without a value is an index out of range.\<close>

fun pool_params :: "string \<Rightarrow> string list \<Rightarrow> int \<times> int \<Rightarrow> (error + int \<times> int) go" where
  "pool_params params [] lim = Some (Inr lim)"
| "pool_params params (item # rest) (maxopen, maxidle) =
     (let x = Split item CHR ''='' in
      if x ! 0 = ''maxopen'' then (if length x < 2 then None else pool_params params rest (fst (Atoi (x ! 1)), maxidle))
      else if x ! 0 = ''maxidle'' then (if length x < 2 then None else pool_params params rest (maxopen, fst (Atoi (x ! 1))))
      else Some (Inl [ErrorText (''param err pamam='' @ params)]))"

definition dsn :: "(string \<rightharpoonup> string) \<Rightarrow> string" where
  "dsn dbc = (let f = (\<lambda>k. case dbc k of Some v \<Rightarrow> v | None \<Rightarrow> []) in
     f ''user'' @ '':'' @ f ''pswd'' @ ''@tcp('' @ f ''host'' @ '':'' @ f ''port'' @ '')/'' @ f ''dtbs'' @ ''?charset=utf8&parseTime=true&loc=Local'')"

text \<open>
  A model other than the two leaves the error of the last limit, which is the only use of it; otherwise it is overwritten by the result of the connection.  A connection that fails is stored
  as it was returned, and gets no limits.
\<close>

definition last_limit_error :: "string list \<Rightarrow> bool" where
  "last_limit_error pdata = (pdata \<noteq> [] \<and> (let x = Split (last pdata) CHR ''='' in 1 < length x \<and> snd (Atoi (x ! 1))))"

definition Dbpool_Add :: "(int \<Rightarrow> string \<Rightarrow> 'p option \<times> error option) \<Rightarrow> 'p dbpool \<Rightarrow> string \<Rightarrow> string \<Rightarrow> int \<Rightarrow> ('p dbpool \<times> error option) go" where
  "Dbpool_Add connect dp db url model =
     (let xdata = Split url CHR ''?'' in
      if length xdata \<noteq> 2 then Some (dp, Some [ErrorText (''url err not have ? url='' @ url)])
      else
        let params = xdata ! 1; pdata = Split params CHR ''&'' in
        if length pdata \<noteq> 2 then Some (dp, Some [ErrorText (''param err pamam='' @ params)])
        else
          (case pool_params params pdata (100, 50) of
             None \<Rightarrow> None
           | Some (Inl e) \<Rightarrow> Some (dp, Some e)
           | Some (Inr (maxopen, maxidle)) \<Rightarrow>
               let tdata = SplitStr (xdata ! 0) ''://'' in
               if length tdata \<noteq> 2 then Some (dp, Some [ErrorText (''token err token='' @ xdata ! 0)])
               else
                 (case DbConfReadGroup (dp_Tset dp) (tdata ! 1) of
                    None \<Rightarrow> None
                  | Some dbc \<Rightarrow>
                      (case connect model (dsn dbc) of
                         (p, err) \<Rightarrow>
                           let entry = (p, if err = None then (maxopen, maxidle) else (0, 0)) in
                           if model = USE_SQLX then Some (dp\<lparr>dp_Pools := (dp_Pools dp)(db \<mapsto> entry)\<rparr>, err)
                           else if model = USE_GORM then Some (dp\<lparr>dp_OrmPools := (dp_OrmPools dp)(db \<mapsto> entry)\<rparr>, err)
                           else Some (dp, if last_limit_error pdata then Some [ErrorText ''strconv.Atoi''] else None)))))"

section \<open>Properties\<close>

definition pool_url :: "string \<Rightarrow> string \<Rightarrow> int \<Rightarrow> int \<Rightarrow> string" where
  "pool_url scheme grp mo mi = scheme @ ''://'' @ grp @ ''?maxopen='' @ Itoa mo @ ''&maxidle='' @ Itoa mi"

lemma Split_one: "c \<notin> set a \<Longrightarrow> c \<notin> set b \<Longrightarrow> Split (a @ c # b) c = [a, b]"
  by (simp add: Split_append_sep Split_no_sep)

lemma Itoa_plain: "c \<noteq> CHR ''-'' \<Longrightarrow> \<not> decimal c \<Longrightarrow> c \<notin> set (Itoa i)"
  using nat_str_decimal by (auto simp: Itoa_def)

lemma split_token: "CHR '':'' \<notin> set a \<Longrightarrow> CHR '':'' \<notin> set b \<Longrightarrow> SplitStr (a @ ''://'' @ b) ''://'' = [a, b]"
proof -
  assume a: "CHR '':'' \<notin> set a" "CHR '':'' \<notin> set b"
  have "split_str ''://'' acc b = [acc @ b]" for acc using a(2) by (induction b arbitrary: acc) auto
  then have "split_str ''://'' acc (a @ ''://'' @ b) = [acc @ a, b]" for acc using a(1) by (induction a arbitrary: acc) auto
  then show ?thesis by (simp add: SplitStr_def)
qed

lemma limit_items:
  assumes "- (2 ^ 63) \<le> mo" "mo < 2 ^ 63" "- (2 ^ 63) \<le> mi" "mi < 2 ^ 63"
  shows "Split (''maxopen='' @ Itoa mo @ ''&maxidle='' @ Itoa mi) CHR ''&'' = [''maxopen='' @ Itoa mo, ''maxidle='' @ Itoa mi]"
    "pool_params params [''maxopen='' @ Itoa mo, ''maxidle='' @ Itoa mi] lim = Some (Inr (mo, mi))"
proof -
  have n: "CHR ''&'' \<notin> set (Itoa i)" "CHR ''='' \<notin> set (Itoa i)" for i by (rule Itoa_plain; code_simp)+
  show "Split (''maxopen='' @ Itoa mo @ ''&maxidle='' @ Itoa mi) CHR ''&'' = [''maxopen='' @ Itoa mo, ''maxidle='' @ Itoa mi]"
    using Split_one [of "CHR ''&''" "''maxopen='' @ Itoa mo" "''maxidle='' @ Itoa mi"] n by simp
  have "Split (''maxopen='' @ Itoa mo) CHR ''='' = [''maxopen'', Itoa mo]" "Split (''maxidle='' @ Itoa mi) CHR ''='' = [''maxidle'', Itoa mi]"
    using Split_one [of "CHR ''=''" "''maxopen''" "Itoa mo"] Split_one [of "CHR ''=''" "''maxidle''" "Itoa mi"] n by simp_all
  then show "pool_params params [''maxopen='' @ Itoa mo, ''maxidle='' @ Itoa mi] lim = Some (Inr (mo, mi))"
    using Atoi_Itoa [OF assms(1,2)] Atoi_Itoa [OF assms(3,4)] by (cases lim) (simp add: Let_def)
qed

text \<open>Adding a well-formed URL connects to the database of the group and sets the limits of the URL.\<close>

lemma Add_connects:
  assumes "DbConfNew aes md5 fl = Some (Some conf)" "dp_Tset dp = conf"
    and "connect USE_SQLX (dsn (case gc_Gcf (db_Dbconf conf) grp of None \<Rightarrow> Map.empty | Some m \<Rightarrow> (\<lambda>k. map_option hd (m k)))) = (p, None)"
    and "CHR ''?'' \<notin> set (scheme @ grp)" "CHR '':'' \<notin> set (scheme @ grp)" "- (2 ^ 63) \<le> mo" "mo < 2 ^ 63" "- (2 ^ 63) \<le> mi" "mi < 2 ^ 63"
  shows "Dbpool_Add connect dp db (pool_url scheme grp mo mi) USE_SQLX = Some (dp\<lparr>dp_Pools := (dp_Pools dp)(db \<mapsto> (p, mo, mi))\<rparr>, None)"
proof -
  let ?params = "''maxopen='' @ Itoa mo @ ''&maxidle='' @ Itoa mi"
  have q: "CHR ''?'' \<notin> set (Itoa i)" for i by (rule Itoa_plain; code_simp)
  have u: "Split (pool_url scheme grp mo mi) CHR ''?'' = [scheme @ ''://'' @ grp, ?params]"
    using Split_one [of "CHR ''?''" "scheme @ ''://'' @ grp" ?params] q assms(4) by (simp add: pool_url_def)
  have t: "SplitStr (scheme @ ''://'' @ grp) ''://'' = [scheme, grp]" by (rule split_token) (use assms(5) in simp_all)
  note l = limit_items [OF assms(6-9)]
  show ?thesis using read_group [OF assms(1), of grp] assms(2,3)
    by (simp only: Dbpool_Add_def u t l Let_def list.size nth_Cons_0 nth_Cons_Suc One_nat_def option.case sum.case prod.case) simp
qed

text \<open>A limit that is not a number is no error: the pool is made with the limit 0, which means no limit.  A limit without a value is a panic.\<close>

lemma bad_limits:
  "pool_params params [''maxopen=x'', ''maxidle=5''] (100, 50) = Some (Inr (0, 5))" "pool_params params [''maxopen'', ''maxidle=5''] (100, 50) = None"
proof -
  have s: "Split ''maxopen=x'' CHR ''='' = [''maxopen'', ''x'']" "Split ''maxidle=5'' CHR ''='' = [''maxidle'', ''5'']" "Split ''maxopen'' CHR ''='' = [''maxopen'']"
    by simp_all
  have v: "Atoi ''x'' = (0, True)" "Atoi ''5'' = (5, False)"
    by (simp_all add: Atoi_def unsigned_val_def digit_val_def Let_def)
  show "pool_params params [''maxopen=x'', ''maxidle=5''] (100, 50) = Some (Inr (0, 5))" "pool_params params [''maxopen'', ''maxidle=5''] (100, 50) = None"
    by (simp_all add: s v Let_def del: Split.simps)
qed

end
