(* ===== verification/Spec2Isabelle.thy ===== *)
theory Spec2Isabelle
  imports RuleSelector Snowflake CasQueue WorkPool TcpSelector TcpConn ThriftExt Dlock Token YamlUnmarshal ConfParseCtx IniRule
    LogHandler ThriftConn GenIds RedisPool DbPool
begin

text \<open>
  A verification library for \<^verbatim>\<open>lgobase\<close>, a Go library of building blocks for network services: connection pools with selectors
  on top of them, a worker pool and the queue it runs on, identifiers, a distributed lock, session tokens, readers of
  configuration files, and a logger.  The paths below are relative to \<^verbatim>\<open>src/\<close>.

  \<^bold>\<open>How the parts interact.\<close>  A pool (\<^verbatim>\<open>gpool/gpool.go\<close>) keeps idle connections in a ring (\<^verbatim>\<open>gpool/idle_queue.go\<close>) and blocked
  callers in a linked queue (\<^verbatim>\<open>gpool/waiter_queue.go\<close>).  RPC calls and the TCP pool (\<^verbatim>\<open>network/tcp_pool.go\<close>) borrow from a pool, run a
  callback, and return or discard the connection, with retries.  A selector (\<^verbatim>\<open>gpool/gpool_selector.go\<close>,
  \<^verbatim>\<open>network/tcp_selector.go\<close>) has one pool per endpoint of an address list (\<^verbatim>\<open>selector/selector.go\<close>), rotates over the valid ones,
  ejects a broken one and lets a health checker restore it; the rule-based selector (\<^verbatim>\<open>gpool/gpool_rule_selector.go\<close>) has one
  selector per server group.  The worker pool (\<^verbatim>\<open>workpool/pool.go\<close>) feeds its goroutines from a channel or from the lock-free
  queue (\<^verbatim>\<open>cas/queue.go\<close>).  Tokens (\<^verbatim>\<open>token/\<close>) are built on the cryptographic helpers (\<^verbatim>\<open>util/util.go\<close>).  The configuration
  reader (\<^verbatim>\<open>gconfig_v2/\<close>) builds a tree from the lines of a document and hands the value of each line to a lexer and a
  recursive-descent parser; the older reader (\<^verbatim>\<open>gconfig/\<close>) collects the sections of an INI file, which \<^verbatim>\<open>confparse/\<close> decodes into
  structs and \<^verbatim>\<open>dbenc/\<close> decrypts first.  The logger (\<^verbatim>\<open>logger/\<close>), which every part calls, checks whether its files must be rotated, masks the sensitive fields of a record,
  formats it and writes it.

  \<^bold>\<open>Conventions.\<close>  Structs are records, with the fields of the source behind a short prefix; Go pointers are addresses into an explicit
  heap where objects are shared.  Code that may panic has a result of type \<open>'a go\<close> (\<open>None\<close> is the panic), an error value is an
  \<open>error option\<close> or the left side of a sum.  What the environment answers (clocks, random bytes, sockets, factories, callbacks,
  traversal orders of maps) is an argument of the definition that uses it.  Concurrent code is split at the points
  where other goroutines can interleave: a critical section is one function, a step relation composes the sections of any number of
  goroutines, and a reachability predicate collects the states of all runs.  Integers keep their width where it matters
  (\<open>Snowflake\<close>, \<open>Token\<close>, \<open>Selector\<close>, the delays of \<open>Dlock\<close>).

  \<^bold>\<open>The theories.\<close>

  \<^item> \<open>Go_Prelude\<close>: Go values (addresses, results that may panic, error chains with \<^verbatim>\<open>errors.Is\<close> and
    \<^verbatim>\<open>errors.Join\<close>), and the lemmas on ring indices, lists and multisets the components share.  \<open>GoStrings\<close>: the functions of \<^verbatim>\<open>strings\<close>
    and \<^verbatim>\<open>strconv\<close> the sources call.
  \<^item> \<open>IdleQueue\<close> and \<open>WaiterQueue\<close>: the two containers of the pool.  Each contract is a locale (\<open>bounded_deque\<close>,
    \<open>intrusive_fifo\<close>) that the code's operations interpret; every run of the code refines a list.
  \<^item> \<open>Gpool\<close>: every critical section of the pool.  \<open>Gpool_Steps\<close> interleaves them, \<open>Gpool_Inv\<close>, \<open>Gpool_Get\<close> and \<open>Gpool_Put\<close>
    show that each section keeps the invariant (exact counters, one owner per connection, every waiter queued or served, consistent
    shutdown), and \<open>Gpool_Safety\<close> draws the conclusions: exclusive leases, no waiter while capacity is free, no panic,
    bounded capacity, an orderly shutdown.
  \<^item> \<open>GpoolCall\<close>: \<^verbatim>\<open>Get\<close>, \<^verbatim>\<open>Close\<close> and \<^verbatim>\<open>Discard\<close> of one goroutine composed from the sections, and the retrying and
    reflective calls.  A call placed in any reachable pool terminates and leaks nothing.
  \<^item> \<open>Selector\<close>, \<open>RpcSelector\<close>, \<open>RuleSelector\<close>: address lists, rotation, ejection and recovery, rules, shutdown.
  \<^item> \<open>TcpPool\<close>, \<open>TcpSelector\<close>, \<open>TcpConn\<close>: the same for raw TCP connections.  The retry scheme that the RPC and the TCP pool
    share is the locale \<open>retrying\<close>, interpreted on both.
  \<^item> \<open>ThriftExt\<close>: the protocol header that carries request data (\<^verbatim>\<open>gpool/thrift_ext_proto.go\<close>).
  \<^item> \<open>CasQueue\<close>: every atomic access of the lock-free queue is a step; all interleavings refine a list.  \<open>WorkPool\<close>: submission,
    workers and shutdown; tasks are completed exactly once and no wake-up is lost.
  \<^item> \<open>Snowflake\<close> (\<^verbatim>\<open>util/snowflake.go\<close>): the identifier layout on 64-bit words.
  \<^item> \<open>Dlock\<close> (\<^verbatim>\<open>cluster_dlock/cluster_dlock.go\<close>): the lock object and its two scripts over a Redis store with expiring keys and lost
    messages; mutual exclusion, what a release does, the bounds of the delays.
  \<^item> \<open>Crypto\<close> (\<^verbatim>\<open>util/util.go\<close>, \<^verbatim>\<open>util/cryptoutils.go\<close>) and \<open>Token\<close> (\<^verbatim>\<open>token/\<close>): paddings, AES modes, checksums, signatures, and the
    token format built on them.
  \<^item> \<open>YamlToken\<close> and \<open>YamlFlow\<close> (\<^verbatim>\<open>gconfig_v2/token.go\<close>): the lexer, the classification of scalars, flow collections.  \<open>YamlLines\<close> and
    \<open>YamlParse\<close> (\<^verbatim>\<open>gconfig_v2/gconfig.go\<close>): comments, keys and block scalars of a line; the stack of open nodes over a heap of nodes, and
    the conversion of the tree.  \<open>YamlRender\<close> writes values as flow literals and shows that they are read back; \<open>YamlTree\<close> has the
    invariant of the tree, from which every document is read without a panic; \<open>YamlDoc\<close> composes both into the round trip of a document.
    \<open>YamlDecode\<close> (the last part of \<^verbatim>\<open>gconfig_v2/gconfig.go\<close>): storing the map into a Go value, with Go types as data; decoding keeps
    types.  \<open>YamlUnmarshal\<close>: from a file to a struct and back.
  \<^item> \<open>GoReflect\<close>: the Go types and values that both configuration decoders inspect by reflection.  \<open>IniFile\<close> (\<^verbatim>\<open>gconfig/gconfig.go\<close>): the
    reader of INI files; a file is read back.  \<open>ConfParse\<close> (\<^verbatim>\<open>confparse/confparse.go\<close>, \<^verbatim>\<open>confparse/confparse_ext.go\<close>): decoding sections into
    tagged structs; a struct is read back, and what becomes of numbers that do not fit.  \<open>ConfParseCtx\<close> (\<^verbatim>\<open>confparse/confparse_ctx.go\<close>): the copy of the decoder, function for
    function, and that it computes the same with the same context.  \<open>IniRule\<close> (\<^verbatim>\<open>gconfig/gconfig_rule.go\<close>): routing rules from extension lines.  \<open>DbEnc\<close>
    (\<^verbatim>\<open>dbenc/dbenc.go\<close>): the encrypted configuration, on top of \<open>Crypto\<close> and \<open>IniFile\<close>.
  \<^item> \<open>LogFile\<close> (\<^verbatim>\<open>logger/logger.go\<close>): opening and rotation over a directory of files; rotation by size is a ring of archives under every
    interleaving of checks and writes, rotation by day gives each day its file when each write follows its check.  \<open>Desensitize\<close> (\<^verbatim>\<open>logger/desensitize.go\<close>): masking, with a
    relation of values that differ only in secrets, defined without the code; values are finite trees.
    \<open>LogHandler\<close> (\<^verbatim>\<open>logger/logger_handler.go\<close>, \<^verbatim>\<open>logger/db_logger.go\<close>): from a call to the bytes of the files; secrets do not show.
  \<^item> \<open>ThriftConn\<close> (\<^verbatim>\<open>gpool/thriftclient.go\<close>): the thrift connections that the pool lends.
  \<^item> \<open>GenIds\<close> (\<^verbatim>\<open>util/genids.go\<close>): identifiers from the server number and a sequence of the database, random strings of a given length; when identifiers are distinct.
    \<open>RedisPool\<close> (\<^verbatim>\<open>redispool/pool.go\<close>): Redis nodes over an address list of \<open>Selector\<close>, and which node gets a command.  \<open>DbPool\<close>
    (\<^verbatim>\<open>dbpool/dbpool.go\<close>): database pools from a URL and a group of \<open>DbEnc\<close>.

  \<^bold>\<open>Loops and bounds.\<close>  Loops of the source are structural recursions or \<^theory_text>\<open>function\<close>s with a
  measure (the dispatch loop by the length of the waiter queue, the retry loops by the remaining attempts, the checksum loop of the
  token by the remaining bytes, the lines of a document by their number).  Two recursions of the configuration reader carry fuel: the
  descent into flow collections gets twice the length of the text, the conversion of a tree the number of its nodes, and both are
  proved to be enough for every input.  The masking of JSON text inside JSON text carries fuel too; from some fuel on the result is the same.  Loops that wait for other goroutines (the compare-and-swap loops, the workers, the lock) are step
  relations; that a goroutine left alone finishes its queue operation, with a bound on its steps, is a theorem.

  \<^bold>\<open>Third-party code\<close> is a parameter with its documented behaviour as a named hypothesis: the thrift binary protocol
  (\<open>faithful\<close>), Redis (\<open>redis_ok\<close>), block ciphers (\<open>block_ok\<close>, \<open>aes_ok\<close>), the rule engine (arguments of \<open>RuleSelector\<close> and \<open>IniRule\<close>), thrift transports (\<open>thrift\<close>).  The
  standard library's parsers of floating-point numbers, times and durations are the parameter \<open>std\<close> of the configuration reader,
  its operations on floating-point numbers the parameter \<open>floats\<close>; its JSON and XML codecs are the parameter
  \<open>codecs\<close> of the masking, whose results hold for all codecs.

  \<^bold>\<open>Not modelled.\<close>  \<^verbatim>\<open>httpclient/\<close>, \<^verbatim>\<open>redispool/cluster_pool.go\<close> and \<^verbatim>\<open>util/rsa.go\<close> only configure or call clients and ciphers of other packages;
  \<^verbatim>\<open>gpool/gen-go/\<close> is generated.
\<close>

end
